(* ===== verification/KOS_Prelude.thy ===== *)
theory KOS_Prelude
  imports Main "HOL-Library.Word"
begin

text \<open>
  Shared vocabulary of the development: the machine types of the kernel sources, the wrap-around
  arithmetic of \<open>uint64_t\<close> values that are modelled as natural numbers, the two compiler
  builtins the sources use on 64-bit words, and generic facts on lists and finite sets.

  Conventions used by every theory.
  \<^item> A \<open>uint64_t\<close> that is an index, an address, a size or a counter is a \<^typ>\<open>nat\<close>; where the
    C expression can wrap, the wrap is written out with \<open>add64\<close>, \<open>sub64\<close> or \<open>mul64\<close>. A value
    that the code treats bitwise is a \<open>word\<close> of its width.
  \<^item> A pointer is a \<^typ>\<open>nat\<close> with \<open>0\<close> for the null pointer, or an \<open>option\<close> where only its
    nullness matters.
  \<^item> A function that takes a spinlock for its whole body is one atomic state transformer.
\<close>

unbundle bit_operations_syntax

type_synonym u8 = "8 word"
type_synonym u16 = "16 word"
type_synonym u32 = "32 word"
type_synonym u64 = "64 word"

named_theorems kos_consts "numeric constants of the sources"
named_theorems kos_inv "preservation of a component invariant by its operations"

section \<open>64-bit arithmetic on natural numbers\<close>

definition UINT64_MAX :: nat where
  [kos_consts]: "UINT64_MAX = 2 ^ 64 - 1"

definition UINT32_MAX :: nat where
  [kos_consts]: "UINT32_MAX = 2 ^ 32 - 1"

definition add64 :: "nat \<Rightarrow> nat \<Rightarrow> nat" where
  "add64 a b = (a + b) mod 2 ^ 64"

definition sub64 :: "nat \<Rightarrow> nat \<Rightarrow> nat" where
  "sub64 a b = (if b \<le> a then a - b else 2 ^ 64 + a - b)"

definition mul64 :: "nat \<Rightarrow> nat \<Rightarrow> nat" where
  "mul64 a b = (a * b) mod 2 ^ 64"

definition add32 :: "nat \<Rightarrow> nat \<Rightarrow> nat" where
  "add32 a b = (a + b) mod 2 ^ 32"

definition mul32 :: "nat \<Rightarrow> nat \<Rightarrow> nat" where
  "mul32 a b = (a * b) mod 2 ^ 32"

lemma add64_exact: "a + b < 2 ^ 64 \<Longrightarrow> add64 a b = a + b"
  by (simp add: add64_def)

lemma sub64_exact: "b \<le> a \<Longrightarrow> sub64 a b = a - b"
  by (simp add: sub64_def)

lemma mul64_exact: "a * b < 2 ^ 64 \<Longrightarrow> mul64 a b = a * b"
  by (simp add: mul64_def)

lemma add64_wraps_iff:
  assumes "a < 2 ^ 64" and "b < 2 ^ 64"
  shows "add64 a b < a \<longleftrightarrow> 2 ^ 64 \<le> a + b"
proof (cases "a + b < 2 ^ 64")
  case True
  then show ?thesis by (simp add: add64_def)
next
  case False
  with assms have "add64 a b = a + b - 2 ^ 64"
    by (simp add: add64_def mod_if)
  with False assms show ?thesis by simp
qed

section \<open>Compiler builtins on 64-bit words\<close>

text \<open>\<open>__builtin_popcountll\<close>: the number of set bits.\<close>

definition popcount64 :: "u64 \<Rightarrow> nat" where
  "popcount64 w = length (filter (bit w) [0..<64])"

text \<open>\<open>__builtin_ctzll\<close>: the index of the lowest set bit (undefined in C for 0).\<close>

fun first_bit_from :: "u64 \<Rightarrow> nat list \<Rightarrow> nat" where
  "first_bit_from w [] = 64"
| "first_bit_from w (i # is) = (if bit w i then i else first_bit_from w is)"

definition ctz64 :: "u64 \<Rightarrow> nat" where
  "ctz64 w = first_bit_from w [0..<64]"

lemma popcount64_card: "popcount64 w = card {i. bit w i}"
proof -
  have "{i. bit w i} = {i. i < 64 \<and> bit w i}"
    using bit_imp_le_length [of w] by auto
  also have "card \<dots> = length (filter (bit w) [0..<64])"
    by (simp add: length_filter_conv_card atLeast0LessThan [symmetric] conj_commute cong: conj_cong)
  finally show ?thesis by (simp add: popcount64_def)
qed

lemma first_bit_from_in:
  "\<exists>i \<in> set is. bit w i \<Longrightarrow> first_bit_from w is \<in> set is \<and> bit w (first_bit_from w is)"
  by (induction "is") auto

lemma ctz64_bit: "w \<noteq> 0 \<Longrightarrow> bit w (ctz64 w) \<and> ctz64 w < 64"
proof -
  assume "w \<noteq> 0"
  then obtain i where "bit w i" by (auto simp: bit_eq_iff)
  moreover from this have "i < 64" using bit_imp_le_length [of w i] by simp
  ultimately have "\<exists>i \<in> set [0..<64]. bit w i" by auto
  from first_bit_from_in [OF this] show ?thesis by (auto simp: ctz64_def)
qed

lemma first_bit_from_le:
  "sorted is \<Longrightarrow> i \<in> set is \<Longrightarrow> bit w i \<Longrightarrow> first_bit_from w is \<le> i"
  by (induction "is") auto

lemma ctz64_least: "bit w i \<Longrightarrow> ctz64 w \<le> i"
  unfolding ctz64_def
  by (rule first_bit_from_le) (auto dest: bit_imp_le_length)

lemma bit_mask64: "bit (mask n :: u64) i \<longleftrightarrow> i < n \<and> i < 64"
  by (auto simp: bit_mask_iff)

section \<open>Runs of numbers, lists\<close>

lemma run_subset_iff: "{a..<a + n} \<subseteq> S \<longleftrightarrow> (\<forall>i < n. a + i \<in> S)" for a n :: nat
proof
  assume R: "\<forall>i < n. a + i \<in> S"
  show "{a..<a + n} \<subseteq> S"
  proof
    fix x assume "x \<in> {a..<a + n}"
    then have "x - a < n" and "a + (x - a) = x" by auto
    with R show "x \<in> S" by metis
  qed
qed auto

lemma fold_upt_Suc: "m \<le> n \<Longrightarrow> fold f [m..<Suc n] s = f n (fold f [m..<n] s)"
  by simp

lemma fold_invariant:
  assumes "P s" and "\<And>x s. x \<in> set xs \<Longrightarrow> P s \<Longrightarrow> P (f x s)"
  shows "P (fold f xs s)"
  using assms by (induction xs arbitrary: s) auto

text \<open>The number of elements with a property after an update at an index.\<close>

definition count_by :: "('a \<Rightarrow> bool) \<Rightarrow> 'a list \<Rightarrow> nat" where
  "count_by P xs = length (filter P xs)"

lemma count_by_update:
  "i < length xs \<Longrightarrow> count_by P (xs[i := v]) + of_bool (P (xs ! i)) = count_by P xs + of_bool (P v)"
proof (induction xs arbitrary: i)
  case (Cons x xs)
  then show ?case by (cases i) (auto simp: count_by_def)
qed simp

lemma count_by_pos: "i < length xs \<Longrightarrow> P (xs ! i) \<Longrightarrow> 0 < count_by P xs"
  by (auto simp: count_by_def length_filter_conv_card card_gt_0_iff)

lemma count_by_le: "count_by P xs \<le> length xs"
  by (simp add: count_by_def)

lemma count_by_less: "i < length xs \<Longrightarrow> \<not> P (xs ! i) \<Longrightarrow> count_by P xs < length xs"
  unfolding count_by_def by (metis length_filter_less nth_mem)

text \<open>The first index of a range at which a search loop stops.\<close>

fun first_index :: "(nat \<Rightarrow> bool) \<Rightarrow> nat list \<Rightarrow> nat option" where
  "first_index P [] = None"
| "first_index P (i # is) = (if P i then Some i else first_index P is)"

lemma first_index_Some: "first_index P is = Some i \<Longrightarrow> i \<in> set is \<and> P i"
  by (induction "is") (auto split: if_splits)

lemma first_index_None: "first_index P is = None \<longleftrightarrow> (\<forall>i \<in> set is. \<not> P i)"
  by (induction "is") auto

lemma first_index_least:
  "sorted is \<Longrightarrow> first_index P is = Some i \<Longrightarrow> j \<in> set is \<Longrightarrow> P j \<Longrightarrow> i \<le> j"
  by (induction "is") (auto split: if_splits)

end
