(* ===== verification/KOS_Frame_Interface.thy ===== *)
theory KOS_Frame_Interface
  imports KOS_Prelude
begin

text \<open>
  The contract of a physical frame allocator, as its clients (the virtual memory manager, the
  kernel heap, the ELF loader) rely on it: one frame is taken or given back per call, 0 stands for
  "no frame", and only a frame that is out can be given back. \<open>avail\<close> and \<open>owned\<close> are the
  physical addresses of the frames that are free and of those that are out.
\<close>

locale frame_allocator =
  fixes alloc :: "'s \<Rightarrow> nat \<times> 's"
    and release :: "nat \<Rightarrow> 's \<Rightarrow> bool \<times> 's"
    and ready :: "'s \<Rightarrow> bool"
    and avail :: "'s \<Rightarrow> nat set"
    and owned :: "'s \<Rightarrow> nat set"
  assumes alloc_empty: "ready s \<Longrightarrow> avail s = {} \<Longrightarrow> alloc s = (0, s)"
    and alloc_some: "ready s \<Longrightarrow> avail s \<noteq> {} \<Longrightarrow> alloc s = (p, s') \<Longrightarrow>
      p \<in> avail s \<and> avail s' = avail s - {p} \<and> owned s' = insert p (owned s) \<and> ready s'"
    and release_owned: "ready s \<Longrightarrow> p \<in> owned s \<Longrightarrow>
      \<exists>s'. release p s = (True, s') \<and> ready s' \<and> avail s' = insert p (avail s)
           \<and> owned s' = owned s - {p}"
    and release_other: "ready s \<Longrightarrow> p \<notin> owned s \<Longrightarrow> release p s = (False, s)"
    and apart: "ready s \<Longrightarrow> avail s \<inter> owned s = {}"
    and null_not_avail: "ready s \<Longrightarrow> 0 \<notin> avail s"
    and null_not_owned: "ready s \<Longrightarrow> 0 \<notin> owned s"
    and finite_avail: "ready s \<Longrightarrow> finite (avail s)"
begin

lemma alloc_cases:
  assumes "ready s"
  obtains (none) "avail s = {}" "alloc s = (0, s)"
  | (frame) p s' where "alloc s = (p, s')" "p \<in> avail s" "p \<noteq> 0" "p \<notin> owned s"
      "avail s' = avail s - {p}" "owned s' = insert p (owned s)" "ready s'"
proof (cases "avail s = {}")
  case True
  with assms show thesis using none alloc_empty by blast
next
  case False
  obtain p s' where a: "alloc s = (p, s')" by fastforce
  note A = alloc_some [OF assms False a]
  then have p: "p \<in> avail s" by simp
  have "p \<noteq> 0" using p null_not_avail [OF assms] by metis
  moreover have "p \<notin> owned s" using p apart [OF assms] by auto
  ultimately show thesis using frame [OF a] A by simp
qed

lemma alloc_zero_iff: "ready s \<Longrightarrow> fst (alloc s) = 0 \<longleftrightarrow> avail s = {}"
  by (erule alloc_cases) auto

lemma ready_alloc: "ready s \<Longrightarrow> ready (snd (alloc s))"
  by (frule alloc_cases) auto

lemma ready_release: "ready s \<Longrightarrow> ready (snd (release p s))"
  using release_owned [of s p] release_other [of s p] by (cases "p \<in> owned s") auto

text \<open>A frame just taken can be given back, and that undoes the allocation.\<close>

lemma release_after_alloc:
  assumes "ready s" and "alloc s = (p, s')" and "p \<noteq> 0"
  shows "\<exists>s''. release p s' = (True, s'') \<and> ready s'' \<and> avail s'' = avail s \<and> owned s'' = owned s"
  using assms(1)
proof (cases rule: alloc_cases)
  case none
  with assms(2,3) show ?thesis by simp
next
  case (frame q t)
  with assms(2) have t: "q = p" "t = s'" by simp_all
  with frame have "p \<in> owned s'" by simp
  from release_owned [OF _ this] frame t obtain s'' where "release p s' = (True, s'')"
    "ready s''" "avail s'' = insert p (avail s')" "owned s'' = owned s' - {p}" by auto
  with frame t show ?thesis by auto
qed

text \<open>A second release of the same frame is refused and changes nothing.\<close>

lemma double_release:
  assumes "ready s" and "release p s = (True, s')"
  shows "release p s' = (False, s')"
proof (cases "p \<in> owned s")
  case True
  from release_owned [OF assms(1) this] assms(2) have "ready s'" "p \<notin> owned s'" by auto
  then show ?thesis by (rule release_other)
next
  case False
  with release_other [OF assms(1) False] assms(2) show ?thesis by simp
qed

text \<open>Two frames handed out one after the other differ.\<close>

lemma alloc_distinct:
  assumes "ready s" and "alloc s = (p, s1)" and "alloc s1 = (q, s2)" and "q \<noteq> 0"
  shows "p \<noteq> q"
  using assms(1)
proof (cases rule: alloc_cases)
  case none
  with assms(2-4) show ?thesis by auto
next
  case (frame p' s')
  with assms(2) have e: "ready s1" "p \<in> owned s1" by auto
  from e(1) show ?thesis
  proof (cases rule: alloc_cases)
    case none
    with assms(3,4) show ?thesis by auto
  next
    case (frame q' t)
    with assms(3) e(2) show ?thesis by auto
  qed
qed

end

end
