(* ===== verification/KOS_Pmm.thy ===== *)
theory KOS_Pmm
  imports KOS_Frame_Interface
begin

text \<open>
  The physical memory manager (\<^verbatim>\<open>src/mm/pmm.c\<close>): two bitmaps over the frames of the first
  64 GiB of physical memory, one for the frames that are usable RAM and one for those that are
  free now, with a rotating allocation hint. The bitmaps are lists of 64-bit words, as in the
  source; every read of a list is at an index the invariant \<open>pmm_inv\<close> bounds.
\<close>

section \<open>Model\<close>

definition FRAME_SIZE :: nat where
  [kos_consts]: "FRAME_SIZE = 4096"

definition MAX_TRACKED_PHYSICAL_MEMORY :: nat where
  [kos_consts]: "MAX_TRACKED_PHYSICAL_MEMORY = 64 * 1024 * 1024 * 1024"

definition MAX_TRACKED_FRAMES :: nat where
  "MAX_TRACKED_FRAMES = MAX_TRACKED_PHYSICAL_MEMORY div FRAME_SIZE"

definition BITMAP_WORDS :: nat where
  "BITMAP_WORDS = MAX_TRACKED_FRAMES div 64"

record physical_memory_manager =
  usable_bitmap :: "u64 list"
  free_bitmap :: "u64 list"
  total_memory_bytes :: nat
  usable_memory_bytes :: nat
  kernel_memory_bytes :: nat
  framebuffer_memory_bytes :: nat
  bootloader_reclaimable_bytes :: nat
  tracked_usable_frames :: nat
  free_frames :: nat
  frame_search_limit :: nat
  allocation_hint :: nat
  pmm_initialized :: bool

definition saturating_add :: "nat \<Rightarrow> nat \<Rightarrow> nat" where
  "saturating_add left right = (if UINT64_MAX - left < right then UINT64_MAX else left + right)"

definition align_up_frame :: "nat \<Rightarrow> nat" where
  "align_up_frame address = address div FRAME_SIZE + (if address mod FRAME_SIZE \<noteq> 0 then 1 else 0)"

definition align_down_frame :: "nat \<Rightarrow> nat" where
  "align_down_frame address = address div FRAME_SIZE"

definition frame_is_tracked :: "nat \<Rightarrow> bool" where
  "frame_is_tracked frame \<longleftrightarrow> frame < MAX_TRACKED_FRAMES"

definition frame_mask :: "nat \<Rightarrow> u64" where
  "frame_mask frame = push_bit (frame mod 64) 1"

definition bitmap_test :: "u64 list \<Rightarrow> nat \<Rightarrow> bool" where
  "bitmap_test bitmap frame \<longleftrightarrow> (bitmap ! (frame div 64)) AND frame_mask frame \<noteq> 0"

definition bitmap_set :: "u64 list \<Rightarrow> nat \<Rightarrow> u64 list" where
  "bitmap_set bitmap frame = bitmap[frame div 64 := (bitmap ! (frame div 64)) OR frame_mask frame]"

definition bitmap_clear :: "u64 list \<Rightarrow> nat \<Rightarrow> u64 list" where
  "bitmap_clear bitmap frame =
     bitmap[frame div 64 := (bitmap ! (frame div 64)) AND NOT (frame_mask frame)]"

text \<open>The loop that writes 0 to every word of the array leaves the array of zeros.\<close>

definition zero_bitmap :: "u64 list" where
  "zero_bitmap = replicate BITMAP_WORDS 0"

definition bitmap_range_mask :: "nat \<Rightarrow> nat \<Rightarrow> nat \<Rightarrow> u64" where
  "bitmap_range_mask wrd first_frame end_frame =
     (let word_first_frame = wrd * 64;
          first_bit = (if first_frame > word_first_frame
                       then first_frame - word_first_frame else 0);
          word_end_frame = word_first_frame + 64;
          end_bit = (if end_frame < word_end_frame
                     then sub64 end_frame word_first_frame else 64)
      in if first_bit \<ge> end_bit then 0
         else let lower_mask = push_bit first_bit (-1);
                  upper_mask = (if end_bit = 64 then -1 else push_bit end_bit 1 - 1)
              in lower_mask AND upper_mask)"

text \<open>One iteration of the loop of \<open>mark_usable_frames\<close>, for the bitmap word \<open>wrd\<close>.\<close>

definition mark_usable_word ::
    "nat \<Rightarrow> nat \<Rightarrow> nat \<Rightarrow> physical_memory_manager \<Rightarrow> physical_memory_manager" where
  "mark_usable_word first_frame end_frame wrd pmm =
     (let mask = bitmap_range_mask wrd first_frame end_frame;
          newly_usable = mask AND NOT (usable_bitmap pmm ! wrd);
          added_frames = popcount64 newly_usable
      in pmm\<lparr>usable_bitmap := (usable_bitmap pmm)[wrd := (usable_bitmap pmm ! wrd) OR mask],
             free_bitmap := (free_bitmap pmm)[wrd := (free_bitmap pmm ! wrd) OR newly_usable],
             tracked_usable_frames := tracked_usable_frames pmm + added_frames,
             free_frames := free_frames pmm + added_frames\<rparr>)"

definition mark_usable_frames ::
    "nat \<Rightarrow> nat \<Rightarrow> physical_memory_manager \<Rightarrow> physical_memory_manager" where
  "mark_usable_frames first_frame end_frame pmm =
     (if first_frame \<ge> end_frame then pmm
      else let first_word = first_frame div 64;
               last_word = (end_frame - 1) div 64
           in fold (mark_usable_word first_frame end_frame) [first_word..<last_word + 1] pmm)"

text \<open>
  The memory map of the boot protocol. The source compares the type of an entry with the protocol's
  constants; the constants it names are the constructors, every other value is \<open>MEMMAP_OTHER\<close>.
\<close>

datatype memmap_type =
    LIMINE_MEMMAP_USABLE
  | LIMINE_MEMMAP_ACPI_RECLAIMABLE
  | LIMINE_MEMMAP_ACPI_NVS
  | LIMINE_MEMMAP_BOOTLOADER_RECLAIMABLE
  | LIMINE_MEMMAP_EXECUTABLE_AND_MODULES
  | LIMINE_MEMMAP_FRAMEBUFFER
  | MEMMAP_OTHER

record limine_memmap_entry =
  entry_base :: nat
  entry_length :: nat
  entry_type :: memmap_type

definition memory_type_is_physical_ram :: "memmap_type \<Rightarrow> bool" where
  "memory_type_is_physical_ram type =
     (case type of
        LIMINE_MEMMAP_USABLE \<Rightarrow> True
      | LIMINE_MEMMAP_ACPI_RECLAIMABLE \<Rightarrow> True
      | LIMINE_MEMMAP_ACPI_NVS \<Rightarrow> True
      | LIMINE_MEMMAP_BOOTLOADER_RECLAIMABLE \<Rightarrow> True
      | LIMINE_MEMMAP_EXECUTABLE_AND_MODULES \<Rightarrow> True
      | LIMINE_MEMMAP_FRAMEBUFFER \<Rightarrow> True
      | MEMMAP_OTHER \<Rightarrow> False)"

definition account_memory_type ::
    "limine_memmap_entry \<Rightarrow> physical_memory_manager \<Rightarrow> physical_memory_manager" where
  "account_memory_type entry pmm =
     (case entry_type entry of
        LIMINE_MEMMAP_EXECUTABLE_AND_MODULES \<Rightarrow>
          pmm\<lparr>kernel_memory_bytes := saturating_add (kernel_memory_bytes pmm) (entry_length entry)\<rparr>
      | LIMINE_MEMMAP_FRAMEBUFFER \<Rightarrow>
          pmm\<lparr>framebuffer_memory_bytes :=
                saturating_add (framebuffer_memory_bytes pmm) (entry_length entry)\<rparr>
      | LIMINE_MEMMAP_BOOTLOADER_RECLAIMABLE \<Rightarrow>
          pmm\<lparr>bootloader_reclaimable_bytes :=
                saturating_add (bootloader_reclaimable_bytes pmm) (entry_length entry)\<rparr>
      | _ \<Rightarrow> pmm)"

definition mark_usable_range ::
    "nat \<Rightarrow> nat \<Rightarrow> physical_memory_manager \<Rightarrow> physical_memory_manager" where
  "mark_usable_range base len pmm =
     (if len = 0 \<or> base \<ge> MAX_TRACKED_PHYSICAL_MEMORY then pmm
      else let end0 = saturating_add base len;
               end1 = (if end0 > MAX_TRACKED_PHYSICAL_MEMORY
                       then MAX_TRACKED_PHYSICAL_MEMORY else end0);
               first_frame = align_up_frame base;
               end_frame = align_down_frame end1;
               pmm1 = (if end_frame > frame_search_limit pmm
                       then pmm\<lparr>frame_search_limit := end_frame\<rparr> else pmm);
               first_frame1 = (if first_frame = 0 then 1 else first_frame)
           in mark_usable_frames first_frame1 end_frame pmm1)"

text \<open>The body of the loop over the memory map, for an entry that is not null.\<close>

definition pmm_add_entry ::
    "limine_memmap_entry \<Rightarrow> physical_memory_manager \<Rightarrow> physical_memory_manager" where
  "pmm_add_entry entry pmm =
     (let pmm1 = (if memory_type_is_physical_ram (entry_type entry)
                  then pmm\<lparr>total_memory_bytes :=
                             saturating_add (total_memory_bytes pmm) (entry_length entry)\<rparr>
                  else pmm);
          pmm2 = account_memory_type entry pmm1
      in if entry_type entry = LIMINE_MEMMAP_USABLE
         then mark_usable_range (entry_base entry) (entry_length entry)
                (pmm2\<lparr>usable_memory_bytes :=
                        saturating_add (usable_memory_bytes pmm2) (entry_length entry)\<rparr>)
         else pmm2)"

text \<open>
  The whole loop: \<open>(False, s)\<close> is the early return at a null entry, which leaves the state \<open>s\<close>.
\<close>

fun pmm_add_entries ::
    "limine_memmap_entry option list \<Rightarrow> physical_memory_manager
       \<Rightarrow> bool \<times> physical_memory_manager" where
  "pmm_add_entries [] pmm = (True, pmm)"
| "pmm_add_entries (None # es) pmm = (False, pmm)"
| "pmm_add_entries (Some e # es) pmm = pmm_add_entries es (pmm_add_entry e pmm)"

definition pmm_reset :: physical_memory_manager where
  "pmm_reset = \<lparr>usable_bitmap = zero_bitmap, free_bitmap = zero_bitmap, total_memory_bytes = 0,
     usable_memory_bytes = 0, kernel_memory_bytes = 0, framebuffer_memory_bytes = 0,
     bootloader_reclaimable_bytes = 0, tracked_usable_frames = 0, free_frames = 0,
     frame_search_limit = 1, allocation_hint = 1, pmm_initialized = False\<rparr>"

text \<open>The response is \<open>None\<close> when the response pointer or its entry array is null.\<close>

definition pmm_initialize ::
    "limine_memmap_entry option list option \<Rightarrow> physical_memory_manager
       \<Rightarrow> bool \<times> physical_memory_manager" where
  "pmm_initialize memory_map pmm =
     (case memory_map of
        None \<Rightarrow> (False, pmm)
      | Some entries \<Rightarrow>
          (case pmm_add_entries entries pmm_reset of
             (False, pmm1) \<Rightarrow> (False, pmm1)
           | (True, pmm1) \<Rightarrow>
               let pmm2 = (if frame_search_limit pmm1 > MAX_TRACKED_FRAMES
                           then pmm1\<lparr>frame_search_limit := MAX_TRACKED_FRAMES\<rparr> else pmm1);
                   pmm3 = pmm2\<lparr>pmm_initialized := (free_frames pmm2 \<noteq> 0)\<rparr>
               in (pmm_initialized pmm3, pmm3)))"

fun find_free_word :: "u64 list \<Rightarrow> nat \<Rightarrow> nat \<Rightarrow> nat list \<Rightarrow> nat" where
  "find_free_word bitmap start end_frame [] = 0"
| "find_free_word bitmap start end_frame (wrd # ws) =
     (let candidates = (bitmap ! wrd) AND bitmap_range_mask wrd start end_frame
      in if candidates \<noteq> 0 then wrd * 64 + ctz64 candidates
         else find_free_word bitmap start end_frame ws)"

definition find_free_frame :: "nat \<Rightarrow> nat \<Rightarrow> physical_memory_manager \<Rightarrow> nat" where
  "find_free_frame start end_frame pmm =
     (if start \<ge> end_frame then 0
      else let first_word = start div 64;
               last_word = (end_frame - 1) div 64
           in find_free_word (free_bitmap pmm) start end_frame [first_word..<last_word + 1])"

text \<open>The two searches of \<open>pmm_allocate_frame\<close>: from the hint up, then from frame 1 to the hint.\<close>

definition pmm_pick_frame :: "physical_memory_manager \<Rightarrow> nat" where
  "pmm_pick_frame pmm =
     (let frame = find_free_frame (allocation_hint pmm) (frame_search_limit pmm) pmm
      in if frame = 0 \<and> allocation_hint pmm > 1
         then find_free_frame 1 (allocation_hint pmm) pmm else frame)"

definition pmm_allocate_frame ::
    "physical_memory_manager \<Rightarrow> nat \<times> physical_memory_manager" where
  "pmm_allocate_frame pmm =
     (if \<not> pmm_initialized pmm then (0, pmm)
      else let frame = pmm_pick_frame pmm
           in if frame = 0 then (0, pmm)
              else let pmm1 = pmm\<lparr>free_bitmap := bitmap_clear (free_bitmap pmm) frame,
                                  free_frames := sub64 (free_frames pmm) 1,
                                  allocation_hint := frame + 1\<rparr>;
                       pmm2 = (if allocation_hint pmm1 \<ge> frame_search_limit pmm1
                               then pmm1\<lparr>allocation_hint := 1\<rparr> else pmm1)
                   in (frame * FRAME_SIZE, pmm2))"

text \<open>The test both release functions make of a frame before they touch the bitmap.\<close>

definition pmm_may_free :: "physical_memory_manager \<Rightarrow> nat \<Rightarrow> bool" where
  "pmm_may_free pmm frame \<longleftrightarrow>
     frame_is_tracked frame \<and> bitmap_test (usable_bitmap pmm) frame
     \<and> \<not> bitmap_test (free_bitmap pmm) frame"

definition pmm_free_frame ::
    "nat \<Rightarrow> physical_memory_manager \<Rightarrow> bool \<times> physical_memory_manager" where
  "pmm_free_frame physical_address pmm =
     (if \<not> pmm_initialized pmm \<or> physical_address = 0 \<or> physical_address mod FRAME_SIZE \<noteq> 0
      then (False, pmm)
      else let frame = physical_address div FRAME_SIZE
           in if \<not> pmm_may_free pmm frame then (False, pmm)
              else let pmm1 = pmm\<lparr>free_bitmap := bitmap_set (free_bitmap pmm) frame,
                                  free_frames := free_frames pmm + 1\<rparr>
                   in (True, if frame < allocation_hint pmm1
                             then pmm1\<lparr>allocation_hint := frame\<rparr> else pmm1))"

definition pmm_alloc_page :: "physical_memory_manager \<Rightarrow> nat \<times> physical_memory_manager" where
  "pmm_alloc_page pmm = pmm_allocate_frame pmm"

definition pmm_free_page ::
    "nat \<Rightarrow> physical_memory_manager \<Rightarrow> bool \<times> physical_memory_manager" where
  "pmm_free_page physical_address pmm = pmm_free_frame physical_address pmm"

text \<open>
  The search for a run of \<open>count\<close> free frames, over the frames of the list in order. The
  accumulator is the pair \<open>(consecutive, start_frame)\<close> of the source; the recursion stops where
  the loop breaks.
\<close>

fun scan_run :: "u64 list \<Rightarrow> nat \<Rightarrow> nat list \<Rightarrow> nat \<times> nat \<Rightarrow> nat \<times> nat" where
  "scan_run bitmap count [] acc = acc"
| "scan_run bitmap count (frame # fs) (consecutive, start_frame) =
     (if bitmap_test bitmap frame
      then let start1 = (if consecutive = 0 then frame else start_frame);
               consecutive1 = consecutive + 1
           in if consecutive1 = count then (consecutive1, start1)
              else scan_run bitmap count fs (consecutive1, start1)
      else scan_run bitmap count fs (0, start_frame))"

text \<open>The two scans of \<open>pmm_alloc_pages\<close>, giving the final \<open>(consecutive, start_frame)\<close>.\<close>

definition pmm_find_run :: "nat \<Rightarrow> physical_memory_manager \<Rightarrow> nat \<times> nat" where
  "pmm_find_run count pmm =
     (let hint = allocation_hint pmm;
          limit = frame_search_limit pmm;
          (consecutive, start_frame) = scan_run (free_bitmap pmm) count [hint..<limit] (0, 0)
      in if consecutive < count \<and> hint > 1
         then scan_run (free_bitmap pmm) count [1..<min (add64 hint count) limit] (0, start_frame)
         else (consecutive, start_frame))"

definition pmm_alloc_pages ::
    "nat \<Rightarrow> physical_memory_manager \<Rightarrow> nat \<times> physical_memory_manager" where
  "pmm_alloc_pages count pmm =
     (if count = 0 then (0, pmm)
      else if count = 1 then pmm_allocate_frame pmm
      else if \<not> pmm_initialized pmm \<or> free_frames pmm < count then (0, pmm)
      else let (consecutive, start_frame) = pmm_find_run count pmm
           in if consecutive < count then (0, pmm)
              else let pmm1 = pmm\<lparr>free_bitmap :=
                                    fold (\<lambda>i bm. bitmap_clear bm (start_frame + i)) [0..<count]
                                      (free_bitmap pmm),
                                  free_frames := sub64 (free_frames pmm) count,
                                  allocation_hint := start_frame + count\<rparr>;
                       pmm2 = (if allocation_hint pmm1 \<ge> frame_search_limit pmm1
                               then pmm1\<lparr>allocation_hint := 1\<rparr> else pmm1)
                   in (start_frame * FRAME_SIZE, pmm2))"

text \<open>
  The check loop of \<open>pmm_free_pages\<close> over \<open>i = i0, i0 + 1, \<dots>, count - 1\<close> returns at the first frame
  that may not be freed. \<open>start_frame + i\<close> cannot wrap: \<open>start_frame\<close> is below \<open>2 ^ 52\<close> and the loop
  stops at the first frame that is not tracked.
\<close>

definition pmm_free_pages ::
    "nat \<Rightarrow> nat \<Rightarrow> physical_memory_manager \<Rightarrow> bool \<times> physical_memory_manager" where
  "pmm_free_pages physical_address count pmm =
     (if count = 0 then (False, pmm)
      else if count = 1 then pmm_free_frame physical_address pmm
      else if \<not> pmm_initialized pmm \<or> physical_address = 0 \<or> physical_address mod FRAME_SIZE \<noteq> 0
      then (False, pmm)
      else let start_frame = physical_address div FRAME_SIZE
           in if \<not> list_all (\<lambda>i. pmm_may_free pmm (start_frame + i)) [0..<count] then (False, pmm)
              else let pmm1 = pmm\<lparr>free_bitmap :=
                                    fold (\<lambda>i bm. bitmap_set bm (start_frame + i)) [0..<count]
                                      (free_bitmap pmm),
                                  free_frames := free_frames pmm + count\<rparr>
                   in (True, if start_frame < allocation_hint pmm1
                             then pmm1\<lparr>allocation_hint := start_frame\<rparr> else pmm1))"

definition pmm_total_memory_bytes :: "physical_memory_manager \<Rightarrow> nat" where
  "pmm_total_memory_bytes pmm = total_memory_bytes pmm"

definition pmm_usable_memory_bytes :: "physical_memory_manager \<Rightarrow> nat" where
  "pmm_usable_memory_bytes pmm = usable_memory_bytes pmm"

definition pmm_tracked_memory_bytes :: "physical_memory_manager \<Rightarrow> nat" where
  "pmm_tracked_memory_bytes pmm = tracked_usable_frames pmm * FRAME_SIZE"

definition pmm_kernel_memory_bytes :: "physical_memory_manager \<Rightarrow> nat" where
  "pmm_kernel_memory_bytes pmm = kernel_memory_bytes pmm"

definition pmm_framebuffer_memory_bytes :: "physical_memory_manager \<Rightarrow> nat" where
  "pmm_framebuffer_memory_bytes pmm = framebuffer_memory_bytes pmm"

definition pmm_bootloader_reclaimable_bytes :: "physical_memory_manager \<Rightarrow> nat" where
  "pmm_bootloader_reclaimable_bytes pmm = bootloader_reclaimable_bytes pmm"

definition pmm_free_frame_count :: "physical_memory_manager \<Rightarrow> nat" where
  "pmm_free_frame_count pmm = free_frames pmm"

definition pmm_allocated_frame_count :: "physical_memory_manager \<Rightarrow> nat" where
  "pmm_allocated_frame_count pmm = sub64 (tracked_usable_frames pmm) (free_frames pmm)"

definition pmm_frame_size :: nat where
  "pmm_frame_size = FRAME_SIZE"

section \<open>The frames a bitmap holds\<close>

definition frames_of :: "u64 list \<Rightarrow> nat set" where
  "frames_of bm = {f. f div 64 < length bm \<and> bit (bm ! (f div 64)) (f mod 64)}"

abbreviation free_set :: "physical_memory_manager \<Rightarrow> nat set" where
  "free_set pmm \<equiv> frames_of (free_bitmap pmm)"

abbreviation usable_set :: "physical_memory_manager \<Rightarrow> nat set" where
  "usable_set pmm \<equiv> frames_of (usable_bitmap pmm)"

lemma finite_frames_of [simp]: "finite (frames_of bm)"
proof (rule finite_subset)
  show "frames_of bm \<subseteq> {..<64 * length bm}"
    by (auto simp: frames_of_def)
qed simp

lemma frame_mask_bit: "bit (frame_mask f) i \<longleftrightarrow> i = f mod 64"
  by (auto simp: frame_mask_def bit_exp_iff)

lemma bitmap_test_iff:
  "f div 64 < length bm \<Longrightarrow> bitmap_test bm f \<longleftrightarrow> f \<in> frames_of bm"
proof -
  have "(w AND frame_mask f \<noteq> 0) = bit w (f mod 64)" for w :: u64
    by (auto simp: bit_eq_iff [of _ "0 :: u64"] bit_and_iff frame_mask_bit)
  then show "f div 64 < length bm \<Longrightarrow> bitmap_test bm f \<longleftrightarrow> f \<in> frames_of bm"
    by (simp add: bitmap_test_def frames_of_def)
qed

lemma frames_of_update:
  "w < length bm \<Longrightarrow>
   frames_of (bm[w := v]) = {f \<in> frames_of bm. f div 64 \<noteq> w} \<union> {f. f div 64 = w \<and> bit v (f mod 64)}"
  by (auto simp: frames_of_def nth_list_update)

lemma frames_of_set:
  assumes "f div 64 < length bm"
  shows "frames_of (bitmap_set bm f) = insert f (frames_of bm)"
proof -
  have "g div 64 = f div 64 \<Longrightarrow> g mod 64 = f mod 64 \<Longrightarrow> g = f" for g
    by (metis div_mult_mod_eq)
  with assms show ?thesis
    by (auto simp: bitmap_set_def frames_of_update bit_or_iff frame_mask_bit) (auto simp: frames_of_def)
qed

lemma frames_of_clear:
  assumes "f div 64 < length bm"
  shows "frames_of (bitmap_clear bm f) = frames_of bm - {f}"
proof -
  have "g div 64 = f div 64 \<Longrightarrow> g mod 64 = f mod 64 \<Longrightarrow> g = f" for g
    by (metis div_mult_mod_eq)
  with assms show ?thesis
    by (auto simp: bitmap_clear_def frames_of_update bit_and_iff bit_not_iff frame_mask_bit)
       (auto simp: frames_of_def bit_imp_le_length)
qed

lemma length_bitmap_ops [simp]:
  "length (bitmap_set bm f) = length bm" "length (bitmap_clear bm f) = length bm"
  by (simp_all add: bitmap_set_def bitmap_clear_def)

lemma frames_of_zero [simp]: "frames_of zero_bitmap = {}"
  by (auto simp: frames_of_def zero_bitmap_def)

lemma bitmap_range_mask_bit:
  assumes "64 * w < e" and "s < 64 * w + 64"
  shows "bit (bitmap_range_mask w s e) i \<longleftrightarrow> i < 64 \<and> s \<le> 64 * w + i \<and> 64 * w + i < e"
proof -
  have m: "push_bit n 1 - 1 = (mask n :: u64)" for n
    by (simp add: mask_eq_exp_minus_1)
  show ?thesis
    using assms unfolding bitmap_range_mask_def Let_def m
    by (auto simp: sub64_def bit_and_iff bit_mask_iff bit_not_iff mult.commute
        dest: bit_imp_le_length)
qed

section \<open>Searching the free bitmap\<close>

lemma MAX_TRACKED_FRAMES_value [kos_consts]: "MAX_TRACKED_FRAMES = 2 ^ 24"
  by (simp add: MAX_TRACKED_FRAMES_def MAX_TRACKED_PHYSICAL_MEMORY_def FRAME_SIZE_def)

lemma MAX_TRACKED_FRAMES_words: "MAX_TRACKED_FRAMES = 64 * BITMAP_WORDS"
  by (simp add: MAX_TRACKED_FRAMES_value BITMAP_WORDS_def)

lemma candidates_iff:
  assumes "w < length bm" and "64 * w < e" and "s < 64 * w + 64"
  shows "bit ((bm ! w) AND bitmap_range_mask w s e) i
         \<longleftrightarrow> i < 64 \<and> 64 * w + i \<in> frames_of bm \<and> s \<le> 64 * w + i \<and> 64 * w + i < e"
  using assms by (auto simp: bit_and_iff bitmap_range_mask_bit frames_of_def)

lemma candidates_nonzero:
  assumes "w < length bm" and "64 * w < e" and "s < 64 * w + 64"
  shows "(bm ! w) AND bitmap_range_mask w s e \<noteq> 0
         \<longleftrightarrow> (\<exists>f \<in> frames_of bm. f div 64 = w \<and> s \<le> f \<and> f < e)" (is "?c \<noteq> 0 \<longleftrightarrow> ?R")
proof
  assume "?c \<noteq> 0"
  then have "bit ?c (ctz64 ?c)" and "ctz64 ?c < 64" using ctz64_bit by auto
  with assms show ?R
    by (intro bexI [of _ "64 * w + ctz64 ?c"]) (auto simp: candidates_iff)
next
  assume ?R
  then obtain f where f: "f \<in> frames_of bm" "f div 64 = w" "s \<le> f" "f < e" by blast
  moreover have "64 * w + f mod 64 = f" using f(2) by auto
  ultimately have "bit ?c (f mod 64)" using assms by (simp add: candidates_iff)
  then show "?c \<noteq> 0" by auto
qed

text \<open>The result of a search of the free bitmap: the lowest free frame of the range, or 0.\<close>

definition lowest_free :: "u64 list \<Rightarrow> nat \<Rightarrow> nat \<Rightarrow> nat \<Rightarrow> bool" where
  "lowest_free bm s e r \<longleftrightarrow>
     (if \<exists>f \<in> frames_of bm. s \<le> f \<and> f < e
      then r \<in> frames_of bm \<and> s \<le> r \<and> r < e \<and> (\<forall>f \<in> frames_of bm. s \<le> f \<and> f < e \<longrightarrow> r \<le> f)
      else r = 0)"

lemma find_free_word_spec:
  assumes "sorted ws" and "\<forall>w \<in> set ws. w < length bm \<and> 64 * w < e \<and> s < 64 * w + 64"
    and "\<forall>f. s \<le> f \<and> f < e \<and> f \<in> frames_of bm \<longrightarrow> f div 64 \<in> set ws"
  shows "lowest_free bm s e (find_free_word bm s e ws)"
  using assms
proof (induction ws)
  case Nil
  then show ?case by (auto simp: lowest_free_def)
next
  case (Cons w ws)
  let ?c = "(bm ! w) AND bitmap_range_mask w s e"
  from Cons.prems(2) have w: "w < length bm" "64 * w < e" "s < 64 * w + 64" by auto
  show ?case
  proof (cases "?c = 0")
    case True
    then have "\<forall>f. s \<le> f \<and> f < e \<and> f \<in> frames_of bm \<longrightarrow> f div 64 \<in> set ws"
      using candidates_nonzero [OF w] Cons.prems(3) by auto
    with Cons.IH Cons.prems True show ?thesis by (simp add: Let_def)
  next
    case False
    let ?r = "64 * w + ctz64 ?c"
    have r: "bit ?c (ctz64 ?c)" "ctz64 ?c < 64" using False ctz64_bit by auto
    have "?r \<le> f" if f: "f \<in> frames_of bm" "s \<le> f" "f < e" for f
    proof (cases "f div 64 = w")
      case True
      then have e: "64 * w + f mod 64 = f" by auto
      then have "bit ?c (f mod 64)" using f candidates_iff [OF w, of "f mod 64"] by simp
      from ctz64_least [OF this] e show ?thesis by simp
    next
      case False
      with f Cons.prems(3) have "f div 64 \<in> set ws" by auto
      with Cons.prems(1) False have "w < f div 64" by (simp add: less_le)
      with r(2) show ?thesis by auto
    qed
    with r w False candidates_iff [OF w] show ?thesis
      by (auto simp: lowest_free_def Let_def mult.commute)
  qed
qed

lemma find_free_frame_spec:
  assumes "e \<le> 64 * length (free_bitmap pmm)"
  shows "lowest_free (free_bitmap pmm) s e (find_free_frame s e pmm)"
proof (cases "s < e")
  case False
  then show ?thesis by (auto simp: find_free_frame_def lowest_free_def)
next
  case True
  let ?ws = "[s div 64..<(e - 1) div 64 + 1]"
  have "\<forall>w \<in> set ?ws. w < length (free_bitmap pmm) \<and> 64 * w < e \<and> s < 64 * w + 64"
  proof
    fix w assume "w \<in> set ?ws"
    then have "s div 64 \<le> w" and "w \<le> (e - 1) div 64" by auto
    with True assms show "w < length (free_bitmap pmm) \<and> 64 * w < e \<and> s < 64 * w + 64" by auto
  qed
  moreover have "\<forall>f. s \<le> f \<and> f < e \<and> f \<in> frames_of (free_bitmap pmm) \<longrightarrow> f div 64 \<in> set ?ws"
    by (auto simp: div_le_mono less_Suc_eq_le simp del: upt_Suc)
  ultimately show ?thesis
    using True find_free_word_spec [of ?ws] by (simp add: find_free_frame_def Let_def del: upt_Suc)
qed

section \<open>Invariant\<close>

text \<open>
  Both bitmaps have their declared size, a free frame is usable, frame 0 is never handed out, the
  counters count the bits, and the hint and every usable frame lie below the search limit.
\<close>

definition pmm_inv :: "physical_memory_manager \<Rightarrow> bool" where
  "pmm_inv pmm \<longleftrightarrow>
     length (usable_bitmap pmm) = BITMAP_WORDS \<and> length (free_bitmap pmm) = BITMAP_WORDS
     \<and> free_set pmm \<subseteq> usable_set pmm \<and> 0 \<notin> usable_set pmm
     \<and> free_frames pmm = card (free_set pmm) \<and> tracked_usable_frames pmm = card (usable_set pmm)
     \<and> usable_set pmm \<subseteq> {..<frame_search_limit pmm}
     \<and> 1 \<le> allocation_hint pmm \<and> allocation_hint pmm \<le> frame_search_limit pmm
     \<and> frame_search_limit pmm \<le> MAX_TRACKED_FRAMES"

lemma pmm_inv_reset: "pmm_inv pmm_reset"
  by (simp add: pmm_inv_def pmm_reset_def zero_bitmap_def [symmetric] kos_consts)
     (simp add: zero_bitmap_def)

lemma pmm_inv_D:
  assumes "pmm_inv pmm"
  shows pmm_inv_lengths: "length (usable_bitmap pmm) = BITMAP_WORDS"
      "length (free_bitmap pmm) = BITMAP_WORDS"
    and pmm_inv_free: "free_set pmm \<subseteq> usable_set pmm" "free_frames pmm = card (free_set pmm)"
    and pmm_inv_zero: "0 \<notin> usable_set pmm" "0 \<notin> free_set pmm"
    and pmm_inv_limit: "f \<in> usable_set pmm \<Longrightarrow> f < frame_search_limit pmm"
      "frame_search_limit pmm \<le> 64 * BITMAP_WORDS"
  using assms by (auto simp: pmm_inv_def MAX_TRACKED_FRAMES_words)

lemma pmm_inv_word:
  "pmm_inv pmm \<Longrightarrow> f < frame_search_limit pmm \<Longrightarrow> f div 64 < BITMAP_WORDS"
  using pmm_inv_limit(2) [of pmm] by auto

section \<open>Initialization\<close>

lemma popcount64_block:
  assumes "\<And>i. i < 64 \<Longrightarrow> bit v i \<longleftrightarrow> 64 * w + i \<in> S" and "\<And>f. f \<in> S \<Longrightarrow> f div 64 = w"
  shows "popcount64 v = card S"
proof -
  have "bij_betw (\<lambda>i. 64 * w + i) {i. bit v i} S"
  proof (rule bij_betwI')
    show "64 * w + i \<in> S" if "i \<in> {i. bit v i}" for i
      using that assms(1) [of i] bit_imp_le_length [of v i] by simp
    show "\<exists>i \<in> {i. bit v i}. f = 64 * w + i" if f: "f \<in> S" for f
    proof (rule bexI [of _ "f mod 64"])
      show e: "f = 64 * w + f mod 64" using assms(2) [OF f] by auto
      show "f mod 64 \<in> {i. bit v i}" using f e assms(1) [of "f mod 64"] by simp
    qed
  qed simp
  then have "card {i. bit v i} = card S" by (rule bij_betw_same_card)
  then show ?thesis by (simp add: popcount64_card)
qed

text \<open>\<open>marked R pmm pmm'\<close>: exactly the frames of \<open>R\<close> have become usable, the new ones also free.\<close>

definition marked ::
    "nat set \<Rightarrow> physical_memory_manager \<Rightarrow> physical_memory_manager \<Rightarrow> bool" where
  "marked R pmm pmm' \<longleftrightarrow>
     usable_set pmm' = usable_set pmm \<union> R \<and> free_set pmm' = free_set pmm \<union> (R - usable_set pmm)
     \<and> tracked_usable_frames pmm' = tracked_usable_frames pmm + card (R - usable_set pmm)
     \<and> free_frames pmm' = free_frames pmm + card (R - usable_set pmm)
     \<and> length (usable_bitmap pmm') = length (usable_bitmap pmm)
     \<and> length (free_bitmap pmm') = length (free_bitmap pmm)
     \<and> frame_search_limit pmm' = frame_search_limit pmm
     \<and> allocation_hint pmm' = allocation_hint pmm \<and> pmm_initialized pmm' = pmm_initialized pmm"

lemma marked_empty: "marked {} pmm pmm"
  by (simp add: marked_def)

lemma marked_trans:
  assumes "marked R pmm pmm1" and "marked S pmm1 pmm2" and "finite R" and "finite S"
  shows "marked (R \<union> S) pmm pmm2"
proof -
  have "card ((R \<union> S) - usable_set pmm)
        = card (R - usable_set pmm) + card (S - (usable_set pmm \<union> R))"
    using assms(3,4) by (subst card_Un_disjoint [symmetric]) (auto intro: arg_cong [of _ _ card])
  with assms(1,2) show ?thesis by (auto simp: marked_def)
qed

lemma marked_word:
  assumes "w < length (usable_bitmap pmm)" and "w < length (free_bitmap pmm)"
    and "64 * w < e" and "s < 64 * w + 64"
  shows "marked {f. f div 64 = w \<and> s \<le> f \<and> f < e} pmm (mark_usable_word s e w pmm)"
proof -
  let ?m = "bitmap_range_mask w s e"
  let ?new = "?m AND NOT (usable_bitmap pmm ! w)"
  let ?R = "{f. f div 64 = w \<and> s \<le> f \<and> f < e}"
  note m = bitmap_range_mask_bit [OF assms(3,4)]
  have new: "bit ?new i \<longleftrightarrow> 64 * w + i \<in> ?R - usable_set pmm" if "i < 64" for i
    using that assms(1) by (auto simp: bit_and_iff bit_not_iff m frames_of_def)
  have e: "f div 64 = w \<Longrightarrow> 64 * w + f mod 64 = f" for f :: nat by auto
  have iff: "f \<in> frames_of (bm[w := (bm ! w) OR v]) \<longleftrightarrow>
      f \<in> frames_of bm \<or> f div 64 = w \<and> bit v (f mod 64)" if "w < length bm" for f bm v
    using that by (auto simp: frames_of_def nth_list_update bit_or_iff)
  have "popcount64 ?new = card (?R - usable_set pmm)"
    using new by (rule popcount64_block) auto
  moreover have "usable_set (mark_usable_word s e w pmm) = usable_set pmm \<union> ?R"
  proof (rule set_eqI)
    fix f
    have "f div 64 = w \<Longrightarrow> bit ?m (f mod 64) \<longleftrightarrow> f \<in> ?R"
      using m [of "f mod 64"] e [of f] by simp
    with assms(1) show "f \<in> usable_set (mark_usable_word s e w pmm) \<longleftrightarrow> f \<in> usable_set pmm \<union> ?R"
      by (simp add: mark_usable_word_def Let_def iff) blast
  qed
  moreover have "free_set (mark_usable_word s e w pmm) = free_set pmm \<union> (?R - usable_set pmm)"
  proof (rule set_eqI)
    fix f
    have "f div 64 = w \<Longrightarrow> bit ?new (f mod 64) \<longleftrightarrow> f \<in> ?R - usable_set pmm"
      using new [of "f mod 64"] e [of f] by simp
    with assms(2) show "f \<in> free_set (mark_usable_word s e w pmm)
        \<longleftrightarrow> f \<in> free_set pmm \<union> (?R - usable_set pmm)"
      by (simp add: mark_usable_word_def Let_def iff) blast
  qed
  ultimately show ?thesis
    by (simp add: marked_def mark_usable_word_def Let_def)
qed

lemma marked_words:
  assumes "s < e" and "e \<le> 64 * length (usable_bitmap pmm)"
    and "length (free_bitmap pmm) = length (usable_bitmap pmm)" and "k \<le> (e - 1) div 64 + 1"
  shows "marked {f. f div 64 < k \<and> s \<le> f \<and> f < e} pmm
           (fold (mark_usable_word s e) [s div 64..<k] pmm)"
  using assms(4)
proof (induction k)
  case 0
  then show ?case by (simp add: marked_empty)
next
  case (Suc k)
  let ?p = "fold (mark_usable_word s e) [s div 64..<k] pmm"
  let ?R = "{f. f div 64 < k \<and> s \<le> f \<and> f < e}" and ?S = "{f. f div 64 = k \<and> s \<le> f \<and> f < e}"
  have IH: "marked ?R pmm ?p" using Suc by simp
  have RS: "{f. f div 64 < Suc k \<and> s \<le> f \<and> f < e} = ?R \<union> ?S" by auto
  show ?case
  proof (cases "s div 64 \<le> k")
    case True
    have "64 * k < e" using Suc.prems assms(1) by auto
    moreover have "s < 64 * k + 64" using True by auto
    ultimately have "marked ?S ?p (mark_usable_word s e k ?p)"
      using IH assms(2,3) by (intro marked_word) (auto simp: marked_def)
    with IH have "marked (?R \<union> ?S) pmm (mark_usable_word s e k ?p)"
      by (rule marked_trans) (auto intro: finite_subset [of _ "{..<e}"])
    with True show ?thesis by (simp add: RS)
  next
    case False
    then have "?S = {}" by (auto dest: div_le_mono [of s _ 64])
    then have "?R \<union> ?S = ?R" by blast
    with IH False show ?thesis by (simp only: RS) simp
  qed
qed

lemma marked_frames:
  assumes "e \<le> 64 * length (usable_bitmap pmm)"
    and "length (free_bitmap pmm) = length (usable_bitmap pmm)"
  shows "marked {s..<e} pmm (mark_usable_frames s e pmm)"
proof (cases "s < e")
  case False
  then show ?thesis by (simp add: mark_usable_frames_def marked_empty)
next
  case True
  have "{f. f div 64 < (e - 1) div 64 + 1 \<and> s \<le> f \<and> f < e} = {s..<e}"
    by (auto simp: less_Suc_eq_le intro: div_le_mono)
  with True marked_words [OF True assms order_refl] show ?thesis
    by (simp add: mark_usable_frames_def Let_def del: upt_Suc)
qed

lemma marked_inv:
  assumes "pmm_inv pmm" and "marked R pmm pmm'" and "finite R" and "0 \<notin> R"
    and "R \<subseteq> {..<frame_search_limit pmm}"
  shows "pmm_inv pmm'"
proof -
  have "card (usable_set pmm \<union> R) = card (usable_set pmm) + card (R - usable_set pmm)"
    using assms(3) by (subst card_Un_disjoint [symmetric]) (auto intro: arg_cong [of _ _ card])
  moreover have "card (free_set pmm \<union> (R - usable_set pmm))
      = card (free_set pmm) + card (R - usable_set pmm)"
    using assms(1,3) by (intro card_Un_disjoint) (auto simp: pmm_inv_def)
  ultimately show ?thesis using assms by (auto simp: pmm_inv_def marked_def)
qed

text \<open>The frames that lie wholly inside a usable entry, without frame 0 and below 64 GiB.\<close>

definition entry_frames :: "limine_memmap_entry \<Rightarrow> nat set" where
  "entry_frames e =
     (if entry_type e = LIMINE_MEMMAP_USABLE
      then {f. 1 \<le> f \<and> f < MAX_TRACKED_FRAMES \<and> entry_base e \<le> f * FRAME_SIZE
               \<and> (f + 1) * FRAME_SIZE \<le> entry_base e + entry_length e}
      else {})"

lemma align_up_frame_le: "align_up_frame a \<le> f \<longleftrightarrow> a \<le> f * FRAME_SIZE"
proof -
  define q r where qr: "q = a div 4096" "r = a mod 4096"
  then have "a = 4096 * q + r" and "r < 4096" by simp_all
  then have "q + (if r \<noteq> 0 then 1 else 0) \<le> f \<longleftrightarrow> a \<le> f * 4096"
    by (cases "r = 0"; simp; linarith)
  then show ?thesis by (simp add: align_up_frame_def FRAME_SIZE_def qr)
qed

lemma align_down_frame_gt: "f < align_down_frame a \<longleftrightarrow> (f + 1) * FRAME_SIZE \<le> a"
  unfolding align_down_frame_def FRAME_SIZE_def by (simp add: less_eq_div_iff_mult_less_eq Suc_le_eq [symmetric])

lemma align_down_frame_le_MAX:
  "align_down_frame (if a > MAX_TRACKED_PHYSICAL_MEMORY then MAX_TRACKED_PHYSICAL_MEMORY else a)
   \<le> MAX_TRACKED_FRAMES"
  by (auto simp: align_down_frame_def MAX_TRACKED_FRAMES_def div_le_mono)

lemma pmm_inv_frame_fields:
  "pmm_inv (pmm\<lparr>total_memory_bytes := a\<rparr>) = pmm_inv pmm"
  "pmm_inv (pmm\<lparr>usable_memory_bytes := a\<rparr>) = pmm_inv pmm"
  "pmm_inv (pmm\<lparr>kernel_memory_bytes := a\<rparr>) = pmm_inv pmm"
  "pmm_inv (pmm\<lparr>framebuffer_memory_bytes := a\<rparr>) = pmm_inv pmm"
  "pmm_inv (pmm\<lparr>bootloader_reclaimable_bytes := a\<rparr>) = pmm_inv pmm"
  "pmm_inv (pmm\<lparr>pmm_initialized := b\<rparr>) = pmm_inv pmm"
  by (simp_all add: pmm_inv_def)

text \<open>What adding frames \<open>R\<close> means for the whole state.\<close>

definition adds_frames ::
    "nat set \<Rightarrow> physical_memory_manager \<Rightarrow> physical_memory_manager \<Rightarrow> bool" where
  "adds_frames R pmm pmm' \<longleftrightarrow>
     pmm_inv pmm' \<and> usable_set pmm' = usable_set pmm \<union> R
     \<and> free_set pmm' = free_set pmm \<union> (R - usable_set pmm)
     \<and> pmm_initialized pmm' = pmm_initialized pmm"

lemma mark_usable_range_adds:
  assumes "pmm_inv pmm"
  shows "adds_frames {f. 1 \<le> f \<and> f < MAX_TRACKED_FRAMES \<and> base \<le> f * FRAME_SIZE
                      \<and> (f + 1) * FRAME_SIZE \<le> base + len} pmm (mark_usable_range base len pmm)"
    (is "adds_frames ?R pmm _")
proof (cases "len = 0 \<or> base \<ge> MAX_TRACKED_PHYSICAL_MEMORY")
  case True
  then have R: "?R = {}" by (auto simp: kos_consts)
  from True assms have "adds_frames {} pmm (mark_usable_range base len pmm)"
    by (simp add: mark_usable_range_def adds_frames_def)
  then show ?thesis unfolding R .
next
  case False
  define end1 where "end1 = (if saturating_add base len > MAX_TRACKED_PHYSICAL_MEMORY
    then MAX_TRACKED_PHYSICAL_MEMORY else saturating_add base len)"
  define s where "s = (if align_up_frame base = 0 then 1 else align_up_frame base)"
  define e where "e = align_down_frame end1"
  define pmm1 where "pmm1 = (if e > frame_search_limit pmm
    then pmm\<lparr>frame_search_limit := e\<rparr> else pmm)"
  have e_max: "e \<le> MAX_TRACKED_FRAMES"
    unfolding e_def end1_def by (rule align_down_frame_le_MAX)
  have end1: "end1 = min (base + len) MAX_TRACKED_PHYSICAL_MEMORY"
    using False by (auto simp: end1_def saturating_add_def kos_consts)
  have R: "{s..<e} = ?R"
  proof (rule set_eqI)
    fix f
    have "f < e \<longleftrightarrow> (f + 1) * FRAME_SIZE \<le> base + len \<and> f < MAX_TRACKED_FRAMES"
      unfolding e_def align_down_frame_gt end1 by (auto simp: kos_consts)
    moreover have "s \<le> f \<longleftrightarrow> 1 \<le> f \<and> base \<le> f * FRAME_SIZE"
      unfolding s_def align_up_frame_le [symmetric] by auto
    ultimately show "f \<in> {s..<e} \<longleftrightarrow> f \<in> ?R" by auto
  qed
  have inv1: "pmm_inv pmm1"
    using assms e_max by (auto simp: pmm1_def pmm_inv_def)
  have m: "marked {s..<e} pmm1 (mark_usable_frames s e pmm1)"
    using inv1 e_max by (intro marked_frames) (auto simp: pmm_inv_def MAX_TRACKED_FRAMES_words)
  have "pmm_inv (mark_usable_frames s e pmm1)"
    using inv1 m by (rule marked_inv) (auto simp: s_def pmm1_def)
  moreover have "mark_usable_range base len pmm = mark_usable_frames s e pmm1"
    using False by (simp add: mark_usable_range_def Let_def end1_def s_def e_def pmm1_def)
  ultimately show ?thesis using m unfolding R by (auto simp: adds_frames_def marked_def pmm1_def)
qed

lemma pmm_add_entry_adds:
  assumes "pmm_inv pmm"
  shows "adds_frames (entry_frames e) pmm (pmm_add_entry e pmm)"
proof (cases "entry_type e = LIMINE_MEMMAP_USABLE")
  case True
  let ?p = "pmm\<lparr>total_memory_bytes := saturating_add (total_memory_bytes pmm) (entry_length e),
    usable_memory_bytes := saturating_add (usable_memory_bytes pmm) (entry_length e)\<rparr>"
  have "pmm_add_entry e pmm = mark_usable_range (entry_base e) (entry_length e) ?p"
    using True
    by (simp add: pmm_add_entry_def account_memory_type_def memory_type_is_physical_ram_def Let_def)
  moreover have "pmm_inv ?p" using assms by (simp add: pmm_inv_frame_fields)
  ultimately show ?thesis
    using mark_usable_range_adds [of ?p "entry_base e" "entry_length e"] True
    by (simp add: adds_frames_def entry_frames_def)
next
  case False
  then show ?thesis using assms
    by (cases "entry_type e")
       (simp_all add: pmm_add_entry_def account_memory_type_def memory_type_is_physical_ram_def
         Let_def adds_frames_def entry_frames_def pmm_inv_frame_fields)
qed

lemma pmm_add_entries_adds:
  assumes "pmm_inv pmm" and "free_set pmm = usable_set pmm"
  shows "fst (pmm_add_entries (map Some es) pmm)
    \<and> pmm_inv (snd (pmm_add_entries (map Some es) pmm))
    \<and> usable_set (snd (pmm_add_entries (map Some es) pmm))
        = usable_set pmm \<union> (\<Union>e \<in> set es. entry_frames e)
    \<and> free_set (snd (pmm_add_entries (map Some es) pmm))
        = usable_set (snd (pmm_add_entries (map Some es) pmm))"
  using assms
proof (induction es arbitrary: pmm)
  case Nil
  then show ?case by simp
next
  case (Cons e es)
  have a: "adds_frames (entry_frames e) pmm (pmm_add_entry e pmm)"
    using Cons.prems(1) by (rule pmm_add_entry_adds)
  with Cons.prems(2) have "pmm_inv (pmm_add_entry e pmm)"
    and "free_set (pmm_add_entry e pmm) = usable_set (pmm_add_entry e pmm)"
    by (auto simp: adds_frames_def)
  from Cons.IH [OF this] a show ?case by (auto simp: adds_frames_def)
qed

lemma pmm_initialize_establishes:
  "let (ok, pmm') = pmm_initialize (Some (map Some entries)) pmm
   in pmm_inv pmm' \<and> usable_set pmm' = (\<Union>e \<in> set entries. entry_frames e)
      \<and> free_set pmm' = usable_set pmm' \<and> pmm_initialized pmm' = ok
      \<and> ok = ((\<Union>e \<in> set entries. entry_frames e) \<noteq> {})"
proof -
  define p where "p = snd (pmm_add_entries (map Some entries) pmm_reset)"
  have "free_set pmm_reset = usable_set pmm_reset" by (simp add: pmm_reset_def)
  from pmm_add_entries_adds [OF pmm_inv_reset this, of entries]
  have p: "pmm_add_entries (map Some entries) pmm_reset = (True, p)" "pmm_inv p"
    "usable_set p = (\<Union>e \<in> set entries. entry_frames e)" "free_set p = usable_set p"
    by (simp_all add: p_def prod_eq_iff pmm_reset_def)
  moreover have "\<not> frame_search_limit p > MAX_TRACKED_FRAMES"
    using p(2) by (simp add: pmm_inv_def)
  moreover have "free_frames p \<noteq> 0 \<longleftrightarrow> usable_set p \<noteq> {}"
    using p(2,4) by (auto simp: pmm_inv_def)
  ultimately show ?thesis
    by (simp add: pmm_initialize_def Let_def pmm_inv_frame_fields)
qed

section \<open>Allocating and freeing one frame\<close>

text \<open>The effect of taking the set \<open>R\<close> of free frames, and of giving it back.\<close>

definition takes_frames ::
    "nat set \<Rightarrow> physical_memory_manager \<Rightarrow> physical_memory_manager \<Rightarrow> bool" where
  "takes_frames R pmm pmm' \<longleftrightarrow>
     R \<subseteq> free_set pmm \<and> free_set pmm' = free_set pmm - R \<and> usable_set pmm' = usable_set pmm
     \<and> pmm_inv pmm' \<and> pmm_initialized pmm'"

definition returns_frames ::
    "nat set \<Rightarrow> physical_memory_manager \<Rightarrow> physical_memory_manager \<Rightarrow> bool" where
  "returns_frames R pmm pmm' \<longleftrightarrow>
     R \<subseteq> usable_set pmm - free_set pmm \<and> free_set pmm' = free_set pmm \<union> R
     \<and> usable_set pmm' = usable_set pmm \<and> pmm_inv pmm' \<and> pmm_initialized pmm'"

lemma free_frames_bound:
  assumes "pmm_inv pmm"
  shows "free_frames pmm \<le> MAX_TRACKED_FRAMES"
proof -
  have "card (free_set pmm) \<le> card {..<frame_search_limit pmm}"
    using assms by (intro card_mono) (auto simp: pmm_inv_def)
  with assms show ?thesis by (auto simp: pmm_inv_def)
qed

text \<open>The common tail of both allocators: the frames of \<open>R\<close> are cleared and the hint moves.\<close>

lemma take_frames_inv:
  assumes inv: "pmm_inv pmm" "pmm_initialized pmm" and R: "R \<subseteq> free_set pmm"
    and bm: "frames_of bm = free_set pmm - R" "length bm = length (free_bitmap pmm)"
    and hint: "1 \<le> hint"
  shows "takes_frames R pmm
    (let pmm1 = pmm\<lparr>free_bitmap := bm, free_frames := sub64 (free_frames pmm) (card R),
                    allocation_hint := hint\<rparr>
     in if allocation_hint pmm1 \<ge> frame_search_limit pmm1
        then pmm1\<lparr>allocation_hint := 1\<rparr> else pmm1)"
proof -
  have "finite R" using R by (rule finite_subset) simp
  then have "card (free_set pmm - R) = card (free_set pmm) - card R" using R by (rule card_Diff_subset)
  moreover have "card R \<le> card (free_set pmm)" using R by (intro card_mono) simp_all
  ultimately show ?thesis
    using assms by (auto simp: takes_frames_def pmm_inv_def Let_def sub64_exact)
qed

lemma pmm_pick_frame_spec:
  assumes "pmm_inv pmm"
  shows "if free_set pmm = {} then pmm_pick_frame pmm = 0
         else pmm_pick_frame pmm \<in> free_set pmm \<and> pmm_pick_frame pmm \<noteq> 0"
proof -
  let ?h = "allocation_hint pmm" and ?l = "frame_search_limit pmm"
  note D = pmm_inv_D [OF assms]
  have hl: "1 \<le> ?h" "?h \<le> ?l" using assms by (auto simp: pmm_inv_def)
  have s0: "lowest_free (free_bitmap pmm) ?h ?l (find_free_frame ?h ?l pmm)"
    using D by (intro find_free_frame_spec) auto
  have s1: "lowest_free (free_bitmap pmm) 1 ?h (find_free_frame 1 ?h pmm)"
    using D hl by (intro find_free_frame_spec) auto
  have range: "1 \<le> g \<and> g < ?l" if "g \<in> free_set pmm" for g
    using that D by (metis less_one not_less subsetD)
  show ?thesis
  proof (cases "\<exists>g \<in> free_set pmm. ?h \<le> g")
    case True
    then have "find_free_frame ?h ?l pmm \<in> free_set pmm"
      using s0 range by (auto simp: lowest_free_def split: if_splits)
    moreover from this have "find_free_frame ?h ?l pmm \<noteq> 0" using D(6) by metis
    ultimately show ?thesis by (auto simp: pmm_pick_frame_def Let_def)
  next
    case none: False
    then have f0: "find_free_frame ?h ?l pmm = 0"
      using s0 by (auto simp: lowest_free_def split: if_splits)
    show ?thesis
    proof (cases "free_set pmm = {}")
      case True
      with f0 s1 show ?thesis by (simp add: pmm_pick_frame_def Let_def lowest_free_def)
    next
      case False
      then obtain g where g: "g \<in> free_set pmm" by blast
      with none range [OF g] have g': "g < ?h" "1 \<le> g" by auto
      then have "find_free_frame 1 ?h pmm \<in> free_set pmm"
        using s1 g by (auto simp: lowest_free_def split: if_splits)
      moreover from this have "find_free_frame 1 ?h pmm \<noteq> 0" using D(6) by metis
      ultimately show ?thesis using g' f0 False by (simp add: pmm_pick_frame_def Let_def)
    qed
  qed
qed

lemma pmm_allocate_frame_cases:
  assumes "pmm_inv pmm" and "pmm_initialized pmm"
  obtains (none) "free_set pmm = {}" and "pmm_allocate_frame pmm = (0, pmm)"
  | (frame) f pmm' where "f \<in> free_set pmm" and "f \<noteq> 0"
      and "pmm_allocate_frame pmm = (f * FRAME_SIZE, pmm')" and "takes_frames {f} pmm pmm'"
proof (cases "free_set pmm = {}")
  case True
  then have "pmm_allocate_frame pmm = (0, pmm)"
    using pmm_pick_frame_spec [OF assms(1)] by (simp add: pmm_allocate_frame_def)
  with True show thesis by (rule none)
next
  case False
  define f where "f = pmm_pick_frame pmm"
  have f: "f \<in> free_set pmm" "f \<noteq> 0"
    using False pmm_pick_frame_spec [OF assms(1)] by (auto simp: f_def)
  have "f div 64 < length (free_bitmap pmm)"
    using f(1) pmm_inv_D [OF assms(1)] pmm_inv_word [OF assms(1)] by auto
  then have "frames_of (bitmap_clear (free_bitmap pmm) f) = free_set pmm - {f}"
    by (rule frames_of_clear)
  from take_frames_inv [OF assms _ this, of "f + 1"] f
  show thesis
    using assms(2) by (intro frame [OF f]) (auto simp: pmm_allocate_frame_def Let_def f_def)
qed

lemma pmm_may_free_iff:
  assumes "pmm_inv pmm"
  shows "pmm_may_free pmm f \<longleftrightarrow> f \<in> usable_set pmm - free_set pmm"
proof (cases "f < MAX_TRACKED_FRAMES")
  case True
  then have "f div 64 < BITMAP_WORDS" by (auto simp: MAX_TRACKED_FRAMES_words)
  with True show ?thesis
    using pmm_inv_lengths [OF assms] by (simp add: pmm_may_free_def frame_is_tracked_def bitmap_test_iff)
next
  case False
  moreover from this have "f \<notin> usable_set pmm" using assms by (auto simp: pmm_inv_def)
  ultimately show ?thesis by (simp add: pmm_may_free_def frame_is_tracked_def)
qed

text \<open>The common tail of both release functions.\<close>

lemma return_frames_inv:
  assumes inv: "pmm_inv pmm" "pmm_initialized pmm" and R: "R \<subseteq> usable_set pmm - free_set pmm"
    and bm: "frames_of bm = free_set pmm \<union> R" "length bm = length (free_bitmap pmm)"
    and f: "f \<in> R"
  shows "returns_frames R pmm
    (let pmm1 = pmm\<lparr>free_bitmap := bm, free_frames := free_frames pmm + card R\<rparr>
     in if f < allocation_hint pmm1 then pmm1\<lparr>allocation_hint := f\<rparr> else pmm1)"
proof -
  have "finite R" using R by (rule finite_subset) simp
  then have "card (free_set pmm \<union> R) = card (free_set pmm) + card R"
    using R by (intro card_Un_disjoint) auto
  moreover have "f \<in> usable_set pmm" using f R by blast
  moreover from this have "f \<noteq> 0" using pmm_inv_zero(1) [OF inv(1)] by metis
  ultimately show ?thesis
    using assms by (auto simp: returns_frames_def pmm_inv_def Let_def)
qed

lemma pmm_free_frame_owned:
  assumes "pmm_inv pmm" and "pmm_initialized pmm" and "f \<in> usable_set pmm - free_set pmm"
  shows "\<exists>pmm'. pmm_free_frame (f * FRAME_SIZE) pmm = (True, pmm') \<and> returns_frames {f} pmm pmm'"
proof -
  have "f \<noteq> 0" using assms(1,3) pmm_inv_zero(1) by (metis DiffD1)
  have "f div 64 < length (free_bitmap pmm)"
    using assms(1,3) pmm_inv_D [OF assms(1)] pmm_inv_word [OF assms(1)] by auto
  then have "frames_of (bitmap_set (free_bitmap pmm) f) = free_set pmm \<union> {f}"
    by (simp add: frames_of_set)
  from return_frames_inv [OF assms(1,2) _ this, of f] assms
  show ?thesis
    using \<open>f \<noteq> 0\<close> pmm_may_free_iff [OF assms(1), of f]
    by (simp add: pmm_free_frame_def Let_def FRAME_SIZE_def)
qed

lemma pmm_free_frame_other:
  assumes "pmm_inv pmm" and "p \<notin> (\<lambda>f. f * FRAME_SIZE) ` (usable_set pmm - free_set pmm)"
  shows "pmm_free_frame p pmm = (False, pmm)"
proof (cases "p mod FRAME_SIZE = 0")
  case True
  then have "p = p div FRAME_SIZE * FRAME_SIZE" by auto
  with assms(2) have "p div FRAME_SIZE \<notin> usable_set pmm - free_set pmm" by blast
  with pmm_may_free_iff [OF assms(1)] show ?thesis by (simp add: pmm_free_frame_def)
next
  case False
  then show ?thesis by (simp add: pmm_free_frame_def)
qed

text \<open>The addresses of the free frames, and of the frames that are out.\<close>

definition pmm_avail :: "physical_memory_manager \<Rightarrow> nat set" where
  "pmm_avail pmm = (\<lambda>f. f * FRAME_SIZE) ` free_set pmm"

definition pmm_owned :: "physical_memory_manager \<Rightarrow> nat set" where
  "pmm_owned pmm = (\<lambda>f. f * FRAME_SIZE) ` (usable_set pmm - free_set pmm)"

definition pmm_ready :: "physical_memory_manager \<Rightarrow> bool" where
  "pmm_ready pmm \<longleftrightarrow> pmm_inv pmm \<and> pmm_initialized pmm"

lemma inj_frame_address: "inj (\<lambda>f. f * FRAME_SIZE)"
  by (simp add: inj_def FRAME_SIZE_def)

lemma pmm_takes_avail:
  assumes "takes_frames R pmm pmm'" and "pmm_inv pmm"
  shows "pmm_avail pmm' = pmm_avail pmm - (\<lambda>f. f * FRAME_SIZE) ` R"
    "pmm_owned pmm' = pmm_owned pmm \<union> (\<lambda>f. f * FRAME_SIZE) ` R" "pmm_ready pmm'"
proof -
  have "usable_set pmm - (free_set pmm - R) = (usable_set pmm - free_set pmm) \<union> R"
    using assms by (auto simp: takes_frames_def pmm_inv_def)
  with assms show "pmm_owned pmm' = pmm_owned pmm \<union> (\<lambda>f. f * FRAME_SIZE) ` R"
    by (simp add: pmm_owned_def takes_frames_def image_Un)
qed (use assms in \<open>auto simp: pmm_avail_def takes_frames_def pmm_ready_def
       image_set_diff [OF inj_frame_address]\<close>)

lemma pmm_returns_avail:
  assumes "returns_frames R pmm pmm'"
  shows "pmm_avail pmm' = pmm_avail pmm \<union> (\<lambda>f. f * FRAME_SIZE) ` R"
    "pmm_owned pmm' = pmm_owned pmm - (\<lambda>f. f * FRAME_SIZE) ` R" "pmm_ready pmm'"
  using assms
  by (auto simp: pmm_avail_def pmm_owned_def returns_frames_def pmm_ready_def image_Un
      image_set_diff [OF inj_frame_address])

interpretation pmm_frames:
  frame_allocator pmm_allocate_frame pmm_free_frame pmm_ready pmm_avail pmm_owned
proof
  fix s :: physical_memory_manager
  assume r: "pmm_ready s"
  then have inv: "pmm_inv s" "pmm_initialized s" by (simp_all add: pmm_ready_def)
  note D = pmm_inv_D [OF inv(1)]
  show "pmm_avail s = {} \<Longrightarrow> pmm_allocate_frame s = (0, s)"
    using inv by (rule pmm_allocate_frame_cases) (auto simp: pmm_avail_def)
  show "p \<in> pmm_avail s \<and> pmm_avail s' = pmm_avail s - {p} \<and> pmm_owned s' = insert p (pmm_owned s)
      \<and> pmm_ready s'" if "pmm_avail s \<noteq> {}" "pmm_allocate_frame s = (p, s')" for p s'
    using inv
  proof (cases rule: pmm_allocate_frame_cases)
    case none
    with that(1) show ?thesis by (simp add: pmm_avail_def)
  next
    case (frame f pmm')
    with that(2) have e: "p = f * FRAME_SIZE" "s' = pmm'" by simp_all
    show ?thesis using pmm_takes_avail [OF frame(4) inv(1)] frame(1) e
      by (auto simp: pmm_avail_def)
  qed
  show "\<exists>s'. pmm_free_frame p s = (True, s') \<and> pmm_ready s' \<and> pmm_avail s' = insert p (pmm_avail s)
      \<and> pmm_owned s' = pmm_owned s - {p}" if "p \<in> pmm_owned s" for p
  proof -
    from that obtain f where f: "f \<in> usable_set s - free_set s" "p = f * FRAME_SIZE"
      by (auto simp: pmm_owned_def)
    from pmm_free_frame_owned [OF inv f(1)] obtain s' where
      "pmm_free_frame p s = (True, s')" and "returns_frames {f} s s'" by (auto simp: f(2))
    with pmm_returns_avail [of "{f}" s s'] f(2) show ?thesis by auto
  qed
  show "pmm_free_frame p s = (False, s)" if "p \<notin> pmm_owned s" for p
    using inv(1) that by (intro pmm_free_frame_other) (simp_all add: pmm_owned_def)
  show "pmm_avail s \<inter> pmm_owned s = {}"
    by (auto simp: pmm_avail_def pmm_owned_def FRAME_SIZE_def)
  show "0 \<notin> pmm_avail s" "0 \<notin> pmm_owned s" "finite (pmm_avail s)"
    using D(5,6) by (auto simp: pmm_avail_def pmm_owned_def FRAME_SIZE_def)
qed

section \<open>Runs of frames\<close>

text \<open>
  What the scan for a run has found when it leaves the frames \<open>[a..<b]\<close>: a run of \<open>count\<close> free
  frames inside them, or the certainty that there is none.
\<close>

lemma scan_run_spec:
  assumes "k \<le> b" and "b \<le> 64 * length bm" and "c < count" and "a + c \<le> k"
    and "{k - c..<k} \<subseteq> frames_of bm" and "0 < c \<Longrightarrow> st = k - c"
    and "k - c = a \<or> k - c - 1 \<notin> frames_of bm"
    and "\<And>x. a \<le> x \<Longrightarrow> x + count \<le> k \<Longrightarrow> \<not> {x..<x + count} \<subseteq> frames_of bm"
    and "scan_run bm count [k..<b] (c, st) = (c', st')"
  shows "(c' = count \<and> a \<le> st' \<and> st' + count \<le> b \<and> {st'..<st' + count} \<subseteq> frames_of bm)
    \<or> (c' < count \<and> (\<forall>x. a \<le> x \<and> x + count \<le> b \<longrightarrow> \<not> {x..<x + count} \<subseteq> frames_of bm))"
  using assms
proof (induction "b - k" arbitrary: k c st)
  case 0
  then show ?case by auto
next
  case (Suc n)
  then have k: "k < b" by simp
  have l: "[k..<b] = k # [Suc k..<b]" using k by (simp add: upt_conv_Cons)
  have t: "bitmap_test bm k \<longleftrightarrow> k \<in> frames_of bm"
    using k Suc.prems(2) by (intro bitmap_test_iff) auto
  have n: "n = b - Suc k" using Suc.hyps(2) by simp
  note IH = Suc.hyps(1) [OF n _ Suc.prems(2)]
  show ?case
  proof (cases "k \<in> frames_of bm")
    case free: True
    define st1 where "st1 = (if c = 0 then k else st)"
    have st1: "st1 = k - c" using Suc.prems(6) by (auto simp: st1_def)
    have run: "{k - c..<Suc k} \<subseteq> frames_of bm" using free Suc.prems(4,5) by (auto simp: less_Suc_eq)
    show ?thesis
    proof (cases "c + 1 = count")
      case True
      then have "c' = count" "st' = st1"
        using Suc.prems(9) free t l by (auto simp: Let_def st1_def)
      with run st1 True Suc.prems(4) k show ?thesis by auto
    next
      case False
      have new: "\<not> {x..<x + count} \<subseteq> frames_of bm" if x: "a \<le> x" "x + count \<le> Suc k" for x
      proof (cases "x + count \<le> k")
        case True
        with x(1) show ?thesis by (rule Suc.prems(8))
      next
        case ends: False
        with x(2) False Suc.prems(3) have "x < k - c" by simp
        with x(1) Suc.prems(7) have "k - c - 1 \<notin> frames_of bm" and "x \<le> k - c - 1" by auto
        moreover have "k - c - 1 < x + count" using ends \<open>x < k - c\<close> by simp
        ultimately show ?thesis by auto
      qed
      show ?thesis
      proof (rule IH [of "c + 1" st1])
        show "scan_run bm count [Suc k..<b] (c + 1, st1) = (c', st')"
          using Suc.prems(9) free t l False by (simp add: Let_def st1_def)
      qed (use k False Suc.prems(3,4,7) run st1 new in auto)
    qed
  next
    case busy: False
    have new: "\<not> {x..<x + count} \<subseteq> frames_of bm" if x: "a \<le> x" "x + count \<le> Suc k" for x
    proof (cases "x + count \<le> k")
      case True
      with x(1) show ?thesis by (rule Suc.prems(8))
    next
      case False
      with x Suc.prems(3) have "k \<in> {x..<x + count}" by auto
      with busy show ?thesis by blast
    qed
    show ?thesis
    proof (rule IH [of 0 st])
      show "scan_run bm count [Suc k..<b] (0, st) = (c', st')"
        using Suc.prems(9) busy t l by simp
    qed (use k Suc.prems(3,4) busy new in auto)
  qed
qed

lemma scan_run_start:
  assumes "b \<le> 64 * length bm" and "0 < count" and "scan_run bm count [a..<b] (0, st) = (c', st')"
  shows "(c' = count \<and> a \<le> st' \<and> st' + count \<le> b \<and> {st'..<st' + count} \<subseteq> frames_of bm)
    \<or> (c' < count \<and> (\<forall>x. a \<le> x \<and> x + count \<le> b \<longrightarrow> \<not> {x..<x + count} \<subseteq> frames_of bm))"
proof (cases "a \<le> b")
  case True
  show ?thesis by (rule scan_run_spec [OF True assms(1,2) _ _ _ _ _ assms(3)]) (use assms(2) in auto)
next
  case False
  with assms(2,3) show ?thesis by auto
qed

lemma frames_of_clear_run:
  assumes "s + n \<le> 64 * length bm"
  shows "frames_of (fold (\<lambda>i b. bitmap_clear b (s + i)) [0..<n] bm) = frames_of bm - {s..<s + n}
    \<and> length (fold (\<lambda>i b. bitmap_clear b (s + i)) [0..<n] bm) = length bm"
  using assms
proof (induction n)
  case (Suc n)
  then have "(s + n) div 64 < length bm" by auto
  moreover have "frames_of bm - {s..<s + n} - {s + n} = frames_of bm - {s..<s + Suc n}" by auto
  ultimately show ?case using Suc by (simp add: frames_of_clear)
qed simp

lemma frames_of_set_run:
  assumes "s + n \<le> 64 * length bm"
  shows "frames_of (fold (\<lambda>i b. bitmap_set b (s + i)) [0..<n] bm) = frames_of bm \<union> {s..<s + n}
    \<and> length (fold (\<lambda>i b. bitmap_set b (s + i)) [0..<n] bm) = length bm"
  using assms
proof (induction n)
  case (Suc n)
  then have "(s + n) div 64 < length bm" by auto
  moreover have "insert (s + n) (frames_of bm \<union> {s..<s + n}) = frames_of bm \<union> {s..<s + Suc n}" by auto
  ultimately show ?case using Suc by (simp add: frames_of_set)
qed simp

lemma free_run_range:
  assumes "pmm_inv pmm" and "{x..<x + n} \<subseteq> free_set pmm" and "0 < n"
  shows "1 \<le> x \<and> x + n \<le> frame_search_limit pmm \<and> n \<le> free_frames pmm"
proof -
  have "x \<in> free_set pmm" and "x + (n - 1) \<in> free_set pmm" using assms(2,3) by auto
  moreover from this(1) have "x \<noteq> 0" using pmm_inv_zero(2) [OF assms(1)] by metis
  moreover have "card {x..<x + n} \<le> card (free_set pmm)"
    using assms(2) by (intro card_mono) simp_all
  ultimately show ?thesis using assms(1,3) by (auto simp: pmm_inv_def)
qed

lemma pmm_find_run_spec:
  assumes inv: "pmm_inv pmm" and n: "0 < count" "count \<le> free_frames pmm"
    and r: "pmm_find_run count pmm = (c, st)"
  shows "(c = count \<and> {st..<st + count} \<subseteq> free_set pmm)
    \<or> (c < count \<and> (\<forall>x. \<not> {x..<x + count} \<subseteq> free_set pmm))"
proof -
  let ?h = "allocation_hint pmm" and ?l = "frame_search_limit pmm" and ?bm = "free_bitmap pmm"
  obtain c0 st0 where r0: "scan_run ?bm count [?h..<?l] (0, 0) = (c0, st0)" by fastforce
  have len: "?l \<le> 64 * length ?bm" using pmm_inv_D [OF inv] by simp
  note first = scan_run_start [OF len n(1) r0]
  have "?h + count < 2 ^ 64"
    using inv n(2) free_frames_bound [OF inv] by (auto simp: pmm_inv_def kos_consts)
  then have hc: "add64 ?h count = ?h + count" by (rule add64_exact)
  show ?thesis
  proof (cases "c0 < count \<and> ?h > 1")
    case False
    then have "c = c0" "st = st0" using r r0 by (auto simp: pmm_find_run_def Let_def)
    moreover have "\<not> {x..<x + count} \<subseteq> free_set pmm" if "c0 < count" for x
    proof
      assume x: "{x..<x + count} \<subseteq> free_set pmm"
      from that False inv have "?h = 1" by (auto simp: pmm_inv_def)
      with first that x free_run_range [OF inv x n(1)] show False by auto
    qed
    ultimately show ?thesis using first by auto
  next
    case True
    then have r1: "scan_run ?bm count [1..<min (?h + count) ?l] (0, st0) = (c, st)"
      using r r0 by (simp add: pmm_find_run_def Let_def hc)
    have len1: "min (?h + count) ?l \<le> 64 * length ?bm" using len by simp
    note second = scan_run_start [OF len1 n(1) r1]
    have "\<not> {x..<x + count} \<subseteq> free_set pmm" if "c < count" for x
    proof
      assume x: "{x..<x + count} \<subseteq> free_set pmm"
      note range = free_run_range [OF inv x n(1)]
      show False
      proof (cases "?h \<le> x")
        case h: True
        with first True x range show False by auto
      next
        case False
        with second that x range show False by auto
      qed
    qed
    with second show ?thesis by auto
  qed
qed

lemma pmm_alloc_pages_run:
  assumes "pmm_inv pmm" and "pmm_initialized pmm" and "0 < count"
  shows "(\<exists>s. {s..<s + count} \<subseteq> free_set pmm \<and> fst (pmm_alloc_pages count pmm) = s * FRAME_SIZE
            \<and> s \<noteq> 0 \<and> takes_frames {s..<s + count} pmm (snd (pmm_alloc_pages count pmm)))
    \<or> (pmm_alloc_pages count pmm = (0, pmm) \<and> (\<forall>s. \<not> {s..<s + count} \<subseteq> free_set pmm))"
proof (cases "count = 1")
  case True
  from assms(1,2) show ?thesis
  proof (cases rule: pmm_allocate_frame_cases)
    case none
    with True show ?thesis by (auto simp: pmm_alloc_pages_def)
  next
    case (frame f pmm')
    with True show ?thesis
      by (intro disjI1 exI [of _ f]) (simp add: pmm_alloc_pages_def atLeastLessThanSuc)
  qed
next
  case multi: False
  show ?thesis
  proof (cases "free_frames pmm < count")
    case True
    with free_run_range [OF assms(1) _ assms(3)] have "\<forall>s. \<not> {s..<s + count} \<subseteq> free_set pmm"
      by (meson not_less)
    with True multi assms(2,3) show ?thesis by (simp add: pmm_alloc_pages_def)
  next
    case enough: False
    obtain c st where r: "pmm_find_run count pmm = (c, st)" by fastforce
    from pmm_find_run_spec [OF assms(1,3) _ r] enough consider
      (found) "c = count" "{st..<st + count} \<subseteq> free_set pmm"
      | (none) "c < count" "\<forall>x. \<not> {x..<x + count} \<subseteq> free_set pmm" by auto
    then show ?thesis
    proof cases
      case none
      with multi enough assms(2,3) r show ?thesis by (simp add: pmm_alloc_pages_def)
    next
      case found
      note range = free_run_range [OF assms(1) found(2) assms(3)]
      have "st + count \<le> 64 * length (free_bitmap pmm)"
        using range pmm_inv_D [OF assms(1)] by simp
      note bm = frames_of_clear_run [OF this]
      have "takes_frames {st..<st + count} pmm (snd (pmm_alloc_pages count pmm))"
        using take_frames_inv [OF assms(1,2) found(2) conjunct1 [OF bm] conjunct2 [OF bm],
            of "st + count"] multi enough assms(2,3) r found(1) range
        by (simp add: pmm_alloc_pages_def Let_def)
      moreover have "fst (pmm_alloc_pages count pmm) = st * FRAME_SIZE"
        using multi enough assms(2,3) r found(1) by (simp add: pmm_alloc_pages_def Let_def)
      ultimately show ?thesis using found range by auto
    qed
  qed
qed

lemma pmm_free_pages_owned:
  assumes "pmm_inv pmm" and "pmm_initialized pmm" and "0 < count"
    and "{f..<f + count} \<subseteq> usable_set pmm - free_set pmm"
  shows "\<exists>pmm'. pmm_free_pages (f * FRAME_SIZE) count pmm = (True, pmm')
           \<and> returns_frames {f..<f + count} pmm pmm'"
proof (cases "count = 1")
  case True
  with assms pmm_free_frame_owned [OF assms(1,2), of f] show ?thesis
    by (simp add: pmm_free_pages_def atLeastLessThanSuc)
next
  case False
  have f: "f \<in> usable_set pmm" and l: "f + (count - 1) \<in> usable_set pmm"
    using assms(3) subsetD [OF assms(4), of f] subsetD [OF assms(4), of "f + (count - 1)"] by auto
  from f have "f \<noteq> 0" using pmm_inv_zero(1) [OF assms(1)] by metis
  have "f + count \<le> 64 * length (free_bitmap pmm)"
    using pmm_inv_limit [OF assms(1)] pmm_inv_lengths [OF assms(1)] l assms(3)
    by (metis Suc_diff_1 Suc_leI add_Suc_right order_trans)
  note bm = frames_of_set_run [OF this]
  have "list_all (\<lambda>i. pmm_may_free pmm (f + i)) [0..<count]"
    using assms(4) by (simp add: list_all_iff pmm_may_free_iff [OF assms(1)] run_subset_iff)
  moreover have "f \<in> {f..<f + count}" using assms(3) by simp
  ultimately show ?thesis
    using return_frames_inv [OF assms(1,2,4) conjunct1 [OF bm] conjunct2 [OF bm], of f]
      False assms(2,3) \<open>f \<noteq> 0\<close>
    by (simp add: pmm_free_pages_def Let_def FRAME_SIZE_def)
qed

lemma pmm_free_pages_other:
  assumes "pmm_inv pmm" and "\<not> {p div FRAME_SIZE..<p div FRAME_SIZE + count} \<subseteq> usable_set pmm - free_set pmm
    \<or> p mod FRAME_SIZE \<noteq> 0 \<or> count = 0"
  shows "pmm_free_pages p count pmm = (False, pmm)"
proof (cases "count = 0 \<or> p mod FRAME_SIZE \<noteq> 0")
  case True
  then show ?thesis by (auto simp: pmm_free_pages_def pmm_free_frame_def)
next
  case False
  with assms(2) obtain i where i: "i < count" "p div FRAME_SIZE + i \<notin> usable_set pmm - free_set pmm"
    unfolding run_subset_iff by blast
  then have m: "\<not> pmm_may_free pmm (p div FRAME_SIZE + i)" by (simp add: pmm_may_free_iff [OF assms(1)])
  show ?thesis
  proof (cases "count = 1")
    case True
    with i m show ?thesis by (simp add: pmm_free_pages_def pmm_free_frame_def)
  next
    case False
    from i m have "\<not> list_all (\<lambda>i. pmm_may_free pmm (p div FRAME_SIZE + i)) [0..<count]"
      by (auto simp: list_all_iff)
    with False show ?thesis by (simp add: pmm_free_pages_def)
  qed
qed

section \<open>Properties\<close>

text \<open>A machine with three usable frames, the frames 1 to 3, just after initialization.\<close>

definition pmm_three_frames :: physical_memory_manager where
  "pmm_three_frames = snd (pmm_initialize
     (Some [Some \<lparr>entry_base = 4096, entry_length = 12288, entry_type = LIMINE_MEMMAP_USABLE\<rparr>])
     pmm_reset)"

lemma pmm_three_frames_ready:
  "pmm_inv pmm_three_frames" "pmm_initialized pmm_three_frames"
  "free_set pmm_three_frames = {1, 2, 3}" "usable_set pmm_three_frames = {1, 2, 3}"
proof -
  let ?e = "\<lparr>entry_base = 4096, entry_length = 12288, entry_type = LIMINE_MEMMAP_USABLE\<rparr>"
  have "entry_frames ?e = {1, 2, 3}"
    by (auto simp: entry_frames_def kos_consts)
  with pmm_initialize_establishes [of "[?e]" pmm_reset]
  show "pmm_inv pmm_three_frames" "pmm_initialized pmm_three_frames"
    "free_set pmm_three_frames = {1, 2, 3}" "usable_set pmm_three_frames = {1, 2, 3}"
    by (simp_all add: pmm_three_frames_def split: prod.splits)
qed

text \<open>The same machine after one request for a run of three frames.\<close>

definition pmm_all_taken :: physical_memory_manager where
  "pmm_all_taken = snd (pmm_alloc_pages 3 pmm_three_frames)"

lemma pmm_all_taken_ready:
  "pmm_inv pmm_all_taken" "pmm_initialized pmm_all_taken"
  "free_set pmm_all_taken = {}" "usable_set pmm_all_taken = {1, 2, 3}"
proof -
  have run: "{s..<s + 3} \<subseteq> {1, 2, 3 :: nat} \<longleftrightarrow> s = 1" for s
    unfolding run_subset_iff by (auto simp: numeral_eq_Suc All_less_Suc)
  have "{1, 2, 3} - {1..<1 + 3} = ({} :: nat set)" by auto
  then show "pmm_inv pmm_all_taken" "pmm_initialized pmm_all_taken"
    "free_set pmm_all_taken = {}" "usable_set pmm_all_taken = {1, 2, 3}"
    using pmm_alloc_pages_run [OF pmm_three_frames_ready(1,2) zero_less_numeral [of "num.Bit1 num.One"],
        unfolded pmm_three_frames_ready run]
    by (auto simp: takes_frames_def pmm_all_taken_def pmm_three_frames_ready)
qed

text \<open>
  C1. Initialization from a boot memory map without null entries establishes the invariant; the
  usable frames are exactly those that lie wholly inside a usable entry (never frame 0, never at or
  above 64 GiB), all of them are free, and the call succeeds exactly when there is such a frame.
\<close>

theorem pmm_initialize_correct:
  "let (ok, pmm') = pmm_initialize (Some (map Some entries)) pmm
   in pmm_inv pmm' \<and> usable_set pmm' = (\<Union>e \<in> set entries. entry_frames e)
      \<and> free_set pmm' = usable_set pmm' \<and> pmm_initialized pmm' = ok
      \<and> ok = ((\<Union>e \<in> set entries. entry_frames e) \<noteq> {})"
  by (rule pmm_initialize_establishes)

text \<open>
  C2. Allocation of one frame refines taking an element out of the set of free frames: it fails,
  changing nothing, exactly when no frame is free; otherwise the result is the non-zero address of
  a free frame, exactly that frame leaves the free set, and the invariant is kept. The rotating
  hint never hides a free frame.
\<close>

theorem pmm_allocate_frame_correct:
  assumes "pmm_inv pmm" and "pmm_initialized pmm"
  shows "case pmm_allocate_frame pmm of (address, pmm') \<Rightarrow>
    if free_set pmm = {} then address = 0 \<and> pmm' = pmm
    else \<exists>f \<in> free_set pmm. address = f * FRAME_SIZE \<and> address \<noteq> 0
           \<and> free_set pmm' = free_set pmm - {f} \<and> usable_set pmm' = usable_set pmm
           \<and> pmm_inv pmm' \<and> pmm_initialized pmm'"
  using assms
proof (cases rule: pmm_allocate_frame_cases)
  case none
  then show ?thesis by simp
next
  case (frame f pmm')
  then show ?thesis by (auto simp: takes_frames_def FRAME_SIZE_def)
qed

theorem pmm_allocate_frame_correct_witness:
  "\<exists>f \<in> {1, 2, 3}. fst (pmm_allocate_frame pmm_three_frames) = f * 4096
     \<and> free_set (snd (pmm_allocate_frame pmm_three_frames)) = {1, 2, 3} - {f}"
  using pmm_allocate_frame_correct [OF pmm_three_frames_ready(1,2)]
  by (auto simp: pmm_three_frames_ready FRAME_SIZE_def split: prod.splits)

text \<open>
  C3. Freeing refines giving an allocated frame back: the call succeeds exactly on the address of a
  frame that is usable and not free, and then exactly that frame becomes free; on every other
  address (unaligned, zero, untracked, never usable, already free) it returns false and changes
  nothing. In particular a second free of the same address is refused.
\<close>

theorem pmm_free_frame_correct:
  assumes "pmm_inv pmm" and "pmm_initialized pmm"
  shows "case pmm_free_frame p pmm of (ok, pmm') \<Rightarrow>
    (ok \<longleftrightarrow> p mod FRAME_SIZE = 0 \<and> p div FRAME_SIZE \<in> usable_set pmm - free_set pmm)
    \<and> (if ok then free_set pmm' = insert (p div FRAME_SIZE) (free_set pmm)
               \<and> usable_set pmm' = usable_set pmm \<and> pmm_inv pmm' \<and> pmm_initialized pmm'
               \<and> pmm_free_frame p pmm' = (False, pmm')
       else pmm' = pmm)"
proof (cases "p mod FRAME_SIZE = 0 \<and> p div FRAME_SIZE \<in> usable_set pmm - free_set pmm")
  case True
  then have p: "p div FRAME_SIZE * FRAME_SIZE = p" by auto
  from pmm_free_frame_owned [OF assms, of "p div FRAME_SIZE"] True p obtain pmm'
    where f: "pmm_free_frame p pmm = (True, pmm')" "returns_frames {p div FRAME_SIZE} pmm pmm'" by auto
  have "pmm_free_frame p pmm' = (False, pmm')"
    using assms f(1) by (intro pmm_frames.double_release) (simp_all add: pmm_ready_def)
  with f True show ?thesis by (auto simp: returns_frames_def)
next
  case False
  then have "p \<notin> (\<lambda>f. f * FRAME_SIZE) ` (usable_set pmm - free_set pmm)"
    by (auto simp: FRAME_SIZE_def)
  from pmm_free_frame_other [OF assms(1) this] False show ?thesis by auto
qed

theorem pmm_free_frame_correct_witness:
  "fst (pmm_free_frame 8192 pmm_all_taken) \<and> free_set (snd (pmm_free_frame 8192 pmm_all_taken)) = {2}
   \<and> \<not> fst (pmm_free_frame 16384 pmm_all_taken)"
  using pmm_free_frame_correct [OF pmm_all_taken_ready(1,2), of 8192]
    pmm_free_frame_correct [OF pmm_all_taken_ready(1,2), of 16384]
  by (auto simp: pmm_all_taken_ready FRAME_SIZE_def split: prod.splits if_splits)

text \<open>
  C4. Allocation of a run is sound and complete: for a positive count it returns the address of
  \<open>count\<close> consecutive free frames and takes exactly those, or it returns 0, changes nothing, and
  there is no such run anywhere in memory. The second scan, from frame 1 to \<open>hint + count\<close>, is
  what makes runs that straddle the hint visible.
\<close>

theorem pmm_alloc_pages_correct:
  assumes "pmm_inv pmm" and "pmm_initialized pmm" and "0 < count"
  shows "case pmm_alloc_pages count pmm of (address, pmm') \<Rightarrow>
    if \<exists>s. {s..<s + count} \<subseteq> free_set pmm
    then \<exists>s. {s..<s + count} \<subseteq> free_set pmm \<and> address = s * FRAME_SIZE \<and> address \<noteq> 0
           \<and> free_set pmm' = free_set pmm - {s..<s + count} \<and> usable_set pmm' = usable_set pmm
           \<and> pmm_inv pmm' \<and> pmm_initialized pmm'
    else address = 0 \<and> pmm' = pmm"
  using pmm_alloc_pages_run [OF assms]
  by (auto simp: takes_frames_def FRAME_SIZE_def split: prod.splits)

theorem pmm_alloc_pages_correct_witness:
  "\<exists>s. {s..<s + 2} \<subseteq> {1, 2, 3 :: nat} \<and> fst (pmm_alloc_pages 2 pmm_three_frames) = s * 4096
     \<and> free_set (snd (pmm_alloc_pages 2 pmm_three_frames)) = {1, 2, 3} - {s..<s + 2}"
proof -
  have "{1..<1 + 2} \<subseteq> {1, 2, 3 :: nat}" by auto
  then have "\<exists>s. {s..<s + 2} \<subseteq> free_set pmm_three_frames"
    unfolding pmm_three_frames_ready by blast
  with pmm_alloc_pages_correct [OF pmm_three_frames_ready(1,2), of 2] show ?thesis
    by (auto simp: pmm_three_frames_ready FRAME_SIZE_def split: prod.splits)
qed

text \<open>
  Freeing a run is all or nothing: it succeeds exactly when the address is aligned, the count
  is positive and every frame of the run is allocated, and then exactly the frames of the run
  become free; otherwise nothing changes.
\<close>

theorem pmm_free_pages_correct:
  assumes "pmm_inv pmm" and "pmm_initialized pmm"
  shows "case pmm_free_pages p count pmm of (ok, pmm') \<Rightarrow>
    (ok \<longleftrightarrow> 0 < count \<and> p mod FRAME_SIZE = 0
        \<and> {p div FRAME_SIZE..<p div FRAME_SIZE + count} \<subseteq> usable_set pmm - free_set pmm)
    \<and> (if ok then free_set pmm' = free_set pmm \<union> {p div FRAME_SIZE..<p div FRAME_SIZE + count}
               \<and> usable_set pmm' = usable_set pmm \<and> pmm_inv pmm' \<and> pmm_initialized pmm'
       else pmm' = pmm)"
proof (cases "0 < count \<and> p mod FRAME_SIZE = 0
    \<and> {p div FRAME_SIZE..<p div FRAME_SIZE + count} \<subseteq> usable_set pmm - free_set pmm")
  case True
  then have "p div FRAME_SIZE * FRAME_SIZE = p" by auto
  with pmm_free_pages_owned [OF assms, of count "p div FRAME_SIZE"] True
  show ?thesis by (auto simp: returns_frames_def)
next
  case False
  then have "pmm_free_pages p count pmm = (False, pmm)"
    by (intro pmm_free_pages_other [OF assms(1)]) auto
  with False show ?thesis by simp
qed

theorem pmm_free_pages_correct_witness:
  "fst (pmm_free_pages 4096 3 pmm_all_taken)
   \<and> free_set (snd (pmm_free_pages 4096 3 pmm_all_taken)) = {1, 2, 3}"
proof -
  have "{4096 div FRAME_SIZE..<4096 div FRAME_SIZE + 3} = {1, 2, 3 :: nat}"
    by (auto simp: FRAME_SIZE_def)
  with pmm_free_pages_correct [OF pmm_all_taken_ready(1,2), where p = 4096 and count = 3]
  show ?thesis by (auto simp: pmm_all_taken_ready FRAME_SIZE_def split: prod.splits if_splits)
qed

end
