(* ===== verification/KOS_Memory.thy ===== *)
theory KOS_Memory
  imports KOS_Prelude
begin

text \<open>
  The freestanding C runtime routines of \<open>src/lib/memory.c\<close> over a byte-addressed store.
  A store maps every address to its byte; a pointer is an address and \<open>0\<close> is the null pointer.
  A counted loop is a fold over its index range in the order the C loop visits it, so overlapping
  source and destination ranges behave as in the code. \<open>kstrlen\<close> and \<open>kstrcmp\<close> scan for a
  terminator that may be missing; they are partial functions into \<open>option\<close> and the lemmas prove
  that they return on terminated strings.
\<close>

type_synonym bytes = "nat \<Rightarrow> u8"

definition memset :: "nat \<Rightarrow> int \<Rightarrow> nat \<Rightarrow> bytes \<Rightarrow> nat \<times> bytes" where
  "memset destination value n m =
     (destination, fold (\<lambda>index m. m(destination + index := word_of_int value)) [0..<n] m)"

definition copy_byte :: "nat \<Rightarrow> nat \<Rightarrow> nat \<Rightarrow> bytes \<Rightarrow> bytes" where
  "copy_byte target input index m = m(target + index := m (input + index))"

definition memcpy :: "nat \<Rightarrow> nat \<Rightarrow> nat \<Rightarrow> bytes \<Rightarrow> nat \<times> bytes" where
  "memcpy destination source n m =
     (destination, fold (copy_byte destination source) [0..<n] m)"

definition memmove :: "nat \<Rightarrow> nat \<Rightarrow> nat \<Rightarrow> bytes \<Rightarrow> nat \<times> bytes" where
  "memmove destination source n m =
     (destination,
      if destination < source then fold (copy_byte destination source) [0..<n] m
      else if destination > source then fold (copy_byte destination source) (rev [0..<n]) m
      else m)"

fun memcmp_from :: "nat \<Rightarrow> nat \<Rightarrow> nat list \<Rightarrow> bytes \<Rightarrow> int" where
  "memcmp_from first second [] m = 0"
| "memcmp_from first second (index # rest) m =
     (if m (first + index) \<noteq> m (second + index)
      then if m (first + index) < m (second + index) then -1 else 1
      else memcmp_from first second rest m)"

definition memcmp :: "nat \<Rightarrow> nat \<Rightarrow> nat \<Rightarrow> bytes \<Rightarrow> int" where
  "memcmp left right n m = memcmp_from left right [0..<n] m"

partial_function (option) strlen_from :: "bytes \<Rightarrow> nat \<Rightarrow> nat \<Rightarrow> nat option" where
  [code]: "strlen_from m s len = (if m (s + len) \<noteq> 0 then strlen_from m s (len + 1) else Some len)"

definition kstrlen :: "nat \<Rightarrow> bytes \<Rightarrow> nat option" where
  "kstrlen s m = (if s = 0 then Some 0 else strlen_from m s 0)"

definition byte_diff :: "u8 \<Rightarrow> u8 \<Rightarrow> int" where
  "byte_diff a b = uint a - uint b"

partial_function (option) strcmp_from :: "bytes \<Rightarrow> nat \<Rightarrow> nat \<Rightarrow> int option" where
  [code]: "strcmp_from m s1 s2 =
     (if m s1 \<noteq> 0 \<and> m s1 = m s2 then strcmp_from m (s1 + 1) (s2 + 1)
      else Some (byte_diff (m s1) (m s2)))"

definition kstrcmp :: "nat \<Rightarrow> nat \<Rightarrow> bytes \<Rightarrow> int option" where
  "kstrcmp s1 s2 m =
     (if s1 = s2 then Some 0 else if s1 = 0 then Some (-1) else if s2 = 0 then Some 1
      else strcmp_from m s1 s2)"

fun kstrncmp :: "nat \<Rightarrow> nat \<Rightarrow> nat \<Rightarrow> bytes \<Rightarrow> int" where
  "kstrncmp s1 s2 0 m = 0"
| "kstrncmp s1 s2 (Suc n) m =
     (if m s1 \<noteq> 0 \<and> m s2 \<noteq> 0 \<and> m s1 = m s2 then kstrncmp (s1 + 1) (s2 + 1) n m
      else byte_diff (m s1) (m s2))"

fun strncpy_copy :: "nat \<Rightarrow> nat \<Rightarrow> nat list \<Rightarrow> bytes \<Rightarrow> nat list \<times> bytes" where
  "strncpy_copy dst src [] m = ([], m)"
| "strncpy_copy dst src (i # rest) m =
     (if m (src + i) \<noteq> 0 then strncpy_copy dst src rest (copy_byte dst src i m) else (i # rest, m))"

definition kstrncpy :: "nat \<Rightarrow> nat \<Rightarrow> nat \<Rightarrow> bytes \<Rightarrow> nat \<times> bytes" where
  "kstrncpy dst src n m =
     (if dst = 0 \<or> n = 0 then (dst, m)
      else let (rest, m') = (if src \<noteq> 0 then strncpy_copy dst src [0..<n] m else ([0..<n], m))
           in (dst, fold (\<lambda>i m. m(dst + i := 0)) rest m'))"

section \<open>Block operations\<close>

text \<open>The store in which the range at \<open>dst\<close> holds what \<open>m\<close> has at \<open>src\<close>.\<close>

definition copied :: "nat \<Rightarrow> nat \<Rightarrow> nat \<Rightarrow> bytes \<Rightarrow> bytes" where
  "copied dst src n m = (\<lambda>a. if dst \<le> a \<and> a < dst + n then m (src + (a - dst)) else m a)"

lemma fold_fill: "fold (\<lambda>i m. m(d + i := v)) [a..<b] m
    = (\<lambda>x. if d + a \<le> x \<and> x < d + b then v else m x)"
  by (induction b) (auto simp: fun_eq_iff)

lemma memset_eq: "snd (memset d v n m) = (\<lambda>a. if d \<le> a \<and> a < d + n then word_of_int v else m a)"
  by (simp add: memset_def fold_fill [where a = 0, simplified])

text \<open>An ascending copy is right when the destination does not run into source bytes still to be
  read; a descending copy is right in the opposite case.\<close>

lemma copy_up:
  assumes "dst \<le> src \<or> src + n \<le> dst"
  shows "fold (copy_byte dst src) [0..<n] m = copied dst src n m"
  using assms
proof (induction n)
  case 0
  then show ?case by (auto simp: copied_def fun_eq_iff)
next
  case (Suc n)
  then have "fold (copy_byte dst src) [0..<Suc n] m = copy_byte dst src n (copied dst src n m)"
    by auto
  also have "\<dots> = copied dst src (Suc n) m"
    using Suc.prems by (auto simp: copied_def copy_byte_def fun_eq_iff)
  finally show ?case .
qed

lemma copy_down_from:
  assumes "src \<le> dst"
  shows "fold (copy_byte dst src) (rev [a..<a + k]) m
    = (\<lambda>x. if dst + a \<le> x \<and> x < dst + a + k then m (src + (x - dst)) else m x)"
  using assms
proof (induction k arbitrary: a m)
  case (Suc k)
  have "[a..<a + Suc k] = a # [Suc a..<Suc a + k]" by (simp add: upt_rec)
  with Suc.IH [of "Suc a" m] Suc.prems
  have "fold (copy_byte dst src) (rev [a..<a + Suc k]) m = copy_byte dst src a
    (\<lambda>x. if dst + Suc a \<le> x \<and> x < dst + Suc a + k then m (src + (x - dst)) else m x)"
    by simp
  also have "\<dots> = (\<lambda>x. if dst + a \<le> x \<and> x < dst + a + Suc k then m (src + (x - dst)) else m x)"
    using Suc.prems by (auto simp: copy_byte_def fun_eq_iff)
  finally show ?case .
qed (auto simp: fun_eq_iff)

lemma memcpy_eq:
  "dst \<le> src \<or> src + n \<le> dst \<Longrightarrow> memcpy dst src n m = (dst, copied dst src n m)"
  by (simp add: memcpy_def copy_up)

lemma memmove_eq: "memmove dst src n m = (dst, copied dst src n m)"
  using copy_down_from [of src dst 0 n m] copy_up [of dst src n m]
  by (auto simp: memmove_def copied_def fun_eq_iff)

lemma memcmp_from_zero:
  "memcmp_from l r is m = 0 \<longleftrightarrow> (\<forall>i \<in> set is. m (l + i) = m (r + i))"
  by (induction "is") auto

lemma memcmp_from_sign:
  assumes "i < n" and "m (l + i) \<noteq> m (r + i)" and "\<forall>j < i. m (l + j) = m (r + j)" and "a \<le> i"
  shows "memcmp_from l r [a..<n] m = (if m (l + i) < m (r + i) then -1 else 1)"
  using assms
proof (induction "i - a" arbitrary: a)
  case 0
  then have "[a..<n] = a # [Suc a..<n]" and "a = i" by (simp_all add: upt_conv_Cons)
  with 0 show ?case by simp
next
  case (Suc k)
  then have "[a..<n] = a # [Suc a..<n]" and "a < i" by (simp_all add: upt_conv_Cons)
  moreover from this Suc have "memcmp_from l r [Suc a..<n] m = (if m (l + i) < m (r + i) then -1 else 1)"
    by simp
  ultimately show ?case using Suc.prems by simp
qed

section \<open>Strings\<close>

text \<open>The bytes \<open>xs\<close> followed by a terminator stand at \<open>s\<close>.\<close>

fun cstr :: "bytes \<Rightarrow> nat \<Rightarrow> u8 list \<Rightarrow> bool" where
  "cstr m s [] \<longleftrightarrow> m s = 0"
| "cstr m s (x # xs) \<longleftrightarrow> x \<noteq> 0 \<and> m s = x \<and> cstr m (s + 1) xs"

lemma strlen_from_cstr: "cstr m (s + k) xs \<Longrightarrow> strlen_from m s k = Some (k + length xs)"
proof (induction xs arbitrary: k)
  case Nil
  then show ?case by (subst strlen_from.simps) simp
next
  case (Cons x xs)
  then show ?case by (subst strlen_from.simps) simp
qed

lemma cstr_nth: "cstr m s xs \<Longrightarrow> i < length xs \<Longrightarrow> m (s + i) = xs ! i \<and> xs ! i \<noteq> 0"
proof (induction xs arbitrary: s i)
  case (Cons x xs)
  then show ?case using Cons.IH [of "s + 1" "i - 1"] by (cases i) auto
qed simp

lemma cstr_unique: "cstr m s xs \<Longrightarrow> cstr m s ys \<Longrightarrow> xs = ys"
proof (induction xs arbitrary: s ys)
  case Nil
  then show ?case by (cases ys) auto
next
  case (Cons x xs)
  then show ?case by (cases ys) auto
qed

lemma cstr_end: "cstr m s xs \<Longrightarrow> m (s + length xs) = 0"
  by (induction m s xs rule: cstr.induct) auto

lemma byte_diff_zero [simp]: "byte_diff a b = 0 \<longleftrightarrow> a = b"
  by (simp add: byte_diff_def word_uint_eq_iff)

lemma byte_diff_neg [simp]: "byte_diff a b < 0 \<longleftrightarrow> a < b"
  by (simp add: byte_diff_def word_less_def)

text \<open>The comparison that \<open>kstrcmp\<close> computes: the lexicographic order of the byte strings.\<close>

lemma strcmp_from_cstr:
  assumes "cstr m s xs" and "cstr m t ys"
  shows "\<exists>r. strcmp_from m s t = Some r \<and> (r = 0 \<longleftrightarrow> xs = ys) \<and> (r < 0 \<longleftrightarrow> ord_class.lexordp xs ys)"
  using assms
proof (induction xs arbitrary: s t ys)
  case Nil
  then show ?case
    by (cases ys; subst strcmp_from.simps) (auto simp: word_gt_0)
next
  case (Cons x xs)
  show ?case
  proof (cases ys)
    case Nil
    with Cons.prems show ?thesis by (subst strcmp_from.simps) auto
  next
    case (Cons y ys')
    show ?thesis
    proof (cases "x = y")
      case True
      with Cons.IH [of "s + 1" "t + 1" ys'] Cons Cons.prems show ?thesis
        by (subst strcmp_from.simps) auto
    next
      case False
      with Cons Cons.prems show ?thesis by (subst strcmp_from.simps) auto
    qed
  qed
qed

lemma kstrncmp_take:
  assumes "cstr m s xs" and "cstr m t ys"
  shows "kstrncmp s t n m = 0 \<longleftrightarrow> take n xs = take n ys"
  using assms
proof (induction n arbitrary: s t xs ys)
  case (Suc n)
  then show ?case by (cases xs; cases ys) auto
qed simp

text \<open>\<open>kstrncpy\<close>: the copying loop stops at the terminator or at \<open>n\<close>, and the rest is padded.\<close>

lemma copied_Suc: "dst + n \<le> src \<or> src + k < dst \<Longrightarrow> a < n \<Longrightarrow> a \<le> k \<Longrightarrow>
    copy_byte dst src a (copied dst src a m) = copied dst src (Suc a) m"
  by (auto simp: copy_byte_def copied_def fun_eq_iff)

lemma strncpy_copy_eq:
  assumes C: "cstr m src xs" and D: "dst + n \<le> src \<or> src + length xs < dst"
    and "a \<le> min n (length xs)"
  shows "strncpy_copy dst src [a..<n] (copied dst src a m) =
    ([min n (length xs)..<n], copied dst src (min n (length xs)) m)"
  using assms(3)
proof (induction "min n (length xs) - a" arbitrary: a)
  case 0
  then have a: "a = min n (length xs)" by simp
  show ?case
  proof (cases "a < n")
    case True
    with a have "a = length xs" by simp
    with True D cstr_end [OF C] have "copied dst src a m (src + a) = 0" by (auto simp: copied_def)
    moreover have "[a..<n] = a # [Suc a..<n]" using True by (simp add: upt_conv_Cons)
    ultimately show ?thesis using \<open>a = length xs\<close> a by simp
  qed (use a in auto)
next
  case (Suc k)
  then have lt: "a < n" "a < length xs" by auto
  then have e: "[a..<n] = a # [Suc a..<n]" by (simp add: upt_conv_Cons)
  from lt D cstr_nth [OF C lt(2)] have "copied dst src a m (src + a) \<noteq> 0"
    by (auto simp: copied_def)
  moreover have "copy_byte dst src a (copied dst src a m) = copied dst src (Suc a) m"
    by (rule copied_Suc [OF D]) (use lt in auto)
  ultimately show ?case using e Suc.hyps(1) [of "Suc a"] Suc.hyps(2) lt by simp
qed

lemma kstrncpy_eq:
  assumes "cstr m src xs" and "dst + n \<le> src \<or> src + length xs < dst" and "dst \<noteq> 0" "src \<noteq> 0"
  shows "kstrncpy dst src n m = (dst, \<lambda>a. if dst \<le> a \<and> a < dst + n
           then if a - dst < length xs then xs ! (a - dst) else 0 else m a)"
proof -
  have K: "m (src + x - dst) = xs ! (x - dst)" if "dst \<le> x" "x - dst < length xs" for x
    using cstr_nth [OF assms(1) that(2)] that(1) by simp
  have c0: "copied dst src 0 m = m" by (auto simp: copied_def fun_eq_iff)
  have "snd (kstrncpy dst src n m) = fold (\<lambda>i m. m(dst + i := 0)) [min n (length xs)..<n]
      (copied dst src (min n (length xs)) m)"
    using strncpy_copy_eq [OF assms(1,2), of 0] assms(3,4) by (auto simp: c0 kstrncpy_def)
  also have "\<dots> = (\<lambda>a. if dst \<le> a \<and> a < dst + n
           then if a - dst < length xs then xs ! (a - dst) else 0 else m a)"
    unfolding fold_fill using K by (auto simp: copied_def fun_eq_iff)
  finally show ?thesis by (simp add: prod_eq_iff) (simp add: kstrncpy_def Let_def split: prod.split)
qed

section \<open>Properties\<close>

text \<open>\<open>memmove\<close> copies the source range to the destination for every overlap of the two ranges,
  leaves all other bytes alone and returns the destination.\<close>

theorem memmove_correct:
  "memmove dst src n m =
     (dst, \<lambda>a. if dst \<le> a \<and> a < dst + n then m (src + (a - dst)) else m a)"
  by (simp add: memmove_eq copied_def)

text \<open>On terminated strings \<open>kstrlen\<close> and \<open>kstrcmp\<close> return: the length is the number of bytes
  before the terminator, the comparison is zero exactly on equal strings and negative exactly when
  the first string precedes the second in the lexicographic order of their bytes, and \<open>kstrncpy\<close>
  into a range apart from the source leaves exactly the string cut to \<open>n\<close> bytes and padded with
  zeros.\<close>

theorem kstr_correct:
  assumes "cstr m s xs" and "cstr m t ys" and "s \<noteq> 0" and "t \<noteq> 0"
    and "dst \<noteq> 0" and "dst + n \<le> s \<or> s + length xs < dst"
  shows "kstrlen s m = Some (length xs)
    \<and> (\<exists>r. kstrcmp s t m = Some r \<and> (r = 0 \<longleftrightarrow> xs = ys) \<and> (r < 0 \<longleftrightarrow> ord_class.lexordp xs ys))
    \<and> kstrncpy dst s n m = (dst, \<lambda>a. if dst \<le> a \<and> a < dst + n
           then if a - dst < length xs then xs ! (a - dst) else 0 else m a)"
proof (intro conjI)
  show "kstrlen s m = Some (length xs)"
    using strlen_from_cstr [of m s 0 xs] assms by (simp add: kstrlen_def)
  show "\<exists>r. kstrcmp s t m = Some r \<and> (r = 0 \<longleftrightarrow> xs = ys) \<and> (r < 0 \<longleftrightarrow> ord_class.lexordp xs ys)"
  proof (cases "s = t")
    case True
    with assms have "xs = ys" using cstr_unique by blast
    with True show ?thesis by (simp add: kstrcmp_def lexordp_irreflexive')
  next
    case False
    with strcmp_from_cstr [OF assms(1,2)] assms(3,4) show ?thesis by (simp add: kstrcmp_def)
  qed
qed (rule kstrncpy_eq [OF assms(1,6,5,3)])

text \<open>A store with the strings \<open>ab\<close> at 8 and \<open>b\<close> at 16.\<close>

definition kstr_store :: bytes where
  "kstr_store = (\<lambda>_. 0)(8 := 97, 9 := 98, 16 := 98)"

theorem kstr_correct_witness:
  "kstrlen 8 kstr_store = Some 2 \<and> (\<exists>r. kstrcmp 8 16 kstr_store = Some r \<and> r < 0)
    \<and> snd (kstrncpy 32 8 3 kstr_store) 33 = 98"
  using kstr_correct [of kstr_store 8 "[97, 98]" 16 "[98]" 32 3]
  by (auto simp: kstr_store_def)

end
