(* ===== verification/KOS_List.thy ===== *)
theory KOS_List
  imports KOS_Prelude
begin

text \<open>
  The intrusive circular doubly linked list of \<open>src/include/kos/list.h\<close>. A store maps the address of
  every \<open>struct list_head\<close> to its two pointers; each operation performs the pointer writes of the
  code in their order, reading the store again wherever the code dereferences again. The predicate
  \<open>dlist\<close> says which list of nodes hangs off a head, and the lemmas show that the pointer code
  refines the list operations \<open>Cons\<close>, append and removal, and leaves every other node of the store
  alone. \<open>list_entry\<close> is address arithmetic on the enclosing structure; a node stands for the
  structure that embeds it. The locale \<open>node_queue\<close> is what the clients of these lists rely on.
\<close>

record list_head =
  next_ptr :: nat
  prev_ptr :: nat

type_synonym list_store = "nat \<Rightarrow> list_head"

definition set_next :: "nat \<Rightarrow> nat \<Rightarrow> list_store \<Rightarrow> list_store" where
  "set_next p v h = h(p := (h p)\<lparr>next_ptr := v\<rparr>)"

definition set_prev :: "nat \<Rightarrow> nat \<Rightarrow> list_store \<Rightarrow> list_store" where
  "set_prev p v h = h(p := (h p)\<lparr>prev_ptr := v\<rparr>)"

definition list_init :: "nat \<Rightarrow> list_store \<Rightarrow> list_store" where
  "list_init list h = set_prev list list (set_next list list h)"

definition list_add_between :: "nat \<Rightarrow> nat \<Rightarrow> nat \<Rightarrow> list_store \<Rightarrow> list_store" where
  "list_add_between new_node prev next h =
     set_next prev new_node (set_prev new_node prev (set_next new_node next (set_prev next new_node h)))"

definition list_add :: "nat \<Rightarrow> nat \<Rightarrow> list_store \<Rightarrow> list_store" where
  "list_add new_node head h = list_add_between new_node head (next_ptr (h head)) h"

definition list_add_tail :: "nat \<Rightarrow> nat \<Rightarrow> list_store \<Rightarrow> list_store" where
  "list_add_tail new_node head h = list_add_between new_node (prev_ptr (h head)) head h"

definition list_unlink :: "nat \<Rightarrow> nat \<Rightarrow> list_store \<Rightarrow> list_store" where
  "list_unlink prev next h = set_next prev next (set_prev next prev h)"

definition list_del :: "nat \<Rightarrow> list_store \<Rightarrow> list_store" where
  "list_del entry h = set_prev entry 0 (set_next entry 0
     (list_unlink (prev_ptr (h entry)) (next_ptr (h entry)) h))"

definition list_del_init :: "nat \<Rightarrow> list_store \<Rightarrow> list_store" where
  "list_del_init entry h =
     list_init entry (list_unlink (prev_ptr (h entry)) (next_ptr (h entry)) h)"

definition list_empty :: "nat \<Rightarrow> list_store \<Rightarrow> bool" where
  "list_empty head h \<longleftrightarrow> next_ptr (h head) = head"

definition list_first_entry :: "nat \<Rightarrow> list_store \<Rightarrow> nat" where
  "list_first_entry head h = next_ptr (h head)"

definition list_last_entry :: "nat \<Rightarrow> list_store \<Rightarrow> nat" where
  "list_last_entry head h = prev_ptr (h head)"

text \<open>The traversal macros: the nodes the loop visits from \<open>pos\<close> until it is back at the head. A
  damaged list may never come back, so the traversal is partial.\<close>

partial_function (option) list_for_each_from :: "(nat \<Rightarrow> nat) \<Rightarrow> nat \<Rightarrow> nat \<Rightarrow> nat list option" where
  [code]: "list_for_each_from succ head pos =
     (if pos = head then Some []
      else Option.bind (list_for_each_from succ head (succ pos)) (\<lambda>rest. Some (pos # rest)))"

definition list_for_each_entry :: "nat \<Rightarrow> list_store \<Rightarrow> nat list option" where
  "list_for_each_entry head h = list_for_each_from (\<lambda>p. next_ptr (h p)) head (next_ptr (h head))"

definition list_for_each_entry_reverse :: "nat \<Rightarrow> list_store \<Rightarrow> nat list option" where
  "list_for_each_entry_reverse head h =
     list_for_each_from (\<lambda>p. prev_ptr (h p)) head (prev_ptr (h head))"

section \<open>The list at a head\<close>

text \<open>\<open>linked h a xs b\<close>: following \<open>next\<close> from \<open>a\<close> gives \<open>xs\<close> and then \<open>b\<close>, and each \<open>prev\<close> points
  back.\<close>

fun linked :: "list_store \<Rightarrow> nat \<Rightarrow> nat list \<Rightarrow> nat \<Rightarrow> bool" where
  "linked h a [] b \<longleftrightarrow> next_ptr (h a) = b \<and> prev_ptr (h b) = a"
| "linked h a (x # xs) b \<longleftrightarrow> next_ptr (h a) = x \<and> prev_ptr (h x) = a \<and> linked h x xs b"

definition dlist :: "list_store \<Rightarrow> nat \<Rightarrow> nat list \<Rightarrow> bool" where
  "dlist h head xs \<longleftrightarrow> distinct (head # xs) \<and> 0 \<notin> set (head # xs) \<and> linked h head xs head"

lemma store_simps [simp]:
  "next_ptr (set_next p v h q) = (if q = p then v else next_ptr (h q))"
  "prev_ptr (set_next p v h q) = prev_ptr (h q)"
  "prev_ptr (set_prev p v h q) = (if q = p then v else prev_ptr (h q))"
  "next_ptr (set_prev p v h q) = next_ptr (h q)"
  by (simp_all add: set_next_def set_prev_def)

lemma linked_append:
  "linked h a (xs @ y # ys) b \<longleftrightarrow> linked h a xs y \<and> linked h y ys b"
  by (induction xs arbitrary: a) auto

text \<open>A segment reads the \<open>next\<close> of all its nodes but the end, and the \<open>prev\<close> of all but the start.\<close>

lemma linked_cong:
  assumes "\<And>p. p \<in> set (a # xs) \<Longrightarrow> next_ptr (h' p) = next_ptr (h p)"
    and "\<And>p. p \<in> set (xs @ [b]) \<Longrightarrow> prev_ptr (h' p) = prev_ptr (h p)"
  shows "linked h' a xs b = linked h a xs b"
  using assms by (induction xs arbitrary: a) auto

lemma linked_first: "linked h a xs b \<Longrightarrow> next_ptr (h a) = hd (xs @ [b])"
  by (cases xs) auto

lemma linked_last: "linked h a xs b \<Longrightarrow> prev_ptr (h b) = last (a # xs)"
  by (induction xs arbitrary: a) auto

lemma list_add_between_apply:
  "next_ptr (list_add_between n p q h x) =
     (if x = p then n else if x = n then q else next_ptr (h x))"
  "prev_ptr (list_add_between n p q h x) =
     (if x = n then p else if x = q then n else prev_ptr (h x))"
  by (auto simp: list_add_between_def)

lemma list_unlink_apply:
  "next_ptr (list_unlink p q h x) = (if x = p then q else next_ptr (h x))"
  "prev_ptr (list_unlink p q h x) = (if x = q then p else prev_ptr (h x))"
  by (auto simp: list_unlink_def)

lemma dlist_init: "head \<noteq> 0 \<Longrightarrow> dlist (list_init head h) head []"
  by (simp add: dlist_def list_init_def)

text \<open>Splicing a fresh node between two neighbours, and unlinking a node.\<close>

lemma linked_splice:
  assumes "linked h a (us @ vs) b" and "distinct (a # us @ vs)" and "b \<notin> set (us @ vs)"
    and "n \<notin> set (a # us @ vs @ [b])"
  shows "linked (list_add_between n (last (a # us)) (hd (vs @ [b])) h) a (us @ n # vs) b"
  using assms
proof (induction us arbitrary: a)
  case Nil
  show ?case
  proof (cases vs)
    case Nil
    with Nil.prems show ?thesis by (auto simp: list_add_between_apply)
  next
    case (Cons v vs')
    with Nil.prems have "linked (list_add_between n a v h) v vs' b"
      by (subst linked_cong [where h = h]) (auto simp: list_add_between_apply)
    with Nil.prems Cons show ?thesis by (auto simp: list_add_between_apply)
  qed
next
  case (Cons u us)
  let ?h = "list_add_between n (last (u # us)) (hd (vs @ [b])) h"
  from Cons.prems have "linked ?h u (us @ n # vs) b" by (intro Cons.IH) auto
  moreover have "last (u # us) \<in> set (u # us)" and "hd (vs @ [b]) \<in> set (vs @ [b])"
    by (rule last_in_set hd_in_set; simp)+
  ultimately show ?case
    using Cons.prems by (auto simp: list_add_between_apply)
qed

lemma linked_unlink:
  assumes "linked h a (us @ x # vs) b" and "distinct (a # us @ x # vs)" and "b \<notin> set (us @ x # vs)"
  shows "linked (list_unlink (last (a # us)) (hd (vs @ [b])) h) a (us @ vs) b"
  using assms
proof (induction us arbitrary: a)
  case Nil
  show ?case
  proof (cases vs)
    case Nil
    with Nil.prems show ?thesis by (auto simp: list_unlink_apply)
  next
    case (Cons v vs')
    with Nil.prems have "linked (list_unlink a v h) v vs' b"
      by (subst linked_cong [where h = h]) (auto simp: list_unlink_apply)
    with Nil.prems Cons show ?thesis by (auto simp: list_unlink_apply)
  qed
next
  case (Cons u us)
  let ?h = "list_unlink (last (u # us)) (hd (vs @ [b])) h"
  from Cons.prems have "linked ?h u (us @ vs) b" by (intro Cons.IH) auto
  moreover have "last (u # us) \<in> set (u # us)" and "hd (vs @ [b]) \<in> set (vs @ [b])"
    by (rule last_in_set hd_in_set; simp)+
  ultimately show ?case
    using Cons.prems by (auto simp: list_unlink_apply)
qed

lemma dlist_neighbours:
  assumes "dlist h head (us @ x # vs)"
  shows "next_ptr (h x) = hd (vs @ [head])" and "prev_ptr (h x) = last (head # us)"
proof -
  from assms have "linked h head us x" "linked h x vs head"
    by (auto simp: dlist_def linked_append)
  then show "next_ptr (h x) = hd (vs @ [head])" "prev_ptr (h x) = last (head # us)"
    by (auto dest: linked_first linked_last)
qed

lemma dlist_splice:
  assumes "dlist h head (us @ vs)" and "n \<notin> set (head # us @ vs)" and "n \<noteq> 0"
    and "p = last (head # us)" and "q = hd (vs @ [head])"
  shows "dlist (list_add_between n p q h) head (us @ n # vs)"
  using assms linked_splice [of h head us vs head n] by (auto simp: dlist_def)

lemma dlist_add:
  assumes "dlist h head xs" and "n \<notin> set (head # xs)" and "n \<noteq> 0"
  shows "dlist (list_add n head h) head (n # xs)"
proof -
  from assms(1) have "next_ptr (h head) = hd (xs @ [head])"
    by (auto simp: dlist_def dest: linked_first)
  with dlist_splice [of h head "[]" xs n head "next_ptr (h head)"] assms show ?thesis
    by (simp add: list_add_def)
qed

lemma dlist_add_tail:
  assumes "dlist h head xs" and "n \<notin> set (head # xs)" and "n \<noteq> 0"
  shows "dlist (list_add_tail n head h) head (xs @ [n])"
proof -
  from assms(1) have "prev_ptr (h head) = last (head # xs)"
    by (auto simp: dlist_def dest: linked_last)
  with dlist_splice [of h head xs "[]" n "prev_ptr (h head)" head] assms show ?thesis
    by (simp add: list_add_tail_def)
qed

lemma dlist_unlink:
  assumes "dlist h head (us @ x # vs)"
  shows "dlist (list_unlink (prev_ptr (h x)) (next_ptr (h x)) h) head (us @ vs)"
  using assms linked_unlink [of h head us x vs head] dlist_neighbours [OF assms]
  by (auto simp: dlist_def)

text \<open>A list is a property of its own nodes.\<close>

lemma dlist_cong: "(\<And>p. p \<in> set (head # xs) \<Longrightarrow> h' p = h p) \<Longrightarrow> dlist h' head xs = dlist h head xs"
  unfolding dlist_def by (intro conj_cong refl linked_cong) auto

lemma dlist_del:
  assumes "dlist h head (us @ x # vs)"
  shows "dlist (list_del x h) head (us @ vs)" and "next_ptr (list_del x h x) = 0"
proof -
  let ?u = "list_unlink (prev_ptr (h x)) (next_ptr (h x)) h"
  from assms have "x \<notin> set (head # us @ vs)" by (auto simp: dlist_def)
  then have "dlist (list_del x h) head (us @ vs) = dlist ?u head (us @ vs)"
    by (intro dlist_cong) (auto simp: list_del_def set_next_def set_prev_def)
  with dlist_unlink [OF assms] show "dlist (list_del x h) head (us @ vs)" by simp
qed (simp add: list_del_def)

lemma dlist_del_init:
  assumes "dlist h head (us @ x # vs)"
  shows "dlist (list_del_init x h) head (us @ vs)" and "next_ptr (list_del_init x h x) = x"
proof -
  let ?u = "list_unlink (prev_ptr (h x)) (next_ptr (h x)) h"
  from assms have "x \<notin> set (head # us @ vs)" by (auto simp: dlist_def)
  then have "dlist (list_del_init x h) head (us @ vs) = dlist ?u head (us @ vs)"
    by (intro dlist_cong) (auto simp: list_del_init_def list_init_def set_next_def set_prev_def)
  with dlist_unlink [OF assms] show "dlist (list_del_init x h) head (us @ vs)" by simp
qed (simp add: list_del_init_def list_init_def)

lemma dlist_distinct: "dlist h head xs \<Longrightarrow> distinct (head # xs) \<and> 0 \<notin> set (head # xs)"
  by (simp add: dlist_def)

lemma dlist_empty_iff: "dlist h head xs \<Longrightarrow> list_empty head h \<longleftrightarrow> xs = []"
  by (cases xs) (auto simp: dlist_def list_empty_def)

lemma dlist_first: "dlist h head (x # xs) \<Longrightarrow> list_first_entry head h = x"
  by (simp add: dlist_def list_first_entry_def)

lemma dlist_last: "dlist h head (xs @ [x]) \<Longrightarrow> list_last_entry head h = x"
  by (auto simp: dlist_def list_last_entry_def dest: linked_last)

text \<open>What the operations leave alone.\<close>

lemma dlist_mem_neighbours:
  assumes "dlist h head xs" and "x \<in> set (head # xs)"
  shows "next_ptr (h x) \<in> set (head # xs)" and "prev_ptr (h x) \<in> set (head # xs)"
proof -
  have "next_ptr (h x) \<in> set (head # xs) \<and> prev_ptr (h x) \<in> set (head # xs)"
  proof (cases "x = head")
    case True
    with assms have "next_ptr (h x) = hd (xs @ [head])" "prev_ptr (h x) = last (head # xs)"
      by (auto simp: dlist_def dest: linked_first linked_last)
    moreover have "hd (xs @ [head]) \<in> set (xs @ [head])" "last (head # xs) \<in> set (head # xs)"
      by (rule hd_in_set last_in_set; simp)+
    ultimately show ?thesis by auto
  next
    case False
    with assms obtain us vs where xs: "xs = us @ x # vs" by (auto dest: split_list)
    moreover have "hd (vs @ [head]) \<in> set (vs @ [head])" "last (head # us) \<in> set (head # us)"
      by (rule hd_in_set last_in_set; simp)+
    ultimately show ?thesis using dlist_neighbours [of h head us x vs] assms by auto
  qed
  then show "next_ptr (h x) \<in> set (head # xs)" and "prev_ptr (h x) \<in> set (head # xs)" by auto
qed

lemma list_add_between_frame: "y \<notin> {n, p, q} \<Longrightarrow> list_add_between n p q h y = h y"
  by (simp add: list_add_between_def set_next_def set_prev_def)

lemma list_add_tail_frame:
  "dlist h head xs \<Longrightarrow> y \<notin> set (n # head # xs) \<Longrightarrow> list_add_tail n head h y = h y"
  using dlist_mem_neighbours [of h head xs head]
  by (auto simp: list_add_tail_def intro!: list_add_between_frame)

lemma list_add_frame:
  "dlist h head xs \<Longrightarrow> y \<notin> set (n # head # xs) \<Longrightarrow> list_add n head h y = h y"
  using dlist_mem_neighbours [of h head xs head]
  by (auto simp: list_add_def intro!: list_add_between_frame)

lemma list_del_init_frame:
  assumes "dlist h head xs" and "x \<in> set xs" and "y \<notin> set (head # xs)"
  shows "list_del_init x h y = h y"
proof -
  have "y \<noteq> x" "y \<noteq> next_ptr (h x)" "y \<noteq> prev_ptr (h x)"
    using dlist_mem_neighbours [of h head xs x] assms by auto
  then show ?thesis
    by (simp add: list_del_init_def list_init_def list_unlink_def set_next_def set_prev_def)
qed

lemma list_del_frame:
  assumes "dlist h head xs" and "x \<in> set xs" and "y \<notin> set (head # xs)"
  shows "list_del x h y = h y"
proof -
  have "y \<noteq> x" "y \<noteq> next_ptr (h x)" "y \<noteq> prev_ptr (h x)"
    using dlist_mem_neighbours [of h head xs x] assms by auto
  then show ?thesis
    by (simp add: list_del_def list_unlink_def set_next_def set_prev_def)
qed

text \<open>Deletion on the list as a whole.\<close>

lemma dlist_delete:
  assumes "dlist h head xs" and "x \<in> set xs"
  shows "dlist (list_del x h) head (remove1 x xs)" "list_del x h x = \<lparr>next_ptr = 0, prev_ptr = 0\<rparr>"
    "dlist (list_del_init x h) head (remove1 x xs)" "dlist (list_del_init x h) x []"
proof -
  from assms(2) obtain us vs where xs: "xs = us @ x # vs" "x \<notin> set us" by (auto dest: split_list_first)
  with assms(1) have d: "dlist h head (us @ x # vs)" and r: "remove1 x xs = us @ vs"
    by (auto simp: remove1_append)
  from dlist_del [OF d] dlist_del_init [OF d] r
  show "dlist (list_del x h) head (remove1 x xs)" "dlist (list_del_init x h) head (remove1 x xs)" by auto
  have "x \<noteq> 0" using dlist_distinct [OF assms(1)] assms(2) by (metis list.set_intros(2))
  then show "dlist (list_del_init x h) x []" unfolding list_del_init_def by (rule dlist_init)
  show "list_del x h x = \<lparr>next_ptr = 0, prev_ptr = 0\<rparr>"
    by (simp add: list_del_def set_next_def set_prev_def)
qed

section \<open>Traversal\<close>

lemma for_each_from_linked:
  assumes "linked h a xs head" and "head \<notin> set xs"
  shows "list_for_each_from (\<lambda>p. next_ptr (h p)) head (next_ptr (h a)) = Some xs"
  using assms
proof (induction xs arbitrary: a)
  case Nil
  then show ?case by (subst list_for_each_from.simps) simp
next
  case (Cons x xs)
  then have "list_for_each_from (\<lambda>p. next_ptr (h p)) head (next_ptr (h x)) = Some xs" by simp
  with Cons.prems show ?case by (subst list_for_each_from.simps) auto
qed

lemma for_each_dlist: "dlist h head xs \<Longrightarrow> list_for_each_entry head h = Some xs"
  by (simp add: dlist_def list_for_each_entry_def for_each_from_linked)

lemma for_each_rev_from_linked:
  assumes "linked h head xs b" and "head \<notin> set xs"
  shows "list_for_each_from (\<lambda>p. prev_ptr (h p)) head (prev_ptr (h b)) = Some (rev xs)"
  using assms
proof (induction xs arbitrary: b rule: rev_induct)
  case Nil
  then show ?case by (subst list_for_each_from.simps) simp
next
  case (snoc x xs)
  then have "linked h head xs x" and "prev_ptr (h b) = x" by (auto simp: linked_append)
  moreover from this snoc
  have "list_for_each_from (\<lambda>p. prev_ptr (h p)) head (prev_ptr (h x)) = Some (rev xs)" by simp
  ultimately show ?case using snoc.prems by (subst list_for_each_from.simps) auto
qed

lemma for_each_reverse_dlist: "dlist h head xs \<Longrightarrow> list_for_each_entry_reverse head h = Some (rev xs)"
  by (simp add: dlist_def list_for_each_entry_reverse_def for_each_rev_from_linked)

lemma dlist_unique: "dlist h head xs \<Longrightarrow> dlist h head ys \<Longrightarrow> xs = ys"
  using for_each_dlist [of h head xs] for_each_dlist [of h head ys] by simp

section \<open>The queue interface\<close>

text \<open>Taking up to \<open>k\<close> nodes from the front, the way the wake loops of the clients do.\<close>

fun drain :: "(nat \<Rightarrow> 's \<Rightarrow> 's) \<Rightarrow> (nat \<Rightarrow> 's \<Rightarrow> nat) \<Rightarrow> (nat \<Rightarrow> 's \<Rightarrow> bool) \<Rightarrow> nat \<Rightarrow> nat \<Rightarrow> 's
    \<Rightarrow> nat list \<times> 's" where
  "drain unlink front is_empty head 0 s = ([], s)"
| "drain unlink front is_empty head (Suc k) s =
     (if is_empty head s then ([], s)
      else let x = front head s; (xs, s') = drain unlink front is_empty head k (unlink x s)
           in (x # xs, s'))"

text \<open>What the sleep queue, the wait queues and the mutex need of a list: which nodes a head holds
  after a node is put at the end or taken out, and that queues with other nodes are left alone.\<close>

locale node_queue =
  fixes put :: "nat \<Rightarrow> nat \<Rightarrow> 's \<Rightarrow> 's"
    and unlink :: "nat \<Rightarrow> 's \<Rightarrow> 's"
    and front :: "nat \<Rightarrow> 's \<Rightarrow> nat"
    and is_empty :: "nat \<Rightarrow> 's \<Rightarrow> bool"
    and holds :: "'s \<Rightarrow> nat \<Rightarrow> nat list \<Rightarrow> bool"
  assumes put_holds: "holds s head xs \<Longrightarrow> n \<notin> set (head # xs) \<Longrightarrow> n \<noteq> 0 \<Longrightarrow>
      holds (put n head s) head (xs @ [n])"
    and unlink_holds: "holds s head (us @ x # vs) \<Longrightarrow> holds (unlink x s) head (us @ vs)"
    and front_holds: "holds s head (x # xs) \<Longrightarrow> front head s = x"
    and empty_holds: "holds s head xs \<Longrightarrow> is_empty head s \<longleftrightarrow> xs = []"
    and put_frame: "holds s head xs \<Longrightarrow> holds s other ys \<Longrightarrow>
      set (other # ys) \<inter> set (n # head # xs) = {} \<Longrightarrow> holds (put n head s) other ys"
    and unlink_frame: "holds s head xs \<Longrightarrow> x \<in> set xs \<Longrightarrow> holds s other ys \<Longrightarrow>
      set (other # ys) \<inter> set (head # xs) = {} \<Longrightarrow> holds (unlink x s) other ys"
    and holds_distinct: "holds s head xs \<Longrightarrow> distinct xs"
begin

lemma put_all:
  assumes "holds s head xs" and "distinct ns" and "set ns \<inter> set (0 # head # xs) = {}"
  shows "holds (fold (\<lambda>n. put n head) ns s) head (xs @ ns)"
  using assms
proof (induction ns arbitrary: s xs)
  case (Cons n ns)
  then have "holds (put n head s) head (xs @ [n])" by (intro put_holds) auto
  with Cons.prems Cons.IH [of "put n head s" "xs @ [n]"] show ?case by auto
qed simp

lemma drain_holds:
  assumes "holds s head xs"
  shows "fst (drain unlink front is_empty head k s) = take k xs"
    and "holds (snd (drain unlink front is_empty head k s)) head (drop k xs)"
proof -
  have "fst (drain unlink front is_empty head k s) = take k xs
    \<and> holds (snd (drain unlink front is_empty head k s)) head (drop k xs)"
    using assms
  proof (induction k arbitrary: s xs)
    case (Suc k)
    show ?case
    proof (cases xs)
      case Nil
      with Suc.prems show ?thesis by (simp add: empty_holds)
    next
      case (Cons x ys)
      with Suc.prems have "front head s = x" "\<not> is_empty head s" "holds (unlink x s) head ys"
        using front_holds empty_holds unlink_holds [of s head "[]" x ys] by auto
      with Suc.IH [of "unlink x s" ys] Cons show ?thesis by (auto split: prod.split)
    qed
  qed simp
  then show "fst (drain unlink front is_empty head k s) = take k xs"
    and "holds (snd (drain unlink front is_empty head k s)) head (drop k xs)" by auto
qed

text \<open>Nodes leave the queue in the order in which they were put there.\<close>

lemma first_in_first_out:
  assumes "holds s head []" and "distinct ns" and "set ns \<inter> {0, head} = {}"
  shows "fst (drain unlink front is_empty head (length ns) (fold (\<lambda>n. put n head) ns s)) = ns"
proof -
  have "holds (fold (\<lambda>n. put n head) ns s) head ([] @ ns)"
    by (rule put_all) (use assms in auto)
  with drain_holds(1) show ?thesis by fastforce
qed

end

interpretation list_q: node_queue list_add_tail list_del list_first_entry list_empty dlist
proof
  fix s :: list_store and head x :: nat and xs other ys
  assume "dlist s head xs" "x \<in> set xs" "dlist s other ys" "set (other # ys) \<inter> set (head # xs) = {}"
  then show "dlist (list_del x s) other ys"
    by (subst dlist_cong [where h = s]) (auto intro!: list_del_frame [of s head xs])
next
  fix s :: list_store and head n :: nat and xs other ys
  assume "dlist s head xs" "dlist s other ys" "set (other # ys) \<inter> set (n # head # xs) = {}"
  then show "dlist (list_add_tail n head s) other ys"
    by (subst dlist_cong [where h = s]) (auto intro!: list_add_tail_frame [of s head xs])
qed (auto simp: dlist_add_tail dlist_del dlist_first dlist_empty_iff dest: dlist_distinct)

interpretation list_init_q: node_queue list_add_tail list_del_init list_first_entry list_empty dlist
proof
  fix s :: list_store and head x :: nat and xs other ys
  assume "dlist s head xs" "x \<in> set xs" "dlist s other ys" "set (other # ys) \<inter> set (head # xs) = {}"
  then show "dlist (list_del_init x s) other ys"
    by (subst dlist_cong [where h = s]) (auto intro!: list_del_init_frame [of s head xs])
qed (auto simp: dlist_del_init list_q.put_holds list_q.front_holds list_q.empty_holds list_q.put_frame
  dest: list_q.holds_distinct)

section \<open>Properties\<close>

text \<open>C17. The pointer operations of the list refine operations on lists. On a head that holds the nodes
  \<open>xs\<close>, possibly none: the emptiness test answers whether \<open>xs\<close> is empty, the first and last entry of a
  list that is not are the ends of \<open>xs\<close>, the two traversals visit the nodes in order and in reverse
  order and come to an end, adding a fresh node puts it at the front or at the end, and deleting a node
  takes exactly that node out and leaves it with null pointers, respectively as an empty list of its
  own. No operation changes a node outside the list it works on.\<close>

theorem list_operations_refine:
  assumes "dlist h head xs" and "n \<notin> set (head # xs)" and "n \<noteq> 0" and "y \<notin> set (n # head # xs)"
  shows "list_empty head h = (xs = [])
    \<and> (xs \<noteq> [] \<longrightarrow> list_first_entry head h = hd xs \<and> list_last_entry head h = last xs)
    \<and> list_for_each_entry head h = Some xs \<and> list_for_each_entry_reverse head h = Some (rev xs)
    \<and> dlist (list_init n h) n [] \<and> list_init n h y = h y
    \<and> dlist (list_add n head h) head (n # xs) \<and> list_add n head h y = h y
    \<and> dlist (list_add_tail n head h) head (xs @ [n]) \<and> list_add_tail n head h y = h y
    \<and> (\<forall>x \<in> set xs. dlist (list_del x h) head (remove1 x xs)
         \<and> list_del x h x = \<lparr>next_ptr = 0, prev_ptr = 0\<rparr> \<and> list_del x h y = h y
         \<and> dlist (list_del_init x h) head (remove1 x xs) \<and> dlist (list_del_init x h) x []
         \<and> list_del_init x h y = h y)"
proof (intro conjI impI ballI)
  show "list_first_entry head h = hd xs" if "xs \<noteq> []"
    using that assms(1) dlist_first [of h head "hd xs" "tl xs"] by simp
  show "list_last_entry head h = last xs" if "xs \<noteq> []"
    using that assms(1) dlist_last [of h head "butlast xs" "last xs"] by simp
  show "list_init n h y = h y" using assms(4) by (simp add: list_init_def set_next_def set_prev_def)
qed (use assms in \<open>simp_all add: dlist_empty_iff for_each_dlist for_each_reverse_dlist dlist_init dlist_add
    dlist_add_tail dlist_delete list_add_frame list_add_tail_frame list_del_frame list_del_init_frame\<close>)

text \<open>A head at 8 holding the nodes 16 and 24.\<close>

definition list_example :: list_store where
  "list_example = list_add_tail 24 8 (list_add_tail 16 8 (list_init 8
     (\<lambda>_. \<lparr>next_ptr = 0, prev_ptr = 0\<rparr>)))"

lemma list_example_dlist: "dlist list_example 8 [16, 24]"
  unfolding list_example_def
  using dlist_add_tail [OF dlist_add_tail [OF dlist_init, of 8 16], of 24] by simp

theorem list_operations_refine_witness:
  "dlist (list_add 32 8 list_example) 8 [32, 16, 24] \<and> dlist (list_del 16 list_example) 8 [24]
    \<and> list_for_each_entry_reverse 8 list_example = Some [24, 16]
    \<and> dlist (list_add_tail 16 8 (list_init 8 list_example)) 8 [16]"
  using list_operations_refine [of list_example 8 "[16, 24]" 32 40] list_example_dlist
    list_operations_refine [of "list_init 8 list_example" 8 "[]" 16 40] dlist_init [of 8 list_example] by simp

end
