(* ===== verification/KOS_Object.thy ===== *)
theory KOS_Object
  imports KOS_Prelude
begin

text \<open>
  Reference-counted kernel objects: \<open>src/kernel/object.c\<close> and the 32-bit atomic counters of
  \<open>src/include/kos/atomic.h\<close> it uses. Objects live in a store from addresses to headers. The counter
  is an \<open>int32_t\<close> kept at its width. A destructor is a function pointer; calling it appends the pair
  of destructor and object to a trace, and the destructors themselves belong to the components that
  install them.
\<close>

section \<open>Atomic counters\<close>

record atomic_t =
  counter :: u32

definition atomic_read :: "atomic_t \<Rightarrow> int" where
  "atomic_read v = sint (counter v)"

definition atomic_set :: "int \<Rightarrow> atomic_t \<Rightarrow> atomic_t" where
  "atomic_set i v = v\<lparr>counter := word_of_int i\<rparr>"

definition atomic_inc :: "atomic_t \<Rightarrow> atomic_t" where
  "atomic_inc v = v\<lparr>counter := counter v + 1\<rparr>"

definition atomic_dec_and_test :: "atomic_t \<Rightarrow> bool \<times> atomic_t" where
  "atomic_dec_and_test v = (let c = counter v - 1 in (c = 0, v\<lparr>counter := c\<rparr>))"

section \<open>Object headers\<close>

datatype kos_object_type =
  KOS_OBJ_NONE | KOS_OBJ_THREAD | KOS_OBJ_PROCESS | KOS_OBJ_MUTEX | KOS_OBJ_SEMAPHORE
| KOS_OBJ_EVENT | KOS_OBJ_FILE | KOS_OBJ_SOCKET | KOS_OBJ_WAIT_QUEUE | KOS_OBJ_MAX

record kos_object_header =
  obj_type :: kos_object_type
  refcount :: atomic_t
  destructor :: nat

record object_state =
  headers :: "nat \<Rightarrow> kos_object_header"
  destructor_calls :: "(nat \<times> nat) list"

definition kos_object_init :: "nat \<Rightarrow> kos_object_type \<Rightarrow> nat \<Rightarrow> 'a object_state_scheme \<Rightarrow> 'a object_state_scheme"
  where
  "kos_object_init hdr type dtor s =
     (if hdr = 0 then s
      else s\<lparr>headers := (headers s)(hdr := \<lparr>obj_type = type,
             refcount = atomic_set 1 (refcount (headers s hdr)), destructor = dtor\<rparr>)\<rparr>)"

definition kos_object_ref :: "nat \<Rightarrow> 'a object_state_scheme \<Rightarrow> 'a object_state_scheme" where
  "kos_object_ref hdr s =
     (if hdr = 0 then s
      else s\<lparr>headers := (headers s)(hdr := (headers s hdr)\<lparr>refcount := atomic_inc (refcount (headers s hdr))\<rparr>)\<rparr>)"

definition kos_object_unref :: "nat \<Rightarrow> 'a object_state_scheme \<Rightarrow> 'a object_state_scheme" where
  "kos_object_unref hdr s =
     (if hdr = 0 then s
      else let (zero, c) = atomic_dec_and_test (refcount (headers s hdr));
               s' = s\<lparr>headers := (headers s)(hdr := (headers s hdr)\<lparr>refcount := c\<rparr>)\<rparr>
           in if zero \<and> destructor (headers s' hdr) \<noteq> 0
              then s'\<lparr>destructor_calls := destructor_calls s' @ [(destructor (headers s' hdr), hdr)]\<rparr>
              else s')"

definition kos_object_get_refcount :: "nat \<Rightarrow> 'a object_state_scheme \<Rightarrow> int" where
  "kos_object_get_refcount hdr s = (if hdr = 0 then 0 else atomic_read (refcount (headers s hdr)))"

fun kos_object_type_name :: "kos_object_type \<Rightarrow> string" where
  "kos_object_type_name KOS_OBJ_NONE = ''NONE''"
| "kos_object_type_name KOS_OBJ_THREAD = ''THREAD''"
| "kos_object_type_name KOS_OBJ_PROCESS = ''PROCESS''"
| "kos_object_type_name KOS_OBJ_MUTEX = ''MUTEX''"
| "kos_object_type_name KOS_OBJ_SEMAPHORE = ''SEMAPHORE''"
| "kos_object_type_name KOS_OBJ_EVENT = ''EVENT''"
| "kos_object_type_name KOS_OBJ_FILE = ''FILE''"
| "kos_object_type_name KOS_OBJ_SOCKET = ''SOCKET''"
| "kos_object_type_name KOS_OBJ_WAIT_QUEUE = ''WAIT_QUEUE''"
| "kos_object_type_name KOS_OBJ_MAX = ''UNKNOWN''"

section \<open>Reference counting\<close>

abbreviation refs :: "'a object_state_scheme \<Rightarrow> nat \<Rightarrow> u32" where
  "refs s o' \<equiv> counter (refcount (headers s o'))"

lemma refs_ref [simp]:
  "refs (kos_object_ref hdr s) o' = (if o' = hdr \<and> hdr \<noteq> 0 then refs s o' + 1 else refs s o')"
  by (simp add: kos_object_ref_def atomic_inc_def)

lemma refs_unref [simp]:
  "refs (kos_object_unref hdr s) o' = (if o' = hdr \<and> hdr \<noteq> 0 then refs s o' - 1 else refs s o')"
  by (simp add: kos_object_unref_def atomic_dec_and_test_def Let_def)

lemma header_ref [simp]:
  "obj_type (headers (kos_object_ref hdr s) o') = obj_type (headers s o')"
  "destructor (headers (kos_object_ref hdr s) o') = destructor (headers s o')"
  "destructor_calls (kos_object_ref hdr s) = destructor_calls s"
  "object_state.more (kos_object_ref hdr s) = object_state.more s"
  by (simp_all add: kos_object_ref_def)

lemma header_unref [simp]:
  "obj_type (headers (kos_object_unref hdr s) o') = obj_type (headers s o')"
  "destructor (headers (kos_object_unref hdr s) o') = destructor (headers s o')"
  "object_state.more (kos_object_unref hdr s) = object_state.more s"
  by (simp_all add: kos_object_unref_def atomic_dec_and_test_def Let_def)

text \<open>The destructor runs exactly when the last reference goes.\<close>

lemma destructor_calls_unref:
  "destructor_calls (kos_object_unref hdr s) = destructor_calls s @
     (if hdr \<noteq> 0 \<and> refs s hdr = 1 \<and> destructor (headers s hdr) \<noteq> 0
      then [(destructor (headers s hdr), hdr)] else [])"
  by (simp add: kos_object_unref_def atomic_dec_and_test_def Let_def)

end
