(* ===== verification/KOS_Handle.thy ===== *)
theory KOS_Handle
  imports KOS_Object
begin

text \<open>
  Per-process handle tables: \<open>src/kernel/handle.c\<close> and \<open>src/include/kos/handle.h\<close>. A handle packs a
  16-bit generation and a 16-bit index; an entry holds an object, a rights mask and the generation
  under which it was handed out. The state extends the object store with the table of every process
  (\<open>proc->handles\<close>, which may be null). Each function that holds the table lock for its whole body is
  one atomic step; \<open>handle_duplicate\<close> is its two critical sections in sequence. The outcome of
  \<open>kmalloc\<close> is an argument of \<open>handle_table_create\<close>.
\<close>

section \<open>Rights and handle encoding\<close>

definition KOS_RIGHT_NONE :: u32 where "KOS_RIGHT_NONE = 0"
definition KOS_RIGHT_READ :: u32 where "KOS_RIGHT_READ = 1"
definition KOS_RIGHT_WRITE :: u32 where "KOS_RIGHT_WRITE = 2"
definition KOS_RIGHT_EXECUTE :: u32 where "KOS_RIGHT_EXECUTE = 4"
definition KOS_RIGHT_WAIT :: u32 where "KOS_RIGHT_WAIT = 8"
definition KOS_RIGHT_SIGNAL :: u32 where "KOS_RIGHT_SIGNAL = 16"
definition KOS_RIGHT_DUPLICATE :: u32 where "KOS_RIGHT_DUPLICATE = 32"
definition KOS_RIGHT_TRANSFER :: u32 where "KOS_RIGHT_TRANSFER = 64"
definition KOS_RIGHT_DESTROY :: u32 where "KOS_RIGHT_DESTROY = 128"
definition KOS_RIGHT_ALL :: u32 where "KOS_RIGHT_ALL = 0xFFFFFFFF"

definition KOS_INVALID_HANDLE :: u32 where "KOS_INVALID_HANDLE = 0"
definition KOS_HANDLE_TABLE_CAPACITY :: nat where "KOS_HANDLE_TABLE_CAPACITY = 64"

definition KOS_HANDLE_INDEX :: "u32 \<Rightarrow> u16" where
  "KOS_HANDLE_INDEX h = ucast (h AND 0x0000FFFF)"

definition KOS_HANDLE_GEN :: "u32 \<Rightarrow> u16" where
  "KOS_HANDLE_GEN h = ucast (drop_bit 16 h AND 0xFFFF)"

definition KOS_MAKE_HANDLE :: "u32 \<Rightarrow> u16 \<Rightarrow> u32" where
  "KOS_MAKE_HANDLE idx gen = push_bit 16 (ucast gen) OR (idx AND 0x0000FFFF)"

section \<open>Tables\<close>

record handle_entry =
  ent_object :: nat
  ent_rights :: u32
  ent_generation :: u16
  ent_in_use :: bool

record handle_table =
  entries :: "handle_entry list"
  tab_count :: u32

record handle_state = object_state +
  handles :: "nat \<Rightarrow> handle_table option"

definition handle_table_create :: "bool \<Rightarrow> handle_table option" where
  "handle_table_create kmalloc_ok =
     (if \<not> kmalloc_ok then None
      else Some \<lparr>entries = map (\<lambda>i. \<lparr>ent_object = 0, ent_rights = KOS_RIGHT_NONE, ent_generation = 1,
                                     ent_in_use = False\<rparr>) [0..<KOS_HANDLE_TABLE_CAPACITY],
                 tab_count = 0\<rparr>)"

definition next_generation :: "u16 \<Rightarrow> u16" where
  "next_generation g = (let g' = g + 1 in if g' = 0 then 1 else g')"

definition clear_entry :: "handle_entry \<Rightarrow> handle_entry" where
  "clear_entry e = e\<lparr>ent_in_use := False, ent_object := 0, ent_rights := KOS_RIGHT_NONE,
     ent_generation := next_generation (ent_generation e)\<rparr>"

definition destroy_entry :: "nat \<Rightarrow> nat list \<times> handle_table \<Rightarrow> nat list \<times> handle_table" where
  "destroy_entry i acc = (let (objs, table) = acc; e = entries table ! i in
     if ent_in_use e \<and> ent_object e \<noteq> 0
     then (objs @ [ent_object e], table\<lparr>entries := (entries table)[i := clear_entry e]\<rparr>)
     else (objs, table))"

definition handle_table_destroy :: "handle_table option \<Rightarrow> 'a object_state_scheme
    \<Rightarrow> handle_table option \<times> 'a object_state_scheme" where
  "handle_table_destroy tab s = (case tab of None \<Rightarrow> (None, s) | Some table \<Rightarrow>
     let (objs, table') = fold destroy_entry [0..<KOS_HANDLE_TABLE_CAPACITY] ([], table)
     in (Some (table'\<lparr>tab_count := 0\<rparr>), fold kos_object_unref objs s))"

definition set_table :: "nat \<Rightarrow> handle_table \<Rightarrow> handle_state \<Rightarrow> handle_state" where
  "set_table proc table s = s\<lparr>handles := (handles s)(proc := Some table)\<rparr>"

definition create_entry :: "nat \<Rightarrow> u32 \<Rightarrow> handle_entry \<Rightarrow> handle_entry" where
  "create_entry hdr rights e = e\<lparr>ent_in_use := True, ent_object := hdr, ent_rights := rights,
     ent_generation := (if ent_generation e = 0 then 1 else ent_generation e)\<rparr>"

definition handle_create :: "nat \<Rightarrow> nat \<Rightarrow> u32 \<Rightarrow> handle_state \<Rightarrow> u32 \<times> handle_state" where
  "handle_create proc object rights s =
     (if proc = 0 \<or> object = 0 then (KOS_INVALID_HANDLE, s)
      else case handles s proc of None \<Rightarrow> (KOS_INVALID_HANDLE, s)
      | Some table \<Rightarrow>
        (case first_index (\<lambda>i. \<not> ent_in_use (entries table ! i)) [0..<KOS_HANDLE_TABLE_CAPACITY] of
           None \<Rightarrow> (KOS_INVALID_HANDLE, s)
         | Some i \<Rightarrow>
             let e = create_entry object rights (entries table ! i);
                 table' = table\<lparr>entries := (entries table)[i := e], tab_count := tab_count table + 1\<rparr>
             in (KOS_MAKE_HANDLE (of_nat i) (ent_generation e),
                 kos_object_ref object (set_table proc table' s))))"

definition handle_valid :: "handle_table \<Rightarrow> u32 \<Rightarrow> bool" where
  "handle_valid table handle \<longleftrightarrow>
     (let e = entries table ! unat (KOS_HANDLE_INDEX handle)
      in ent_in_use e \<and> ent_generation e = KOS_HANDLE_GEN handle)"

definition handle_lookup :: "nat \<Rightarrow> u32 \<Rightarrow> u32 \<Rightarrow> handle_state \<Rightarrow> nat" where
  "handle_lookup proc handle required_rights s =
     (if proc = 0 \<or> handle = KOS_INVALID_HANDLE then 0
      else case handles s proc of None \<Rightarrow> 0
      | Some table \<Rightarrow>
        let index = unat (KOS_HANDLE_INDEX handle) in
        if index \<ge> KOS_HANDLE_TABLE_CAPACITY then 0
        else if \<not> handle_valid table handle then 0
        else if ent_rights (entries table ! index) AND required_rights \<noteq> required_rights then 0
        else ent_object (entries table ! index))"

definition handle_lookup_type :: "nat \<Rightarrow> u32 \<Rightarrow> kos_object_type \<Rightarrow> u32 \<Rightarrow> handle_state \<Rightarrow> nat" where
  "handle_lookup_type proc handle type required_rights s =
     (let obj = handle_lookup proc handle required_rights s in
      if obj = 0 then 0 else if obj_type (headers s obj) \<noteq> type then 0 else obj)"

definition handle_close :: "nat \<Rightarrow> u32 \<Rightarrow> handle_state \<Rightarrow> bool \<times> handle_state" where
  "handle_close proc handle s =
     (if proc = 0 \<or> handle = KOS_INVALID_HANDLE then (False, s)
      else case handles s proc of None \<Rightarrow> (False, s)
      | Some table \<Rightarrow>
        let index = unat (KOS_HANDLE_INDEX handle) in
        if index \<ge> KOS_HANDLE_TABLE_CAPACITY then (False, s)
        else if \<not> handle_valid table handle then (False, s)
        else let obj_to_unref = ent_object (entries table ! index);
                 table' = table\<lparr>entries := (entries table)[index := clear_entry (entries table ! index)],
                   tab_count := (if tab_count table > 0 then tab_count table - 1 else tab_count table)\<rparr>;
                 s' = set_table proc table' s
             in (True, if obj_to_unref \<noteq> 0 then kos_object_unref obj_to_unref s' else s'))"

text \<open>\<open>handle_duplicate\<close>: the checks under the source table's lock give the object and the rights of
  the new handle; a temporary reference covers the creation in the destination table.\<close>

definition duplicate_check :: "handle_table \<Rightarrow> u32 \<Rightarrow> u32 \<Rightarrow> (nat \<times> u32) option" where
  "duplicate_check src_table handle new_rights =
     (let e = entries src_table ! unat (KOS_HANDLE_INDEX handle);
          target_rights = (if new_rights \<noteq> 0 then new_rights else ent_rights e)
      in if \<not> handle_valid src_table handle then None
         else if ent_rights e AND KOS_RIGHT_DUPLICATE = 0 then None
         else if target_rights AND NOT (ent_rights e) \<noteq> 0 then None
         else if ent_object e = 0 then None
         else Some (ent_object e, target_rights))"

definition handle_duplicate :: "nat \<Rightarrow> nat \<Rightarrow> u32 \<Rightarrow> u32 \<Rightarrow> handle_state \<Rightarrow> u32 \<times> handle_state" where
  "handle_duplicate src_proc dst_proc handle new_rights s =
     (if src_proc = 0 \<or> dst_proc = 0 \<or> handle = KOS_INVALID_HANDLE then (KOS_INVALID_HANDLE, s)
      else case (handles s src_proc, handles s dst_proc) of
        (Some src_table, Some dst_table) \<Rightarrow>
          if unat (KOS_HANDLE_INDEX handle) \<ge> KOS_HANDLE_TABLE_CAPACITY then (KOS_INVALID_HANDLE, s)
          else (case duplicate_check src_table handle new_rights of
                  None \<Rightarrow> (KOS_INVALID_HANDLE, s)
                | Some (obj, target_rights) \<Rightarrow>
                    let (dst_handle, s') = handle_create dst_proc obj target_rights (kos_object_ref obj s)
                    in (dst_handle, kos_object_unref obj s'))
      | _ \<Rightarrow> (KOS_INVALID_HANDLE, s))"

section \<open>Encoding and generations\<close>

lemma bit_ffff: "bit (0xFFFF :: int) n \<longleftrightarrow> n < 16"
proof -
  have "bit (mask 16 :: int) n \<longleftrightarrow> n < 16" by (simp only: bit_mask_iff possible_bit_def) simp
  then show ?thesis by (simp add: mask_eq_exp_minus_1)
qed

lemma handle_index_make: "i < 65536 \<Longrightarrow> unat (KOS_HANDLE_INDEX (KOS_MAKE_HANDLE (of_nat i) g)) = i"
proof -
  assume "i < 65536"
  have "KOS_HANDLE_INDEX (KOS_MAKE_HANDLE (of_nat i) g) = (of_nat i :: u16)"
    unfolding KOS_HANDLE_INDEX_def KOS_MAKE_HANDLE_def
    by (rule bit_word_eqI) (auto simp: bit_simps bit_ffff)
  then show ?thesis using \<open>i < 65536\<close> by (simp add: unat_of_nat take_bit_eq_mod)
qed

lemma handle_gen_make: "KOS_HANDLE_GEN (KOS_MAKE_HANDLE i g) = g"
  unfolding KOS_HANDLE_GEN_def KOS_MAKE_HANDLE_def
  by (rule bit_word_eqI) (auto simp: bit_simps bit_ffff)

lemma make_handle_valid: "g \<noteq> 0 \<Longrightarrow> KOS_MAKE_HANDLE i g \<noteq> KOS_INVALID_HANDLE"
proof
  assume "g \<noteq> 0" and "KOS_MAKE_HANDLE i g = KOS_INVALID_HANDLE"
  then show False using handle_gen_make [of i g] by (simp add: KOS_INVALID_HANDLE_def KOS_HANDLE_GEN_def)
qed

lemma next_generation_nonzero [simp]: "next_generation g \<noteq> 0"
  by (simp add: next_generation_def Let_def)

lemma unat_next_generation: "g \<noteq> 0 \<Longrightarrow> unat (next_generation g) = unat g mod 65535 + 1"
proof -
  assume "g \<noteq> 0"
  then have "0 < unat g" by (simp add: unat_gt_0)
  have "unat g < 65536" using unsigned_less [of g] by simp
  show ?thesis
  proof (cases "g + 1 = 0")
    case True
    then have "g = - 1" by (simp add: eq_neg_iff_add_eq_0)
    then have "unat g = 65535" by (simp add: unsigned_minus_1_eq_mask mask_eq_exp_minus_1)
    then show ?thesis using True by (simp add: next_generation_def)
  next
    case False
    have u: "unat (g + 1) = (unat g + 1) mod 65536" using unat_word_ariths(1) [of g 1] by simp
    moreover have "unat g \<noteq> 65535"
    proof
      assume "unat g = 65535"
      with u have "unat (g + 1) = 0" by simp
      with False show False by (simp only: unat_eq_0)
    qed
    ultimately have "unat (g + 1) = unat g + 1" and "unat g < 65535"
      using \<open>unat g < 65536\<close> by auto
    then show ?thesis using False by (simp add: next_generation_def)
  qed
qed

lemma unat_generation_after:
  assumes "g \<noteq> 0"
  shows "(next_generation ^^ k) g \<noteq> 0 \<and> unat ((next_generation ^^ k) g) = (unat g - 1 + k) mod 65535 + 1"
proof (induction k)
  case 0
  have "0 < unat g" "unat g < 65536" using assms unsigned_less [of g] by (auto simp: unat_gt_0)
  then show ?case using assms by simp
next
  case (Suc k)
  then show ?case
    using unat_next_generation [of "(next_generation ^^ k) g"] by (simp add: mod_simps)
qed

text \<open>A slot's generation comes back only after a full cycle of 65535 closes.\<close>

lemma generation_cycle:
  assumes "g \<noteq> 0"
  shows "(next_generation ^^ k) g = g \<longleftrightarrow> 65535 dvd k"
proof -
  have g: "0 < unat g" "unat g < 65536" using assms unsigned_less [of g] by (auto simp: unat_gt_0)
  have "(next_generation ^^ k) g = g \<longleftrightarrow> (unat g - 1 + k) mod 65535 + 1 = unat g"
    using unat_generation_after [OF assms, of k] by (metis word_unat_eq_iff)
  also have "\<dots> \<longleftrightarrow> (unat g - 1 + k) mod 65535 = (unat g - 1) mod 65535"
    using g by auto
  also have "\<dots> \<longleftrightarrow> 65535 dvd k"
    using mod_eq_dvd_iff_nat [of "unat g - 1" "unat g - 1 + k" 65535] by simp
  finally show ?thesis .
qed

section \<open>The table invariant\<close>

definition entry_ok :: "handle_entry \<Rightarrow> bool" where
  "entry_ok e \<longleftrightarrow> ent_generation e \<noteq> 0 \<and> (ent_in_use e \<longleftrightarrow> ent_object e \<noteq> 0)"

definition table_ok :: "handle_table \<Rightarrow> bool" where
  "table_ok t \<longleftrightarrow> length (entries t) = KOS_HANDLE_TABLE_CAPACITY \<and> list_all entry_ok (entries t)
     \<and> unat (tab_count t) = count_by ent_in_use (entries t)"

definition handles_ok :: "handle_state \<Rightarrow> bool" where
  "handles_ok s \<longleftrightarrow> (\<forall>p t. handles s p = Some t \<longrightarrow> table_ok t)"

lemma handles_ref [simp]: "handles (kos_object_ref o' s) = handles s"
  by (simp add: kos_object_ref_def)

lemma handles_unref [simp]: "handles (kos_object_unref o' s) = handles s"
  by (simp add: kos_object_unref_def atomic_dec_and_test_def Let_def)

lemma set_table_simps [simp]:
  "handles (set_table p t s) = (handles s)(p := Some t)"
  "headers (set_table p t s) = headers s"
  "destructor_calls (set_table p t s) = destructor_calls s"
  by (simp_all add: set_table_def)

lemma table_create_ok: "table_ok t" if "handle_table_create ok = Some t"
  using that by (auto simp: handle_table_create_def table_ok_def entry_ok_def list_all_iff count_by_def
    KOS_HANDLE_TABLE_CAPACITY_def split: if_splits)

text \<open>The two updates of a slot.\<close>

definition slot_taken :: "nat \<Rightarrow> nat \<Rightarrow> u32 \<Rightarrow> handle_table \<Rightarrow> handle_table" where
  "slot_taken i object rights t = t\<lparr>entries := (entries t)[i := create_entry object rights (entries t ! i)],
     tab_count := tab_count t + 1\<rparr>"

definition slot_cleared :: "nat \<Rightarrow> handle_table \<Rightarrow> handle_table" where
  "slot_cleared i t = t\<lparr>entries := (entries t)[i := clear_entry (entries t ! i)],
     tab_count := (if tab_count t > 0 then tab_count t - 1 else tab_count t)\<rparr>"

lemma table_ok_nth: "table_ok t \<Longrightarrow> i < KOS_HANDLE_TABLE_CAPACITY \<Longrightarrow> entry_ok (entries t ! i)"
  by (simp add: table_ok_def list_all_length)

lemma list_all_update: "list_all P xs \<Longrightarrow> P v \<Longrightarrow> list_all P (xs[i := v])"
  by (auto simp: list_all_iff dest!: set_update_subset_insert [THEN subsetD])

lemma slot_taken_ok:
  assumes "table_ok t" and "i < KOS_HANDLE_TABLE_CAPACITY" and "\<not> ent_in_use (entries t ! i)"
    and "object \<noteq> 0"
  shows "table_ok (slot_taken i object rights t)"
proof -
  from assms have len: "length (entries t) = 64" and i: "i < length (entries t)"
    by (auto simp: table_ok_def KOS_HANDLE_TABLE_CAPACITY_def)
  have c: "unat (tab_count t) = count_by ent_in_use (entries t)"
    and "count_by ent_in_use (entries t) < 64"
    using assms len count_by_less [of i "entries t" ent_in_use] by (auto simp: table_ok_def
      KOS_HANDLE_TABLE_CAPACITY_def)
  then have "unat (tab_count t + 1) = unat (tab_count t) + 1"
    by (subst unat_add_lem [THEN iffD1]) auto
  moreover have "entry_ok (create_entry object rights (entries t ! i))"
    using assms table_ok_nth [of t i] by (simp add: entry_ok_def create_entry_def)
  moreover have "count_by ent_in_use ((entries t)[i := create_entry object rights (entries t ! i)])
      = count_by ent_in_use (entries t) + 1"
    using count_by_update [OF i, of ent_in_use "create_entry object rights (entries t ! i)"] assms(3)
    by (simp add: create_entry_def)
  ultimately show ?thesis using assms(1) c by (simp add: table_ok_def slot_taken_def list_all_update)
qed

lemma slot_cleared_ok:
  assumes "table_ok t" and "i < KOS_HANDLE_TABLE_CAPACITY" and "ent_in_use (entries t ! i)"
  shows "table_ok (slot_cleared i t)"
proof -
  from assms have i: "i < length (entries t)" by (auto simp: table_ok_def)
  have c: "unat (tab_count t) = count_by ent_in_use (entries t)"
    using assms by (simp add: table_ok_def)
  have "0 < count_by ent_in_use (entries t)" by (rule count_by_pos [where i = i]) (use i assms in auto)
  with c have "tab_count t > 0" by (simp add: word_less_nat_alt)
  then have "unat (tab_count t - 1) = unat (tab_count t) - 1"
    by (metis unat_minus_one word_neq_0_conv)
  moreover have "entry_ok (clear_entry (entries t ! i))"
    by (simp add: entry_ok_def clear_entry_def)
  moreover have "count_by ent_in_use ((entries t)[i := clear_entry (entries t ! i)]) + 1
      = count_by ent_in_use (entries t)"
    using count_by_update [OF i, of ent_in_use "clear_entry (entries t ! i)"] assms(3)
    by (simp add: clear_entry_def)
  ultimately show ?thesis
    using assms(1) c \<open>tab_count t > 0\<close> by (simp add: table_ok_def slot_cleared_def list_all_update)
qed

section \<open>What each operation does\<close>

lemma handle_create_cases:
  assumes "handles_ok s"
  obtains (refused) "handle_create p object r s = (KOS_INVALID_HANDLE, s)"
      "p = 0 \<or> object = 0 \<or> handles s p = None \<or>
        (\<exists>t. handles s p = Some t \<and> (\<forall>i < KOS_HANDLE_TABLE_CAPACITY. ent_in_use (entries t ! i)))"
  | (made) t i where "p \<noteq> 0" "object \<noteq> 0" "handles s p = Some t" "i < KOS_HANDLE_TABLE_CAPACITY"
      "\<not> ent_in_use (entries t ! i)"
      "handle_create p object r s = (KOS_MAKE_HANDLE (of_nat i) (ent_generation (entries t ! i)),
         kos_object_ref object (set_table p (slot_taken i object r t) s))"
proof (cases "p = 0 \<or> object = 0 \<or> handles s p = None")
  case True
  then show thesis by (intro refused) (auto simp: handle_create_def)
next
  case False
  then obtain t where t: "handles s p = Some t" by auto
  let ?f = "first_index (\<lambda>i. \<not> ent_in_use (entries t ! i)) [0..<KOS_HANDLE_TABLE_CAPACITY]"
  show thesis
  proof (cases ?f)
    case None
    then have "\<forall>i < KOS_HANDLE_TABLE_CAPACITY. ent_in_use (entries t ! i)"
      by (auto simp: first_index_None)
    with None t False show thesis by (intro refused) (auto simp: handle_create_def)
  next
    case (Some i)
    from first_index_Some [OF Some] have i: "i < KOS_HANDLE_TABLE_CAPACITY" "\<not> ent_in_use (entries t ! i)"
      by auto
    moreover have "ent_generation (entries t ! i) \<noteq> 0"
      using assms t table_ok_nth [of t i] i by (auto simp: handles_ok_def entry_ok_def)
    ultimately show thesis using False t Some
      by (intro made [of t i]) (auto simp: handle_create_def slot_taken_def create_entry_def Let_def)
  qed
qed

lemma handle_close_cases:
  assumes "handles_ok s"
  obtains (refused) "handle_close p h s = (False, s)"
  | (closed) t where "p \<noteq> 0" "h \<noteq> KOS_INVALID_HANDLE" "handles s p = Some t"
      "unat (KOS_HANDLE_INDEX h) < KOS_HANDLE_TABLE_CAPACITY" "handle_valid t h"
      "ent_object (entries t ! unat (KOS_HANDLE_INDEX h)) \<noteq> 0"
      "handle_close p h s = (True, kos_object_unref (ent_object (entries t ! unat (KOS_HANDLE_INDEX h)))
         (set_table p (slot_cleared (unat (KOS_HANDLE_INDEX h)) t) s))"
proof (cases "fst (handle_close p h s)")
  case False
  then have "handle_close p h s = (False, s)"
    by (auto simp: handle_close_def Let_def split: option.splits if_splits)
  then show thesis by (rule refused)
next
  case True
  then obtain t where t: "p \<noteq> 0" "h \<noteq> KOS_INVALID_HANDLE" "handles s p = Some t"
      "unat (KOS_HANDLE_INDEX h) < KOS_HANDLE_TABLE_CAPACITY" "handle_valid t h"
    by (auto simp: handle_close_def Let_def split: option.splits if_splits)
  moreover from this have "ent_object (entries t ! unat (KOS_HANDLE_INDEX h)) \<noteq> 0"
    using assms table_ok_nth by (auto simp: handles_ok_def entry_ok_def handle_valid_def Let_def)
  ultimately show thesis
    by (intro closed [of t]) (simp_all add: handle_close_def Let_def slot_cleared_def)
qed

section \<open>Sequences of operations\<close>

text \<open>The five calls that change a table. A process gets its table when its slot is set up
  (\<open>proc->handles = handle_table_create()\<close> in \<open>process_create\<close>, on a slot whose pointer is null), with
  the outcome of \<open>kmalloc\<close> as an argument; it loses the table when it exits (\<open>process_exit\<close> and
  \<open>process_destroy\<close> take the pointer, store null and call \<open>handle_table_destroy\<close>).\<close>

datatype handle_op =
  CreateTable nat bool
| DestroyTable nat
| Create nat nat u32
| Close nat u32
| Duplicate nat nat u32 u32

fun handle_step :: "handle_op \<Rightarrow> handle_state \<Rightarrow> handle_state" where
  "handle_step (CreateTable p ok) s =
     (if handles s p \<noteq> None then s else s\<lparr>handles := (handles s)(p := handle_table_create ok)\<rparr>)"
| "handle_step (DestroyTable p) s =
     snd (handle_table_destroy (handles s p) (s\<lparr>handles := (handles s)(p := None)\<rparr>))"
| "handle_step (Create p object r) s = snd (handle_create p object r s)"
| "handle_step (Close p h) s = snd (handle_close p h s)"
| "handle_step (Duplicate p q h r) s = snd (handle_duplicate p q h r s)"

definition handle_run :: "handle_op list \<Rightarrow> handle_state \<Rightarrow> handle_state" where
  "handle_run ops s = fold handle_step ops s"

lemma handles_ok_ref [simp]:
  "handles_ok (kos_object_ref o' s) = handles_ok s" "handles_ok (kos_object_unref o' s) = handles_ok s"
  by (simp_all add: handles_ok_def)

lemma handles_ok_set_table: "handles_ok s \<Longrightarrow> table_ok t \<Longrightarrow> handles_ok (set_table p t s)"
  by (simp add: handles_ok_def)

lemma handles_okD: "handles_ok s \<Longrightarrow> handles s p = Some t \<Longrightarrow> table_ok t"
  by (simp add: handles_ok_def)

text \<open>A duplicate is nothing, or a creation between a temporary reference and its release.\<close>

lemma handle_duplicate_cases:
  obtains (refused) "handle_duplicate p q h r s = (KOS_INVALID_HANDLE, s)"
  | (made) t object rights where "p \<noteq> 0" "h \<noteq> KOS_INVALID_HANDLE" "handles s p = Some t"
      "unat (KOS_HANDLE_INDEX h) < KOS_HANDLE_TABLE_CAPACITY"
      "duplicate_check t h r = Some (object, rights)" "object \<noteq> 0"
      "handle_duplicate p q h r s = (fst (handle_create q object rights (kos_object_ref object s)),
         kos_object_unref object (snd (handle_create q object rights (kos_object_ref object s))))"
proof (cases "p = 0 \<or> q = 0 \<or> h = KOS_INVALID_HANDLE \<or> handles s p = None \<or> handles s q = None
    \<or> unat (KOS_HANDLE_INDEX h) \<ge> KOS_HANDLE_TABLE_CAPACITY")
  case True
  then show thesis by (intro refused) (auto simp: handle_duplicate_def split: option.splits)
next
  case False
  then obtain t u where tu: "handles s p = Some t" "handles s q = Some u" by auto
  show thesis
  proof (cases "duplicate_check t h r")
    case None
    with False tu show thesis by (intro refused) (simp add: handle_duplicate_def)
  next
    case (Some x)
    obtain object rights where "x = (object, rights)" by force
    with Some False tu show thesis
      by (intro made [of t object rights])
        (auto simp: handle_duplicate_def duplicate_check_def Let_def split: prod.splits if_splits)
  qed
qed

lemma handle_create_ok [kos_inv]: "handles_ok s \<Longrightarrow> handles_ok (snd (handle_create p object r s))"
  by (cases rule: handle_create_cases [of s p object r])
    (auto intro!: handles_ok_set_table slot_taken_ok dest: handles_okD)

lemma handle_close_ok [kos_inv]: "handles_ok s \<Longrightarrow> handles_ok (snd (handle_close p h s))"
  by (cases rule: handle_close_cases [of s p h])
    (auto intro!: handles_ok_set_table slot_cleared_ok dest: handles_okD simp: handle_valid_def Let_def)

lemma handle_duplicate_ok [kos_inv]: "handles_ok s \<Longrightarrow> handles_ok (snd (handle_duplicate p q h r s))"
  by (cases rule: handle_duplicate_cases [of p q h r s]) (auto intro: handle_create_ok)

lemma handles_fold_unref [simp]: "handles (fold kos_object_unref objs s) = handles s"
  by (induction objs arbitrary: s) simp_all

lemma handles_destroy [simp]: "handles (snd (handle_table_destroy tab s)) = handles s"
  by (simp add: handle_table_destroy_def split: option.split prod.split)

lemma handle_step_ok: "handles_ok s \<Longrightarrow> handles_ok (handle_step a s)"
proof (cases a)
  case (CreateTable p ok)
  assume "handles_ok s"
  with CreateTable show ?thesis using table_create_ok [of ok] by (auto simp: handles_ok_def)
next
  case (DestroyTable p)
  assume "handles_ok s"
  with DestroyTable show ?thesis by (auto simp: handles_ok_def)
qed (auto intro: kos_inv)

lemma handle_run_ok: "handles_ok s \<Longrightarrow> handles_ok (handle_run ops s)"
  unfolding handle_run_def by (rule fold_invariant [where P = handles_ok]) (auto intro: handle_step_ok)

section \<open>References held by handles\<close>

definition table_refs :: "handle_table \<Rightarrow> nat \<Rightarrow> nat" where
  "table_refs t o' = count_by (\<lambda>e. ent_in_use e \<and> ent_object e = o') (entries t)"

definition handle_refs :: "handle_state \<Rightarrow> nat \<Rightarrow> nat" where
  "handle_refs s o' = (\<Sum>p \<in> dom (handles s). table_refs (the (handles s p)) o')"

definition spare_refs :: "handle_state \<Rightarrow> nat \<Rightarrow> u32" where
  "spare_refs s o' = refs s o' - of_nat (handle_refs s o')"

lemma table_refs_taken:
  assumes "i < length (entries t)" and "\<not> ent_in_use (entries t ! i)"
  shows "table_refs (slot_taken i object r t) o' = table_refs t o' + of_bool (o' = object)"
  using count_by_update [OF assms(1), of "\<lambda>e. ent_in_use e \<and> ent_object e = o'"
      "create_entry object r (entries t ! i)"] assms(2)
  by (auto simp: table_refs_def slot_taken_def create_entry_def)

lemma table_refs_cleared:
  assumes "i < length (entries t)" and "ent_in_use (entries t ! i)"
  shows "table_refs (slot_cleared i t) o' + of_bool (o' = ent_object (entries t ! i)) = table_refs t o'"
  using count_by_update [OF assms(1), of "\<lambda>e. ent_in_use e \<and> ent_object e = o'"
      "clear_entry (entries t ! i)"] assms(2)
  by (auto simp: table_refs_def slot_cleared_def clear_entry_def)

lemma handle_refs_set_table:
  assumes "finite (dom (handles s))" and "handles s p = Some t"
  shows "handle_refs (set_table p t' s) o' + table_refs t o' = handle_refs s o' + table_refs t' o'"
proof -
  have p: "p \<in> dom (handles s)" using assms by auto
  have "dom (handles (set_table p t' s)) = dom (handles s)" using p by auto
  then have "handle_refs (set_table p t' s) o' = table_refs t' o' +
      (\<Sum>q \<in> dom (handles s) - {p}. table_refs (the (handles s q)) o')"
    unfolding handle_refs_def by (simp add: sum.remove [OF assms(1) p] cong: sum.cong_simp)
  moreover have "handle_refs s o' = table_refs t o' +
      (\<Sum>q \<in> dom (handles s) - {p}. table_refs (the (handles s q)) o')"
    unfolding handle_refs_def by (simp add: sum.remove [OF assms(1) p] assms(2))
  ultimately show ?thesis by simp
qed

lemma handle_refs_counter [simp]:
  "handle_refs (kos_object_ref o' s) = handle_refs s" "handle_refs (kos_object_unref o' s) = handle_refs s"
  by (simp_all add: handle_refs_def fun_eq_iff)

lemma spare_refs_ref:
  "object \<noteq> 0 \<Longrightarrow> spare_refs (kos_object_ref object s) o' = spare_refs s o' + of_bool (o' = object)"
  "object \<noteq> 0 \<Longrightarrow> spare_refs (kos_object_unref object s) o' = spare_refs s o' - of_bool (o' = object)"
  by (simp_all add: spare_refs_def)

lemma spare_refs_set_table:
  assumes "handle_refs (set_table p t s) o' + a = handle_refs s o' + b"
  shows "spare_refs (set_table p t s) o' = spare_refs s o' + of_nat a - of_nat b"
proof -
  have "(of_nat (handle_refs (set_table p t s) o') + of_nat a :: u32) = of_nat (handle_refs s o') + of_nat b"
    using assms by (metis of_nat_add)
  then show ?thesis by (simp add: spare_refs_def algebra_simps)
qed

lemma handle_create_dom [simp]: "handles_ok s \<Longrightarrow> dom (handles (snd (handle_create p object r s))) = dom (handles s)"
  by (cases rule: handle_create_cases [of s p object r]) auto

lemma handle_close_dom [simp]: "handles_ok s \<Longrightarrow> dom (handles (snd (handle_close p h s))) = dom (handles s)"
  by (cases rule: handle_close_cases [of s p h]) auto

text \<open>Only the creation of a table adds a process, and only its destruction removes one.\<close>

fun op_processes :: "handle_op \<Rightarrow> nat set \<Rightarrow> nat set" where
  "op_processes (CreateTable p ok) P = (if ok then insert p P else P)"
| "op_processes (DestroyTable p) P = P - {p}"
| "op_processes _ P = P"

lemma handle_step_dom: "handles_ok s \<Longrightarrow> dom (handles (handle_step a s)) = op_processes a (dom (handles s))"
proof (cases a)
  case (Duplicate p q h r)
  assume "handles_ok s"
  with Duplicate show ?thesis by (cases rule: handle_duplicate_cases [of p q h r s]) auto
qed (auto simp: handle_table_create_def)

lemma finite_op_processes: "finite P \<Longrightarrow> finite (op_processes a P)"
  by (cases a) auto

lemma card_op_processes: "finite P \<Longrightarrow> card (op_processes a P) \<le> card P + 1"
  by (cases a) (auto simp: card_insert_if card_Diff1_le le_SucI)

lemma handle_step_finite:
  "handles_ok s \<Longrightarrow> finite (dom (handles s)) \<Longrightarrow> finite (dom (handles (handle_step a s)))"
  by (simp only: handle_step_dom finite_op_processes)

lemma handle_run_finite:
  "handles_ok s \<Longrightarrow> finite (dom (handles s)) \<Longrightarrow> finite (dom (handles (handle_run ops s)))"
  unfolding handle_run_def
  by (induction ops arbitrary: s) (simp_all add: handle_step_ok handle_step_finite)

text \<open>The objects that the destruction of a table releases: those of its entries in use, in order.\<close>

definition destroyed_objects :: "handle_table \<Rightarrow> nat list" where
  "destroyed_objects t = map ent_object (filter ent_in_use (entries t))"

lemma destroy_entries:
  assumes "table_ok t" and "n \<le> KOS_HANDLE_TABLE_CAPACITY"
    and "fold destroy_entry [0..<n] ([], t) = (objs, t')"
  shows "objs = map ent_object (filter ent_in_use (take n (entries t))) \<and>
    (\<forall>i \<ge> n. entries t' ! i = entries t ! i)"
  using assms(2,3)
proof (induction n arbitrary: objs t')
  case (Suc n)
  obtain objs0 t0 where f: "fold destroy_entry [0..<n] ([], t) = (objs0, t0)" by force
  from Suc.IH [OF _ f] Suc.prems have ih: "objs0 = map ent_object (filter ent_in_use (take n (entries t)))"
    "\<forall>i \<ge> n. entries t0 ! i = entries t ! i" by auto
  have e: "entry_ok (entries t ! n)" "n < length (entries t)"
    using table_ok_nth [OF assms(1), of n] assms(1) Suc.prems by (auto simp: table_ok_def)
  from Suc.prems f have "(objs, t') = destroy_entry n (objs0, t0)" by simp
  with e ih show ?case
    by (auto simp: destroy_entry_def entry_ok_def take_Suc_conv_app_nth Let_def split: if_splits)
qed simp

lemma handle_table_destroy_objects:
  assumes "table_ok t"
  shows "snd (handle_table_destroy (Some t) s) = fold kos_object_unref (destroyed_objects t) s"
proof -
  obtain objs t' where f: "fold destroy_entry [0..<KOS_HANDLE_TABLE_CAPACITY] ([], t) = (objs, t')" by force
  from destroy_entries [OF assms order_refl this] assms have "objs = destroyed_objects t"
    by (simp add: destroyed_objects_def table_ok_def)
  with f show ?thesis by (simp add: handle_table_destroy_def)
qed

lemma destroyed_objects_nonzero: "table_ok t \<Longrightarrow> 0 \<notin> set (destroyed_objects t)"
  by (auto simp: destroyed_objects_def table_ok_def list_all_iff entry_ok_def)

lemma count_destroyed: "count_list (destroyed_objects t) o' = table_refs t o'"
  by (simp add: destroyed_objects_def table_refs_def count_by_def count_list_eq_length_filter filter_map
      o_def eq_commute [of o'])

lemma refs_fold_unref:
  "0 \<notin> set objs \<Longrightarrow> refs (fold kos_object_unref objs s) o' = refs s o' - of_nat (count_list objs o')"
  by (induction objs arbitrary: s) auto

text \<open>Releasing references in turn runs the destructor of an object exactly when they were its last.\<close>

lemma fold_unref_calls:
  assumes "0 \<notin> set objs" and "count_list objs o' \<le> unat (refs s o')"
  shows "\<exists>calls. destructor_calls (fold kos_object_unref objs s) = destructor_calls s @ calls \<and>
    (\<forall>d. (d, o') \<in> set calls \<longleftrightarrow> d = destructor (headers s o') \<and> d \<noteq> 0 \<and> o' \<in> set objs
      \<and> unat (refs s o') = count_list objs o')"
  using assms
proof (induction objs arbitrary: s)
  case (Cons x objs)
  let ?s = "kos_object_unref x s"
  have r: "unat (refs s o') = Suc (unat (refs ?s o'))" if "x = o'"
  proof -
    have "0 < unat (refs s o')" using that Cons.prems(2) by simp
    then have "refs s o' \<noteq> 0" by auto
    with unat_minus_one [OF this] \<open>0 < unat (refs s o')\<close> that Cons.prems(1) show ?thesis by auto
  qed
  then have le: "count_list objs o' \<le> unat (refs ?s o')"
    using Cons.prems by (cases "x = o'") auto
  from Cons.IH [OF _ le] Cons.prems obtain calls where
    c: "destructor_calls (fold kos_object_unref objs ?s) = destructor_calls ?s @ calls"
    "\<And>d. (d, o') \<in> set calls \<longleftrightarrow> d = destructor (headers s o') \<and> d \<noteq> 0 \<and> o' \<in> set objs
      \<and> unat (refs ?s o') = count_list objs o'" by auto
  show ?case
  proof (intro exI conjI allI)
    show "destructor_calls (fold kos_object_unref (x # objs) s) = destructor_calls s @
        ((if x \<noteq> 0 \<and> refs s x = 1 \<and> destructor (headers s x) \<noteq> 0 then [(destructor (headers s x), x)] else [])
          @ calls)"
      using c(1) by (simp add: destructor_calls_unref)
    have one: "refs s o' = 1 \<longleftrightarrow> unat (refs s o') = 1" by (simp add: word_unat_eq_iff)
    have "o' \<notin> set objs \<longleftrightarrow> count_list objs o' = 0" by (simp add: count_list_0_iff)
    then show "(d, o') \<in> set ((if x \<noteq> 0 \<and> refs s x = 1 \<and> destructor (headers s x) \<noteq> 0
          then [(destructor (headers s x), x)] else []) @ calls) \<longleftrightarrow>
        d = destructor (headers s o') \<and> d \<noteq> 0 \<and> o' \<in> set (x # objs)
          \<and> unat (refs s o') = count_list (x # objs) o'" for d
      using Cons.prems(1) c(2) [of d] one r le by (cases "x = o'") auto
  qed
qed simp

text \<open>Every operation changes the counter of an object by exactly the handles it makes or removes.\<close>

lemma handle_refs_fold_unref [simp]: "handle_refs (fold kos_object_unref objs s) = handle_refs s"
  by (simp add: handle_refs_def fun_eq_iff)

lemma handle_refs_drop_table:
  assumes "finite (dom (handles s))" and "handles s p = Some t"
  shows "handle_refs (s\<lparr>handles := (handles s)(p := None)\<rparr>) o' + table_refs t o' = handle_refs s o'"
proof -
  have "p \<in> dom (handles s)" using assms by auto
  from sum.remove [OF assms(1) this, of "\<lambda>q. table_refs (the (handles s q)) o'"] assms(2) show ?thesis
    by (auto simp: handle_refs_def intro!: sum.cong)
qed

lemma handle_refs_new_table:
  assumes "finite (dom (handles s))" and "handles s p = None"
  shows "handle_refs (s\<lparr>handles := (handles s)(p := handle_table_create ok)\<rparr>) o' = handle_refs s o'"
proof -
  have p: "p \<notin> dom (handles s)" using assms by auto
  then have same: "(\<Sum>q \<in> dom (handles s). table_refs (the (((handles s)(p := x)) q)) o') = handle_refs s o'" for x
    unfolding handle_refs_def by (intro sum.cong) auto
  show ?thesis
  proof (cases "handle_table_create ok")
    case None
    have "(handles s)(p := None) = handles s" using assms(2) by auto
    with None show ?thesis by (simp add: handle_refs_def)
  next
    case (Some t)
    then have "table_refs t o' = 0"
      by (auto simp: handle_table_create_def table_refs_def count_by_def split: if_splits)
    with Some same [of "Some t"] p show ?thesis by (simp add: handle_refs_def assms(1))
  qed
qed

lemma handle_refs_create_mono:
  assumes "handles_ok s" and "finite (dom (handles s))"
  shows "handle_refs s o' \<le> handle_refs (snd (handle_create p object r s)) o'"
  using assms(1)
proof (cases rule: handle_create_cases [of s p object r])
  case (made t i)
  then have "i < length (entries t)" using assms by (auto dest: handles_okD simp: table_ok_def)
  with handle_refs_set_table [OF assms(2), of p t "slot_taken i object r t" o'] made table_refs_taken
  show ?thesis by simp
qed simp

lemma handle_create_spare:
  assumes "handles_ok s" and "finite (dom (handles s))"
  shows "spare_refs (snd (handle_create p object r s)) o' = spare_refs s o'"
  using assms(1)
proof (cases rule: handle_create_cases [of s p object r])
  case (made t i)
  then have "i < length (entries t)" using assms by (auto dest: handles_okD simp: table_ok_def)
  then have "handle_refs (set_table p (slot_taken i object r t) s) o' + 0
      = handle_refs s o' + of_bool (o' = object)"
    using handle_refs_set_table [OF assms(2), of p t "slot_taken i object r t" o'] made table_refs_taken
    by simp
  from spare_refs_set_table [OF this] made show ?thesis by (simp add: spare_refs_ref)
qed simp

text \<open>A closed handle and a destroyed table release exactly the references their entries held.\<close>

lemma handle_close_releases:
  assumes "handles_ok s" and "finite (dom (handles s))" and "fst (handle_close p h s)"
  obtains object s0 where "snd (handle_close p h s) = fold kos_object_unref [object] s0" "0 \<notin> set [object]"
    "headers s0 = headers s" "destructor_calls s0 = destructor_calls s"
    "\<And>o'. handle_refs s0 o' + count_list [object] o' = handle_refs s o'"
  using assms(1)
proof (cases rule: handle_close_cases [of s p h])
  case (closed t)
  let ?i = "unat (KOS_HANDLE_INDEX h)"
  have "?i < length (entries t)" "ent_in_use (entries t ! ?i)"
    using closed assms by (auto dest: handles_okD simp: table_ok_def handle_valid_def Let_def)
  then have "handle_refs (set_table p (slot_cleared ?i t) s) o' + count_list [ent_object (entries t ! ?i)] o'
      = handle_refs s o'" for o'
    using handle_refs_set_table [OF assms(2), of p t "slot_cleared ?i t" o'] closed
      table_refs_cleared [of ?i t o'] by (auto simp: of_bool_def split: if_splits)
  with closed show thesis
    by (intro that [of "ent_object (entries t ! ?i)" "set_table p (slot_cleared ?i t) s"]) simp_all
qed (use assms in simp)

lemma destroy_table_releases:
  assumes "handles_ok s" and "finite (dom (handles s))" and "handles s p = Some t"
  obtains s0 where "handle_step (DestroyTable p) s = fold kos_object_unref (destroyed_objects t) s0"
    "0 \<notin> set (destroyed_objects t)" "headers s0 = headers s" "destructor_calls s0 = destructor_calls s"
    "\<And>o'. handle_refs s0 o' + count_list (destroyed_objects t) o' = handle_refs s o'"
proof (rule that)
  have t: "table_ok t" using assms handles_okD by blast
  show "handle_step (DestroyTable p) s = fold kos_object_unref (destroyed_objects t)
      (s\<lparr>handles := (handles s)(p := None)\<rparr>)"
    using handle_table_destroy_objects [OF t] assms(3) by simp
  show "0 \<notin> set (destroyed_objects t)" using t by (rule destroyed_objects_nonzero)
  show "handle_refs (s\<lparr>handles := (handles s)(p := None)\<rparr>) o' + count_list (destroyed_objects t) o'
      = handle_refs s o'" for o'
    using handle_refs_drop_table [OF assms(2,3)] count_destroyed by simp
qed simp_all

lemma destroy_no_table: "handles s p = None \<Longrightarrow> handle_step (DestroyTable p) s = s"
  by (simp add: handle_table_destroy_def fun_upd_idem)

lemma spare_refs_released:
  assumes "handle_refs s0 o' + count_list objs o' = handle_refs s o'" and "headers s0 = headers s"
    and "0 \<notin> set objs"
  shows "spare_refs (fold kos_object_unref objs s0) o' = spare_refs s o'"
proof -
  have "(of_nat (handle_refs s o') :: u32) = of_nat (handle_refs s0 o') + of_nat (count_list objs o')"
    using assms(1) by (metis of_nat_add)
  with assms show ?thesis by (simp add: spare_refs_def refs_fold_unref)
qed

lemma handle_close_spare:
  assumes "handles_ok s" and "finite (dom (handles s))"
  shows "spare_refs (snd (handle_close p h s)) o' = spare_refs s o'"
proof (cases "fst (handle_close p h s)")
  case True
  from handle_close_releases [OF assms True] show ?thesis by (metis spare_refs_released)
next
  case False
  with assms(1) show ?thesis by (cases rule: handle_close_cases [of s p h]) simp_all
qed

lemma handle_step_spare:
  assumes "handles_ok s" and "finite (dom (handles s))"
  shows "spare_refs (handle_step a s) o' = spare_refs s o'"
proof (cases a)
  case (CreateTable p ok)
  with handle_refs_new_table [OF assms(2), of p ok o'] show ?thesis by (auto simp: spare_refs_def)
next
  case (DestroyTable p)
  show ?thesis
  proof (cases "handles s p")
    case (Some t)
    from destroy_table_releases [OF assms Some] show ?thesis
      unfolding DestroyTable by (metis spare_refs_released)
  qed (simp only: DestroyTable destroy_no_table)
next
  case (Duplicate p q h r)
  show ?thesis
  proof (cases rule: handle_duplicate_cases [of p q h r s])
    case (made t object rights)
    then have "spare_refs (snd (handle_create q object rights (kos_object_ref object s))) o'
        = spare_refs (kos_object_ref object s) o'"
      using assms by (intro handle_create_spare) auto
    with made Duplicate show ?thesis by (simp add: spare_refs_ref)
  qed (simp add: Duplicate)
qed (simp_all add: handle_create_spare handle_close_spare assms)

lemma handle_run_spare:
  assumes "handles_ok s" and "finite (dom (handles s))"
  shows "spare_refs (handle_run ops s) o' = spare_refs s o'"
  using assms
proof (induction ops arbitrary: s)
  case (Cons a ops)
  then have "handles_ok (handle_step a s)" "finite (dom (handles (handle_step a s)))"
    by (auto intro: handle_step_ok handle_step_finite simp del: handle_step.simps)
  from Cons.IH [OF this] Cons.prems show ?case
    by (simp add: handle_run_def handle_step_spare del: handle_step.simps)
qed (simp add: handle_run_def)

lemma table_refs_le: "table_ok t \<Longrightarrow> table_refs t o' \<le> KOS_HANDLE_TABLE_CAPACITY"
  by (metis table_refs_def count_by_le table_ok_def)

lemma handle_refs_le:
  assumes "handles_ok s"
  shows "handle_refs s o' \<le> card (dom (handles s)) * KOS_HANDLE_TABLE_CAPACITY"
  unfolding handle_refs_def
  by (rule sum_bounded_above [where 'a = nat, simplified]) (use assms in \<open>auto intro!: table_refs_le dest: handles_okD\<close>)

text \<open>The counter of an object with \<open>k\<close> references from outside, while the counter cannot wrap, and the
  destructor calls of one operation.\<close>

definition counts_refs :: "handle_state \<Rightarrow> nat \<Rightarrow> nat \<Rightarrow> bool" where
  "counts_refs s o' k \<longleftrightarrow> unat (refs s o') = handle_refs s o' + k"

definition last_handle_gone :: "handle_state \<Rightarrow> handle_state \<Rightarrow> nat \<Rightarrow> nat \<Rightarrow> bool" where
  "last_handle_gone s s' o' k \<longleftrightarrow> handle_refs s o' \<noteq> 0 \<and> handle_refs s' o' = 0 \<and> k = 0"

definition destroys_unreferenced :: "handle_state \<Rightarrow> handle_state \<Rightarrow> nat \<Rightarrow> nat \<Rightarrow> bool" where
  "destroys_unreferenced s s' o' k \<longleftrightarrow> (\<exists>calls. destructor_calls s' = destructor_calls s @ calls \<and>
     (\<forall>d. (d, o') \<in> set calls \<longleftrightarrow> d = destructor (headers s o') \<and> d \<noteq> 0 \<and> last_handle_gone s s' o' k))"

lemma destroys_noneI:
  "destructor_calls s' = destructor_calls s \<Longrightarrow> handle_refs s o' \<le> handle_refs s' o'
    \<Longrightarrow> destroys_unreferenced s s' o' k"
  by (auto simp: destroys_unreferenced_def last_handle_gone_def intro: exI [of _ "[]"])

lemma destroys_released:
  assumes "counts_refs s o' k" and "handle_refs s0 o' + count_list objs o' = handle_refs s o'"
    and "headers s0 = headers s" and "destructor_calls s0 = destructor_calls s" and "0 \<notin> set objs"
  shows "destroys_unreferenced s (fold kos_object_unref objs s0) o' k"
proof -
  have "count_list objs o' \<le> unat (refs s0 o')" using assms by (simp add: counts_refs_def)
  from fold_unref_calls [OF assms(5) this] obtain calls where
    c: "destructor_calls (fold kos_object_unref objs s0) = destructor_calls s @ calls"
      "\<And>d. (d, o') \<in> set calls \<longleftrightarrow> d = destructor (headers s o') \<and> d \<noteq> 0 \<and> o' \<in> set objs
        \<and> unat (refs s o') = count_list objs o'" using assms(3,4) by auto
  have "o' \<in> set objs \<longleftrightarrow> count_list objs o' \<noteq> 0" by (simp add: count_list_0_iff)
  then have "o' \<in> set objs \<and> unat (refs s o') = count_list objs o' \<longleftrightarrow>
      last_handle_gone s (fold kos_object_unref objs s0) o' k"
    using assms(1,2) by (auto simp: last_handle_gone_def counts_refs_def)
  with c show ?thesis unfolding destroys_unreferenced_def by blast
qed

lemma handle_create_calls [simp]:
  "handles_ok s \<Longrightarrow> destructor_calls (snd (handle_create p object r s)) = destructor_calls s"
  by (cases rule: handle_create_cases [of s p object r]) auto

lemma duplicate_source_refs:
  assumes "handles_ok s" and "finite (dom (handles s))" and "handles s p = Some t"
    and "unat (KOS_HANDLE_INDEX h) < KOS_HANDLE_TABLE_CAPACITY" and "duplicate_check t h r = Some (object, rights)"
  shows "0 < handle_refs s object"
proof -
  let ?i = "unat (KOS_HANDLE_INDEX h)"
  have "?i < length (entries t)" using assms handles_okD [OF assms(1,3)] by (simp add: table_ok_def)
  moreover have "ent_in_use (entries t ! ?i) \<and> ent_object (entries t ! ?i) = object"
    using assms(5) by (auto simp: duplicate_check_def handle_valid_def Let_def split: if_splits)
  ultimately have "0 < table_refs t object" unfolding table_refs_def by (rule count_by_pos)
  with handle_refs_drop_table [OF assms(2,3), of object] show ?thesis by simp
qed

lemma handle_duplicate_destroys:
  assumes "handles_ok s" and "finite (dom (handles s))"
    and "counts_refs (handle_step (Duplicate p q h r) s) o' k"
  shows "destroys_unreferenced s (handle_step (Duplicate p q h r) s) o' k"
proof (cases rule: handle_duplicate_cases [of p q h r s])
  case refused
  then show ?thesis by (intro destroys_noneI) simp_all
next
  case (made t object rights)
  let ?s1 = "kos_object_ref object s" and ?s3 = "handle_step (Duplicate p q h r) s"
  let ?s2 = "snd (handle_create q object rights ?s1)"
  have s3: "?s3 = kos_object_unref object ?s2" using made by simp
  have mono: "handle_refs s x \<le> handle_refs ?s3 x" for x
    using handle_refs_create_mono [of ?s1 x q object rights] assms s3 by simp
  have "destructor_calls ?s3 = destructor_calls s \<or> object \<noteq> o'
      \<and> (\<exists>d. destructor_calls ?s3 = destructor_calls s @ [(d, object)])"
    if "refs ?s3 o' = 0 \<longrightarrow> object \<noteq> o'"
    using that made(6) assms(1) unfolding s3 by (auto simp: destructor_calls_unref)
  moreover have "refs ?s3 o' = 0 \<longrightarrow> object \<noteq> o'"
    using assms(3) mono [of object] duplicate_source_refs [OF assms(1,2) made(3,4,5)]
    by (auto simp: counts_refs_def)
  ultimately show ?thesis using mono [of o'] by (auto simp: destroys_unreferenced_def last_handle_gone_def)
qed

lemma handle_step_destroys:
  assumes "handles_ok s" and "finite (dom (handles s))" and "counts_refs s o' k"
    and "counts_refs (handle_step a s) o' k"
  shows "destroys_unreferenced s (handle_step a s) o' k"
proof (cases a)
  case (CreateTable p ok)
  with handle_refs_new_table [OF assms(2), of p ok o'] show ?thesis by (intro destroys_noneI) auto
next
  case (DestroyTable p)
  show ?thesis
  proof (cases "handles s p")
    case (Some t)
    from destroy_table_releases [OF assms(1,2) Some] show ?thesis
      unfolding DestroyTable by (metis destroys_released [OF assms(3)])
  next
    case None
    then show ?thesis unfolding DestroyTable by (simp add: destroy_no_table destroys_noneI del: handle_step.simps)
  qed
next
  case (Create p object r)
  with assms handle_refs_create_mono show ?thesis by (intro destroys_noneI) auto
next
  case (Close p h)
  show ?thesis
  proof (cases "fst (handle_close p h s)")
    case True
    from handle_close_releases [OF assms(1,2) True] show ?thesis
      unfolding Close handle_step.simps by (metis destroys_released [OF assms(3)])
  next
    case False
    with assms(1) Close show ?thesis
      by (cases rule: handle_close_cases [of s p h]) (auto intro: destroys_noneI)
  qed
next
  case (Duplicate p q h r)
  with handle_duplicate_destroys assms show ?thesis by blast
qed

section \<open>Lookup, rights and stale handles\<close>

text \<open>A set of rights is contained in another, as the code tests it.\<close>

definition rights_within :: "u32 \<Rightarrow> u32 \<Rightarrow> bool" where
  "rights_within a b \<longleftrightarrow> a AND b = a"

lemma all_bits32: "(\<forall>i. bit a i \<longrightarrow> P i) \<longleftrightarrow> (\<forall>i < 32. bit a i \<longrightarrow> P i)" for a :: u32
  using bit_imp_le_length [of a] by auto

lemma rights_within_bits: "rights_within a b \<longleftrightarrow> (\<forall>i. bit a i \<longrightarrow> bit b i)"
  by (auto simp: rights_within_def all_bits32 bit_eq_iff bit_and_iff)

lemma attenuated_iff: "a AND NOT b = 0 \<longleftrightarrow> rights_within a b" for a b :: u32
  by (auto simp: rights_within_bits all_bits32 bit_eq_iff [of "a AND NOT b"] bit_and_iff bit_not_iff)

lemma rights_within_trans: "rights_within a b \<Longrightarrow> rights_within b c \<Longrightarrow> rights_within a c"
  by (auto simp: rights_within_bits)

lemma handle_lookup_iff:
  assumes "object \<noteq> 0"
  shows "handle_lookup p h r s = object \<longleftrightarrow> p \<noteq> 0 \<and> h \<noteq> KOS_INVALID_HANDLE \<and> (\<exists>t. handles s p = Some t
    \<and> unat (KOS_HANDLE_INDEX h) < KOS_HANDLE_TABLE_CAPACITY \<and> handle_valid t h
    \<and> rights_within r (ent_rights (entries t ! unat (KOS_HANDLE_INDEX h)))
    \<and> ent_object (entries t ! unat (KOS_HANDLE_INDEX h)) = object)"
  using assms by (auto simp: handle_lookup_def rights_within_def Let_def and.commute split: option.splits)

lemma handle_lookup_counter [simp]:
  "handle_lookup p h r (kos_object_ref o' s) = handle_lookup p h r s"
  "handle_lookup p h r (kos_object_unref o' s) = handle_lookup p h r s"
  by (simp_all add: handle_lookup_def)

text \<open>The handle that a creation returns finds its object under every subset of its rights.\<close>

lemma handle_create_lookup:
  assumes "handles_ok s" and "fst (handle_create p object r s) \<noteq> KOS_INVALID_HANDLE"
  shows "handle_lookup p (fst (handle_create p object r s)) r' (snd (handle_create p object r s))
      = (if rights_within r' r then object else 0)"
  using assms(1)
proof (cases rule: handle_create_cases [of s p object r])
  case (made t i)
  have ok: "table_ok t" using made assms by (auto dest: handles_okD)
  then have i: "i < length (entries t)" "i < 65536"
    using made by (auto simp: table_ok_def KOS_HANDLE_TABLE_CAPACITY_def)
  have g: "ent_generation (entries t ! i) \<noteq> 0" using table_ok_nth [OF ok] made by (simp add: entry_ok_def)
  then have "KOS_MAKE_HANDLE (of_nat i) (ent_generation (entries t ! i)) \<noteq> KOS_INVALID_HANDLE"
    by (rule make_handle_valid)
  with made i g show ?thesis
    by (simp add: handle_lookup_def Let_def handle_index_make handle_gen_make handle_valid_def
        slot_taken_def create_entry_def rights_within_def and.commute)
qed (use assms in simp)

text \<open>The handles of the caller survive what a creation does.\<close>

lemma handle_create_other:
  assumes "handles_ok s" and "handle_lookup q h r' s = x" and "x \<noteq> 0"
  shows "handle_lookup q h r' (snd (handle_create p object r s)) = x"
  using assms(1)
proof (cases rule: handle_create_cases [of s p object r])
  case (made t i)
  from assms(2,3) obtain u where u: "q \<noteq> 0" "h \<noteq> KOS_INVALID_HANDLE" "handles s q = Some u"
    "unat (KOS_HANDLE_INDEX h) < KOS_HANDLE_TABLE_CAPACITY" "handle_valid u h"
    "rights_within r' (ent_rights (entries u ! unat (KOS_HANDLE_INDEX h)))"
    "ent_object (entries u ! unat (KOS_HANDLE_INDEX h)) = x"
    by (auto simp: handle_lookup_iff)
  show ?thesis
  proof (cases "q = p")
    case True
    with u made have "i \<noteq> unat (KOS_HANDLE_INDEX h)" by (auto simp: handle_valid_def Let_def)
    with True u made assms(3) show ?thesis
      by (simp add: handle_lookup_iff handle_valid_def slot_taken_def Let_def)
  qed (use u made assms(3) in \<open>simp add: handle_lookup_iff\<close>)
qed (use assms in simp)

text \<open>The generation of a slot only moves forward, and only when the slot is closed.\<close>

definition slot_generation :: "handle_state \<Rightarrow> nat \<Rightarrow> nat \<Rightarrow> u16" where
  "slot_generation s p i = ent_generation (entries (the (handles s p)) ! i)"

fun is_close :: "handle_op \<Rightarrow> bool" where
  "is_close (Close _ _) = True"
| "is_close _ = False"

lemma slot_generation_create:
  assumes "handles_ok s" and "handles s p \<noteq> None" and "i < KOS_HANDLE_TABLE_CAPACITY"
  shows "slot_generation (snd (handle_create q object r s)) p i = slot_generation s p i"
  using assms(1)
proof (cases rule: handle_create_cases [of s q object r])
  case (made t j)
  then have "j < length (entries t)" "ent_generation (entries t ! j) \<noteq> 0"
    using assms table_ok_nth [of t j] by (auto dest: handles_okD simp: table_ok_def entry_ok_def)
  with made show ?thesis
    by (auto simp: slot_generation_def slot_taken_def create_entry_def nth_list_update)
qed simp

lemma slot_generation_close:
  assumes "handles_ok s" and "handles s p \<noteq> None" and "i < KOS_HANDLE_TABLE_CAPACITY"
  shows "slot_generation (snd (handle_close q h s)) p i \<in>
    {slot_generation s p i, next_generation (slot_generation s p i)}"
  using assms(1)
proof (cases rule: handle_close_cases [of s q h])
  case (closed t)
  then have "unat (KOS_HANDLE_INDEX h) < length (entries t)"
    using assms by (auto dest: handles_okD simp: table_ok_def)
  with closed show ?thesis
    by (auto simp: slot_generation_def slot_cleared_def clear_entry_def nth_list_update)
qed simp

lemma slot_generation_counter [simp]:
  "slot_generation (kos_object_ref o' s) = slot_generation s"
  "slot_generation (kos_object_unref o' s) = slot_generation s"
  by (simp_all add: slot_generation_def fun_eq_iff)

fun makes_table :: "nat \<Rightarrow> handle_op \<Rightarrow> bool" where
  "makes_table p (CreateTable q _) \<longleftrightarrow> p = q"
| "makes_table p _ \<longleftrightarrow> False"

lemma slot_generation_step:
  assumes "handles_ok s" and "handles s p \<noteq> None" and "i < KOS_HANDLE_TABLE_CAPACITY"
    and "handles (handle_step a s) p \<noteq> None"
  shows "\<exists>k \<le> of_bool (is_close a). slot_generation (handle_step a s) p i
    = (next_generation ^^ k) (slot_generation s p i)"
proof (cases a)
  case (CreateTable q ok)
  with assms(2) show ?thesis by (auto simp: slot_generation_def)
next
  case (DestroyTable q)
  with assms(4) show ?thesis by (auto simp: slot_generation_def split: if_splits)
next
  case (Create q object r)
  with slot_generation_create [OF assms(1-3)] show ?thesis by simp
next
  case (Close q h)
  with slot_generation_close [OF assms(1-3), of q h] show ?thesis
    by (auto intro: exI [of _ 0] exI [of _ 1])
next
  case (Duplicate q q' h r)
  show ?thesis
  proof (cases rule: handle_duplicate_cases [of q q' h r s])
    case (made t object rights)
    with slot_generation_create [of "kos_object_ref object s" p i] assms Duplicate show ?thesis by simp
  qed (simp add: Duplicate)
qed

lemma no_table_step:
  "handles_ok s \<Longrightarrow> handles s p = None \<Longrightarrow> \<not> makes_table p a \<Longrightarrow> handles (handle_step a s) p = None"
proof -
  assume "handles_ok s" "handles s p = None" "\<not> makes_table p a"
  then have "p \<notin> op_processes a (dom (handles s))" by (cases a) auto
  with handle_step_dom [OF \<open>handles_ok s\<close>, of a] show ?thesis by (metis domIff)
qed

lemma slot_generation_run:
  assumes "handles_ok s" and "list_all (\<lambda>a. \<not> makes_table p a) ops" and "i < KOS_HANDLE_TABLE_CAPACITY"
    and "handles (handle_run ops s) p \<noteq> None"
  shows "handles s p \<noteq> None \<and> (\<exists>k \<le> count_by is_close ops. slot_generation (handle_run ops s) p i
    = (next_generation ^^ k) (slot_generation s p i))"
  using assms
proof (induction ops arbitrary: s)
  case (Cons a ops)
  have run: "handle_run (a # ops) s = handle_run ops (handle_step a s)" by (simp add: handle_run_def)
  from Cons.IH [OF handle_step_ok [OF Cons.prems(1)]] Cons.prems obtain k where
    k: "handles (handle_step a s) p \<noteq> None" "k \<le> count_by is_close ops"
      "slot_generation (handle_run ops (handle_step a s)) p i
        = (next_generation ^^ k) (slot_generation (handle_step a s) p i)" by (auto simp: run)
  have p: "handles s p \<noteq> None" using no_table_step [OF Cons.prems(1), of p a] k(1) Cons.prems(2) by fastforce
  from slot_generation_step [OF Cons.prems(1) p Cons.prems(3) k(1)] obtain j where
    j: "j \<le> of_bool (is_close a)" "slot_generation (handle_step a s) p i
      = (next_generation ^^ j) (slot_generation s p i)" by blast
  have "k + j \<le> count_by is_close (a # ops)" using k j by (auto simp: count_by_def)
  moreover have "slot_generation (handle_run (a # ops) s) p i
      = (next_generation ^^ (k + j)) (slot_generation s p i)"
    using k j by (simp add: run funpow_add)
  ultimately show ?case using p by blast
qed (auto simp: handle_run_def)

text \<open>A handle that is not valid in the table of its process is refused by every call.\<close>

lemma handle_refused:
  assumes "\<And>t. handles s p = Some t \<Longrightarrow> \<not> handle_valid t h"
  shows "handle_lookup p h r s = 0" "handle_lookup_type p h ty r s = 0"
    "handle_close p h s = (False, s)" "handle_duplicate p q h r s = (KOS_INVALID_HANDLE, s)"
  using assms
  by (auto simp: handle_lookup_def handle_lookup_type_def handle_close_def handle_duplicate_def
      duplicate_check_def Let_def split: option.splits)

section \<open>Properties\<close>

text \<open>C5. Whatever sequence of handle operations runs from a well-formed state (tables created and
  destroyed, handles created, closed and duplicated), the tables stay well-formed, the counter of every
  object stays equal to the number of handles to it plus the references \<open>k\<close> held outside the tables,
  and the next operation runs the destructor of an object exactly when it removes the last handle to
  that object and there is no outside reference. The references must fit the 32-bit counter.\<close>

theorem handle_refcount_correct:
  assumes "handles_ok s" and "finite (dom (handles s))"
    and "refs s o' = of_nat (handle_refs s o' + k)"
    and "s1 = handle_run ops s" and "s2 = handle_step a s1"
    and "(card (dom (handles s1)) + 1) * KOS_HANDLE_TABLE_CAPACITY + k < 2 ^ 32"
  shows "handles_ok s2 \<and> refs s2 o' = of_nat (handle_refs s2 o' + k) \<and>
    (\<exists>calls. destructor_calls s2 = destructor_calls s1 @ calls \<and>
      (\<forall>d. (d, o') \<in> set calls \<longleftrightarrow> d = destructor (headers s1 o') \<and> d \<noteq> 0
        \<and> handle_refs s1 o' \<noteq> 0 \<and> handle_refs s2 o' = 0 \<and> k = 0))"
proof -
  have ok1: "handles_ok s1" and fin1: "finite (dom (handles s1))"
    using assms handle_run_ok handle_run_finite by blast+
  have ok2: "handles_ok s2" using ok1 assms(5) handle_step_ok by blast
  have "spare_refs s1 o' = of_nat k" using handle_run_spare [OF assms(1,2)] assms(3,4) by (simp add: spare_refs_def)
  moreover have "spare_refs s2 o' = spare_refs s1 o'" using handle_step_spare [OF ok1 fin1] assms(5) by simp
  ultimately have r: "refs s1 o' = of_nat (handle_refs s1 o' + k)" "refs s2 o' = of_nat (handle_refs s2 o' + k)"
    by (simp_all add: spare_refs_def algebra_simps)
  have "card (dom (handles s2)) \<le> card (dom (handles s1)) + 1"
    using handle_step_dom [OF ok1] card_op_processes [OF fin1] assms(5) by simp
  then have "card (dom (handles s2)) * KOS_HANDLE_TABLE_CAPACITY \<le> (card (dom (handles s1)) + 1) * KOS_HANDLE_TABLE_CAPACITY"
    by (rule mult_le_mono1)
  then have "handle_refs s1 o' + k < 2 ^ 32" "handle_refs s2 o' + k < 2 ^ 32"
    using handle_refs_le [OF ok1, of o'] handle_refs_le [OF ok2, of o'] assms(6) by (simp_all add: algebra_simps)
  with r have "counts_refs s1 o' k" "counts_refs s2 o' k"
    unfolding counts_refs_def r by (simp_all add: unat_of_nat take_bit_eq_mod del: of_nat_add)
  with handle_step_destroys [OF ok1 fin1] assms(5) ok2 r(2) show ?thesis
    by (simp add: destroys_unreferenced_def last_handle_gone_def)
qed

text \<open>One process with a fresh table and an object at 8 with one reference.\<close>

definition handle_example :: handle_state where
  "handle_example = \<lparr>headers = (\<lambda>_. \<lparr>obj_type = KOS_OBJ_EVENT, refcount = \<lparr>counter = 1\<rparr>, destructor = 7\<rparr>),
     destructor_calls = [], handles = [1 \<mapsto> the (handle_table_create True)]\<rparr>"

lemma handle_example_ok:
  "handles_ok handle_example" "dom (handles handle_example) = {1}" "handle_refs handle_example 8 = 0"
proof -
  have t: "handle_table_create True = Some (the (handle_table_create True))"
    by (simp add: handle_table_create_def)
  show "handles_ok handle_example"
    using table_create_ok [OF t] by (simp add: handles_ok_def handle_example_def)
  show "dom (handles handle_example) = {1}" by (simp add: handle_example_def)
  show "handle_refs handle_example 8 = 0"
    by (simp add: handle_refs_def handle_example_def table_refs_def handle_table_create_def count_by_def)
qed

theorem handle_refcount_correct_witness:
  "\<exists>s1 s2. s1 = handle_run [CreateTable 2 True, Create 1 8 35, Duplicate 1 2 0x10000 1] handle_example
    \<and> s2 = handle_step (DestroyTable 1) s1 \<and> handles_ok s2 \<and> refs s2 8 = of_nat (handle_refs s2 8 + 1)"
proof -
  have "dom (handles (handle_run [CreateTable 2 True, Create 1 8 35, Duplicate 1 2 0x10000 1] handle_example)) = {1, 2}"
    using handle_example_ok by (simp add: handle_run_def handle_step_dom handle_step_ok del: handle_step.simps) auto
  then show ?thesis
    using handle_refcount_correct [of handle_example 8 1 _ "[CreateTable 2 True, Create 1 8 35, Duplicate 1 2 0x10000 1]"
        _ "DestroyTable 1", OF _ _ _ refl refl] handle_example_ok
    by (simp add: handle_example_def KOS_HANDLE_TABLE_CAPACITY_def del: handle_step.simps)
qed

text \<open>C6. Duplication cannot amplify rights: a handle that \<open>handle_duplicate\<close> returns names the object of
  the source handle, the source handle had the duplicate right, every right under which the new
  handle finds the object is one under which the source handle finds it, the new rights are exactly
  the requested ones, and a request of 0 keeps all rights of the source.\<close>

theorem handle_duplicate_attenuates:
  assumes "handles_ok s" and "handle_duplicate p q h r s = (h', s')" and "h' \<noteq> KOS_INVALID_HANDLE"
  shows "\<exists>object. object \<noteq> 0 \<and> handle_lookup p h KOS_RIGHT_DUPLICATE s = object
    \<and> (\<forall>r'. handle_lookup q h' r' s' \<in> {0, object})
    \<and> (\<forall>r'. handle_lookup q h' r' s' = object \<longrightarrow> handle_lookup p h r' s = object)
    \<and> (\<forall>r'. r \<noteq> 0 \<longrightarrow> (handle_lookup q h' r' s' = object \<longleftrightarrow> rights_within r' r))
    \<and> (\<forall>r'. r = 0 \<longrightarrow> handle_lookup q h' r' s' = handle_lookup p h r' s)"
proof (cases rule: handle_duplicate_cases [of p q h r s])
  case (made t object rights)
  let ?e = "entries t ! unat (KOS_HANDLE_INDEX h)"
  let ?s = "kos_object_ref object s"
  have h': "h' = fst (handle_create q object rights ?s)"
    and s': "s' = kos_object_unref object (snd (handle_create q object rights ?s))"
    using made assms(2) by auto
  have new: "handle_lookup q h' r' s' = (if rights_within r' rights then object else 0)" for r'
    using handle_create_lookup [of ?s q object rights r'] assms h' s' by simp
  have e: "ent_object ?e = object" "handle_valid t h" "rights_within rights (ent_rights ?e)"
      "rights = (if r \<noteq> 0 then r else ent_rights ?e)" "ent_rights ?e AND 2 ^ 5 \<noteq> 0"
    using made(5) attenuated_iff
    by (auto simp: duplicate_check_def Let_def KOS_RIGHT_DUPLICATE_def split: if_splits)
  from e(5) have "rights_within KOS_RIGHT_DUPLICATE (ent_rights ?e)"
    by (simp only: and_exp_eq_0_iff_not_bit)
      (auto simp: rights_within_bits KOS_RIGHT_DUPLICATE_def bit_exp_iff [of 5, simplified])
  moreover have old: "handle_lookup p h r' s = (if rights_within r' (ent_rights ?e) then object else 0)" for r'
    using made e by (simp add: handle_lookup_def rights_within_def Let_def and.commute)
  ultimately show ?thesis
    using made(6) e new rights_within_trans by (intro exI [of _ object]) auto
qed (use assms in simp)

text \<open>The example with a handle \<open>0x10000\<close> to the object that may be read, written and duplicated.\<close>

definition handle_example1 :: handle_state where
  "handle_example1 = snd (handle_create 1 8 35 handle_example)"

lemma handle_example1_ok: "handles_ok handle_example1"
  unfolding handle_example1_def by (rule handle_create_ok [OF handle_example_ok(1)])

lemma handle_example1_duplicate: "fst (handle_duplicate 1 1 0x10000 1 handle_example1) = 0x10001"
  by code_simp

lemma handle_example1_close: "fst (handle_close 1 0x10000 handle_example1)"
  by code_simp

theorem handle_duplicate_attenuates_witness:
  "\<exists>s'. handle_duplicate 1 1 0x10000 1 handle_example1 = (0x10001, s')
    \<and> handle_lookup 1 0x10001 2 s' \<noteq> handle_lookup 1 0x10000 KOS_RIGHT_DUPLICATE handle_example1"
  using handle_duplicate_attenuates [of handle_example1 1 1 "0x10000" 1 "0x10001"
      "snd (handle_duplicate 1 1 0x10000 1 handle_example1)"] handle_example1_ok handle_example1_duplicate
  by (auto simp: KOS_INVALID_HANDLE_def rights_within_def prod_eq_iff)

text \<open>C7. A closed handle stays dead: after a successful close, and as long as the process is not given
  a new table, no sequence of operations with fewer than 65534 further closes makes the handle valid
  again, whatever else is created in its slot: looking it up finds nothing, and closing or duplicating
  it is refused and changes nothing.\<close>

theorem stale_handle_rejected:
  assumes "handles_ok s" and "handle_close p h s = (True, s1)" and "count_by is_close ops < 65534"
    and "list_all (\<lambda>a. \<not> makes_table p a) ops" and "s2 = handle_run ops s1"
  shows "handle_lookup p h r s2 = 0 \<and> handle_lookup_type p h ty r s2 = 0
    \<and> handle_close p h s2 = (False, s2) \<and> handle_duplicate p q h r s2 = (KOS_INVALID_HANDLE, s2)"
  using assms(1)
proof (cases rule: handle_close_cases [of s p h])
  case (closed t)
  let ?i = "unat (KOS_HANDLE_INDEX h)"
  have t: "table_ok t" "?i < length (entries t)" using closed assms
    by (auto dest: handles_okD simp: table_ok_def)
  have g: "KOS_HANDLE_GEN h \<noteq> 0" "ent_generation (entries t ! ?i) = KOS_HANDLE_GEN h"
    using closed table_ok_nth [OF t(1)] by (auto simp: handle_valid_def entry_ok_def Let_def)
  have s1: "handles_ok s1" "slot_generation s1 p ?i = next_generation (KOS_HANDLE_GEN h)"
    using handle_close_ok [OF assms(1), of p h] closed assms(2) t g
    by (auto simp: slot_generation_def slot_cleared_def clear_entry_def)
  have "\<not> handle_valid u h" if u: "handles s2 p = Some u" for u
  proof -
    from slot_generation_run [OF s1(1) assms(4) closed(4)] u assms(5) obtain k where
      "k \<le> count_by is_close ops" "slot_generation s2 p ?i = (next_generation ^^ k) (slot_generation s1 p ?i)"
      by auto
    then have k: "k < 65534" "slot_generation s2 p ?i = (next_generation ^^ Suc k) (KOS_HANDLE_GEN h)"
      using s1(2) assms(3) by (simp_all add: funpow_swap1)
    have "\<not> 65535 dvd Suc k" using k(1) by (auto dest: dvd_imp_le)
    then have "slot_generation s2 p ?i \<noteq> KOS_HANDLE_GEN h"
      using generation_cycle [OF g(1)] k(2) by metis
    with u show ?thesis by (auto simp: handle_valid_def slot_generation_def Let_def)
  qed
  from handle_refused [OF this] show ?thesis by blast
qed (use assms in simp)

theorem stale_handle_rejected_witness:
  "\<exists>s2. s2 = handle_run [Create 1 8 35] (snd (handle_close 1 0x10000 handle_example1))
    \<and> handle_lookup 1 0x10000 1 s2 = 0 \<and> handle_close 1 0x10000 s2 = (False, s2)
    \<and> handle_duplicate 1 1 0x10000 1 s2 = (KOS_INVALID_HANDLE, s2)"
  using stale_handle_rejected [of handle_example1 1 "0x10000"
      "snd (handle_close 1 0x10000 handle_example1)" "[Create 1 8 35]" _ 1 KOS_OBJ_EVENT 1, OF _ _ _ _ refl]
    handle_example1_ok handle_example1_close
  by (simp add: prod_eq_iff count_by_def del: handle_step.simps)

end
