(* ===== verification/KOS_Timer.thy ===== *)
theory KOS_Timer
  imports KOS_Prelude
begin

text \<open>
  The timer of \<open>src/drivers/timer.c\<close>: programming of the interval timer (the writes to its ports are
  recorded in order), the tick counter and the conversions between milliseconds and ticks. The busy
  wait reads a port and changes no state; the waits that sleep are in the theory of tasks.
\<close>

definition PIT_CHANNEL_0_DATA :: nat where "PIT_CHANNEL_0_DATA = 0x40"
definition PIT_COMMAND :: nat where "PIT_COMMAND = 0x43"
definition PIT_INPUT_FREQUENCY_HZ :: nat where "PIT_INPUT_FREQUENCY_HZ = 1193182"
definition PIT_COMMAND_CHANNEL_0_LOHI_MODE_3 :: nat where "PIT_COMMAND_CHANNEL_0_LOHI_MODE_3 = 0x36"
definition PIT_MIN_DIVISOR :: nat where "PIT_MIN_DIVISOR = 1"
definition PIT_MAX_DIVISOR :: nat where "PIT_MAX_DIVISOR = 65536"

lemmas pit_consts = PIT_CHANNEL_0_DATA_def PIT_COMMAND_def PIT_INPUT_FREQUENCY_HZ_def
  PIT_COMMAND_CHANNEL_0_LOHI_MODE_3_def PIT_MIN_DIVISOR_def PIT_MAX_DIVISOR_def

record timer_state =
  s_timer_ticks :: nat
  s_timer_frequency :: nat
  s_timer_initialized :: bool
  port_writes :: "(nat \<times> nat) list"

definition io_out8 :: "nat \<Rightarrow> nat \<Rightarrow> 'a timer_state_scheme \<Rightarrow> 'a timer_state_scheme" where
  "io_out8 port value s = s\<lparr>port_writes := port_writes s @ [(port, value mod 256)]\<rparr>"

definition timer_initialize :: "nat \<Rightarrow> 'a timer_state_scheme \<Rightarrow> bool \<times> 'a timer_state_scheme" where
  "timer_initialize frequency_hz s =
     (if frequency_hz = 0 then (False, s)
      else let divisor = add32 PIT_INPUT_FREQUENCY_HZ (frequency_hz div 2) div frequency_hz in
        if divisor < PIT_MIN_DIVISOR \<or> divisor > PIT_MAX_DIVISOR then (False, s)
        else let s1 = io_out8 PIT_COMMAND PIT_COMMAND_CHANNEL_0_LOHI_MODE_3 s;
                 s2 = io_out8 PIT_CHANNEL_0_DATA divisor s1;
                 s3 = io_out8 PIT_CHANNEL_0_DATA (divisor div 256) s2
             in (True, s3\<lparr>s_timer_ticks := 0, s_timer_frequency := frequency_hz,
                          s_timer_initialized := True\<rparr>))"

definition timer_is_initialized :: "'a timer_state_scheme \<Rightarrow> bool" where
  "timer_is_initialized s = s_timer_initialized s"

definition timer_interrupt :: "'a timer_state_scheme \<Rightarrow> 'a timer_state_scheme" where
  "timer_interrupt s = (if s_timer_initialized s then s\<lparr>s_timer_ticks := add64 (s_timer_ticks s) 1\<rparr> else s)"

definition timer_get_ticks :: "'a timer_state_scheme \<Rightarrow> nat" where
  "timer_get_ticks s = s_timer_ticks s"

definition timer_frequency_hz :: "'a timer_state_scheme \<Rightarrow> nat" where
  "timer_frequency_hz s = s_timer_frequency s"

definition timer_ms_to_ticks :: "nat \<Rightarrow> 'a timer_state_scheme \<Rightarrow> nat" where
  "timer_ms_to_ticks ms s =
     (let hz = timer_frequency_hz s in
      if hz = 1000 then ms else if hz = 0 then 0
      else if ms > UINT64_MAX div hz then UINT64_MAX
      else mul64 ms hz div 1000)"

definition timer_ticks_to_ms :: "nat \<Rightarrow> 'a timer_state_scheme \<Rightarrow> nat" where
  "timer_ticks_to_ms ticks s =
     (let hz = timer_frequency_hz s in
      if hz = 1000 then ticks else if hz = 0 then 0
      else if ticks > UINT64_MAX div 1000 then mul64 (ticks div hz) 1000
      else mul64 ticks 1000 div hz)"

definition timer_get_uptime_ms :: "'a timer_state_scheme \<Rightarrow> nat" where
  "timer_get_uptime_ms s = timer_ticks_to_ms (timer_get_ticks s) s"

definition timer_uptime_seconds :: "'a timer_state_scheme \<Rightarrow> nat" where
  "timer_uptime_seconds s = timer_get_uptime_ms s div 1000"

section \<open>Programming the timer and converting times\<close>

text \<open>The divisor the code computes: the input frequency over the requested one, rounded to nearest.\<close>

lemma pit_divisor_rounds:
  fixes n f :: nat
  assumes "0 < f" and "d = (n + f div 2) div f"
  shows "2 * (d * f) \<le> 2 * n + f" and "2 * n \<le> 2 * (d * f) + f"
proof -
  have "d * f + (n + f div 2) mod f = n + f div 2" using assms(2) by simp
  moreover have "(n + f div 2) mod f < f" using assms(1) by simp
  ultimately show "2 * (d * f) \<le> 2 * n + f" and "2 * n \<le> 2 * (d * f) + f" by linarith+
qed

lemma mul_no_wrap: "ms \<le> UINT64_MAX div hz \<Longrightarrow> mul64 ms hz = ms * hz"
proof -
  assume "ms \<le> UINT64_MAX div hz"
  then have "ms * hz \<le> UINT64_MAX" by (meson div_times_less_eq_dividend le_trans mult_le_mono1)
  then show ?thesis by (simp add: mul64_def UINT64_MAX_def)
qed

lemma ms_to_ticks_exact:
  assumes "timer_frequency_hz s \<noteq> 0" and "ms * timer_frequency_hz s < 2 ^ 64"
  shows "timer_ms_to_ticks ms s = ms * timer_frequency_hz s div 1000"
proof -
  have "ms \<le> UINT64_MAX div timer_frequency_hz s"
    using assms by (simp add: less_eq_div_iff_mult_less_eq UINT64_MAX_def)
  with mul_no_wrap [OF this] assms show ?thesis by (auto simp: timer_ms_to_ticks_def Let_def)
qed

lemma ticks_to_ms_exact:
  assumes "timer_frequency_hz s \<noteq> 0" and "t * 1000 < 2 ^ 64"
  shows "timer_ticks_to_ms t s = t * 1000 div timer_frequency_hz s"
proof -
  have "t \<le> UINT64_MAX div 1000" using assms by (simp add: less_eq_div_iff_mult_less_eq UINT64_MAX_def)
  with mul_no_wrap [of t 1000] assms show ?thesis by (auto simp: timer_ticks_to_ms_def Let_def)
qed

lemma timer_initialize_cases:
  assumes "timer_initialize f s = (True, s')" and "f < 2 ^ 32"
  obtains d where "0 < f" "d = (PIT_INPUT_FREQUENCY_HZ + f div 2) div f" "1 \<le> d" "d \<le> 65536"
    "port_writes s' = port_writes s @ [(PIT_COMMAND, 0x36), (PIT_CHANNEL_0_DATA, d mod 256),
       (PIT_CHANNEL_0_DATA, d div 256 mod 256)]"
    "timer_frequency_hz s' = f" "s_timer_ticks s' = 0" "s_timer_initialized s'"
proof -
  have "add32 PIT_INPUT_FREQUENCY_HZ (f div 2) = PIT_INPUT_FREQUENCY_HZ + f div 2"
    using assms(2) by (simp add: add32_def PIT_INPUT_FREQUENCY_HZ_def)
  with assms(1) that show thesis
    by (auto simp: timer_initialize_def Let_def io_out8_def timer_frequency_hz_def PIT_MIN_DIVISOR_def
        PIT_MAX_DIVISOR_def PIT_COMMAND_CHANNEL_0_LOHI_MODE_3_def split: if_splits)
qed

section \<open>Properties\<close>

text \<open>When \<open>timer_initialize\<close> succeeds it has selected channel 0 and written a 16-bit reload value
  whose rate is as close to the requested frequency as a divisor of the input clock can be; from then
  on, as long as the products fit in 64 bits, milliseconds are converted to the exact floor of ticks,
  and converting back never gives a longer time.\<close>

theorem timer_initialize_correct:
  assumes "timer_initialize f s = (True, s')" and "f < 2 ^ 32"
  shows "\<exists>d. 1 \<le> d \<and> d \<le> 65536
    \<and> port_writes s' = port_writes s @ [(0x43, 0x36), (0x40, d mod 256), (0x40, d div 256 mod 256)]
    \<and> 2 * (d * f) \<le> 2 * PIT_INPUT_FREQUENCY_HZ + f \<and> 2 * PIT_INPUT_FREQUENCY_HZ \<le> 2 * (d * f) + f
    \<and> timer_get_uptime_ms s' = 0
    \<and> (\<forall>ms. ms * f < 2 ^ 64 \<longrightarrow> timer_ms_to_ticks ms s' = ms * f div 1000
          \<and> timer_ticks_to_ms (timer_ms_to_ticks ms s') s' \<le> ms)"
proof -
  from assms obtain d where d: "0 < f" "d = (PIT_INPUT_FREQUENCY_HZ + f div 2) div f" "1 \<le> d" "d \<le> 65536"
    "port_writes s' = port_writes s @ [(PIT_COMMAND, 0x36), (PIT_CHANNEL_0_DATA, d mod 256),
       (PIT_CHANNEL_0_DATA, d div 256 mod 256)]"
    "timer_frequency_hz s' = f" "s_timer_ticks s' = 0"
    by (rule timer_initialize_cases)
  have conv: "timer_ms_to_ticks ms s' = ms * f div 1000
      \<and> timer_ticks_to_ms (ms * f div 1000) s' \<le> ms" if "ms * f < 2 ^ 64" for ms
  proof -
    have t: "timer_ms_to_ticks ms s' = ms * f div 1000"
      using ms_to_ticks_exact [of s' ms] d that by simp
    have "ms * f div 1000 * 1000 \<le> ms * f" by (rule div_times_less_eq_dividend)
    moreover from this have "timer_ticks_to_ms (ms * f div 1000) s' = ms * f div 1000 * 1000 div f"
      using ticks_to_ms_exact [of s' "ms * f div 1000"] d that by simp
    ultimately show ?thesis using t d(1) by (metis div_le_mono div_mult_self_is_m)
  qed
  have "timer_get_uptime_ms s' = 0"
    using d by (simp add: timer_get_uptime_ms_def timer_get_ticks_def timer_ticks_to_ms_def Let_def mul64_def)
  with d pit_divisor_rounds [OF d(1,2)] conv show ?thesis
    by (intro exI [of _ d]) (simp add: PIT_COMMAND_def PIT_CHANNEL_0_DATA_def)
qed

theorem timer_initialize_correct_witness:
  "\<exists>s'. timer_initialize 100 \<lparr>s_timer_ticks = 5, s_timer_frequency = 0, s_timer_initialized = False,
       port_writes = []\<rparr> = (True, s') \<and> timer_ms_to_ticks 25 s' = 2"
proof -
  let ?s = "\<lparr>s_timer_ticks = 5, s_timer_frequency = 0, s_timer_initialized = False, port_writes = []\<rparr>"
  have i: "timer_initialize 100 ?s = (True, snd (timer_initialize 100 ?s))"
    by (simp add: timer_initialize_def pit_consts add32_def)
  from timer_initialize_correct [OF i] have "timer_ms_to_ticks 25 (snd (timer_initialize 100 ?s)) = 2"
    by auto
  with i show ?thesis by blast
qed

end
