(* ===== verification/KOS_Task.thy ===== *)
theory KOS_Task
  imports KOS_List KOS_Timer
begin

text \<open>
  Tasks and the scheduler: \<open>src/kernel/task.c\<close>. A task pointer is a number: \<open>0\<close> is null, \<open>1\<close> to \<open>64\<close> are
  the slots \<open>tasks[0]\<close> to \<open>tasks[63]\<close>, and \<open>65\<close> is \<open>idle_task\<close>. The sleep queue is the pointer list of
  \<open>KOS_List\<close> over the \<open>sleep_node\<close> members, which have a store of their own; a node is named by
  the task that embeds it, and \<open>66\<close> is the head \<open>sleep_queue\<close>.

  Of the flags register only the interrupt flag is read by the sources, so saved flags are a boolean.
  \<open>schedule\<close> ends where \<open>task_switch\<close> jumps to the next task: the state is the one in which that task
  continues. A loop over the sleep queue ends only if the list is intact, so those loops are partial
  functions and the lemmas prove that they return. The functions that take \<open>sleep_lock\<close> are atomic
  steps; a reschedule that the release of the lock lets through is a later call of \<open>schedule\<close>.
\<close>

section \<open>State\<close>

definition TASK_DEFAULT_QUANTUM :: nat where "TASK_DEFAULT_QUANTUM = 20"
definition TASK_MAX_COUNT :: nat where "TASK_MAX_COUNT = 64"
definition TASK_KERNEL_STACK_SIZE :: nat where "TASK_KERNEL_STACK_SIZE = 4096 * 4"

datatype thread_state =
  THREAD_STATE_UNUSED | THREAD_STATE_RUNNABLE | THREAD_STATE_RUNNING | THREAD_STATE_BLOCKED
| THREAD_STATE_SLEEPING | THREAD_STATE_ZOMBIE | THREAD_STATE_DEAD

record task =
  t_rsp :: nat
  t_rip :: nat
  t_if :: bool
  t_entry :: nat
  t_argument :: nat
  t_stack :: nat
  t_stack_size :: nat
  t_name :: nat
  t_state :: thread_state
  t_tid :: nat
  t_id :: nat
  t_process :: nat
  t_exit_code :: int
  t_sleep_target_tick :: nat
  t_preempt_count :: nat
  t_reschedule_pending :: bool
  t_quantum_remaining :: nat

definition zero_task :: task where
  "zero_task = \<lparr>t_rsp = 0, t_rip = 0, t_if = False, t_entry = 0, t_argument = 0, t_stack = 0,
     t_stack_size = 0, t_name = 0, t_state = THREAD_STATE_UNUSED, t_tid = 0, t_id = 0, t_process = 0,
     t_exit_code = 0, t_sleep_target_tick = 0, t_preempt_count = 0, t_reschedule_pending = False,
     t_quantum_remaining = 0\<rparr>"

record sched_state = timer_state +
  tasks :: "nat \<Rightarrow> task"
  current_task :: nat
  next_task_id :: nat
  initialized :: bool
  reschedule_requested :: bool
  sleep_links :: list_store
  reaper_links :: list_store
  process_links :: list_store
  sleeping_task_count :: nat
  cpu_current :: nat
  irq_enabled :: bool
  cr3 :: nat
  tss_rsp0 :: nat
  pml4_physical :: "nat \<Rightarrow> nat"
  boot_stack_top :: nat

definition slot :: "nat \<Rightarrow> nat" where "slot index = index + 1"
definition idle_task :: nat where "idle_task = 65"
definition sleep_queue :: nat where "sleep_queue = 66"

definition upd_task :: "nat \<Rightarrow> (task \<Rightarrow> task) \<Rightarrow> 'a sched_state_scheme \<Rightarrow> 'a sched_state_scheme" where
  "upd_task p f s = s\<lparr>tasks := (tasks s)(p := f (tasks s p))\<rparr>"

section \<open>Sleep queue\<close>

partial_function (option) sleep_insert_scan :: "'a sched_state_scheme \<Rightarrow> nat \<Rightarrow> nat \<Rightarrow> list_store option" where
  [code]: "sleep_insert_scan s task pos =
     (if pos = sleep_queue then Some (list_add_tail task sleep_queue (sleep_links s))
      else if t_sleep_target_tick (tasks s task) < t_sleep_target_tick (tasks s pos)
      then Some (list_add_between task (prev_ptr (sleep_links s pos)) pos (sleep_links s))
      else sleep_insert_scan s task (next_ptr (sleep_links s pos)))"

definition sleep_queue_insert_sorted :: "nat \<Rightarrow> 'a sched_state_scheme \<Rightarrow> 'a sched_state_scheme option" where
  "sleep_queue_insert_sorted task s =
     (case sleep_insert_scan s task (next_ptr (sleep_links s sleep_queue)) of
        None \<Rightarrow> None
      | Some h \<Rightarrow> Some (s\<lparr>sleep_links := h, sleeping_task_count := add64 (sleeping_task_count s) 1\<rparr>))"

definition sleep_count_down :: "'a sched_state_scheme \<Rightarrow> 'a sched_state_scheme" where
  "sleep_count_down s =
     (if sleeping_task_count s > 0 then s\<lparr>sleeping_task_count := sleeping_task_count s - 1\<rparr> else s)"

definition sleep_unlink :: "nat \<Rightarrow> 'a sched_state_scheme \<Rightarrow> 'a sched_state_scheme" where
  "sleep_unlink task s =
     (if next_ptr (sleep_links s task) \<noteq> 0 \<and> next_ptr (sleep_links s task) \<noteq> task
      then sleep_count_down (s\<lparr>sleep_links := list_del_init task (sleep_links s)\<rparr>) else s)"

definition task_sleep_enqueue :: "nat \<Rightarrow> nat \<Rightarrow> 'a sched_state_scheme \<Rightarrow> 'a sched_state_scheme option" where
  "task_sleep_enqueue task target_tick s =
     (if task = 0 then Some s
      else sleep_queue_insert_sorted task
             (upd_task task (\<lambda>t. t\<lparr>t_sleep_target_tick := target_tick\<rparr>) (sleep_unlink task s)))"

definition task_sleep_dequeue :: "nat \<Rightarrow> 'a sched_state_scheme \<Rightarrow> 'a sched_state_scheme" where
  "task_sleep_dequeue task s =
     (if task = 0 then s
      else upd_task task (\<lambda>t. t\<lparr>t_sleep_target_tick := 0\<rparr>) (sleep_unlink task s))"

definition task_sleeping_count :: "'a sched_state_scheme \<Rightarrow> nat" where
  "task_sleeping_count s = sleeping_task_count s"

section \<open>Slots\<close>

definition task_find_next_ready :: "'a sched_state_scheme \<Rightarrow> nat" where
  "task_find_next_ready s =
     (let start = (if 1 \<le> current_task s \<and> current_task s \<le> TASK_MAX_COUNT then current_task s - 1 else 0)
      in case first_index (\<lambda>step. t_state (tasks s (slot ((start + step) mod TASK_MAX_COUNT)))
                                    = THREAD_STATE_RUNNABLE) [1..<TASK_MAX_COUNT + 1] of
           None \<Rightarrow> 0
         | Some step \<Rightarrow> slot ((start + step) mod TASK_MAX_COUNT))"

definition task_allocate_slot :: "'a sched_state_scheme \<Rightarrow> nat" where
  "task_allocate_slot s =
     (case first_index (\<lambda>index. t_state (tasks s (slot index)) = THREAD_STATE_UNUSED
                              \<or> t_state (tasks s (slot index)) = THREAD_STATE_DEAD) [1..<TASK_MAX_COUNT] of
        None \<Rightarrow> 0
      | Some index \<Rightarrow> slot index)"

definition task_free_slot :: "nat \<Rightarrow> 'a sched_state_scheme \<Rightarrow> 'a sched_state_scheme" where
  "task_free_slot task s =
     (if task \<noteq> 0 \<and> task \<noteq> slot 0 \<and> task \<noteq> idle_task
      then upd_task task (\<lambda>t. t\<lparr>t_state := THREAD_STATE_UNUSED\<rparr>) s else s)"

definition task_next_id_step :: "'a sched_state_scheme \<Rightarrow> nat \<times> 'a sched_state_scheme" where
  "task_next_id_step s = (next_task_id s, s\<lparr>next_task_id := add64 (next_task_id s) 1\<rparr>)"

definition task_reap_sweep :: "'a sched_state_scheme \<Rightarrow> 'a sched_state_scheme" where
  "task_reap_sweep s = fold (\<lambda>index s.
     if t_state (tasks s (slot index)) = THREAD_STATE_DEAD
     then upd_task (slot index) (\<lambda>t. t\<lparr>t_state := THREAD_STATE_UNUSED\<rparr>) s else s) [1..<TASK_MAX_COUNT] s"

definition task_count :: "'a sched_state_scheme \<Rightarrow> nat" where
  "task_count s = count_by (\<lambda>index. t_state (tasks s (slot index)) \<noteq> THREAD_STATE_UNUSED) [0..<TASK_MAX_COUNT]
     + (if t_state (tasks s idle_task) \<noteq> THREAD_STATE_UNUSED then 1 else 0)"

definition task_ready_count :: "'a sched_state_scheme \<Rightarrow> nat" where
  "task_ready_count s =
     count_by (\<lambda>index. t_state (tasks s (slot index)) = THREAD_STATE_RUNNABLE) [0..<TASK_MAX_COUNT]"

section \<open>Initialisation\<close>

definition init_slot :: "task \<Rightarrow> task" where
  "init_slot t = t\<lparr>t_state := THREAD_STATE_UNUSED, t_sleep_target_tick := 0, t_preempt_count := 0,
     t_reschedule_pending := False, t_quantum_remaining := TASK_DEFAULT_QUANTUM, t_stack := 0,
     t_stack_size := 0, t_process := 0, t_exit_code := 0\<rparr>"

definition init_nodes :: "nat \<Rightarrow> 'a sched_state_scheme \<Rightarrow> 'a sched_state_scheme" where
  "init_nodes p s = s\<lparr>sleep_links := list_init p (sleep_links s),
     reaper_links := list_init p (reaper_links s), process_links := list_init p (process_links s)\<rparr>"

text \<open>The body of \<open>task_initialize\<close> before it starts the process subsystem; the addresses of the idle
  stack, the trampoline, the idle entry and the names are arguments.\<close>

definition task_initialize_tables :: "nat \<Rightarrow> nat \<Rightarrow> nat \<Rightarrow> nat \<Rightarrow> nat \<Rightarrow> 'a sched_state_scheme
    \<Rightarrow> bool \<times> 'a sched_state_scheme" where
  "task_initialize_tables idle_stack trampoline idle_entry bootstrap_name idle_name s =
     (if initialized s then (False, s)
      else let s1 = s\<lparr>sleep_links := list_init sleep_queue (sleep_links s), sleeping_task_count := 0\<rparr>;
               s2 = fold (\<lambda>index s. init_nodes (slot index) (upd_task (slot index) init_slot s))
                      [0..<TASK_MAX_COUNT] s1;
               (first_id, s3) = task_next_id_step s2;
               s4 = upd_task (slot 0) (\<lambda>t. t\<lparr>t_name := bootstrap_name, t_state := THREAD_STATE_RUNNING,
                      t_tid := first_id, t_id := first_id, t_sleep_target_tick := 0, t_preempt_count := 0,
                      t_reschedule_pending := False, t_quantum_remaining := TASK_DEFAULT_QUANTUM,
                      t_if := True, t_stack := 0, t_stack_size := 16384\<rparr>) s3;
               s5 = (init_nodes (slot 0) s4)\<lparr>current_task := slot 0\<rparr>;
               idle_stack_top = (idle_stack + TASK_KERNEL_STACK_SIZE) div 16 * 16 - 8;
               s6 = upd_task idle_task (\<lambda>_. zero_task\<lparr>t_rsp := idle_stack_top, t_rip := trampoline,
                      t_if := True, t_entry := idle_entry, t_stack := idle_stack,
                      t_stack_size := TASK_KERNEL_STACK_SIZE, t_name := idle_name,
                      t_state := THREAD_STATE_RUNNABLE, t_quantum_remaining := TASK_DEFAULT_QUANTUM\<rparr>) s5;
               s7 = init_nodes idle_task s6
           in (True, s7\<lparr>initialized := True\<rparr>))"

section \<open>Scheduling\<close>

text \<open>The task that \<open>schedule\<close> switches to, if it switches.\<close>

definition schedule_target :: "'a sched_state_scheme \<Rightarrow> nat option" where
  "schedule_target s =
     (let next0 = task_find_next_ready s in
      if next0 = 0 \<and> current_task s \<noteq> 0 \<and> t_state (tasks s (current_task s)) = THREAD_STATE_RUNNING
         \<and> current_task s \<noteq> idle_task then None
      else if next0 = 0 \<and> current_task s = idle_task then None
      else let next = (if next0 = 0 then idle_task else next0)
           in if next = current_task s then None else Some next)"

definition switch_address_space :: "nat \<Rightarrow> nat \<Rightarrow> 'a sched_state_scheme \<Rightarrow> 'a sched_state_scheme" where
  "switch_address_space previous next s =
     (let proc = t_process (tasks s next) in
      if proc \<noteq> 0 \<and> pml4_physical s proc \<noteq> 0 \<and> (previous = 0 \<or> t_process (tasks s previous) \<noteq> proc)
      then s\<lparr>cr3 := pml4_physical s proc\<rparr> else s)"

definition load_kernel_stack :: "nat \<Rightarrow> 'a sched_state_scheme \<Rightarrow> 'a sched_state_scheme" where
  "load_kernel_stack next s =
     (if t_stack (tasks s next) \<noteq> 0
      then s\<lparr>tss_rsp0 := (t_stack (tasks s next) + t_stack_size (tasks s next)) div 16 * 16\<rparr>
      else s\<lparr>tss_rsp0 := boot_stack_top s\<rparr>)"

definition switch_to :: "nat \<Rightarrow> 'a sched_state_scheme \<Rightarrow> 'a sched_state_scheme" where
  "switch_to next s =
     (let flags = irq_enabled s;
          previous = current_task s;
          s1 = (if previous \<noteq> 0 \<and> t_state (tasks s previous) = THREAD_STATE_RUNNING
                then upd_task previous (\<lambda>t. t\<lparr>t_state := THREAD_STATE_RUNNABLE\<rparr>) s else s);
          s2 = upd_task next (\<lambda>t. t\<lparr>t_state := THREAD_STATE_RUNNING,
                 t_quantum_remaining := TASK_DEFAULT_QUANTUM\<rparr>) s1;
          s3 = s2\<lparr>current_task := next, cpu_current := next\<rparr>;
          s4 = load_kernel_stack next (switch_address_space previous next s3);
          s5 = upd_task previous (\<lambda>t. t\<lparr>t_if := flags\<rparr>) s4
      in s5\<lparr>irq_enabled := t_if (tasks s5 next)\<rparr>)"

definition schedule :: "'a sched_state_scheme \<Rightarrow> 'a sched_state_scheme" where
  "schedule s =
     (if \<not> initialized s then s
      else let s1 = s\<lparr>reschedule_requested := False\<rparr>
           in case schedule_target s of None \<Rightarrow> s1 | Some next \<Rightarrow> switch_to next s1)"

definition task_yield :: "'a sched_state_scheme \<Rightarrow> 'a sched_state_scheme" where
  "task_yield s = schedule s"

definition preempt_disable :: "'a sched_state_scheme \<Rightarrow> 'a sched_state_scheme" where
  "preempt_disable s =
     (if \<not> initialized s \<or> current_task s = 0 then s
      else upd_task (current_task s) (\<lambda>t. t\<lparr>t_preempt_count := add32 (t_preempt_count t) 1\<rparr>) s)"

definition preempt_enable :: "'a sched_state_scheme \<Rightarrow> 'a sched_state_scheme" where
  "preempt_enable s =
     (if \<not> initialized s \<or> current_task s = 0 then s
      else let cur = current_task s;
               s1 = (if t_preempt_count (tasks s cur) > 0
                     then upd_task cur (\<lambda>t. t\<lparr>t_preempt_count := t_preempt_count t - 1\<rparr>) s else s)
           in if t_preempt_count (tasks s1 cur) = 0 \<and> irq_enabled s1
                 \<and> (t_reschedule_pending (tasks s1 cur) \<or> reschedule_requested s1)
              then schedule (upd_task cur (\<lambda>t. t\<lparr>t_reschedule_pending := False\<rparr>) s1)
              else s1)"

definition preempt_count :: "'a sched_state_scheme \<Rightarrow> nat" where
  "preempt_count s =
     (if \<not> initialized s \<or> current_task s = 0 then 0 else t_preempt_count (tasks s (current_task s)))"

definition task_block :: "nat \<Rightarrow> 'a sched_state_scheme \<Rightarrow> 'a sched_state_scheme" where
  "task_block task s =
     (if \<not> initialized s then s
      else let task' = (if task = 0 then current_task s else task)
           in if task' \<noteq> 0 then upd_task task' (\<lambda>t. t\<lparr>t_state := THREAD_STATE_BLOCKED\<rparr>) s else s)"

definition task_unblock :: "nat \<Rightarrow> 'a sched_state_scheme \<Rightarrow> 'a sched_state_scheme" where
  "task_unblock task s =
     (if task = 0 then s
      else if t_state (tasks s task) = THREAD_STATE_BLOCKED
      then upd_task task (\<lambda>t. t\<lparr>t_state := THREAD_STATE_RUNNABLE\<rparr>) s else s)"

definition task_current :: "'a sched_state_scheme \<Rightarrow> nat" where
  "task_current s =
     (if \<not> initialized s then 0 else if cpu_current s \<noteq> 0 then cpu_current s else current_task s)"

definition task_get_state :: "nat \<Rightarrow> 'a sched_state_scheme \<Rightarrow> thread_state" where
  "task_get_state task s = (if task \<noteq> 0 then t_state (tasks s task) else THREAD_STATE_UNUSED)"

definition task_current_tid :: "'a sched_state_scheme \<Rightarrow> nat" where
  "task_current_tid s =
     (if \<not> initialized s \<or> task_current s = 0 then 1 else t_tid (tasks s (task_current s)))"

definition task_is_multitasking_active :: "'a sched_state_scheme \<Rightarrow> bool" where
  "task_is_multitasking_active s = initialized s"

definition task_request_reschedule :: "'a sched_state_scheme \<Rightarrow> 'a sched_state_scheme" where
  "task_request_reschedule s =
     (let s1 = s\<lparr>reschedule_requested := True\<rparr> in
      if current_task s \<noteq> 0 \<and> t_preempt_count (tasks s (current_task s)) > 0
      then upd_task (current_task s) (\<lambda>t. t\<lparr>t_reschedule_pending := True\<rparr>) s1 else s1)"

text \<open>\<open>task_reap_terminated\<close>, given the reaper thread of the process subsystem.\<close>

definition task_reap_terminated :: "nat \<Rightarrow> 'a sched_state_scheme \<Rightarrow> 'a sched_state_scheme" where
  "task_reap_terminated reaper s =
     task_reap_sweep (if reaper \<noteq> 0 \<and> t_state (tasks s reaper) = THREAD_STATE_BLOCKED
                      then task_yield (task_unblock reaper s) else s)"

section \<open>Sleeping and the timer tick\<close>

definition sleep_deadline :: "nat \<Rightarrow> 'a sched_state_scheme \<Rightarrow> nat" where
  "sleep_deadline ms s =
     (let ticks0 = timer_ms_to_ticks ms s;
          ticks_to_sleep = (if ticks0 = 0 then 1 else ticks0);
          now = timer_get_ticks s;
          deadline = add64 now ticks_to_sleep
      in if deadline < now then UINT64_MAX else deadline)"

text \<open>\<open>task_sleep\<close> up to the first \<open>schedule\<close> of its waiting loop, for a caller that may sleep. Of the
  other two branches one yields and the other waits in \<open>timer_delay_ms\<close>, which reads the clock or a port
  in a loop and changes nothing of this state.\<close>

definition task_sleep :: "nat \<Rightarrow> 'a sched_state_scheme \<Rightarrow> 'a sched_state_scheme option" where
  "task_sleep ms s =
     (if \<not> task_is_multitasking_active s \<or> \<not> irq_enabled s \<or> current_task s = 0 then Some s
      else if ms = 0 then Some (task_yield s)
      else let cur = current_task s
           in map_option schedule (sleep_queue_insert_sorted cur
                (upd_task cur (\<lambda>t. t\<lparr>t_sleep_target_tick := sleep_deadline ms s,
                   t_state := THREAD_STATE_SLEEPING\<rparr>) s)))"

text \<open>The waiting loop of \<open>task_sleep\<close> when its task runs again: it schedules again while the task is still
  marked as sleeping, and otherwise ends.\<close>

definition task_sleep_resume :: "nat \<Rightarrow> 'a sched_state_scheme \<Rightarrow> 'a sched_state_scheme" where
  "task_sleep_resume cur s =
     (if t_state (tasks s cur) = THREAD_STATE_SLEEPING then schedule s
      else upd_task cur (\<lambda>t. t\<lparr>t_state := THREAD_STATE_RUNNING\<rparr>) s)"

definition wake_sleeper :: "nat \<Rightarrow> 'a sched_state_scheme \<Rightarrow> 'a sched_state_scheme" where
  "wake_sleeper task s =
     upd_task task (\<lambda>t. t\<lparr>t_state := THREAD_STATE_RUNNABLE, t_quantum_remaining := TASK_DEFAULT_QUANTUM\<rparr>)
       (sleep_count_down (s\<lparr>sleep_links := list_del_init task (sleep_links s)\<rparr>))"

partial_function (option) tick_wake :: "nat \<Rightarrow> nat \<Rightarrow> bool \<Rightarrow> 'a sched_state_scheme
    \<Rightarrow> (bool \<times> 'a sched_state_scheme) option" where
  [code]: "tick_wake current_ticks pos woken s =
     (if pos = sleep_queue then Some (woken, s)
      else if current_ticks < t_sleep_target_tick (tasks s pos) then Some (woken, s)
      else tick_wake current_ticks (next_ptr (sleep_links s pos)) True (wake_sleeper pos s))"

definition tick_request :: "'a sched_state_scheme \<Rightarrow> 'a sched_state_scheme" where
  "tick_request s =
     (if current_task s = idle_task \<or> t_preempt_count (tasks s (current_task s)) = 0
      then s\<lparr>reschedule_requested := True\<rparr>
      else upd_task (current_task s) (\<lambda>t. t\<lparr>t_reschedule_pending := True\<rparr>) s)"

definition tick_quantum :: "'a sched_state_scheme \<Rightarrow> 'a sched_state_scheme" where
  "tick_quantum s =
     (let cur = current_task s in
      if cur = idle_task
      then if task_ready_count s > 0 then s\<lparr>reschedule_requested := True\<rparr> else s
      else if t_state (tasks s cur) = THREAD_STATE_RUNNING
      then let s1 = (if t_quantum_remaining (tasks s cur) > 0
                     then upd_task cur (\<lambda>t. t\<lparr>t_quantum_remaining := t_quantum_remaining t - 1\<rparr>) s else s)
           in if t_quantum_remaining (tasks s1 cur) = 0
              then tick_request (upd_task cur (\<lambda>t. t\<lparr>t_quantum_remaining := TASK_DEFAULT_QUANTUM\<rparr>) s1)
              else s1
      else s)"

definition task_timer_tick :: "'a sched_state_scheme \<Rightarrow> 'a sched_state_scheme option" where
  "task_timer_tick s =
     (if \<not> initialized s then Some s
      else case (if sleeping_task_count s > 0
                 then tick_wake (timer_get_ticks s) (next_ptr (sleep_links s sleep_queue)) False s
                 else Some (False, s)) of
        None \<Rightarrow> None
      | Some (woken, s1) \<Rightarrow>
          if current_task s1 = 0 then Some s1
          else Some (tick_quantum (if woken then tick_request s1 else s1)))"

definition task_reschedule_if_needed :: "'a sched_state_scheme \<Rightarrow> 'a sched_state_scheme" where
  "task_reschedule_if_needed s =
     (if \<not> initialized s \<or> current_task s = 0 then s
      else if t_preempt_count (tasks s (current_task s)) > 0 then s
      else let cur = current_task s; s1 = s\<lparr>reschedule_requested := False\<rparr> in
        if reschedule_requested s \<or> t_reschedule_pending (tasks s cur)
           \<or> (cur = idle_task \<and> task_ready_count s > 0)
        then schedule (upd_task cur (\<lambda>t. t\<lparr>t_reschedule_pending := False\<rparr>) s1)
        else s1)"

section \<open>The sleep queue holds the sleepers in order of their deadlines\<close>

definition sleep_inv :: "'a sched_state_scheme \<Rightarrow> nat list \<Rightarrow> bool" where
  "sleep_inv s xs \<longleftrightarrow> dlist (sleep_links s) sleep_queue xs \<and> set xs \<subseteq> {1..idle_task}
     \<and> sorted (map (\<lambda>p. t_sleep_target_tick (tasks s p)) xs) \<and> sleeping_task_count s = length xs
     \<and> (\<forall>p \<in> {1..idle_task} - set xs. next_ptr (sleep_links s p) \<in> {0, p})"

lemma upd_task_simps [simp]:
  "tasks (upd_task p f s) = (tasks s)(p := f (tasks s p))"
  "sleep_links (upd_task p f s) = sleep_links s"
  "sleeping_task_count (upd_task p f s) = sleeping_task_count s"
  "current_task (upd_task p f s) = current_task s"
  "initialized (upd_task p f s) = initialized s"
  "reschedule_requested (upd_task p f s) = reschedule_requested s"
  "irq_enabled (upd_task p f s) = irq_enabled s"
  "s_timer_ticks (upd_task p f s) = s_timer_ticks s"
  by (simp_all add: upd_task_def)

abbreviation deadline :: "'a sched_state_scheme \<Rightarrow> nat \<Rightarrow> nat" where
  "deadline s p \<equiv> t_sleep_target_tick (tasks s p)"

text \<open>Where an insertion puts a task: after every task that is due no later.\<close>

definition sleep_insert :: "'a sched_state_scheme \<Rightarrow> nat \<Rightarrow> nat list \<Rightarrow> nat list" where
  "sleep_insert s p xs = takeWhile (\<lambda>q. deadline s q \<le> deadline s p) xs
     @ p # dropWhile (\<lambda>q. deadline s q \<le> deadline s p) xs"

lemma set_sleep_insert [simp]: "set (sleep_insert s p xs) = insert p (set xs)"
  by (induction xs) (auto simp: sleep_insert_def)

lemma length_sleep_insert [simp]: "length (sleep_insert s p xs) = Suc (length xs)"
proof -
  have "length xs = length (takeWhile (\<lambda>q. deadline s q \<le> deadline s p) xs)
      + length (dropWhile (\<lambda>q. deadline s q \<le> deadline s p) xs)"
    by (metis length_append takeWhile_dropWhile_id)
  then show ?thesis by (simp add: sleep_insert_def)
qed

lemma sorted_sleep_insert:
  "sorted (map (deadline s) xs) \<Longrightarrow> sorted (map (deadline s) (sleep_insert s p xs))"
proof (induction xs)
  case (Cons x xs)
  show ?case
  proof (cases "deadline s x \<le> deadline s p")
    case True
    have e: "sleep_insert s p (x # xs) = x # sleep_insert s p xs" using True by (simp add: sleep_insert_def)
    show ?thesis unfolding e using True Cons by auto
  next
    case False
    then show ?thesis using Cons.prems by (auto simp: sleep_insert_def)
  qed
qed (simp add: sleep_insert_def)

lemma sleep_insert_scan_dlist:
  assumes "dlist (sleep_links s) sleep_queue (us @ vs)" and "p \<notin> set (sleep_queue # us @ vs)" and "p \<noteq> 0"
  shows "\<exists>a b. {a, b} \<subseteq> set (sleep_queue # us @ vs)
    \<and> sleep_insert_scan s p (hd (vs @ [sleep_queue])) = Some (list_add_between p a b (sleep_links s))
    \<and> dlist (list_add_between p a b (sleep_links s)) sleep_queue (us @ sleep_insert s p vs)"
  using assms
proof (induction vs arbitrary: us)
  case Nil
  let ?h = "sleep_links s"
  have "prev_ptr (?h sleep_queue) \<in> set (sleep_queue # us)"
    using dlist_mem_neighbours(2) [OF Nil.prems(1), of sleep_queue] by simp
  moreover have "dlist (list_add_tail p sleep_queue ?h) sleep_queue (us @ [p])"
    using dlist_add_tail [of ?h sleep_queue us p] Nil.prems by simp
  ultimately show ?case
    by (intro exI [of _ "prev_ptr (?h sleep_queue)"] exI [of _ sleep_queue])
      (subst sleep_insert_scan.simps, auto simp: list_add_tail_def sleep_insert_def)
next
  case (Cons v vs)
  let ?h = "sleep_links s"
  have v: "v \<noteq> sleep_queue" using Cons.prems(1) by (auto simp: dlist_def)
  have pv: "prev_ptr (?h v) = last (sleep_queue # us)" and nv: "next_ptr (?h v) = hd (vs @ [sleep_queue])"
    using dlist_neighbours [OF Cons.prems(1)] by auto
  show ?case
  proof (cases "deadline s p < deadline s v")
    case True
    have "last (sleep_queue # us) \<in> set (sleep_queue # us)" by (rule last_in_set) simp
    with pv have "prev_ptr (?h v) \<in> set (sleep_queue # us)" by simp
    moreover have "dlist (list_add_between p (prev_ptr (?h v)) v ?h) sleep_queue (us @ p # v # vs)"
      using Cons.prems pv by (intro dlist_splice) auto
    ultimately show ?thesis using True v
      by (intro exI [of _ "prev_ptr (?h v)"] exI [of _ v])
        (subst sleep_insert_scan.simps, auto simp: sleep_insert_def)
  next
    case False
    have "\<exists>a b. {a, b} \<subseteq> set (sleep_queue # (us @ [v]) @ vs)
      \<and> sleep_insert_scan s p (hd (vs @ [sleep_queue])) = Some (list_add_between p a b (sleep_links s))
      \<and> dlist (list_add_between p a b (sleep_links s)) sleep_queue ((us @ [v]) @ sleep_insert s p vs)"
      by (rule Cons.IH) (use Cons.prems in auto)
    moreover have "sleep_insert s p (v # vs) = v # sleep_insert s p vs"
      using False by (simp add: sleep_insert_def)
    moreover have "sleep_insert_scan s p (hd ((v # vs) @ [sleep_queue]))
        = sleep_insert_scan s p (hd (vs @ [sleep_queue]))"
      using v False nv by (subst sleep_insert_scan.simps) simp
    ultimately show ?thesis by auto
  qed
qed

lemma sleep_queue_insert:
  assumes "sleep_inv s xs" and "p \<in> {1..idle_task} - set xs"
  shows "\<exists>h. sleep_queue_insert_sorted p s
      = Some (s\<lparr>sleep_links := h, sleeping_task_count := sleeping_task_count s + 1\<rparr>)
    \<and> sleep_inv (s\<lparr>sleep_links := h, sleeping_task_count := sleeping_task_count s + 1\<rparr>) (sleep_insert s p xs)"
proof -
  let ?h = "sleep_links s"
  from assms have D: "dlist ?h sleep_queue xs" and p: "p \<notin> set (sleep_queue # xs)" "p \<noteq> 0"
    and sub: "set xs \<subseteq> {1..idle_task}" and srt: "sorted (map (deadline s) xs)"
    and cnt: "sleeping_task_count s = length xs"
    and out: "\<And>q. q \<in> {1..idle_task} - set xs \<Longrightarrow> next_ptr (?h q) \<in> {0, q}"
    by (auto simp: sleep_inv_def sleep_queue_def idle_task_def)
  have "next_ptr (?h sleep_queue) = hd (xs @ [sleep_queue])"
    using D by (auto simp: dlist_def dest: linked_first)
  with sleep_insert_scan_dlist [of s "[]" xs p] D p obtain a b where ab:
    "{a, b} \<subseteq> set (sleep_queue # xs)"
    "sleep_insert_scan s p (next_ptr (?h sleep_queue)) = Some (list_add_between p a b ?h)"
    "dlist (list_add_between p a b ?h) sleep_queue (sleep_insert s p xs)" by auto
  have "length xs < 2 ^ 64 - 1"
  proof -
    have "length xs = card (set xs)" using D by (simp add: dlist_def distinct_card)
    also have "\<dots> \<le> card {1..idle_task}" using sub by (intro card_mono) auto
    finally show ?thesis by (simp add: idle_task_def)
  qed
  then have "sleep_queue_insert_sorted p s = Some (s\<lparr>sleep_links := list_add_between p a b ?h,
      sleeping_task_count := sleeping_task_count s + 1\<rparr>)"
    using ab(2) cnt by (simp add: sleep_queue_insert_sorted_def add64_exact)
  moreover have "next_ptr (list_add_between p a b ?h q) \<in> {0, q}"
    if "q \<in> {1..idle_task} - set (sleep_insert s p xs)" for q
  proof -
    have "q \<notin> {p, a, b}" using that ab(1) by (auto simp: sleep_queue_def idle_task_def)
    then show ?thesis using out [of q] that by (simp add: list_add_between_frame)
  qed
  ultimately show ?thesis
    using ab(3) sub srt cnt assms(2) sorted_sleep_insert [OF srt, of p]
    by (intro exI [of _ "list_add_between p a b ?h"]) (simp add: sleep_inv_def)
qed

lemma sleep_inv_tasks:
  assumes "sleep_inv s xs" and "sleep_links s' = sleep_links s"
    and "sleeping_task_count s' = sleeping_task_count s" and "\<And>q. q \<in> set xs \<Longrightarrow> deadline s' q = deadline s q"
  shows "sleep_inv s' xs"
proof -
  have "map (deadline s') xs = map (deadline s) xs" using assms(4) by simp
  with assms show ?thesis unfolding sleep_inv_def by metis
qed

lemma sleep_inv_linked_iff:
  assumes "sleep_inv s xs" and "p \<in> {1..idle_task}"
  shows "next_ptr (sleep_links s p) \<noteq> 0 \<and> next_ptr (sleep_links s p) \<noteq> p \<longleftrightarrow> p \<in> set xs"
proof
  assume "p \<in> set xs"
  then obtain us vs where xs: "xs = us @ p # vs" by (auto dest: split_list)
  have D: "dlist (sleep_links s) sleep_queue (us @ p # vs)" using assms xs by (simp add: sleep_inv_def)
  have "hd (vs @ [sleep_queue]) \<in> set (vs @ [sleep_queue])" by (rule hd_in_set) simp
  with dlist_neighbours(1) [OF D] dlist_distinct [OF D]
  show "next_ptr (sleep_links s p) \<noteq> 0 \<and> next_ptr (sleep_links s p) \<noteq> p" by auto
next
  assume n: "next_ptr (sleep_links s p) \<noteq> 0 \<and> next_ptr (sleep_links s p) \<noteq> p"
  show "p \<in> set xs"
  proof (rule ccontr)
    assume "p \<notin> set xs"
    with assms(2) have "p \<in> {1..idle_task} - set xs" by simp
    moreover from assms(1) have "\<forall>p \<in> {1..idle_task} - set xs. next_ptr (sleep_links s p) \<in> {0, p}"
      unfolding sleep_inv_def by (elim conjE)
    ultimately have "next_ptr (sleep_links s p) \<in> {0, p}" by (simp only:)
    with n show False by simp
  qed
qed

text \<open>Taking a task out of the queue.\<close>

lemma sleep_remove:
  assumes "sleep_inv s (us @ p # vs)"
  shows "sleep_inv (sleep_count_down (s\<lparr>sleep_links := list_del_init p (sleep_links s)\<rparr>)) (us @ vs)"
proof -
  let ?h = "sleep_links s" and ?h' = "list_del_init p (sleep_links s)"
  have D: "dlist ?h sleep_queue (us @ p # vs)" and sub: "set (us @ p # vs) \<subseteq> {1..idle_task}"
    and cnt: "sleeping_task_count s = Suc (length (us @ vs))"
    and out: "\<And>q. q \<in> {1..idle_task} - set (us @ p # vs) \<Longrightarrow> next_ptr (?h q) \<in> {0, q}"
    using assms by (auto simp: sleep_inv_def)
  have "next_ptr (?h' q) \<in> {0, q}" if "q \<in> {1..idle_task} - set (us @ vs)" for q
  proof (cases "q = p")
    case True
    with dlist_del_init(2) [OF D] show ?thesis by simp
  next
    case False
    then have "q \<notin> set (sleep_queue # us @ p # vs)"
      using that by (auto simp: sleep_queue_def idle_task_def)
    then have "?h' q = ?h q" using D by (intro list_del_init_frame) auto
    with out [of q] that False show ?thesis by simp
  qed
  then show ?thesis
    using dlist_del_init(1) [OF D] assms sub cnt
    by (auto simp: sleep_inv_def sleep_count_down_def sorted_append)
qed

lemma sleep_count_down_simps [simp]:
  "tasks (sleep_count_down s) = tasks s" "current_task (sleep_count_down s) = current_task s"
  "sleep_links (sleep_count_down s) = sleep_links s" "initialized (sleep_count_down s) = initialized s"
  "reschedule_requested (sleep_count_down s) = reschedule_requested s"
  by (simp_all add: sleep_count_down_def)

lemma sleep_unlink_tasks [simp]:
  "tasks (sleep_unlink p s) = tasks s" "current_task (sleep_unlink p s) = current_task s"
  by (simp_all add: sleep_unlink_def)

lemma sleep_unlink_inv:
  assumes "sleep_inv s xs" and "p \<in> {1..idle_task}"
  shows "sleep_inv (sleep_unlink p s) (remove1 p xs)"
proof (cases "p \<in> set xs")
  case True
  then obtain us vs where xs: "xs = us @ p # vs" "p \<notin> set us" by (metis split_list_first)
  then have "remove1 p xs = us @ vs" by (simp add: remove1_append)
  with sleep_remove [of s us p vs] assms xs True sleep_inv_linked_iff [OF assms] show ?thesis
    by (simp add: sleep_unlink_def)
next
  case False
  then show ?thesis using assms sleep_inv_linked_iff [OF assms] by (auto simp: sleep_unlink_def remove1_idem)
qed

lemma sleep_inv_distinct: "sleep_inv s xs \<Longrightarrow> distinct xs"
  by (simp add: sleep_inv_def dlist_def)

lemma task_sleep_enqueue_inv:
  assumes "sleep_inv s xs" and "p \<in> {1..idle_task}"
  shows "\<exists>s'. task_sleep_enqueue p t s = Some s' \<and> sleep_inv s' (sleep_insert s' p (remove1 p xs))
    \<and> tasks s' = (tasks s)(p := (tasks s p)\<lparr>t_sleep_target_tick := t\<rparr>) \<and> current_task s' = current_task s"
proof -
  let ?s1 = "upd_task p (\<lambda>u. u\<lparr>t_sleep_target_tick := t\<rparr>) (sleep_unlink p s)"
  have p: "p \<notin> set (remove1 p xs)" "p \<noteq> 0" using sleep_inv_distinct [OF assms(1)] assms(2) by auto
  have i: "sleep_inv ?s1 (remove1 p xs)"
    using p by (intro sleep_inv_tasks [OF sleep_unlink_inv [OF assms]]) auto
  from sleep_queue_insert [OF this, of p] p assms(2) obtain h where
    h: "sleep_queue_insert_sorted p ?s1
        = Some (?s1\<lparr>sleep_links := h, sleeping_task_count := sleeping_task_count ?s1 + 1\<rparr>)"
      "sleep_inv (?s1\<lparr>sleep_links := h, sleeping_task_count := sleeping_task_count ?s1 + 1\<rparr>)
        (sleep_insert ?s1 p (remove1 p xs))" by auto
  then show ?thesis using p(2) by (auto simp: task_sleep_enqueue_def sleep_insert_def)
qed

lemma task_sleep_dequeue_inv:
  assumes "sleep_inv s xs" and "p \<in> {1..idle_task}"
  shows "sleep_inv (task_sleep_dequeue p s) (remove1 p xs)"
proof -
  have p: "p \<notin> set (remove1 p xs)" "p \<noteq> 0" using sleep_inv_distinct [OF assms(1)] assms(2) by auto
  then have "sleep_inv (upd_task p (\<lambda>t. t\<lparr>t_sleep_target_tick := 0\<rparr>) (sleep_unlink p s)) (remove1 p xs)"
    by (intro sleep_inv_tasks [OF sleep_unlink_inv [OF assms]]) auto
  with p show ?thesis by (simp add: task_sleep_dequeue_def)
qed

text \<open>The wake loop of the timer tick.\<close>

definition woken_task :: "task \<Rightarrow> task" where
  "woken_task t = t\<lparr>t_state := THREAD_STATE_RUNNABLE, t_quantum_remaining := TASK_DEFAULT_QUANTUM\<rparr>"

lemma wake_sleeper_inv:
  assumes "sleep_inv s (p # xs)"
  shows "sleep_inv (wake_sleeper p s) xs"
proof -
  have "sleep_inv (sleep_count_down (s\<lparr>sleep_links := list_del_init p (sleep_links s)\<rparr>)) xs"
    using sleep_remove [of s "[]" p xs] assms by simp
  then show ?thesis by (rule sleep_inv_tasks) (simp_all add: wake_sleeper_def)
qed

lemma wake_sleeper_simps [simp]:
  "tasks (wake_sleeper p s) = (tasks s)(p := woken_task (tasks s p))"
  "current_task (wake_sleeper p s) = current_task s"
  "reschedule_requested (wake_sleeper p s) = reschedule_requested s"
  "initialized (wake_sleeper p s) = initialized s"
  by (simp_all add: wake_sleeper_def woken_task_def)

lemma woken_deadline [simp]: "t_sleep_target_tick (woken_task t) = t_sleep_target_tick t"
  by (simp add: woken_task_def)

lemma tick_wake_inv:
  assumes "sleep_inv s xs"
  shows "\<exists>s'. tick_wake now (hd (xs @ [sleep_queue])) w s = Some (w \<or> (\<exists>p \<in> set xs. deadline s p \<le> now), s')
    \<and> sleep_inv s' (dropWhile (\<lambda>p. deadline s p \<le> now) xs)
    \<and> tasks s' = (\<lambda>p. if p \<in> set xs \<and> deadline s p \<le> now then woken_task (tasks s p) else tasks s p)
    \<and> current_task s' = current_task s \<and> initialized s' = initialized s
    \<and> reschedule_requested s' = reschedule_requested s"
  using assms
proof (induction xs arbitrary: s w)
  case Nil
  then show ?case by (subst tick_wake.simps) auto
next
  case (Cons x xs)
  have x: "x \<noteq> sleep_queue" "x \<notin> set xs" and D: "dlist (sleep_links s) sleep_queue (x # xs)"
    using Cons.prems by (auto simp: sleep_inv_def dlist_def)
  have nx: "next_ptr (sleep_links s x) = hd (xs @ [sleep_queue])"
    using dlist_neighbours(1) [of "sleep_links s" sleep_queue "[]" x xs] D by simp
  show ?case
  proof (cases "now < deadline s x")
    case True
    then have "\<forall>p \<in> set (x # xs). now < deadline s p"
      using Cons.prems by (auto simp: sleep_inv_def)
    with True x Cons.prems show ?thesis by (subst tick_wake.simps) (force simp: fun_eq_iff)
  next
    case False
    let ?s = "wake_sleeper x s"
    from Cons.IH [OF wake_sleeper_inv [OF Cons.prems], of True] obtain s' where
      s': "tick_wake now (hd (xs @ [sleep_queue])) True ?s = Some (True, s')"
        "sleep_inv s' (dropWhile (\<lambda>p. deadline ?s p \<le> now) xs)"
        "tasks s' = (\<lambda>p. if p \<in> set xs \<and> deadline ?s p \<le> now then woken_task (tasks ?s p) else tasks ?s p)"
        "current_task s' = current_task s" "initialized s' = initialized s"
        "reschedule_requested s' = reschedule_requested s"
      by auto
    have d: "deadline ?s p = deadline s p" for p by simp
    have "tasks s' = (\<lambda>p. if p \<in> set (x # xs) \<and> deadline s p \<le> now then woken_task (tasks s p) else tasks s p)"
      unfolding s'(3) d using x False by (auto simp: fun_eq_iff)
    moreover have "tick_wake now (hd ((x # xs) @ [sleep_queue])) w s = Some (True, s')"
      using x False nx s'(1) by (subst tick_wake.simps) simp
    ultimately show ?thesis using False s'(2,4,5,6) unfolding d by (intro exI [of _ s']) auto
  qed
qed

section \<open>Round robin\<close>

text \<open>The number of steps from one slot index to another, going round the table.\<close>

definition hops :: "nat \<Rightarrow> nat \<Rightarrow> nat" where
  "hops a b = (if a < b then b - a else b + TASK_MAX_COUNT - a)"

definition start_index :: "'a sched_state_scheme \<Rightarrow> nat" where
  "start_index s = (if 1 \<le> current_task s \<and> current_task s \<le> TASK_MAX_COUNT then current_task s - 1 else 0)"

definition runnable :: "'a sched_state_scheme \<Rightarrow> nat \<Rightarrow> bool" where
  "runnable s index \<longleftrightarrow> t_state (tasks s (slot index)) = THREAD_STATE_RUNNABLE"

lemma start_index_less: "start_index s < TASK_MAX_COUNT"
  by (auto simp: start_index_def TASK_MAX_COUNT_def)

lemma hops_range:
  "a < TASK_MAX_COUNT \<Longrightarrow> b < TASK_MAX_COUNT \<Longrightarrow> 1 \<le> hops a b \<and> hops a b \<le> TASK_MAX_COUNT
    \<and> (a + hops a b) mod TASK_MAX_COUNT = b"
  by (auto simp: hops_def)

lemma hops_unique:
  assumes "a < TASK_MAX_COUNT" and "1 \<le> k" and "k \<le> TASK_MAX_COUNT"
  shows "hops a ((a + k) mod TASK_MAX_COUNT) = k"
proof (cases "a + k < TASK_MAX_COUNT")
  case True
  with assms show ?thesis by (simp add: hops_def)
next
  case False
  with assms have "(a + k) mod TASK_MAX_COUNT = a + k - TASK_MAX_COUNT"
    by (simp add: mod_if)
  with assms False show ?thesis by (simp add: hops_def)
qed

lemma hops_trans:
  assumes "a < TASK_MAX_COUNT" "b < TASK_MAX_COUNT" "c < TASK_MAX_COUNT" and "hops a b < hops a c"
  shows "hops b c = hops a c - hops a b"
  using assms by (auto simp: hops_def split: if_splits)

lemma find_next_ready_None:
  "task_find_next_ready s = 0 \<longleftrightarrow> (\<forall>d < TASK_MAX_COUNT. \<not> runnable s d)"
proof -
  let ?P = "\<lambda>step. runnable s ((start_index s + step) mod TASK_MAX_COUNT)"
  have "task_find_next_ready s = 0 \<longleftrightarrow> first_index ?P [1..<TASK_MAX_COUNT + 1] = None"
    by (simp add: task_find_next_ready_def start_index_def runnable_def slot_def Let_def split: option.split)
  also have "\<dots> \<longleftrightarrow> (\<forall>step \<in> {1..<TASK_MAX_COUNT + 1}. \<not> ?P step)"
    by (simp only: first_index_None set_upt)
  also have "\<dots> \<longleftrightarrow> (\<forall>d < TASK_MAX_COUNT. \<not> runnable s d)"
  proof
    assume L: "\<forall>step \<in> {1..<TASK_MAX_COUNT + 1}. \<not> ?P step"
    show "\<forall>d < TASK_MAX_COUNT. \<not> runnable s d"
    proof (intro allI impI)
      fix d assume "d < TASK_MAX_COUNT"
      with hops_range [OF start_index_less, of d s] L show "\<not> runnable s d"
        by (metis atLeastLessThan_iff less_Suc_eq_le Suc_eq_plus1)
    qed
  next
    assume "\<forall>d < TASK_MAX_COUNT. \<not> runnable s d"
    then show "\<forall>step \<in> {1..<TASK_MAX_COUNT + 1}. \<not> ?P step" by (simp add: TASK_MAX_COUNT_def)
  qed
  finally show ?thesis .
qed

text \<open>The scheduler picks the runnable slot that comes first after the current one.\<close>

lemma find_next_ready_Some:
  assumes "runnable s d" and "d < TASK_MAX_COUNT"
  obtains c where "task_find_next_ready s = slot c" "c < TASK_MAX_COUNT" "runnable s c"
    "hops (start_index s) c \<le> hops (start_index s) d"
proof -
  let ?P = "\<lambda>step. runnable s ((start_index s + step) mod TASK_MAX_COUNT)"
  have r: "1 \<le> hops (start_index s) d" "hops (start_index s) d \<le> TASK_MAX_COUNT"
    "(start_index s + hops (start_index s) d) mod TASK_MAX_COUNT = d"
    using hops_range [OF start_index_less assms(2), of s] by auto
  then have r2: "hops (start_index s) d \<in> set [1..<TASK_MAX_COUNT + 1]" "?P (hops (start_index s) d)"
    using assms(1) by (auto simp: TASK_MAX_COUNT_def)
  then have "\<not> (\<forall>step \<in> set [1..<TASK_MAX_COUNT + 1]. \<not> ?P step)" by blast
  then obtain k where k: "first_index ?P [1..<TASK_MAX_COUNT + 1] = Some k"
    by (metis first_index_None option.exhaust)
  from first_index_Some [OF k] have k1: "1 \<le> k" "k \<le> TASK_MAX_COUNT" "?P k" by auto
  have le: "k \<le> hops (start_index s) d"
    by (rule first_index_least [OF sorted_upt k r2])
  have f: "task_find_next_ready s = slot ((start_index s + k) mod TASK_MAX_COUNT)"
    using k unfolding task_find_next_ready_def start_index_def runnable_def Let_def by simp
  have "hops (start_index s) ((start_index s + k) mod TASK_MAX_COUNT) = k"
    by (rule hops_unique) (use k1 start_index_less in auto)
  with that [OF f] k1 le show thesis by (simp add: TASK_MAX_COUNT_def)
qed

lemma switch_to_state:
  assumes "next \<noteq> current_task s"
  shows "t_state (tasks (switch_to next s) p) =
    (if p = next then THREAD_STATE_RUNNING
     else if p = current_task s \<and> p \<noteq> 0 \<and> t_state (tasks s p) = THREAD_STATE_RUNNING then THREAD_STATE_RUNNABLE
     else t_state (tasks s p))"
  using assms by (simp add: switch_to_def Let_def load_kernel_stack_def switch_address_space_def)

lemma switch_to_simps [simp]:
  "current_task (switch_to next s) = next" "initialized (switch_to next s) = initialized s"
  "reschedule_requested (switch_to next s) = reschedule_requested s"
  "sleep_links (switch_to next s) = sleep_links s"
  "sleeping_task_count (switch_to next s) = sleeping_task_count s"
  by (simp_all add: switch_to_def Let_def load_kernel_stack_def switch_address_space_def)

lemma switch_to_deadline [simp]: "deadline (switch_to next s) p = deadline s p"
  by (simp add: switch_to_def Let_def load_kernel_stack_def switch_address_space_def)

lemma schedule_initialized [simp]: "initialized (schedule s) = initialized s"
  by (simp add: schedule_def Let_def split: option.split)

text \<open>The sleep queue does not notice a switch.\<close>

lemma sleep_inv_schedule: "sleep_inv s xs \<Longrightarrow> sleep_inv (schedule s) xs"
  by (erule sleep_inv_tasks) (simp_all add: schedule_def Let_def split: option.split)

section \<open>One running task\<close>

definition one_running :: "'a sched_state_scheme \<Rightarrow> bool" where
  "one_running s \<longleftrightarrow> current_task s \<in> {1..idle_task}
     \<and> (\<forall>p \<in> {1..idle_task}. t_state (tasks s p) = THREAD_STATE_RUNNING \<longrightarrow> p = current_task s)"

lemma slot_range: "d < TASK_MAX_COUNT \<Longrightarrow> slot d \<in> {1..idle_task} \<and> slot d \<noteq> idle_task"
  by (simp add: slot_def TASK_MAX_COUNT_def idle_task_def)

lemma find_next_ready_range: "task_find_next_ready s \<in> {0..TASK_MAX_COUNT}"
proof -
  have "x mod TASK_MAX_COUNT + 1 \<le> TASK_MAX_COUNT" for x
    by (simp add: TASK_MAX_COUNT_def Suc_leI)
  then show ?thesis
    by (simp add: task_find_next_ready_def slot_def Let_def split: option.split)
qed

lemma schedule_target_range: "schedule_target s = Some next \<Longrightarrow> next \<in> {1..idle_task} \<and> next \<noteq> current_task s"
  using find_next_ready_range [of s]
  by (auto simp: schedule_target_def Let_def idle_task_def TASK_MAX_COUNT_def split: if_splits)

text \<open>Round robin: the scheduler goes to the first runnable slot after the current one.\<close>

lemma find_next_ready_first:
  assumes "runnable s ((start_index s + k) mod TASK_MAX_COUNT)" and "1 \<le> k" "k \<le> TASK_MAX_COUNT"
    and "\<And>j. 1 \<le> j \<Longrightarrow> j < k \<Longrightarrow> \<not> runnable s ((start_index s + j) mod TASK_MAX_COUNT)"
  shows "task_find_next_ready s = slot ((start_index s + k) mod TASK_MAX_COUNT)"
proof -
  have "(start_index s + k) mod TASK_MAX_COUNT < TASK_MAX_COUNT" by (simp add: TASK_MAX_COUNT_def)
  from find_next_ready_Some [OF assms(1) this] obtain c where
    c: "task_find_next_ready s = slot c" "c < TASK_MAX_COUNT" "runnable s c" "hops (start_index s) c \<le> k"
    using hops_unique [OF start_index_less assms(2,3), of s] by auto
  have h: "1 \<le> hops (start_index s) c" "(start_index s + hops (start_index s) c) mod TASK_MAX_COUNT = c"
    using hops_range [OF start_index_less c(2), of s] by auto
  with c(3) assms(4) [of "hops (start_index s) c"] have "\<not> hops (start_index s) c < k" by auto
  with c(4) have "hops (start_index s) c = k" by simp
  with h(2) c(1) show ?thesis by simp
qed

lemma schedule_goes_to:
  "initialized s \<Longrightarrow> task_find_next_ready s = slot c \<Longrightarrow> current_task (schedule s) = slot c"
  by (simp add: schedule_def schedule_target_def Let_def slot_def)

lemma schedule_nothing_ready:
  "initialized s \<Longrightarrow> current_task s \<noteq> 0 \<Longrightarrow> task_find_next_ready s = 0 \<Longrightarrow> current_task (schedule s) =
    (if t_state (tasks s (current_task s)) = THREAD_STATE_RUNNING then current_task s else idle_task)"
  by (auto simp: schedule_def schedule_target_def Let_def)

lemma schedule_one_running: "one_running s \<Longrightarrow> one_running (schedule s)"
  using schedule_target_range [of s]
  by (auto simp: one_running_def schedule_def Let_def switch_to_state split: option.split if_splits)

lemma task_block_one_running: "one_running s \<Longrightarrow> one_running (task_block p s)"
  by (auto simp: one_running_def task_block_def Let_def)

lemma task_unblock_one_running: "one_running s \<Longrightarrow> one_running (task_unblock p s)"
  by (auto simp: one_running_def task_unblock_def)

text \<open>One round: the task comes closer, or it runs.\<close>

lemma schedule_closer:
  assumes "initialized s" and "runnable s d" and "d < TASK_MAX_COUNT" and "current_task s \<noteq> slot d"
  shows "current_task (schedule s) = slot d \<and> t_state (tasks (schedule s) (slot d)) = THREAD_STATE_RUNNING
    \<or> current_task (schedule s) \<noteq> slot d \<and> runnable (schedule s) d
      \<and> hops (start_index (schedule s)) d < hops (start_index s) d"
proof -
  from assms(2,3) obtain c where c: "task_find_next_ready s = slot c" "c < TASK_MAX_COUNT" "runnable s c"
    "hops (start_index s) c \<le> hops (start_index s) d"
    by (rule find_next_ready_Some)
  have "slot c \<noteq> current_task s"
  proof
    assume cur: "slot c = current_task s"
    then have "start_index s = c" using c(2) by (simp add: start_index_def slot_def)
    moreover have "d \<noteq> c" using cur assms(4) by auto
    ultimately show False using c assms(3) by (auto simp: hops_def split: if_splits)
  qed
  then have t: "schedule_target s = Some (slot c)"
    using c(1) by (simp add: schedule_target_def Let_def slot_def)
  then have sch: "schedule s = switch_to (slot c) (s\<lparr>reschedule_requested := False\<rparr>)"
    using assms(1) by (simp add: schedule_def)
  show ?thesis
  proof (cases "c = d")
    case True
    with sch \<open>slot c \<noteq> current_task s\<close> show ?thesis by (simp add: switch_to_state)
  next
    case False
    then have "hops (start_index s) c \<noteq> hops (start_index s) d"
      using c(2) assms(3) hops_range [OF start_index_less c(2), of s]
        hops_range [OF start_index_less assms(3), of s] by metis
    with c(4) have lt: "hops (start_index s) c < hops (start_index s) d" by simp
    have "start_index (schedule s) = c" using sch c(2) by (simp add: start_index_def slot_def)
    moreover have "hops c d = hops (start_index s) d - hops (start_index s) c"
      by (rule hops_trans [OF start_index_less c(2) assms(3) lt])
    moreover have "runnable (schedule s) d"
      using assms(2,4) False \<open>slot c \<noteq> current_task s\<close>
      unfolding sch by (simp add: runnable_def switch_to_state slot_def)
    moreover have "current_task (schedule s) \<noteq> slot d" using sch False by (simp add: slot_def)
    ultimately show ?thesis using lt hops_range [OF start_index_less c(2), of s] by auto
  qed
qed

text \<open>Rounds of the scheduler; between two rounds other code runs, which may change anything but the
  current task and the state of the waiting task.\<close>

fun sched_rounds :: "(nat \<Rightarrow> 'a sched_state_scheme \<Rightarrow> 'a sched_state_scheme) \<Rightarrow> nat
    \<Rightarrow> 'a sched_state_scheme \<Rightarrow> 'a sched_state_scheme" where
  "sched_rounds env 0 s = s"
| "sched_rounds env (Suc n) s = sched_rounds (\<lambda>i. env (Suc i)) n (schedule (env 0 s))"

definition leaves_waiting :: "nat \<Rightarrow> ('a sched_state_scheme \<Rightarrow> 'a sched_state_scheme) \<Rightarrow> bool" where
  "leaves_waiting d f \<longleftrightarrow> (\<forall>s. current_task (f s) = current_task s \<and> initialized (f s) = initialized s
     \<and> t_state (tasks (f s) (slot d)) = t_state (tasks s (slot d)))"

lemma leaves_waitingD:
  "leaves_waiting d f \<Longrightarrow> current_task (f s) = current_task s \<and> initialized (f s) = initialized s
    \<and> runnable (f s) d = runnable s d \<and> start_index (f s) = start_index s"
  by (simp add: leaves_waiting_def runnable_def start_index_def)

lemma sched_rounds_reach:
  assumes "initialized s" and "runnable s d" and "d < TASK_MAX_COUNT" and "current_task s \<noteq> slot d"
    and "\<And>i. leaves_waiting d (env i)"
  shows "\<exists>n. 1 \<le> n \<and> n \<le> hops (start_index s) d \<and> current_task (sched_rounds env n s) = slot d
    \<and> t_state (tasks (sched_rounds env n s) (slot d)) = THREAD_STATE_RUNNING"
  using assms
proof (induction "hops (start_index s) d" arbitrary: s env rule: less_induct)
  case less
  have e: "initialized (env 0 s)" "runnable (env 0 s) d" "current_task (env 0 s) \<noteq> slot d"
    "start_index (env 0 s) = start_index s"
    using less.prems leaves_waitingD [OF less.prems(5), of 0 s] by auto
  let ?s = "schedule (env 0 s)"
  from schedule_closer [OF e(1,2) less.prems(3) e(3)] show ?case
  proof
    assume "current_task ?s = slot d \<and> t_state (tasks ?s (slot d)) = THREAD_STATE_RUNNING"
    then show ?thesis
      using hops_range [OF start_index_less less.prems(3), of s] by (intro exI [of _ 1]) simp
  next
    assume c: "current_task ?s \<noteq> slot d \<and> runnable ?s d \<and> hops (start_index ?s) d < hops (start_index (env 0 s)) d"
    have "\<exists>n. 1 \<le> n \<and> n \<le> hops (start_index ?s) d
        \<and> current_task (sched_rounds (\<lambda>i. env (Suc i)) n ?s) = slot d
        \<and> t_state (tasks (sched_rounds (\<lambda>i. env (Suc i)) n ?s) (slot d)) = THREAD_STATE_RUNNING"
      by (rule less.hyps) (use c e less.prems in auto)
    then obtain n where "1 \<le> n" "n \<le> hops (start_index ?s) d"
        "current_task (sched_rounds (\<lambda>i. env (Suc i)) n ?s) = slot d"
        "t_state (tasks (sched_rounds (\<lambda>i. env (Suc i)) n ?s) (slot d)) = THREAD_STATE_RUNNING" by blast
    then show ?thesis using c e(4) by (intro exI [of _ "Suc n"]) auto
  qed
qed

section \<open>The timer tick\<close>

abbreviation wants_switch :: "'a sched_state_scheme \<Rightarrow> bool" where
  "wants_switch s \<equiv> reschedule_requested s \<or> t_reschedule_pending (tasks s (current_task s))"

lemma tick_request_simps [simp]:
  "t_state (tasks (tick_request s) p) = t_state (tasks s p)" "deadline (tick_request s) p = deadline s p"
  "t_quantum_remaining (tasks (tick_request s) p) = t_quantum_remaining (tasks s p)"
  "current_task (tick_request s) = current_task s" "initialized (tick_request s) = initialized s"
  "sleep_links (tick_request s) = sleep_links s" "sleeping_task_count (tick_request s) = sleeping_task_count s"
  by (simp_all add: tick_request_def)

lemma tick_request_wants: "wants_switch (tick_request s)"
  by (simp add: tick_request_def)

lemma tick_quantum_simps [simp]:
  "t_state (tasks (tick_quantum s) p) = t_state (tasks s p)" "deadline (tick_quantum s) p = deadline s p"
  "current_task (tick_quantum s) = current_task s" "initialized (tick_quantum s) = initialized s"
  "sleep_links (tick_quantum s) = sleep_links s" "sleeping_task_count (tick_quantum s) = sleeping_task_count s"
  by (simp_all add: tick_quantum_def Let_def)

lemma tick_quantum_wants: "wants_switch s \<Longrightarrow> wants_switch (tick_quantum s)"
  by (auto simp: tick_quantum_def tick_request_def Let_def)

lemma tick_quantum_expires:
  assumes "t_state (tasks s (current_task s)) = THREAD_STATE_RUNNING" and "current_task s \<noteq> idle_task"
    and "t_quantum_remaining (tasks s (current_task s)) \<le> 1"
  shows "wants_switch (tick_quantum s)"
  using assms by (auto simp: tick_quantum_def tick_request_def Let_def)

lemma tick_quantum_idle:
  "current_task s = idle_task \<Longrightarrow> 0 < task_ready_count s \<Longrightarrow> wants_switch (tick_quantum s)"
  by (simp add: tick_quantum_def)

lemma dropWhile_sorted:
  "sorted (map f xs) \<Longrightarrow> dropWhile (\<lambda>p. f p \<le> b) xs = filter (\<lambda>p. b < f p) xs" for f :: "'a \<Rightarrow> nat"
proof (induction xs)
  case (Cons x xs)
  show ?case
  proof (cases "f x \<le> b")
    case False
    then have "\<forall>y \<in> set xs. b < f y" using Cons.prems by auto
    with False show ?thesis by simp
  qed (use Cons in simp)
qed simp

lemma timer_tick_steps:
  assumes "initialized s" and "sleep_inv s xs" and "current_task s \<noteq> 0"
  obtains s1 where "task_timer_tick s = Some (tick_quantum
      (if \<exists>p \<in> set xs. deadline s p \<le> timer_get_ticks s then tick_request s1 else s1))"
    "sleep_inv s1 (filter (\<lambda>p. timer_get_ticks s < deadline s p) xs)"
    "tasks s1 = (\<lambda>p. if p \<in> set xs \<and> deadline s p \<le> timer_get_ticks s
       then woken_task (tasks s p) else tasks s p)"
    "current_task s1 = current_task s"
proof -
  let ?now = "timer_get_ticks s"
  have srt: "sorted (map (deadline s) xs)" and D: "dlist (sleep_links s) sleep_queue xs"
    and cnt: "sleeping_task_count s = length xs" using assms(2) by (auto simp: sleep_inv_def)
  have "next_ptr (sleep_links s sleep_queue) = hd (xs @ [sleep_queue])"
    using D by (auto simp: dlist_def dest: linked_first)
  with tick_wake_inv [OF assms(2), of ?now False] obtain s1 where
    s1: "tick_wake ?now (next_ptr (sleep_links s sleep_queue)) False s
        = Some (\<exists>p \<in> set xs. deadline s p \<le> ?now, s1)"
      "sleep_inv s1 (dropWhile (\<lambda>p. deadline s p \<le> ?now) xs)"
      "tasks s1 = (\<lambda>p. if p \<in> set xs \<and> deadline s p \<le> ?now then woken_task (tasks s p) else tasks s p)"
      "current_task s1 = current_task s"
    by auto
  show thesis
  proof (cases "xs = []")
    case True
    with assms cnt show thesis by (intro that [of s]) (auto simp: task_timer_tick_def)
  next
    case False
    with s1(1) assms cnt s1(4) have "task_timer_tick s = Some (tick_quantum
      (if \<exists>p \<in> set xs. deadline s p \<le> ?now then tick_request s1 else s1))"
      by (simp add: task_timer_tick_def)
    then show thesis using s1 srt by (intro that [of s1]) (simp_all add: dropWhile_sorted)
  qed
qed

section \<open>Properties\<close>

text \<open>C10. The sleep queue: from a state in which the queue holds the tasks \<open>xs\<close> in order of their
  deadlines, enqueueing a task (queued already or not) returns with the task placed once, behind all
  tasks due no later; dequeueing takes it out; both keep the pointers, the order and the count right.\<close>

theorem task_sleep_queue_correct:
  assumes "sleep_inv s xs" and "p \<in> {1..idle_task}"
  shows "(\<exists>s'. task_sleep_enqueue p t s = Some s' \<and> deadline s' p = t
      \<and> sleep_inv s' (sleep_insert s' p (remove1 p xs)))
    \<and> sleep_inv (task_sleep_dequeue p s) (remove1 p xs)"
  using task_sleep_enqueue_inv [OF assms, of t] task_sleep_dequeue_inv [OF assms] by auto

text \<open>The timer tick returns, takes exactly the tasks whose deadline has come out of the sleep queue
  and makes them runnable, changes no other task's state, and asks for a switch (at once or when
  preemption is enabled again) whenever it woke a task or the running task's quantum is used up.\<close>

theorem task_timer_tick_correct:
  assumes "initialized s" and "sleep_inv s xs" and "current_task s \<noteq> 0"
  shows "\<exists>s'. task_timer_tick s = Some s'
    \<and> sleep_inv s' (filter (\<lambda>p. timer_get_ticks s < deadline s p) xs)
    \<and> (\<forall>p. t_state (tasks s' p) = (if p \<in> set xs \<and> deadline s p \<le> timer_get_ticks s
          then THREAD_STATE_RUNNABLE else t_state (tasks s p)))
    \<and> ((\<exists>p \<in> set xs. deadline s p \<le> timer_get_ticks s) \<longrightarrow> wants_switch s')
    \<and> (current_task s \<notin> insert idle_task (set xs) \<and> t_state (tasks s (current_task s)) = THREAD_STATE_RUNNING
        \<and> t_quantum_remaining (tasks s (current_task s)) \<le> 1 \<longrightarrow> wants_switch s')"
proof -
  let ?now = "timer_get_ticks s"
  let ?due = "\<exists>p \<in> set xs. deadline s p \<le> ?now"
  from assms obtain s1 where s1: "task_timer_tick s = Some (tick_quantum (if ?due then tick_request s1 else s1))"
    "sleep_inv s1 (filter (\<lambda>p. ?now < deadline s p) xs)"
    "tasks s1 = (\<lambda>p. if p \<in> set xs \<and> deadline s p \<le> ?now then woken_task (tasks s p) else tasks s p)"
    "current_task s1 = current_task s" by (rule timer_tick_steps)
  let ?s2 = "if ?due then tick_request s1 else s1"
  let ?s' = "tick_quantum ?s2"
  have "sleep_inv ?s' (filter (\<lambda>p. ?now < deadline s p) xs)"
    by (rule sleep_inv_tasks [OF s1(2)]) auto
  moreover have "\<forall>p. t_state (tasks ?s' p) = (if p \<in> set xs \<and> deadline s p \<le> ?now
      then THREAD_STATE_RUNNABLE else t_state (tasks s p))"
    by (auto simp: s1(3) woken_task_def)
  moreover have "?due \<longrightarrow> wants_switch ?s'"
    using tick_quantum_wants [OF tick_request_wants [of s1]] by auto
  moreover have "wants_switch ?s'" if "current_task s \<notin> insert idle_task (set xs)"
      "t_state (tasks s (current_task s)) = THREAD_STATE_RUNNING"
      "t_quantum_remaining (tasks s (current_task s)) \<le> 1"
    using that s1(3,4) by (intro tick_quantum_expires) auto
  ultimately show ?thesis using s1(1) by (intro exI [of _ ?s']) blast
qed

text \<open>C8. Scheduling keeps at most one running task, the current one; every switch gives the new task the
  processor with a full quantum; the choice is round robin: the task in the first runnable slot after
  the slot of the current task, going round the table, becomes the current one (the search starts after
  slot 0 when the idle task is current); and when no slot is runnable a running task keeps the
  processor and otherwise the idle task gets it.\<close>

theorem schedule_one_running_task:
  assumes "one_running s" and "initialized s"
  shows "one_running (schedule s)
    \<and> (current_task (schedule s) \<noteq> current_task s \<longrightarrow>
        t_state (tasks (schedule s) (current_task (schedule s))) = THREAD_STATE_RUNNING
        \<and> t_quantum_remaining (tasks (schedule s) (current_task (schedule s))) = TASK_DEFAULT_QUANTUM)
    \<and> (\<forall>i k. (current_task s = slot i \<and> i < TASK_MAX_COUNT \<or> current_task s = idle_task \<and> i = 0)
        \<and> 1 \<le> k \<and> k \<le> TASK_MAX_COUNT \<and> runnable s ((i + k) mod TASK_MAX_COUNT)
        \<and> (\<forall>j. 1 \<le> j \<and> j < k \<longrightarrow> \<not> runnable s ((i + j) mod TASK_MAX_COUNT))
        \<longrightarrow> current_task (schedule s) = slot ((i + k) mod TASK_MAX_COUNT))
    \<and> ((\<exists>d < TASK_MAX_COUNT. runnable s d) \<longrightarrow> current_task (schedule s) \<noteq> idle_task)
    \<and> ((\<forall>d < TASK_MAX_COUNT. \<not> runnable s d) \<longrightarrow> current_task (schedule s) =
        (if t_state (tasks s (current_task s)) = THREAD_STATE_RUNNING then current_task s else idle_task))"
proof (intro conjI impI allI)
  show "one_running (schedule s)" by (rule schedule_one_running [OF assms(1)])
next
  assume "current_task (schedule s) \<noteq> current_task s"
  then obtain nxt where "schedule_target s = Some nxt"
    and e: "schedule s = switch_to nxt (s\<lparr>reschedule_requested := False\<rparr>)"
    using assms(2) by (auto simp: schedule_def Let_def split: option.splits)
  then have "nxt \<noteq> current_task s" using schedule_target_range by blast
  then show "t_state (tasks (schedule s) (current_task (schedule s))) = THREAD_STATE_RUNNING"
    and "t_quantum_remaining (tasks (schedule s) (current_task (schedule s))) = TASK_DEFAULT_QUANTUM"
    unfolding e by (simp_all add: switch_to_state)
      (simp add: switch_to_def Let_def load_kernel_stack_def switch_address_space_def)
next
  fix i k
  assume a: "(current_task s = slot i \<and> i < TASK_MAX_COUNT \<or> current_task s = idle_task \<and> i = 0)
      \<and> 1 \<le> k \<and> k \<le> TASK_MAX_COUNT \<and> runnable s ((i + k) mod TASK_MAX_COUNT)
      \<and> (\<forall>j. 1 \<le> j \<and> j < k \<longrightarrow> \<not> runnable s ((i + j) mod TASK_MAX_COUNT))"
  then have "start_index s = i"
    by (auto simp: start_index_def slot_def idle_task_def TASK_MAX_COUNT_def)
  with a find_next_ready_first [of s k] have "task_find_next_ready s = slot ((i + k) mod TASK_MAX_COUNT)" by simp
  then show "current_task (schedule s) = slot ((i + k) mod TASK_MAX_COUNT)" by (rule schedule_goes_to [OF assms(2)])
next
  assume "\<exists>d < TASK_MAX_COUNT. runnable s d"
  then obtain d where "runnable s d" "d < TASK_MAX_COUNT" by blast
  then obtain c where c: "task_find_next_ready s = slot c" "c < TASK_MAX_COUNT"
    by (rule find_next_ready_Some)
  then show "current_task (schedule s) \<noteq> idle_task"
    using slot_range [OF c(2)] schedule_goes_to [OF assms(2) c(1)] by simp
next
  assume "\<forall>d < TASK_MAX_COUNT. \<not> runnable s d"
  then have "task_find_next_ready s = 0" by (simp only: find_next_ready_None)
  moreover have "current_task s \<noteq> 0" using assms(1) by (auto simp: one_running_def)
  ultimately show "current_task (schedule s) =
      (if t_state (tasks s (current_task s)) = THREAD_STATE_RUNNING then current_task s else idle_task)"
    using schedule_nothing_ready [OF assms(2)] by blast
qed

text \<open>C9. No runnable task starves: whatever other code does between calls of \<open>schedule\<close>, as long as it
  changes neither the current task nor the state of the waiting task (and does not take the scheduler
  down), the task runs after at most 64 calls.\<close>

theorem schedule_no_starvation:
  assumes "initialized s" and "t_state (tasks s (slot d)) = THREAD_STATE_RUNNABLE" and "d < TASK_MAX_COUNT"
    and "current_task s \<noteq> slot d" and "\<And>i. leaves_waiting d (env i)"
  shows "\<exists>n \<le> TASK_MAX_COUNT. current_task (sched_rounds env n s) = slot d
    \<and> t_state (tasks (sched_rounds env n s) (slot d)) = THREAD_STATE_RUNNING"
proof -
  have "runnable s d" using assms(2) by (simp add: runnable_def)
  from sched_rounds_reach [OF assms(1) this assms(3-5)] hops_range [OF start_index_less assms(3), of s]
  show ?thesis by (meson le_trans)
qed

text \<open>A system with two runnable slots, the second of them asleep in a queue of its own.\<close>

definition sched_example :: "sched_state" where
  "sched_example = \<lparr>s_timer_ticks = 10, s_timer_frequency = 1000, s_timer_initialized = True, port_writes = [],
     tasks = (\<lambda>p. zero_task\<lparr>t_state := (if p = 1 then THREAD_STATE_RUNNING
       else if p = 3 then THREAD_STATE_RUNNABLE else if p = 5 then THREAD_STATE_SLEEPING else THREAD_STATE_UNUSED),
       t_sleep_target_tick := (if p = 5 then 7 else 0), t_quantum_remaining := 1\<rparr>),
     current_task = 1, next_task_id = 9, initialized = True, reschedule_requested = False,
     sleep_links = list_add_tail 5 sleep_queue (list_init sleep_queue (\<lambda>p. \<lparr>next_ptr = p, prev_ptr = p\<rparr>)),
     reaper_links = (\<lambda>p. \<lparr>next_ptr = p, prev_ptr = p\<rparr>), process_links = (\<lambda>p. \<lparr>next_ptr = p, prev_ptr = p\<rparr>),
     sleeping_task_count = 1, cpu_current = 1, irq_enabled = True, cr3 = 0, tss_rsp0 = 0,
     pml4_physical = (\<lambda>_. 0), boot_stack_top = 0\<rparr>"

lemma sched_example_sleep: "sleep_inv sched_example [5]"
proof -
  have "dlist (sleep_links sched_example) sleep_queue [5]"
    using dlist_add_tail [OF dlist_init, of sleep_queue 5] by (simp add: sched_example_def sleep_queue_def)
  then show ?thesis
    by (auto simp: sleep_inv_def sched_example_def idle_task_def sleep_queue_def list_add_tail_def
        list_add_between_apply list_init_def)
qed

lemma sched_example_simps [simp]:
  "initialized sched_example" "current_task sched_example = 1" "timer_get_ticks sched_example = 10"
  "deadline sched_example 5 = 7"
  by (simp_all add: sched_example_def timer_get_ticks_def)

lemma sched_example_one: "one_running sched_example"
  by (simp add: one_running_def sched_example_def idle_task_def zero_task_def split: if_splits)

theorem task_sleep_queue_correct_witness:
  "(\<exists>s'. task_sleep_enqueue 3 4 sched_example = Some s' \<and> sleep_inv s' (sleep_insert s' 3 [5]))
    \<and> sleep_inv (task_sleep_dequeue 5 sched_example) []"
  using task_sleep_queue_correct [OF sched_example_sleep, of 3 4]
    task_sleep_queue_correct [OF sched_example_sleep, of 5 4]
  by (auto simp: idle_task_def)

theorem task_timer_tick_correct_witness:
  "\<exists>s'. task_timer_tick sched_example = Some s' \<and> t_state (tasks s' 5) = THREAD_STATE_RUNNABLE
    \<and> sleep_inv s' [] \<and> wants_switch s'"
  using task_timer_tick_correct [of sched_example "[5]"] sched_example_sleep by auto

theorem schedule_one_running_task_witness:
  "one_running (schedule sched_example) \<and> current_task (schedule sched_example) = slot 2"
proof
  have "initialized sched_example" by (simp add: sched_example_def)
  note s = schedule_one_running_task [OF sched_example_one this]
  show "one_running (schedule sched_example)" using s by (rule conjunct1)
  have "runnable sched_example 2" "\<not> runnable sched_example 1" "current_task sched_example = slot 0"
    by (simp_all add: runnable_def sched_example_def slot_def)
  moreover have "1 \<le> j \<and> j < 2 \<longleftrightarrow> j = 1" for j :: nat by auto
  ultimately show "current_task (schedule sched_example) = slot 2"
    using s [THEN conjunct2, THEN conjunct2, THEN conjunct1, THEN spec, THEN spec, of 0 2]
    by (simp add: TASK_MAX_COUNT_def slot_def numeral_2_eq_2 numeral_3_eq_3)
qed

theorem schedule_no_starvation_witness:
  "\<exists>n \<le> TASK_MAX_COUNT. current_task (sched_rounds (\<lambda>_. task_unblock 7) n sched_example) = slot 2"
proof -
  have "leaves_waiting 2 (task_unblock 7 :: sched_state \<Rightarrow> sched_state)"
    by (simp add: leaves_waiting_def task_unblock_def slot_def)
  moreover have "t_state (tasks sched_example (slot 2)) = THREAD_STATE_RUNNABLE"
    by (simp add: sched_example_def slot_def)
  ultimately show ?thesis
    using schedule_no_starvation [of sched_example 2 "\<lambda>_. task_unblock 7"]
    by (auto simp: TASK_MAX_COUNT_def slot_def)
qed

end
