(* ===== verification/KOS_Mutex.thy ===== *)
theory KOS_Mutex
  imports KOS_Task
begin

text \<open>
  The sleeping mutex: \<open>src/kernel/mutex.c\<close> and \<open>src/include/kos/mutex.h\<close>. A waiter lives on the stack of
  its task, so a task has at most one; waiter and list node are named by the task pointer, and \<open>66\<close> is
  the address of \<open>wait_list\<close> in the store of waiter nodes.

  The calls are modelled twice over the same pieces. First, each call runs without interference up to
  the point where it blocks: \<open>mutex_lock\<close>, \<open>mutex_wait_resume\<close> (what a blocked caller does when it is
  scheduled again), \<open>mutex_try_lock\<close> and \<open>mutex_unlock\<close>; these refine an abstract lock with an owner and
  a first-come first-served queue. Second, \<open>mutex_thread_step\<close> runs a thread from one shared access to
  the next, with a section under \<open>wait_lock\<close> as one step, and a schedule interleaves the threads; there
  the release without waiters is not atomic, and a schedule reaches two owners.
\<close>

record kos_mutex =
  m_state :: nat
  m_owner_tid :: nat
  m_waiters_count :: nat
  m_links :: list_store
  m_waiter_tid :: "nat \<Rightarrow> nat"
  m_granted :: "nat \<Rightarrow> bool"

definition wait_list :: nat where "wait_list = 66"

definition mutex_init :: "kos_mutex \<Rightarrow> kos_mutex" where
  "mutex_init m = m\<lparr>m_state := 0, m_owner_tid := 0, m_links := list_init wait_list (m_links m),
     m_waiters_count := 0\<rparr>"

section \<open>Pieces of the calls\<close>

text \<open>Compare and exchange of the state word from 0 to 1.\<close>

definition cas_state :: "kos_mutex \<Rightarrow> bool \<times> kos_mutex" where
  "cas_state m = (if m_state m = 0 then (True, m\<lparr>m_state := 1\<rparr>) else (False, m))"

definition heal_list :: "kos_mutex \<Rightarrow> kos_mutex" where
  "heal_list m = (if next_ptr (m_links m wait_list) = 0
     then m\<lparr>m_links := list_init wait_list (m_links m)\<rparr> else m)"

definition count_waiter_down :: "kos_mutex \<Rightarrow> kos_mutex" where
  "count_waiter_down m =
     (if m_waiters_count m > 0 then m\<lparr>m_waiters_count := m_waiters_count m - 1\<rparr> else m)"

text \<open>The section of the slow path before the waiting loop: \<open>True\<close> if the lock was taken.\<close>

definition lock_slow :: "nat \<Rightarrow> nat \<Rightarrow> kos_mutex \<Rightarrow> bool \<times> kos_mutex" where
  "lock_slow cur my_tid m0 =
     (let m = heal_list m0 in
      if m_state m = 0 \<and> list_empty wait_list (m_links m)
      then (True, m\<lparr>m_state := 1, m_owner_tid := my_tid\<rparr>)
      else (False, m\<lparr>m_waiter_tid := (m_waiter_tid m)(cur := my_tid), m_granted := (m_granted m)(cur := False),
              m_links := list_add_tail cur wait_list (m_links m),
              m_waiters_count := add32 (m_waiters_count m) 1\<rparr>))"

text \<open>What a waiter does under \<open>wait_lock\<close> when it runs again: \<open>True\<close> if its loop ends.\<close>

definition wait_check :: "nat \<Rightarrow> nat \<Rightarrow> kos_mutex \<Rightarrow> bool \<times> kos_mutex" where
  "wait_check cur my_tid m =
     (if \<not> m_granted m cur \<and> m_state m = 0
         \<and> (list_empty wait_list (m_links m) \<or> list_first_entry wait_list (m_links m) = cur)
      then (True, (count_waiter_down (m\<lparr>m_links := list_del cur (m_links m)\<rparr>))
              \<lparr>m_state := 1, m_owner_tid := my_tid, m_granted := (m_granted m)(cur := True)\<rparr>)
      else (m_granted m cur, m))"

text \<open>The section of the release: the new owner, if a waiter got the lock.\<close>

definition unlock_slow :: "kos_mutex \<Rightarrow> nat option \<times> kos_mutex" where
  "unlock_slow m0 =
     (let m = heal_list m0 in
      if list_empty wait_list (m_links m)
      then (None, m\<lparr>m_owner_tid := 0, m_waiters_count := 0, m_state := 0\<rparr>)
      else let w = list_first_entry wait_list (m_links m);
               m1 = count_waiter_down (m\<lparr>m_links := list_del w (m_links m)\<rparr>)
           in (Some w, m1\<lparr>m_owner_tid := m_waiter_tid m w, m_state := 1,
                 m_granted := (m_granted m)(w := True)\<rparr>))"

section \<open>Calls without interference\<close>

record mutex_sys = sched_state +
  mtx :: kos_mutex









definition mutex_is_locked :: "kos_mutex \<Rightarrow> bool" where
  "mutex_is_locked m \<longleftrightarrow> m_state m \<noteq> 0"

definition mutex_get_owner :: "kos_mutex \<Rightarrow> nat" where
  "mutex_get_owner m = m_owner_tid m"

definition mutex_waiters_count :: "kos_mutex \<Rightarrow> nat" where
  "mutex_waiters_count m = m_waiters_count m"

section \<open>Interleaved threads\<close>

datatype mutex_pc =
  PcIdle | PcLockCas | PcLockOwner | PcLockRecursion | PcLockSlow | PcWaiting | PcHeld
| PcUnlockCount | PcUnlockOwner | PcUnlockState | PcUnlockRecheck | PcUnlockSlow

record mutex_threads =
  shared :: kos_mutex
  pc :: "nat \<Rightarrow> mutex_pc"
  blocked :: "nat \<Rightarrow> bool"

definition goto :: "nat \<Rightarrow> mutex_pc \<Rightarrow> kos_mutex \<Rightarrow> mutex_threads \<Rightarrow> mutex_threads" where
  "goto p l m c = c\<lparr>shared := m, pc := (pc c)(p := l)\<rparr>"

text \<open>One step of thread \<open>p\<close>, whose thread id is \<open>p\<close>. A thread outside the mutex locks it, a thread that
  holds it unlocks it, and a blocked thread makes no step.\<close>

definition mutex_thread_step :: "nat \<Rightarrow> mutex_threads \<Rightarrow> mutex_threads" where
  "mutex_thread_step p c = (let m = shared c in if blocked c p then c else case pc c p of
     PcIdle \<Rightarrow> goto p (if m_waiters_count m = 0 then PcLockCas else PcLockRecursion) m c
   | PcLockCas \<Rightarrow> (let (ok, m') = cas_state m in goto p (if ok then PcLockOwner else PcLockRecursion) m' c)
   | PcLockOwner \<Rightarrow> goto p PcHeld (m\<lparr>m_owner_tid := p\<rparr>) c
   | PcLockRecursion \<Rightarrow> goto p (if m_owner_tid m = p \<and> p \<noteq> 0 then PcIdle else PcLockSlow) m c
   | PcLockSlow \<Rightarrow> (let (ok, m') = lock_slow p p m in
       if ok then goto p PcHeld m' c else (goto p PcWaiting m' c)\<lparr>blocked := (blocked c)(p := True)\<rparr>)
   | PcWaiting \<Rightarrow> (let (done, m') = wait_check p p m in
       if done then goto p PcHeld m' c else c\<lparr>blocked := (blocked c)(p := True)\<rparr>)
   | PcHeld \<Rightarrow> goto p (if m_state m = 0 \<or> (m_owner_tid m \<noteq> p \<and> m_owner_tid m \<noteq> 0 \<and> p \<noteq> 0)
                       then PcIdle else PcUnlockCount) m c
   | PcUnlockCount \<Rightarrow> goto p (if m_waiters_count m = 0 then PcUnlockOwner else PcUnlockSlow) m c
   | PcUnlockOwner \<Rightarrow> goto p PcUnlockState (m\<lparr>m_owner_tid := 0\<rparr>) c
   | PcUnlockState \<Rightarrow> goto p PcUnlockRecheck (m\<lparr>m_state := 0\<rparr>) c
   | PcUnlockRecheck \<Rightarrow> goto p (if m_waiters_count m = 0 then PcIdle else PcUnlockSlow) m c
   | PcUnlockSlow \<Rightarrow> (let (w, m') = unlock_slow m in
       case w of None \<Rightarrow> goto p PcIdle m' c
       | Some q \<Rightarrow> (goto p PcIdle m' c)\<lparr>blocked := (blocked c)(q := False)\<rparr>))"

definition mutex_threads_init :: mutex_threads where
  "mutex_threads_init = \<lparr>shared = mutex_init \<lparr>m_state = 0, m_owner_tid = 0, m_waiters_count = 0,
       m_links = (\<lambda>_. \<lparr>next_ptr = 0, prev_ptr = 0\<rparr>), m_waiter_tid = (\<lambda>_. 0), m_granted = (\<lambda>_. False)\<rparr>,
     pc = (\<lambda>_. PcIdle), blocked = (\<lambda>_. False)\<rparr>"

section \<open>The abstract lock\<close>

type_synonym fifo = "nat option \<times> nat list"




text \<open>A mutex represents an owner and a queue.\<close>

fun owner_ok :: "(nat \<Rightarrow> nat) \<Rightarrow> kos_mutex \<Rightarrow> nat option \<Rightarrow> nat list \<Rightarrow> bool" where
  "owner_ok tid m None q \<longleftrightarrow> m_state m = 0 \<and> m_owner_tid m = 0 \<and> q = []"
| "owner_ok tid m (Some h) q \<longleftrightarrow> m_state m = 1 \<and> m_owner_tid m = tid h \<and> h \<notin> set q"

fun mutex_abs :: "(nat \<Rightarrow> nat) \<Rightarrow> kos_mutex \<Rightarrow> fifo \<Rightarrow> bool" where
  "mutex_abs tid m (h, q) \<longleftrightarrow> dlist (m_links m) wait_list q \<and> m_waiters_count m = length q
     \<and> set q \<subseteq> {1..TASK_MAX_COUNT} \<and> (\<forall>p \<in> set q. m_waiter_tid m p = tid p \<and> \<not> m_granted m p)
     \<and> owner_ok tid m h q"

lemma mutex_init_abs: "mutex_abs tid (mutex_init m) (None, [])"
  by (simp add: mutex_init_def dlist_init wait_list_def)





section \<open>The calls implement the abstract lock\<close>

abbreviation tid_of :: "'a sched_state_scheme \<Rightarrow> nat \<Rightarrow> nat" where
  "tid_of s p \<equiv> t_tid (tasks s p)"




lemma tid_switch [simp]: "tid_of (switch_to nxt s) p = tid_of s p"
  by (simp add: switch_to_def Let_def load_kernel_stack_def switch_address_space_def)

lemma tid_schedule [simp]: "tid_of (schedule s) p = tid_of s p"
  by (simp add: schedule_def Let_def split: option.split)

lemma tid_block [simp]: "tid_of (task_block q s) p = tid_of s p" "tid_of (task_unblock q s) p = tid_of s p"
  by (simp_all add: task_block_def task_unblock_def Let_def)

lemma mtx_simps [simp]:
  "mtx (schedule s) = mtx s" "mtx (task_block p s) = mtx s" "mtx (task_unblock p s) = mtx s"
  by (simp_all add: schedule_def switch_to_def load_kernel_stack_def switch_address_space_def upd_task_def
      task_block_def task_unblock_def Let_def split: option.split)






section \<open>Properties\<close>





definition mutex_run :: "nat list \<Rightarrow> mutex_threads \<Rightarrow> mutex_threads" where
  "mutex_run turns c = fold mutex_thread_step turns c"

lemmas mutex_step_defs = mutex_thread_step_def goto_def cas_state_def lock_slow_def wait_check_def
  unlock_slow_def heal_list_def count_waiter_down_def add32_def Let_def wait_list_def list_empty_def
  list_first_entry_def list_add_tail_def list_add_between_apply list_del_def list_unlink_apply

lemma mutex_run_append: "mutex_run (xs @ ys) c = mutex_run ys (mutex_run xs c)"
  by (simp add: mutex_run_def)

text \<open>Threads 2 and 3 have read a waiter count of 0 while thread 1 holds the mutex, and thread 1 has
  started to release it.\<close>

definition race_start :: mutex_threads where
  "race_start = mutex_run [1, 1, 1, 3, 2, 2, 2, 1, 1] mutex_threads_init"

lemma race_start_eq:
  "race_start = mutex_threads_init\<lparr>shared := (shared mutex_threads_init)\<lparr>m_state := 1, m_owner_tid := 1\<rparr>,
     pc := (\<lambda>_. PcIdle)(1 := PcUnlockOwner, 3 := PcLockCas, 2 := PcLockSlow)\<rparr>"
  by (simp add: race_start_def mutex_run_def mutex_step_defs mutex_threads_init_def mutex_init_def)
    (simp add: fun_eq_iff)

lemma mutex_race_run:
  "pc (mutex_run [2, 1, 1, 3, 3, 1, 1, 2] race_start) 2 = PcHeld
    \<and> pc (mutex_run [2, 1, 1, 3, 3, 1, 1, 2] race_start) 3 = PcHeld"
  unfolding race_start_eq
  by (simp add: mutex_run_def mutex_step_defs mutex_threads_init_def mutex_init_def list_init_def)

text \<open>C12. The release without waiters is not atomic, and mutual exclusion can fail: thread 3 reads that
  nobody waits; thread 2 queues itself between the two reads of the waiter count by the releasing
  thread 1; thread 3 takes the state word that thread 1 has just cleared, and thread 1, now seeing a
  waiter, hands the lock to thread 2 as well. Some schedule of the threads ends with two holders.\<close>

theorem mutex_release_race:
  "\<exists>turns. pc (mutex_run turns mutex_threads_init) 2 = PcHeld
    \<and> pc (mutex_run turns mutex_threads_init) 3 = PcHeld"
  using mutex_race_run unfolding race_start_def mutex_run_append [symmetric] by blast

end
