(* ===== verification/KOS_Spinlock.thy ===== *)
theory KOS_Spinlock
  imports KOS_Task
begin

text \<open>
  Spinlocks: \<open>src/kernel/spinlock.c\<close> with the interrupt and preemption control they bracket. The
  acquisition loop ends when an atomic exchange finds the lock free; \<open>spinlock_lock_internal\<close> is
  \<open>None\<close> while it keeps spinning. Single calls run on the lock and the scheduler state; the relation
  \<open>spin_step\<close> interleaves the atomic exchanges and release stores of any number of processors.
\<close>

definition KOS_SPINLOCK_UNLOCKED :: nat where "KOS_SPINLOCK_UNLOCKED = 0"
definition KOS_SPINLOCK_LOCKED :: nat where "KOS_SPINLOCK_LOCKED = 1"
definition KOS_SPINLOCK_NO_CPU :: nat where "KOS_SPINLOCK_NO_CPU = 0xFFFFFFFF"

record kos_spinlock =
  lk_lock :: nat
  lk_owner_cpu :: nat
  lk_last_rip :: nat
  lk_lock_count :: nat

definition spinlock_init :: "kos_spinlock \<Rightarrow> kos_spinlock" where
  "spinlock_init l = l\<lparr>lk_lock := KOS_SPINLOCK_UNLOCKED, lk_owner_cpu := KOS_SPINLOCK_NO_CPU,
     lk_last_rip := 0, lk_lock_count := 0\<rparr>"

definition lock_taken :: "nat \<Rightarrow> kos_spinlock \<Rightarrow> kos_spinlock" where
  "lock_taken caller_rip l = l\<lparr>lk_lock := KOS_SPINLOCK_LOCKED, lk_owner_cpu := 0, lk_last_rip := caller_rip,
     lk_lock_count := add64 (lk_lock_count l) 1\<rparr>"

definition spinlock_lock_internal :: "nat \<Rightarrow> kos_spinlock \<Rightarrow> kos_spinlock option" where
  "spinlock_lock_internal caller_rip l =
     (if lk_lock l = KOS_SPINLOCK_UNLOCKED then Some (lock_taken caller_rip l) else None)"

definition lock_released :: "kos_spinlock \<Rightarrow> kos_spinlock" where
  "lock_released l = l\<lparr>lk_owner_cpu := KOS_SPINLOCK_NO_CPU, lk_last_rip := 0, lk_lock := KOS_SPINLOCK_UNLOCKED\<rparr>"

definition spinlock_is_locked :: "kos_spinlock \<Rightarrow> bool" where
  "spinlock_is_locked l \<longleftrightarrow> lk_lock l \<noteq> KOS_SPINLOCK_UNLOCKED"

definition cpu_interrupt_save_disable :: "'a sched_state_scheme \<Rightarrow> bool \<times> 'a sched_state_scheme" where
  "cpu_interrupt_save_disable s = (irq_enabled s, s\<lparr>irq_enabled := False\<rparr>)"

definition cpu_interrupt_restore :: "bool \<Rightarrow> 'a sched_state_scheme \<Rightarrow> 'a sched_state_scheme" where
  "cpu_interrupt_restore flags s = s\<lparr>irq_enabled := flags\<rparr>"

definition spinlock_lock :: "nat \<Rightarrow> kos_spinlock \<Rightarrow> 'a sched_state_scheme
    \<Rightarrow> (kos_spinlock \<times> 'a sched_state_scheme) option" where
  "spinlock_lock rip l s =
     (let s1 = preempt_disable s in map_option (\<lambda>l'. (l', s1)) (spinlock_lock_internal rip l))"

definition spinlock_try_lock :: "nat \<Rightarrow> kos_spinlock \<Rightarrow> 'a sched_state_scheme
    \<Rightarrow> bool \<times> kos_spinlock \<times> 'a sched_state_scheme" where
  "spinlock_try_lock rip l s =
     (let s1 = preempt_disable s in
      if lk_lock l \<noteq> KOS_SPINLOCK_UNLOCKED then (False, l, preempt_enable s1)
      else (case spinlock_lock_internal rip l of
              Some l' \<Rightarrow> (True, l', s1)
            | None \<Rightarrow> (False, l, preempt_enable s1)))"

definition spinlock_unlock :: "kos_spinlock \<Rightarrow> 'a sched_state_scheme \<Rightarrow> kos_spinlock \<times> 'a sched_state_scheme" where
  "spinlock_unlock l s = (lock_released l, preempt_enable s)"

definition spinlock_lock_irqsave :: "nat \<Rightarrow> kos_spinlock \<Rightarrow> 'a sched_state_scheme
    \<Rightarrow> (bool \<times> kos_spinlock \<times> 'a sched_state_scheme) option" where
  "spinlock_lock_irqsave rip l s =
     (let (flags, s1) = cpu_interrupt_save_disable s; s2 = preempt_disable s1
      in map_option (\<lambda>l'. (flags, l', s2)) (spinlock_lock_internal rip l))"

definition spinlock_unlock_irqrestore :: "kos_spinlock \<Rightarrow> bool \<Rightarrow> 'a sched_state_scheme
    \<Rightarrow> kos_spinlock \<times> 'a sched_state_scheme" where
  "spinlock_unlock_irqrestore l flags s =
     (lock_released l, preempt_enable (cpu_interrupt_restore flags s))"

definition spinlock_try_lock_irqsave :: "nat \<Rightarrow> bool \<Rightarrow> kos_spinlock \<Rightarrow> 'a sched_state_scheme
    \<Rightarrow> bool option \<times> kos_spinlock \<times> 'a sched_state_scheme" where
  "spinlock_try_lock_irqsave rip flags_out_null l s =
     (if flags_out_null then (None, l, s)
      else let (flags, s1) = cpu_interrupt_save_disable s; s2 = preempt_disable s1 in
        (case spinlock_lock_internal rip l of
           Some l' \<Rightarrow> (Some flags, l', s2)
         | None \<Rightarrow> (None, l, cpu_interrupt_restore flags (preempt_enable s2))))"

section \<open>Critical sections restore what they disable\<close>

text \<open>No switch is due when the section ends.\<close>

definition no_switch_due :: "'a sched_state_scheme \<Rightarrow> bool" where
  "no_switch_due s \<longleftrightarrow> \<not> reschedule_requested s \<and> \<not> t_reschedule_pending (tasks s (current_task s))
     \<and> t_preempt_count (tasks s (current_task s)) < 2 ^ 32 - 1"

lemma upd_task_twice: "upd_task p f (upd_task p g s) = upd_task p (\<lambda>t. f (g t)) s"
  by (simp add: upd_task_def)

lemma upd_task_same: "f (tasks s p) = tasks s p \<Longrightarrow> upd_task p f s = s"
  by (simp add: upd_task_def)

lemma preempt_balanced:
  assumes "no_switch_due s"
  shows "preempt_enable (preempt_disable s) = s"
proof (cases "initialized s \<and> current_task s \<noteq> 0")
  case True
  let ?p = "current_task s"
  have c: "add32 (t_preempt_count (tasks s ?p)) 1 = t_preempt_count (tasks s ?p) + 1"
    using assms by (simp add: no_switch_due_def add32_def)
  have "upd_task ?p (\<lambda>t. t\<lparr>t_preempt_count := t_preempt_count t - 1\<rparr>)
      (upd_task ?p (\<lambda>t. t\<lparr>t_preempt_count := add32 (t_preempt_count t) 1\<rparr>) s) = s"
    unfolding upd_task_twice using c by (intro upd_task_same) simp
  with True c assms show ?thesis
    by (simp add: preempt_disable_def preempt_enable_def Let_def no_switch_due_def)
qed (auto simp: preempt_disable_def preempt_enable_def)

lemma preempt_disable_irq:
  "preempt_disable (s\<lparr>irq_enabled := b\<rparr>) = (preempt_disable s)\<lparr>irq_enabled := b\<rparr>"
  by (simp add: preempt_disable_def upd_task_def)

section \<open>Interleaving\<close>

record spin_sys =
  sp_lock :: kos_spinlock
  sp_holders :: "nat set"

inductive spin_step :: "spin_sys \<Rightarrow> spin_sys \<Rightarrow> bool" where
  acquire: "cpu \<notin> sp_holders c \<Longrightarrow> spinlock_lock_internal rip (sp_lock c) = Some l \<Longrightarrow>
    spin_step c (c\<lparr>sp_lock := l, sp_holders := insert cpu (sp_holders c)\<rparr>)"
| spin: "cpu \<notin> sp_holders c \<Longrightarrow> spinlock_lock_internal rip (sp_lock c) = None \<Longrightarrow> spin_step c c"
| release: "cpu \<in> sp_holders c \<Longrightarrow>
    spin_step c (c\<lparr>sp_lock := lock_released (sp_lock c), sp_holders := sp_holders c - {cpu}\<rparr>)"

inductive_cases spin_stepE: "spin_step c c'"

inductive spin_reach :: "spin_sys \<Rightarrow> bool" where
  start: "spin_reach \<lparr>sp_lock = spinlock_init l, sp_holders = {}\<rparr>"
| more: "spin_reach c \<Longrightarrow> spin_step c c' \<Longrightarrow> spin_reach c'"

definition spin_inv :: "spin_sys \<Rightarrow> bool" where
  "spin_inv c \<longleftrightarrow> (spinlock_is_locked (sp_lock c) \<longrightarrow> (\<exists>cpu. sp_holders c = {cpu}))
     \<and> (\<not> spinlock_is_locked (sp_lock c) \<longrightarrow> sp_holders c = {})"

lemma spin_step_inv: "spin_step c c' \<Longrightarrow> spin_inv c \<Longrightarrow> spin_inv c'"
  by (erule spin_stepE) (auto simp: spin_inv_def spinlock_lock_internal_def lock_taken_def lock_released_def
    spinlock_is_locked_def KOS_SPINLOCK_UNLOCKED_def KOS_SPINLOCK_LOCKED_def split: if_splits)

lemma spin_reach_inv: "spin_reach c \<Longrightarrow> spin_inv c"
proof (induction rule: spin_reach.induct)
  case (start l)
  then show ?case by (simp add: spin_inv_def spinlock_init_def spinlock_is_locked_def)
qed (blast intro: spin_step_inv)

section \<open>Properties\<close>

text \<open>C13. Mutual exclusion of spinlocks: in every state that processors reach by interleaving their
  atomic exchanges and releases, at most one processor is inside the critical section, the lock word
  is set exactly while one is, and an acquisition attempt succeeds exactly when nobody is inside.\<close>

theorem spinlock_mutual_exclusion:
  assumes "spin_reach c"
  shows "(cpu \<in> sp_holders c \<longrightarrow> cpu' \<in> sp_holders c \<longrightarrow> cpu = cpu')
    \<and> (spinlock_is_locked (sp_lock c) \<longleftrightarrow> sp_holders c \<noteq> {})
    \<and> (spinlock_lock_internal rip (sp_lock c) \<noteq> None \<longleftrightarrow> sp_holders c = {})"
  using spin_reach_inv [OF assms]
  by (auto simp: spin_inv_def spinlock_lock_internal_def spinlock_is_locked_def)

theorem spinlock_mutual_exclusion_witness:
  "\<exists>c. spin_reach c \<and> sp_holders c = {1} \<and> spinlock_lock_internal 9 (sp_lock c) = None"
proof -
  let ?l = "\<lparr>lk_lock = 0, lk_owner_cpu = 0, lk_last_rip = 0, lk_lock_count = 0\<rparr>"
  let ?c = "\<lparr>sp_lock = spinlock_init ?l, sp_holders = {}\<rparr>"
  let ?d = "?c\<lparr>sp_lock := lock_taken 5 (spinlock_init ?l), sp_holders := {1}\<rparr>"
  have "spin_step ?c ?d"
    using spin_step.acquire [of 1 ?c 5] by (simp add: spinlock_lock_internal_def spinlock_init_def)
  then have r: "spin_reach ?d" by (rule spin_reach.more [OF spin_reach.start])
  with spinlock_mutual_exclusion [OF r, of 1 1 9] show ?thesis by (intro exI [of _ ?d]) simp
qed

text \<open>A critical section under \<open>spinlock_lock_irqsave\<close> runs with interrupts off and preemption
  disabled, and leaving it by \<open>spinlock_unlock_irqrestore\<close> with the saved flags restores the interrupt
  flag and the preemption count, when no switch became due meanwhile; a failed try leaves all as it was.\<close>

theorem spinlock_section_balanced:
  assumes "initialized s" and "current_task s \<noteq> 0" and "no_switch_due s"
  shows "(lk_lock l = KOS_SPINLOCK_UNLOCKED \<longrightarrow>
      (\<exists>s1. spinlock_lock_irqsave rip l s = Some (irq_enabled s, lock_taken rip l, s1) \<and> \<not> irq_enabled s1
        \<and> preempt_count s1 = preempt_count s + 1
        \<and> snd (spinlock_unlock_irqrestore (lock_taken rip l) (irq_enabled s) s1) = s))
    \<and> (lk_lock l \<noteq> KOS_SPINLOCK_UNLOCKED \<longrightarrow> spinlock_try_lock rip l s = (False, l, s)
        \<and> spinlock_try_lock_irqsave rip False l s = (None, l, s))"
proof (intro conjI impI)
  have irq: "no_switch_due (s\<lparr>irq_enabled := b\<rparr>)" for b using assms(3) by (simp add: no_switch_due_def)
  have bk: "(preempt_disable (s\<lparr>irq_enabled := False\<rparr>))\<lparr>irq_enabled := irq_enabled s\<rparr> = preempt_disable s"
    by (simp add: preempt_disable_irq) (simp add: preempt_disable_irq [symmetric])
  show "\<exists>s1. spinlock_lock_irqsave rip l s = Some (irq_enabled s, lock_taken rip l, s1) \<and> \<not> irq_enabled s1
        \<and> preempt_count s1 = preempt_count s + 1
        \<and> snd (spinlock_unlock_irqrestore (lock_taken rip l) (irq_enabled s) s1) = s"
    if "lk_lock l = KOS_SPINLOCK_UNLOCKED"
    using that assms preempt_balanced [OF assms(3)] bk
    by (simp add: spinlock_lock_irqsave_def spinlock_lock_internal_def cpu_interrupt_save_disable_def
        spinlock_unlock_irqrestore_def cpu_interrupt_restore_def preempt_count_def)
      (simp add: preempt_disable_def add32_def no_switch_due_def)
  show "spinlock_try_lock rip l s = (False, l, s)" and "spinlock_try_lock_irqsave rip False l s = (None, l, s)"
    if "lk_lock l \<noteq> KOS_SPINLOCK_UNLOCKED"
    using that preempt_balanced [OF assms(3)] preempt_balanced [OF irq, of False]
    by (simp_all add: spinlock_try_lock_def spinlock_try_lock_irqsave_def spinlock_lock_internal_def
        cpu_interrupt_save_disable_def cpu_interrupt_restore_def)
qed

theorem spinlock_section_balanced_witness:
  "\<exists>s1. spinlock_lock_irqsave 9 (spinlock_init \<lparr>lk_lock = 1, lk_owner_cpu = 0, lk_last_rip = 0, lk_lock_count = 0\<rparr>)
      sched_example = Some (True, lock_taken 9 (spinlock_init \<lparr>lk_lock = 1, lk_owner_cpu = 0, lk_last_rip = 0,
        lk_lock_count = 0\<rparr>), s1) \<and> \<not> irq_enabled s1"
proof -
  have "no_switch_due sched_example" "irq_enabled sched_example"
    by (simp_all add: no_switch_due_def sched_example_def zero_task_def)
  with spinlock_section_balanced [of sched_example
      "spinlock_init \<lparr>lk_lock = 1, lk_owner_cpu = 0, lk_last_rip = 0, lk_lock_count = 0\<rparr>" 9]
  show ?thesis by (auto simp: spinlock_init_def)
qed

end
