(* ===== verification/KOS_Wait.thy ===== *)
theory KOS_Wait
  imports KOS_Task KOS_Handle
begin

text \<open>
  Wait queues and event objects: \<open>src/kernel/wait.c\<close> and \<open>src/include/kos/wait.h\<close>. A queue entry lives on
  the stack of the waiting task, so entry and list node are named by the task pointer; \<open>66\<close> is the
  address of the queue's head in its store of nodes. A waiting call is cut at \<open>schedule\<close>: its first
  part runs until it is done or blocked, and \<open>wait_event_iteration\<close> is one round of its loop, which a
  blocked caller runs again when it is scheduled. The condition is a function on the state it is
  evaluated in, since the condition of an event consumes the signal. The address that \<open>kmalloc\<close>
  returns for a new event is an argument (0 when it fails).
\<close>

section \<open>Wait queues\<close>

definition WQ_FLAG_EXCLUSIVE :: u32 where "WQ_FLAG_EXCLUSIVE = 1"
definition WQ_FLAG_WOKEN :: u32 where "WQ_FLAG_WOKEN = 2"

record wait_queue =
  wq_links :: list_store
  waiter_count :: nat
  entry_task :: "nat \<Rightarrow> nat"
  entry_flags :: "nat \<Rightarrow> u32"

definition wq_head :: nat where "wq_head = 66"

definition wait_queue_init :: "wait_queue \<Rightarrow> wait_queue" where
  "wait_queue_init wq = wq\<lparr>wq_links := list_init wq_head (wq_links wq), waiter_count := 0\<rparr>"

definition wait_queue_add :: "nat \<Rightarrow> wait_queue \<Rightarrow> wait_queue" where
  "wait_queue_add entry wq0 =
     (if entry = 0 then wq0
      else let wq = (if next_ptr (wq_links wq0 wq_head) = 0
                     then wq0\<lparr>wq_links := list_init wq_head (wq_links wq0)\<rparr> else wq0)
           in wq\<lparr>wq_links := list_add_tail entry wq_head (wq_links wq),
                 waiter_count := add32 (waiter_count wq) 1\<rparr>)"

definition wq_count_down :: "wait_queue \<Rightarrow> wait_queue" where
  "wq_count_down wq = (if waiter_count wq > 0 then wq\<lparr>waiter_count := waiter_count wq - 1\<rparr> else wq)"

definition entry_linked :: "nat \<Rightarrow> wait_queue \<Rightarrow> bool" where
  "entry_linked entry wq \<longleftrightarrow> next_ptr (wq_links wq entry) \<noteq> 0 \<and> next_ptr (wq_links wq entry) \<noteq> entry"

definition wait_queue_remove :: "nat \<Rightarrow> wait_queue \<Rightarrow> wait_queue" where
  "wait_queue_remove entry wq =
     (if entry = 0 then wq
      else if entry_linked entry wq
      then wq_count_down (wq\<lparr>wq_links := list_del_init entry (wq_links wq)\<rparr>) else wq)"

text \<open>The body that both wake functions share: the first entry leaves the queue and its task becomes
  runnable.\<close>

definition wake_first :: "wait_queue \<times> 'a sched_state_scheme \<Rightarrow> wait_queue \<times> 'a sched_state_scheme" where
  "wake_first w = (let (wq, s) = w;
       entry = next_ptr (wq_links wq wq_head);
       wq1 = wq_count_down (wq\<lparr>wq_links := list_del_init entry (wq_links wq)\<rparr>);
       wq2 = wq1\<lparr>entry_flags := (entry_flags wq1)(entry := entry_flags wq1 entry OR WQ_FLAG_WOKEN)\<rparr>
     in (wq2, if entry_task wq2 entry \<noteq> 0 then task_unblock (entry_task wq2 entry) s else s))"

definition wait_queue_wake_one :: "wait_queue \<times> 'a sched_state_scheme \<Rightarrow> wait_queue \<times> 'a sched_state_scheme" where
  "wait_queue_wake_one w = (let (wq, s) = w in
     if list_empty wq_head (wq_links wq) then (wq, s)
     else let (wq', s') = wake_first (wq, s)
          in (wq', if entry_task wq (next_ptr (wq_links wq wq_head)) \<noteq> 0
                   then task_request_reschedule s' else s'))"

partial_function (option) wake_all_loop :: "wait_queue \<times> 'a sched_state_scheme
    \<Rightarrow> (wait_queue \<times> 'a sched_state_scheme) option" where
  [code]: "wake_all_loop w =
     (if list_empty wq_head (wq_links (fst w)) then Some w else wake_all_loop (wake_first w))"

definition wait_queue_wake_all :: "wait_queue \<times> 'a sched_state_scheme
    \<Rightarrow> (wait_queue \<times> 'a sched_state_scheme) option" where
  "wait_queue_wake_all w = map_option (\<lambda>(wq, s). (wq, task_request_reschedule s)) (wake_all_loop w)"

section \<open>Waiting for a condition\<close>

datatype wait_result = WaitDone bool | WaitBlocked | WaitPolling

type_synonym 'e condition = "('e \<Rightarrow> bool \<times> 'e) option"

definition check_condition :: "'e condition \<Rightarrow> 'e \<Rightarrow> bool \<times> 'e" where
  "check_condition cond e = (case cond of None \<Rightarrow> (False, e) | Some f \<Rightarrow> f e)"

definition init_entry :: "nat \<Rightarrow> wait_queue \<Rightarrow> wait_queue" where
  "init_entry cur wq = wq\<lparr>entry_task := (entry_task wq)(cur := cur), entry_flags := (entry_flags wq)(cur := 0),
     wq_links := list_init cur (wq_links wq)\<rparr>"

definition queue_self :: "nat \<Rightarrow> wait_queue \<Rightarrow> wait_queue" where
  "queue_self cur wq = (if entry_linked cur wq then wq else wait_queue_add cur wq)"

definition wait_event_iteration :: "'e condition \<Rightarrow> nat \<Rightarrow> 'e \<times> wait_queue \<times> 'a sched_state_scheme
    \<Rightarrow> wait_result \<times> 'e \<times> wait_queue \<times> 'a sched_state_scheme" where
  "wait_event_iteration cond cur w = (let (e, wq, s) = w; (ok, e') = check_condition cond e in
     if ok then (WaitDone True, e', wait_queue_remove cur (wait_queue_remove cur wq), s)
     else (WaitBlocked, e', queue_self cur wq, schedule (task_block cur s)))"

definition wait_event :: "'e condition \<Rightarrow> 'e \<times> wait_queue \<times> 'a sched_state_scheme
    \<Rightarrow> wait_result \<times> 'e \<times> wait_queue \<times> 'a sched_state_scheme" where
  "wait_event cond w = (let (e, wq, s) = w; (ok, e') = check_condition cond e; cur = task_current s in
     if ok then (WaitDone True, e', wq, s)
     else if cur = 0 \<or> \<not> task_is_multitasking_active s
     then (if cond = None then (WaitDone True, e', wq, s) else (WaitPolling, e', wq, s))
     else wait_event_iteration cond cur (e', init_entry cur wq, s))"

definition timeout_iteration :: "'e condition \<Rightarrow> nat \<Rightarrow> nat \<Rightarrow> 'e \<times> wait_queue \<times> 'a sched_state_scheme
    \<Rightarrow> (wait_result \<times> 'e \<times> wait_queue \<times> 'a sched_state_scheme) option" where
  "timeout_iteration cond cur limit w = (let (e, wq, s) = w; (ok, e') = check_condition cond e in
     if ok then Some (WaitDone True, e', wait_queue_remove cur (wait_queue_remove cur wq), task_sleep_dequeue cur s)
     else if timer_get_ticks s \<ge> limit
     then Some (WaitDone False, e', wait_queue_remove cur (wait_queue_remove cur wq), task_sleep_dequeue cur s)
     else map_option (\<lambda>s'. (WaitBlocked, e', queue_self cur wq, schedule (task_block cur s')))
            (task_sleep_enqueue cur limit s))"

text \<open>What a caller of the timed wait does when it is scheduled again.\<close>

definition timeout_resume :: "'e condition \<Rightarrow> nat \<Rightarrow> nat \<Rightarrow> 'e \<times> wait_queue \<times> 'a sched_state_scheme
    \<Rightarrow> (wait_result \<times> 'e \<times> wait_queue \<times> 'a sched_state_scheme) option" where
  "timeout_resume cond cur limit w = (let (e, wq, s) = w in
     timeout_iteration cond cur limit (e, wq, task_sleep_dequeue cur s))"

definition wait_event_timeout :: "'e condition \<Rightarrow> nat \<Rightarrow> 'e \<times> wait_queue \<times> 'a sched_state_scheme
    \<Rightarrow> (wait_result \<times> 'e \<times> wait_queue \<times> 'a sched_state_scheme) option" where
  "wait_event_timeout cond timeout_ms w =
     (let (e, wq, s) = w; (ok, e1) = check_condition cond e; cur = task_current s in
      if ok then Some (WaitDone True, e1, wq, s)
      else if timeout_ms = 0
      then let (ok2, e2) = check_condition cond e1 in Some (WaitDone ok2, e2, wq, s)
      else if cur = 0 \<or> \<not> task_is_multitasking_active s
      then (if cond = None then Some (WaitDone False, e1, wq, s) else Some (WaitPolling, e1, wq, s))
      else timeout_iteration cond cur (sleep_deadline timeout_ms s) (e1, init_entry cur wq, s))"

section \<open>Events\<close>

record kos_event =
  ev_manual_reset :: bool
  ev_signaled :: bool

definition event_check_condition :: "kos_event \<Rightarrow> bool \<times> kos_event" where
  "event_check_condition ev =
     (let is_sig = ev_signaled ev
      in (is_sig, if is_sig \<and> \<not> ev_manual_reset ev then ev\<lparr>ev_signaled := False\<rparr> else ev))"

text \<open>The section of \<open>event_signal\<close> under the event's lock.\<close>

definition event_signal_locked :: "kos_event \<times> wait_queue \<times> 'a sched_state_scheme
    \<Rightarrow> (kos_event \<times> wait_queue \<times> 'a sched_state_scheme) option" where
  "event_signal_locked w = (let (ev, wq, s) = w; ev1 = ev\<lparr>ev_signaled := True\<rparr> in
     if ev_manual_reset ev1
     then map_option (\<lambda>(wq', s'). (ev1, wq', s')) (wait_queue_wake_all (wq, s))
     else let (wq', s') = wait_queue_wake_one (wq, s) in Some (ev1\<lparr>ev_signaled := False\<rparr>, wq', s'))"

record event_sys =
  es_handles :: handle_state
  es_sched :: sched_state
  es_event :: "nat \<Rightarrow> kos_event"
  es_wq :: "nat \<Rightarrow> wait_queue"

definition event_destructor_id :: nat where "event_destructor_id = 1"
definition wait_queue_destructor_id :: nat where "wait_queue_destructor_id = 2"

text \<open>The destructors wake every waiter before the object is freed.\<close>

definition event_destructor :: "nat \<Rightarrow> event_sys \<Rightarrow> event_sys option" where
  "event_destructor ev es =
     (if ev = 0 then Some es
      else map_option (\<lambda>(wq, s). es\<lparr>es_wq := (es_wq es)(ev := wq), es_sched := s\<rparr>)
             (wait_queue_wake_all (es_wq es ev, es_sched es)))"

definition wait_queue_object_destructor :: "nat \<Rightarrow> event_sys \<Rightarrow> event_sys option" where
  "wait_queue_object_destructor wo es =
     (if wo = 0 then Some es
      else map_option (\<lambda>(wq, s). es\<lparr>es_wq := (es_wq es)(wo := wq), es_sched := s\<rparr>)
             (wait_queue_wake_all (es_wq es wo, es_sched es)))"

definition event_create :: "nat \<Rightarrow> nat \<Rightarrow> bool \<Rightarrow> bool \<Rightarrow> event_sys \<Rightarrow> u32 \<times> event_sys" where
  "event_create kmalloc_result proc manual_reset initial_state es =
     (if proc = 0 then (KOS_INVALID_HANDLE, es)
      else if kmalloc_result = 0 then (KOS_INVALID_HANDLE, es)
      else let ev = kmalloc_result;
               hs1 = kos_object_init ev KOS_OBJ_EVENT event_destructor_id (es_handles es);
               (h, hs2) = handle_create proc ev (KOS_RIGHT_WAIT OR KOS_RIGHT_SIGNAL OR KOS_RIGHT_READ
                 OR KOS_RIGHT_WRITE OR KOS_RIGHT_DUPLICATE OR KOS_RIGHT_DESTROY) hs1
           in (h, es\<lparr>es_handles := kos_object_unref ev hs2,
                     es_event := (es_event es)(ev := \<lparr>ev_manual_reset = manual_reset, ev_signaled = initial_state\<rparr>),
                     es_wq := (es_wq es)(ev := wait_queue_init (es_wq es ev))\<rparr>))"

definition store_event :: "nat \<Rightarrow> kos_event \<times> wait_queue \<times> sched_state \<Rightarrow> event_sys \<Rightarrow> event_sys" where
  "store_event ev w es = (let (e, wq, s) = w in
     es\<lparr>es_event := (es_event es)(ev := e), es_wq := (es_wq es)(ev := wq), es_sched := s\<rparr>)"

definition load_event :: "nat \<Rightarrow> event_sys \<Rightarrow> kos_event \<times> wait_queue \<times> sched_state" where
  "load_event ev es = (es_event es ev, es_wq es ev, es_sched es)"

definition event_signal :: "nat \<Rightarrow> u32 \<Rightarrow> event_sys \<Rightarrow> (bool \<times> event_sys) option" where
  "event_signal proc handle es =
     (if proc = 0 \<or> handle = KOS_INVALID_HANDLE then Some (False, es)
      else let ev = handle_lookup_type proc handle KOS_OBJ_EVENT KOS_RIGHT_SIGNAL (es_handles es) in
        if ev = 0 then Some (False, es)
        else map_option (\<lambda>w. (True, store_event ev w es)) (event_signal_locked (load_event ev es)))"

definition event_reset :: "nat \<Rightarrow> u32 \<Rightarrow> event_sys \<Rightarrow> bool \<times> event_sys" where
  "event_reset proc handle es =
     (if proc = 0 \<or> handle = KOS_INVALID_HANDLE then (False, es)
      else let ev = handle_lookup_type proc handle KOS_OBJ_EVENT KOS_RIGHT_SIGNAL (es_handles es) in
        if ev = 0 then (False, es)
        else (True, es\<lparr>es_event := (es_event es)(ev := (es_event es ev)\<lparr>ev_signaled := False\<rparr>)\<rparr>))"

definition event_wait :: "nat \<Rightarrow> u32 \<Rightarrow> nat \<Rightarrow> event_sys \<Rightarrow> (wait_result \<times> event_sys) option" where
  "event_wait proc handle timeout_ms es =
     (if proc = 0 \<or> handle = KOS_INVALID_HANDLE then Some (WaitDone False, es)
      else let ev = handle_lookup_type proc handle KOS_OBJ_EVENT KOS_RIGHT_WAIT (es_handles es) in
        if ev = 0 then Some (WaitDone False, es)
        else if timeout_ms = 0
        then let (ok, e) = event_check_condition (es_event es ev)
             in Some (WaitDone ok, es\<lparr>es_event := (es_event es)(ev := e)\<rparr>)
        else if timeout_ms = UINT64_MAX
        then let (r, w) = wait_event (Some event_check_condition) (load_event ev es)
             in Some (r, store_event ev w es)
        else map_option (\<lambda>(r, w). (r, store_event ev w es))
               (wait_event_timeout (Some event_check_condition) timeout_ms (load_event ev es)))"

definition wait_queue_create_object :: "nat \<Rightarrow> nat \<Rightarrow> event_sys \<Rightarrow> u32 \<times> event_sys" where
  "wait_queue_create_object kmalloc_result proc es =
     (if proc = 0 then (KOS_INVALID_HANDLE, es)
      else if kmalloc_result = 0 then (KOS_INVALID_HANDLE, es)
      else let wo = kmalloc_result;
               hs1 = kos_object_init wo KOS_OBJ_WAIT_QUEUE wait_queue_destructor_id (es_handles es);
               (h, hs2) = handle_create proc wo (KOS_RIGHT_WAIT OR KOS_RIGHT_SIGNAL OR KOS_RIGHT_READ
                 OR KOS_RIGHT_DUPLICATE OR KOS_RIGHT_DESTROY) hs1
           in (h, es\<lparr>es_handles := kos_object_unref wo hs2,
                     es_wq := (es_wq es)(wo := wait_queue_init (es_wq es wo))\<rparr>))"

section \<open>Queues of waiters\<close>

definition wq_inv :: "wait_queue \<Rightarrow> nat list \<Rightarrow> bool" where
  "wq_inv wq q \<longleftrightarrow> dlist (wq_links wq) wq_head q \<and> set q \<subseteq> {1..idle_task} \<and> waiter_count wq = length q
     \<and> (\<forall>p \<in> {1..idle_task} - set q. next_ptr (wq_links wq p) = 0 \<or> next_ptr (wq_links wq p) = p)
     \<and> (\<forall>p \<in> set q. entry_task wq p = p)"

lemma wq_invD:
  assumes "wq_inv wq q"
  shows "dlist (wq_links wq) wq_head q" "set q \<subseteq> {1..idle_task}" "waiter_count wq = length q"
    "p \<in> {1..idle_task} - set q \<Longrightarrow> next_ptr (wq_links wq p) = 0 \<or> next_ptr (wq_links wq p) = p"
    "p \<in> set q \<Longrightarrow> entry_task wq p = p" "distinct q" "length q \<le> 65"
proof -
  show D: "dlist (wq_links wq) wq_head q" and S: "set q \<subseteq> {1..idle_task}" using assms by (auto simp: wq_inv_def)
  then show "distinct q" by (auto dest: dlist_distinct)
  then have "length q = card (set q)" by (simp add: distinct_card)
  also have "\<dots> \<le> card {1..idle_task}" using S by (intro card_mono) auto
  finally show "length q \<le> 65" by (simp add: idle_task_def)
qed (use assms in \<open>auto simp: wq_inv_def\<close>)

lemma wait_queue_init_inv:
  assumes "\<forall>p \<in> {1..idle_task}. next_ptr (wq_links wq p) = 0 \<or> next_ptr (wq_links wq p) = p"
  shows "wq_inv (wait_queue_init wq) []"
  using assms dlist_init [of wq_head]
  by (auto simp: wq_inv_def wait_queue_init_def wq_head_def idle_task_def list_init_def)

lemma entry_linked_iff: "wq_inv wq q \<Longrightarrow> p \<in> {1..idle_task} \<Longrightarrow> entry_linked p wq \<longleftrightarrow> p \<in> set q"
proof
  assume I: "wq_inv wq q" and "p \<in> set q"
  then obtain us vs where q: "q = us @ p # vs" by (auto dest: split_list)
  have D: "dlist (wq_links wq) wq_head (us @ p # vs)" using wq_invD(1) [OF I] q by simp
  have "hd (vs @ [wq_head]) \<in> set (vs @ [wq_head])" by (rule hd_in_set) simp
  with dlist_neighbours(1) [OF D] dlist_distinct [OF D] show "entry_linked p wq"
    by (auto simp: entry_linked_def)
next
  assume "wq_inv wq q" "p \<in> {1..idle_task}" "entry_linked p wq"
  with wq_invD(4) [of wq q p] show "p \<in> set q" by (cases "p \<in> set q") (auto simp: entry_linked_def)
qed

lemma wait_queue_add_inv:
  assumes "wq_inv wq q" and p: "p \<in> {1..idle_task} - set q" and "entry_task wq p = p"
  shows "wq_inv (wait_queue_add p wq) (q @ [p])"
proof -
  note D = wq_invD(1) [OF assms(1)]
  have fresh: "p \<notin> set (wq_head # q)" "p \<noteq> 0" using p by (auto simp: wq_head_def idle_task_def)
  have "next_ptr (wq_links wq wq_head) \<noteq> 0"
    using dlist_mem_neighbours(1) [OF D, of wq_head] dlist_distinct [OF D] by (metis list.set_intros(1))
  then have e: "wait_queue_add p wq = wq\<lparr>wq_links := list_add_tail p wq_head (wq_links wq), waiter_count := length q + 1\<rparr>"
    using fresh wq_invD(3,7) [OF assms(1)] by (simp add: wait_queue_add_def add32_def)
  have "list_add_tail p wq_head (wq_links wq) r = wq_links wq r" if "r \<in> {1..idle_task} - set (q @ [p])" for r
    by (rule list_add_tail_frame [OF D]) (use that in \<open>auto simp: wq_head_def idle_task_def\<close>)
  moreover have "dlist (list_add_tail p wq_head (wq_links wq)) wq_head (q @ [p])"
    by (rule list_init_q.put_holds [OF D fresh])
  ultimately show ?thesis
    using wq_invD(2,4,5) [OF assms(1)] p assms(3) unfolding e wq_inv_def by auto
qed

lemma wq_unlink_inv:
  assumes "wq_inv wq (us @ p # vs)"
  shows "wq_inv (wq_count_down (wq\<lparr>wq_links := list_del_init p (wq_links wq)\<rparr>)) (us @ vs)"
proof -
  note D = wq_invD(1) [OF assms]
  have "next_ptr (list_del_init p (wq_links wq) r) = 0 \<or> next_ptr (list_del_init p (wq_links wq) r) = r"
    if "r \<in> {1..idle_task} - set (us @ vs)" for r
  proof (cases "r = p")
    case True
    with dlist_del_init(2) [OF D] show ?thesis by simp
  next
    case False
    then have "list_del_init p (wq_links wq) r = wq_links wq r"
      by (intro list_del_init_frame [OF D]) (use that in \<open>auto simp: wq_head_def idle_task_def\<close>)
    with wq_invD(4) [OF assms, of r] that False show ?thesis by simp
  qed
  moreover have "dlist (list_del_init p (wq_links wq)) wq_head (us @ vs)"
    by (rule list_init_q.unlink_holds [OF D])
  ultimately show ?thesis
    using wq_invD(2,3,5) [OF assms] by (auto simp: wq_inv_def wq_count_down_def)
qed

lemma wait_queue_remove_inv:
  assumes "wq_inv wq q" and "p \<in> {1..idle_task}"
  shows "wq_inv (wait_queue_remove p wq) (remove1 p q)"
proof (cases "p \<in> set q")
  case True
  then obtain us vs where q: "q = us @ p # vs" "p \<notin> set us" by (metis split_list_first)
  then have "remove1 p q = us @ vs" by (simp add: remove1_append)
  with wq_unlink_inv [of wq us p vs] assms q entry_linked_iff [OF assms] True show ?thesis
    by (simp add: wait_queue_remove_def)
next
  case False
  with assms entry_linked_iff [OF assms] show ?thesis
    by (simp add: wait_queue_remove_def remove1_idem)
qed

lemma wake_first_inv:
  assumes "wq_inv wq (x # q)"
  shows "wq_inv (fst (wake_first (wq, s))) q" and "snd (wake_first (wq, s)) = task_unblock x s"
    and "entry_flags (fst (wake_first (wq, s))) x = entry_flags wq x OR WQ_FLAG_WOKEN"
proof -
  have n: "next_ptr (wq_links wq wq_head) = x"
    using wq_invD(1) [OF assms] by (simp add: dlist_def)
  have x: "entry_task wq x = x" "x \<noteq> 0" using wq_invD(2,5) [OF assms] by auto
  let ?wq = "wq_count_down (wq\<lparr>wq_links := list_del_init x (wq_links wq)\<rparr>)"
  have e: "entry_task ?wq = entry_task wq" "entry_flags ?wq = entry_flags wq"
    by (simp_all add: wq_count_down_def)
  have "wq_inv ?wq q" using wq_unlink_inv [of wq "[]" x q] assms by simp
  then show "wq_inv (fst (wake_first (wq, s))) q"
    by (simp add: wake_first_def n Let_def) (simp add: wq_inv_def)
  show "snd (wake_first (wq, s)) = task_unblock x s"
    and "entry_flags (fst (wake_first (wq, s))) x = entry_flags wq x OR WQ_FLAG_WOKEN"
    using x by (simp_all add: wake_first_def n Let_def e)
qed

lemma wake_all_loop_inv:
  assumes "wq_inv wq q"
  shows "\<exists>wq'. wake_all_loop (wq, s) = Some (wq', fold task_unblock q s) \<and> wq_inv wq' []"
  using assms
proof (induction q arbitrary: wq s)
  case Nil
  then have "list_empty wq_head (wq_links wq)"
    using list_init_q.empty_holds wq_invD(1) by blast
  with Nil show ?case by (subst wake_all_loop.simps) simp
next
  case (Cons x q)
  then have "\<not> list_empty wq_head (wq_links wq)"
    using list_init_q.empty_holds wq_invD(1) by blast
  moreover obtain wq1 where w: "wake_first (wq, s) = (wq1, task_unblock x s)" "wq_inv wq1 q"
    using wake_first_inv [OF Cons.prems, of s] by (metis prod.collapse)
  moreover from Cons.IH [OF w(2), of "task_unblock x s"] obtain wq' where
    "wake_all_loop (wq1, task_unblock x s) = Some (wq', fold task_unblock q (task_unblock x s))" "wq_inv wq' []"
    by blast
  ultimately show ?case by (subst wake_all_loop.simps) auto
qed

lemma request_state [simp]: "t_state (tasks (task_request_reschedule s) p) = t_state (tasks s p)"
  by (simp add: task_request_reschedule_def Let_def)

lemma request_requested [simp]: "reschedule_requested (task_request_reschedule s)"
  by (simp add: task_request_reschedule_def Let_def)

lemma unblock_state:
  "t_state (tasks (task_unblock q s) p) = (if p = q \<and> q \<noteq> 0 \<and> t_state (tasks s p) = THREAD_STATE_BLOCKED
     then THREAD_STATE_RUNNABLE else t_state (tasks s p))"
  by (auto simp: task_unblock_def)

lemma unblock_all_state:
  "t_state (tasks (fold task_unblock q s) p) = (if p \<in> set q \<and> p \<noteq> 0 \<and> t_state (tasks s p) = THREAD_STATE_BLOCKED
     then THREAD_STATE_RUNNABLE else t_state (tasks s p))"
  by (induction q arbitrary: s) (auto simp: unblock_state)

lemma wake_one_inv:
  assumes "wq_inv wq (x # q)"
  shows "\<exists>wq'. wait_queue_wake_one (wq, s) = (wq', task_request_reschedule (task_unblock x s)) \<and> wq_inv wq' q
    \<and> entry_flags wq' x = entry_flags wq x OR WQ_FLAG_WOKEN"
proof -
  have "\<not> list_empty wq_head (wq_links wq)" using list_init_q.empty_holds wq_invD(1) [OF assms] by blast
  moreover have "next_ptr (wq_links wq wq_head) = x" using wq_invD(1) [OF assms] by (simp add: dlist_def)
  moreover have "entry_task wq x = x" "x \<noteq> 0" using wq_invD(2,5) [OF assms] by auto
  ultimately show ?thesis
    using wake_first_inv [OF assms, of s]
    by (auto simp: wait_queue_wake_one_def case_prod_beta)
qed

lemma wake_one_empty: "wq_inv wq [] \<Longrightarrow> wait_queue_wake_one (wq, s) = (wq, s)"
  using list_init_q.empty_holds [of "wq_links wq" wq_head "[]"] wq_invD(1) [of wq "[]"]
  by (simp add: wait_queue_wake_one_def)

lemma queue_self_inv:
  assumes "wq_inv wq q" and "p \<in> {1..idle_task}" and "entry_task wq p = p"
  shows "wq_inv (queue_self p wq) (if p \<in> set q then q else q @ [p])"
  using assms entry_linked_iff [OF assms(1,2)] wait_queue_add_inv [of wq q p] by (simp add: queue_self_def)

lemma init_entry_inv:
  assumes "wq_inv wq q" and "p \<in> {1..idle_task} - set q"
  shows "wq_inv (init_entry p wq) q" and "entry_task (init_entry p wq) p = p"
proof -
  have "dlist (list_init p (wq_links wq)) wq_head q"
    using wq_invD(1) [OF assms(1)] assms(2)
    by (subst dlist_cong [where h = "wq_links wq"])
      (auto simp: list_init_def set_next_def set_prev_def wq_head_def idle_task_def)
  with assms show "wq_inv (init_entry p wq) q"
    by (auto simp: wq_inv_def init_entry_def list_init_def)
qed (simp add: init_entry_def)

lemma block_state:
  "initialized s \<Longrightarrow> p \<noteq> 0 \<Longrightarrow> t_state (tasks (task_block p s) q) = (if q = p then THREAD_STATE_BLOCKED else t_state (tasks s q))"
  by (simp add: task_block_def)

lemma schedule_blocked:
  "t_state (tasks s p) = THREAD_STATE_BLOCKED \<Longrightarrow> p \<in> {1..TASK_MAX_COUNT} \<Longrightarrow>
    t_state (tasks (schedule s) p) = THREAD_STATE_BLOCKED"
proof -
  assume B: "t_state (tasks s p) = THREAD_STATE_BLOCKED" and p: "p \<in> {1..TASK_MAX_COUNT}"
  have "p \<noteq> nxt" if "schedule_target s = Some nxt" for nxt
  proof -
    have "task_find_next_ready s \<noteq> p"
    proof
      assume f: "task_find_next_ready s = p"
      then have "\<exists>d < TASK_MAX_COUNT. runnable s d" using p find_next_ready_None [of s] by auto
      then obtain d where "runnable s d" "d < TASK_MAX_COUNT" by blast
      then obtain c where "task_find_next_ready s = slot c" "runnable s c" by (rule find_next_ready_Some)
      with f B show False by (simp add: runnable_def)
    qed
    with that p show ?thesis
      by (auto simp: schedule_target_def Let_def idle_task_def TASK_MAX_COUNT_def split: if_splits)
  qed
  with B show ?thesis
    using schedule_target_range [of s]
    by (auto simp: schedule_def Let_def switch_to_state split: option.split)
qed

section \<open>Properties\<close>

text \<open>C14. Wait queues are first come, first served. On a queue that holds the tasks \<open>q\<close>, possibly none:
  adding puts a task last; removing takes it out wherever it is and does nothing when it is not there;
  \<open>wait_queue_wake_one\<close> does nothing when nobody waits, and otherwise takes the longest waiting task out,
  marks its entry woken, makes it runnable, asks for a reschedule and leaves every other task alone;
  \<open>wait_queue_wake_all\<close> returns with the queue empty, a reschedule requested, every waiter that was
  blocked runnable and every other task unchanged.\<close>

theorem wait_queue_fifo:
  assumes "wq_inv wq q" and "p \<in> {1..idle_task}" and "entry_task wq p = p"
  shows "(p \<notin> set q \<longrightarrow> wq_inv (wait_queue_add p wq) (q @ [p]))
    \<and> wq_inv (wait_queue_remove p wq) (remove1 p q)
    \<and> (q = [] \<longrightarrow> wait_queue_wake_one (wq, s) = (wq, s))
    \<and> (\<forall>x r. q = x # r \<longrightarrow> (\<exists>wq' s'. wait_queue_wake_one (wq, s) = (wq', s') \<and> wq_inv wq' r
        \<and> entry_flags wq' x = entry_flags wq x OR WQ_FLAG_WOKEN
        \<and> t_state (tasks s' x) \<noteq> THREAD_STATE_BLOCKED \<and> reschedule_requested s'
        \<and> (\<forall>y. y \<noteq> x \<longrightarrow> t_state (tasks s' y) = t_state (tasks s y))))
    \<and> (\<exists>wq' s'. wait_queue_wake_all (wq, s) = Some (wq', s') \<and> wq_inv wq' [] \<and> reschedule_requested s'
        \<and> (\<forall>y. t_state (tasks s' y) = (if y \<in> set q \<and> t_state (tasks s y) = THREAD_STATE_BLOCKED
             then THREAD_STATE_RUNNABLE else t_state (tasks s y))))"
proof (intro conjI allI impI)
  show "wq_inv (wait_queue_add p wq) (q @ [p])" if "p \<notin> set q"
    using wait_queue_add_inv [OF assms(1)] assms(2,3) that by simp
  show "wq_inv (wait_queue_remove p wq) (remove1 p q)"
    by (rule wait_queue_remove_inv [OF assms(1,2)])
  show "wait_queue_wake_one (wq, s) = (wq, s)" if "q = []" using wake_one_empty assms(1) that by blast
  have nz: "y \<noteq> 0" if "y \<in> set q" for y using wq_invD(2) [OF assms(1)] that by auto
  show "\<exists>wq' s'. wait_queue_wake_one (wq, s) = (wq', s') \<and> wq_inv wq' r
        \<and> entry_flags wq' x = entry_flags wq x OR WQ_FLAG_WOKEN
        \<and> t_state (tasks s' x) \<noteq> THREAD_STATE_BLOCKED \<and> reschedule_requested s'
        \<and> (\<forall>y. y \<noteq> x \<longrightarrow> t_state (tasks s' y) = t_state (tasks s y))" if q: "q = x # r" for x r
    using wake_one_inv [OF assms(1) [unfolded q], of s] nz [of x] q by (auto simp: unblock_state)
  from wake_all_loop_inv [OF assms(1), of s] obtain wq2 where
    w2: "wake_all_loop (wq, s) = Some (wq2, fold task_unblock q s)" "wq_inv wq2 []" by blast
  have st: "t_state (tasks (fold task_unblock q s) y) = (if y \<in> set q
      \<and> t_state (tasks s y) = THREAD_STATE_BLOCKED then THREAD_STATE_RUNNABLE else t_state (tasks s y))" for y
    unfolding unblock_all_state using nz by auto
  show "\<exists>wq' s'. wait_queue_wake_all (wq, s) = Some (wq', s') \<and> wq_inv wq' [] \<and> reschedule_requested s'
        \<and> (\<forall>y. t_state (tasks s' y) = (if y \<in> set q \<and> t_state (tasks s y) = THREAD_STATE_BLOCKED
             then THREAD_STATE_RUNNABLE else t_state (tasks s y)))"
    using w2 st by (intro exI [of _ wq2] exI [of _ "task_request_reschedule (fold task_unblock q s)"])
      (simp add: wait_queue_wake_all_def del: fold_simps)
qed

text \<open>A queue in which the tasks 3 and 5 wait.\<close>

definition wq_example :: wait_queue where
  "wq_example = wait_queue_add 5 (wait_queue_add 3 (wait_queue_init
     \<lparr>wq_links = (\<lambda>p. \<lparr>next_ptr = p, prev_ptr = p\<rparr>), waiter_count = 0, entry_task = id, entry_flags = (\<lambda>_. 0)\<rparr>))"

lemma entry_task_add [simp]: "entry_task (wait_queue_add p wq) = entry_task wq"
  by (simp add: wait_queue_add_def Let_def)

lemma wq_example_inv: "wq_inv wq_example [3, 5]"
proof -
  let ?wq = "wait_queue_init \<lparr>wq_links = (\<lambda>p. \<lparr>next_ptr = p, prev_ptr = p\<rparr>), waiter_count = 0, entry_task = id,
      entry_flags = (\<lambda>_. 0)\<rparr>"
  have t: "entry_task ?wq = id" by (simp add: wait_queue_init_def)
  have "wq_inv ?wq []" by (rule wait_queue_init_inv) simp
  then have "wq_inv (wait_queue_add 3 ?wq) ([] @ [3])"
    by (rule wait_queue_add_inv) (simp_all add: t idle_task_def)
  then have "wq_inv (wait_queue_add 5 (wait_queue_add 3 ?wq)) (([] @ [3]) @ [5])"
    by (rule wait_queue_add_inv) (simp_all add: t idle_task_def)
  then show ?thesis by (simp add: wq_example_def)
qed

theorem wait_queue_fifo_witness:
  "wq_inv (wait_queue_add 7 wq_example) [3, 5, 7] \<and> wq_inv (wait_queue_remove 7 wq_example) [3, 5]
    \<and> (\<exists>wq' s'. wait_queue_wake_one (wq_example, sched_example) = (wq', s') \<and> wq_inv wq' [5])"
proof -
  have "entry_task wq_example 7 = 7" by (simp add: wq_example_def wait_queue_init_def)
  with wait_queue_fifo [of wq_example "[3, 5]" 7 sched_example] wq_example_inv show ?thesis
    by (auto simp: idle_task_def)
qed

text \<open>Waiting for an event and signalling it, for a manual-reset event: a caller that finds the event
  unsignalled is queued last and blocked in one step; a signal then makes every blocked waiter
  runnable and leaves the event signalled, so each waiter's next check succeeds and it leaves.\<close>

theorem manual_event_wakes_waiters:
  assumes "ev_manual_reset ev" and "wq_inv wq q" and "initialized s" and "cur = task_current s"
    and "cur \<in> {1..TASK_MAX_COUNT} - set q" and "\<not> ev_signaled ev"
  shows "\<exists>wq1 s1. wait_event (Some event_check_condition) (ev, wq, s) = (WaitBlocked, ev, wq1, s1)
    \<and> wq_inv wq1 (q @ [cur]) \<and> t_state (tasks s1 cur) = THREAD_STATE_BLOCKED
    \<and> (\<exists>ev2 wq2 s2. event_signal_locked (ev, wq1, s1) = Some (ev2, wq2, s2) \<and> ev_signaled ev2
        \<and> wq_inv wq2 [] \<and> (\<forall>p \<in> set (q @ [cur]). t_state (tasks s2 p) \<noteq> THREAD_STATE_BLOCKED
             \<and> fst (wait_event_iteration (Some event_check_condition) p (ev2, wq2, s2)) = WaitDone True))"
proof -
  let ?s1 = "schedule (task_block cur s)"
  let ?wq1 = "queue_self cur (init_entry cur wq)"
  have cur: "cur \<in> {1..idle_task} - set q" "cur \<noteq> 0"
    using assms(5) by (auto simp: TASK_MAX_COUNT_def idle_task_def)
  have w: "wait_event (Some event_check_condition) (ev, wq, s) = (WaitBlocked, ev, ?wq1, ?s1)"
    using assms(3,4,6) cur(2)
    by (simp add: wait_event_def check_condition_def event_check_condition_def wait_event_iteration_def
        task_is_multitasking_active_def Let_def)
  have i1: "wq_inv ?wq1 (q @ [cur])"
    using queue_self_inv [OF init_entry_inv(1) [OF assms(2) cur(1)] _ init_entry_inv(2) [OF assms(2) cur(1)]] cur
    by auto
  have b1: "t_state (tasks ?s1 cur) = THREAD_STATE_BLOCKED"
    by (rule schedule_blocked) (use assms(3,5) cur in \<open>auto simp: block_state\<close>)
  let ?ev2 = "ev\<lparr>ev_signaled := True\<rparr>"
  from wake_all_loop_inv [OF i1, of ?s1] obtain wq2 where
    w2: "wake_all_loop (?wq1, ?s1) = Some (wq2, fold task_unblock (q @ [cur]) ?s1)" "wq_inv wq2 []" by blast
  let ?s2 = "task_request_reschedule (fold task_unblock (q @ [cur]) ?s1)"
  have sig: "event_signal_locked (ev, ?wq1, ?s1) = Some (?ev2, wq2, ?s2)"
    using assms(1) w2(1) by (simp add: event_signal_locked_def wait_queue_wake_all_def Let_def)
  have "t_state (tasks ?s2 p) \<noteq> THREAD_STATE_BLOCKED
      \<and> fst (wait_event_iteration (Some event_check_condition) p (?ev2, wq2, ?s2)) = WaitDone True"
    if "p \<in> set (q @ [cur])" for p
  proof -
    have "p \<noteq> 0" using wq_invD(2) [OF i1] that by auto
    with that show ?thesis unfolding request_state unblock_all_state
      by (simp add: wait_event_iteration_def check_condition_def event_check_condition_def Let_def)
  qed
  with w i1 b1 sig w2(2) show ?thesis by fastforce
qed

theorem manual_event_wakes_waiters_witness:
  "\<exists>wq1 s1. wait_event (Some event_check_condition) (\<lparr>ev_manual_reset = True, ev_signaled = False\<rparr>, wq_example,
      sched_example) = (WaitBlocked, \<lparr>ev_manual_reset = True, ev_signaled = False\<rparr>, wq1, s1) \<and> wq_inv wq1 [3, 5, 1]"
proof -
  have "task_current sched_example = 1" by (simp add: task_current_def sched_example_def)
  with manual_event_wakes_waiters [of "\<lparr>ev_manual_reset = True, ev_signaled = False\<rparr>" wq_example "[3, 5]" sched_example 1]
    wq_example_inv
  show ?thesis by (auto simp: TASK_MAX_COUNT_def)
qed

text \<open>C15. An auto-reset event loses every signal: after \<open>event_signal\<close> the event is not signalled, whether
  or not somebody waited, so a later check fails; the longest waiter \<open>x\<close>, which the signal woke, finds its
  condition false, queues itself again and blocks.\<close>

theorem auto_reset_signal_lost:
  assumes "\<not> ev_manual_reset ev" and "wq_inv wq q"
  shows "\<exists>ev' wq' s'. event_signal_locked (ev, wq, s) = Some (ev', wq', s')
    \<and> event_check_condition ev' = (False, ev')
    \<and> (\<forall>x r. q = x # r \<longrightarrow> (\<exists>wq'' s''. wait_event_iteration (Some event_check_condition) x (ev', wq', s')
          = (WaitBlocked, ev', wq'', s'') \<and> wq_inv wq'' (r @ [x])))"
proof -
  obtain wq' s' where w: "wait_queue_wake_one (wq, s) = (wq', s')" by force
  have "wq_inv (queue_self x wq') (r @ [x])" if q: "q = x # r" for x r
  proof -
    note I = assms(2) [unfolded q]
    have x: "x \<in> {1..idle_task}" "x \<notin> set r" using wq_invD(2,6) [OF I] by auto
    have "wq_inv wq' r" using wake_one_inv [OF I, of s] w by auto
    moreover have "entry_task wq' = entry_task wq"
      using w by (auto simp: wait_queue_wake_one_def wake_first_def wq_count_down_def Let_def split: if_splits)
    with wq_invD(5) [OF I] have "entry_task wq' x = x" by simp
    ultimately show ?thesis using queue_self_inv [of wq' r x] x by simp
  qed
  with w assms(1) show ?thesis
    by (simp add: event_signal_locked_def event_check_condition_def wait_event_iteration_def
        check_condition_def Let_def)
qed

theorem auto_reset_signal_lost_witness:
  "\<exists>ev' wq' s'. event_signal_locked (\<lparr>ev_manual_reset = False, ev_signaled = False\<rparr>, wq_example, sched_example)
     = Some (ev', wq', s') \<and> event_check_condition ev' = (False, ev')"
  using auto_reset_signal_lost [of "\<lparr>ev_manual_reset = False, ev_signaled = False\<rparr>" wq_example "[3, 5]" sched_example]
    wq_example_inv by auto

end
