(* ===== verification/KOS_Uaccess.thy ===== *)
theory KOS_Uaccess
  imports KOS_Memory
begin

text \<open>
  Access to user memory: \<open>src/kernel/uaccess.c\<close> and \<open>src/include/kos/uaccess.h\<close>. The state is the byte
  store of \<open>KOS_Memory\<close> and the processor's access-control flag, which \<open>stac\<close> and \<open>clac\<close> open and close
  when the processor enforces supervisor-mode access prevention. Results of type \<open>long\<close> are integers;
  an error is the negated error code.
\<close>

definition KOS_USER_SPACE_MAX :: nat where "KOS_USER_SPACE_MAX = 0x00007FFFFFFFFFFF"
definition EFAULT :: int where "EFAULT = 14"

record uaccess_state =
  mem :: bytes
  has_smap :: bool
  access_open :: bool

definition stac :: "'a uaccess_state_scheme \<Rightarrow> 'a uaccess_state_scheme" where
  "stac s = (if has_smap s then s\<lparr>access_open := True\<rparr> else s)"

definition clac :: "'a uaccess_state_scheme \<Rightarrow> 'a uaccess_state_scheme" where
  "clac s = (if has_smap s then s\<lparr>access_open := False\<rparr> else s)"

definition access_ok :: "nat \<Rightarrow> nat \<Rightarrow> bool" where
  "access_ok addr n =
     (if n = 0 then True
      else if addr = 0 then False
      else if add64 addr n < addr then False
      else if sub64 (add64 addr n) 1 > KOS_USER_SPACE_MAX then False
      else True)"

definition memcpy_user :: "nat \<Rightarrow> nat \<Rightarrow> nat \<Rightarrow> 'a uaccess_state_scheme \<Rightarrow> 'a uaccess_state_scheme" where
  "memcpy_user dst src n s =
     (let s1 = stac s; s2 = s1\<lparr>mem := snd (memcpy dst src n (mem s1))\<rparr> in clac s2)"

definition copy_from_user :: "nat \<Rightarrow> nat \<Rightarrow> nat \<Rightarrow> 'a uaccess_state_scheme \<Rightarrow> int \<times> 'a uaccess_state_scheme" where
  "copy_from_user dst src n s =
     (if n = 0 then (0, s)
      else if dst = 0 \<or> \<not> access_ok src n then (- EFAULT, s)
      else (0, memcpy_user dst src n s))"

definition copy_to_user :: "nat \<Rightarrow> nat \<Rightarrow> nat \<Rightarrow> 'a uaccess_state_scheme \<Rightarrow> int \<times> 'a uaccess_state_scheme" where
  "copy_to_user dst src n s =
     (if n = 0 then (0, s)
      else if src = 0 \<or> \<not> access_ok dst n then (- EFAULT, s)
      else (0, memcpy_user dst src n s))"

fun strncpy_from_user_loop :: "nat \<Rightarrow> nat \<Rightarrow> nat \<Rightarrow> nat list \<Rightarrow> 'a uaccess_state_scheme
    \<Rightarrow> int \<times> 'a uaccess_state_scheme" where
  "strncpy_from_user_loop dst src count [] s = (int count, clac s)"
| "strncpy_from_user_loop dst src count (i # rest) s =
     (if add64 src i > KOS_USER_SPACE_MAX then (- EFAULT, clac s)
      else let c = mem s (src + i); s1 = s\<lparr>mem := (mem s)(dst + i := c)\<rparr>
           in if c = 0 then (int (i + 1), clac s1) else strncpy_from_user_loop dst src count rest s1)"

definition strncpy_from_user :: "nat \<Rightarrow> nat \<Rightarrow> nat \<Rightarrow> 'a uaccess_state_scheme \<Rightarrow> int \<times> 'a uaccess_state_scheme" where
  "strncpy_from_user dst src count s =
     (if count = 0 then (0, s)
      else if dst = 0 \<or> \<not> access_ok src 1 then (- EFAULT, s)
      else strncpy_from_user_loop dst src count [0..<count] (stac s))"

fun strlen_user_loop :: "nat \<Rightarrow> nat list \<Rightarrow> 'a uaccess_state_scheme \<Rightarrow> int \<times> 'a uaccess_state_scheme" where
  "strlen_user_loop src [] s = (- EFAULT, clac s)"
| "strlen_user_loop src (len # rest) s =
     (if add64 src len > KOS_USER_SPACE_MAX then (- EFAULT, clac s)
      else if mem s (src + len) = 0 then (int len, clac s)
      else strlen_user_loop src rest s)"

definition strlen_user :: "nat \<Rightarrow> 'a uaccess_state_scheme \<Rightarrow> int \<times> 'a uaccess_state_scheme" where
  "strlen_user src s =
     (if \<not> access_ok src 1 then (- EFAULT, s) else strlen_user_loop src [0..<4096] (stac s))"

section \<open>What the checks admit\<close>

text \<open>A range of user addresses.\<close>

definition user_range :: "nat \<Rightarrow> nat \<Rightarrow> bool" where
  "user_range addr n \<longleftrightarrow> addr \<noteq> 0 \<and> addr + n \<le> KOS_USER_SPACE_MAX + 1"

lemma access_ok_iff:
  assumes "addr < 2 ^ 64" and "n < 2 ^ 64"
  shows "access_ok addr n \<longleftrightarrow> n = 0 \<or> user_range addr n"
proof (cases "addr + n < 2 ^ 64")
  case True
  then show ?thesis
    by (auto simp: access_ok_def user_range_def add64_exact sub64_exact KOS_USER_SPACE_MAX_def)
next
  case False
  with add64_wraps_iff [OF assms] show ?thesis
    by (auto simp: access_ok_def user_range_def KOS_USER_SPACE_MAX_def)
qed

lemma memcpy_user_simps [simp]:
  "has_smap (memcpy_user d a n s) = has_smap s"
  "has_smap s \<Longrightarrow> access_open (memcpy_user d a n s) = False"
  "mem (memcpy_user d a n s) = snd (memcpy d a n (mem s))"
  by (simp_all add: memcpy_user_def stac_def clac_def Let_def)

lemma window_simps [simp]:
  "mem (stac s) = mem s" "mem (clac s) = mem s" "has_smap (stac s) = has_smap s" "has_smap (clac s) = has_smap s"
  "has_smap s \<Longrightarrow> access_open (clac s) = False"
  by (simp_all add: stac_def clac_def)

text \<open>The user string seen by the loops, up to \<open>n\<close> bytes: copied bytes, a terminator, or the end of user
  space.\<close>

lemma strncpy_from_user_loop_spec:
  assumes "src + count < 2 ^ 64" and "KOS_USER_SPACE_MAX < dst" and "i \<le> count" and "has_smap s"
    and "\<forall>j < i. src + j \<le> KOS_USER_SPACE_MAX \<and> m (src + j) \<noteq> 0"
    and "mem s = copied dst src i m"
  shows "let (r, s') = strncpy_from_user_loop dst src count [i..<count] s in
    access_open s' = False \<and>
    (r = - EFAULT \<and> (\<exists>k < count. KOS_USER_SPACE_MAX < src + k \<and> (\<forall>j < k. m (src + j) \<noteq> 0))
     \<or> r = int count \<and> (\<forall>j < count. src + j \<le> KOS_USER_SPACE_MAX \<and> m (src + j) \<noteq> 0)
         \<and> mem s' = copied dst src count m
     \<or> (\<exists>k < count. r = int (k + 1) \<and> src + k \<le> KOS_USER_SPACE_MAX \<and> m (src + k) = 0
         \<and> (\<forall>j < k. m (src + j) \<noteq> 0) \<and> mem s' = copied dst src (k + 1) m))"
  using assms
proof (induction "count - i" arbitrary: i s)
  case 0
  then show ?case by simp
next
  case (Suc n)
  then have up: "[i..<count] = i # [Suc i..<count]" by (simp add: upt_conv_Cons)
  have a: "add64 src i = src + i" using Suc by (intro add64_exact) simp
  show ?case
  proof (cases "src + i > KOS_USER_SPACE_MAX")
    case True
    then have "\<exists>k < count. KOS_USER_SPACE_MAX < src + k \<and> (\<forall>j < k. m (src + j) \<noteq> 0)"
      using Suc.prems Suc.hyps(2) by (intro exI [of _ i]) auto
    with True show ?thesis using Suc.prems up a by simp
  next
    case False
    let ?s = "s\<lparr>mem := (mem s)(dst + i := mem s (src + i))\<rparr>"
    have c: "mem s (src + i) = m (src + i)"
      using Suc.prems False by (auto simp: copied_def)
    have m1: "mem ?s = copied dst src (Suc i) m"
      using c Suc.prems by (auto simp: copied_def fun_eq_iff)
    show ?thesis
    proof (cases "m (src + i) = 0")
      case True
      then have "\<exists>k < count. int (i + 1) = int (k + 1) \<and> src + k \<le> KOS_USER_SPACE_MAX \<and> m (src + k) = 0
         \<and> (\<forall>j < k. m (src + j) \<noteq> 0) \<and> mem ?s = copied dst src (k + 1) m"
        using False m1 Suc.prems Suc.hyps(2) by (intro exI [of _ i]) auto
      with True show ?thesis using up a False c Suc.prems by (simp add: Let_def)
    next
      case nz: False
      have "let (r, s') = strncpy_from_user_loop dst src count [Suc i..<count] ?s in
        access_open s' = False \<and>
        (r = - EFAULT \<and> (\<exists>k < count. KOS_USER_SPACE_MAX < src + k \<and> (\<forall>j < k. m (src + j) \<noteq> 0))
         \<or> r = int count \<and> (\<forall>j < count. src + j \<le> KOS_USER_SPACE_MAX \<and> m (src + j) \<noteq> 0)
             \<and> mem s' = copied dst src count m
         \<or> (\<exists>k < count. r = int (k + 1) \<and> src + k \<le> KOS_USER_SPACE_MAX \<and> m (src + k) = 0
             \<and> (\<forall>j < k. m (src + j) \<noteq> 0) \<and> mem s' = copied dst src (k + 1) m))"
        by (rule Suc.hyps(1)) (use Suc.prems Suc.hyps(2) nz False m1 in \<open>auto simp: less_Suc_eq\<close>)
      then show ?thesis using up a False c nz by (simp add: Let_def)
    qed
  qed
qed

lemma strlen_user_loop_spec:
  assumes "src + n < 2 ^ 64" and "has_smap s" and "i \<le> n"
    and "\<forall>j < i. src + j \<le> KOS_USER_SPACE_MAX \<and> mem s (src + j) \<noteq> 0"
  shows "let (r, s') = strlen_user_loop src [i..<n] s in access_open s' = False \<and> mem s' = mem s
    \<and> (r \<ge> 0 \<longrightarrow> (\<forall>j \<le> nat r. src + j \<le> KOS_USER_SPACE_MAX) \<and> mem s (src + nat r) = 0
         \<and> (\<forall>j < nat r. mem s (src + j) \<noteq> 0))"
  using assms
proof (induction "n - i" arbitrary: i)
  case 0
  then show ?case by (simp add: EFAULT_def)
next
  case (Suc k)
  then have up: "[i..<n] = i # [Suc i..<n]" by (simp add: upt_conv_Cons)
  have a: "add64 src i = src + i" using Suc by (intro add64_exact) simp
  show ?case
  proof (cases "src + i > KOS_USER_SPACE_MAX \<or> mem s (src + i) = 0")
    case True
    then show ?thesis using up a Suc.prems by (auto simp: EFAULT_def)
  next
    case False
    have "let (r, s') = strlen_user_loop src [Suc i..<n] s in access_open s' = False \<and> mem s' = mem s
      \<and> (r \<ge> 0 \<longrightarrow> (\<forall>j \<le> nat r. src + j \<le> KOS_USER_SPACE_MAX) \<and> mem s (src + nat r) = 0
           \<and> (\<forall>j < nat r. mem s (src + j) \<noteq> 0))"
      by (rule Suc.hyps(1)) (use Suc.prems Suc.hyps(2) False in \<open>auto simp: less_Suc_eq\<close>)
    then show ?thesis using up a False by simp
  qed
qed

section \<open>Properties\<close>

text \<open>C16. User copies stay inside user space: on a processor with access prevention, a copy between a user
  range and a kernel buffer succeeds exactly when the whole user range lies in user space; it then
  copies exactly the range; otherwise it returns \<open>-EFAULT\<close> and changes nothing; and in both cases the
  access window is closed again.\<close>

theorem user_copy_confined:
  assumes "user < 2 ^ 64" and "0 < n" and "n < 2 ^ 64" and "KOS_USER_SPACE_MAX < kbuf"
    and "has_smap s" and "\<not> access_open s"
  shows "(let (r, s') = copy_from_user kbuf user n s in \<not> access_open s'
      \<and> (user_range user n \<longrightarrow> r = 0 \<and> mem s' = copied kbuf user n (mem s))
      \<and> (\<not> user_range user n \<longrightarrow> r = - EFAULT \<and> s' = s))
    \<and> (let (r, s') = copy_to_user user kbuf n s in \<not> access_open s'
      \<and> (user_range user n \<longrightarrow> r = 0 \<and> mem s' = copied user kbuf n (mem s)
           \<and> (\<forall>a > KOS_USER_SPACE_MAX. mem s' a = mem s a))
      \<and> (\<not> user_range user n \<longrightarrow> r = - EFAULT \<and> s' = s))"
proof (cases "user_range user n")
  case True
  then have "user + n \<le> kbuf" "user \<le> kbuf" "access_ok user n" "kbuf \<noteq> 0"
    using assms(4) access_ok_iff [OF assms(1,3)] by (auto simp: user_range_def)
  moreover have "copied user kbuf n (mem s) a = mem s a" if "a > KOS_USER_SPACE_MAX" for a
    using that True by (auto simp: copied_def user_range_def)
  ultimately show ?thesis
    using True assms by (simp add: copy_from_user_def copy_to_user_def memcpy_eq)
next
  case False
  then have "\<not> access_ok user n" using access_ok_iff [OF assms(1,3)] assms(2) by simp
  with False assms show ?thesis by (simp add: copy_from_user_def copy_to_user_def)
qed

definition user_example :: uaccess_state where
  "user_example = \<lparr>mem = (\<lambda>a. if a = 0x1000 then 65 else 0), has_smap = True, access_open = False\<rparr>"

theorem user_copy_confined_witness:
  "fst (copy_from_user 0xFFFF800000000000 0x1000 2 user_example) = 0
    \<and> fst (copy_to_user 0x7FFFFFFFFFFF 0xFFFF800000000000 2 user_example) = - EFAULT"
  using user_copy_confined [of "0x1000" 2 "0xFFFF800000000000" user_example]
    user_copy_confined [of "0x7FFFFFFFFFFF" 2 "0xFFFF800000000000" user_example]
  by (simp add: user_example_def user_range_def KOS_USER_SPACE_MAX_def case_prod_beta)

text \<open>Reading a user string into a kernel buffer never follows the string out of user space: with a
  buffer of \<open>count\<close> bytes the result is the string with its terminator and its length, or the first
  \<open>count\<close> bytes of a longer string, or \<open>-EFAULT\<close> when the string runs out of user space; the access
  window is closed in every case.\<close>

theorem strncpy_from_user_confined:
  assumes "0 < count" and "src + count < 2 ^ 64" and "KOS_USER_SPACE_MAX < dst"
    and "has_smap s" and "\<not> access_open s"
  shows "let (r, s') = strncpy_from_user dst src count s; m = mem s in
    \<not> access_open s' \<and>
    (r = - EFAULT \<and> (src = 0 \<or> (\<exists>k < count. KOS_USER_SPACE_MAX < src + k \<and> (\<forall>j < k. m (src + j) \<noteq> 0)))
     \<or> r = int count \<and> (\<forall>j < count. src + j \<le> KOS_USER_SPACE_MAX \<and> m (src + j) \<noteq> 0)
         \<and> mem s' = copied dst src count m
     \<or> (\<exists>k < count. r = int (k + 1) \<and> src + k \<le> KOS_USER_SPACE_MAX \<and> m (src + k) = 0
         \<and> (\<forall>j < k. m (src + j) \<noteq> 0) \<and> mem s' = copied dst src (k + 1) m))"
proof (cases "access_ok src 1")
  case False
  then have "src = 0 \<or> KOS_USER_SPACE_MAX < src + 0"
    using access_ok_iff [of src 1] assms by (auto simp: user_range_def)
  then have "src = 0 \<or> (\<exists>k < count. KOS_USER_SPACE_MAX < src + k \<and> (\<forall>j < k. mem s (src + j) \<noteq> 0))"
    using assms(1) by blast
  with False assms show ?thesis by (simp add: strncpy_from_user_def)
next
  case True
  have c0: "copied dst src 0 (mem s) = mem s" by (auto simp: copied_def fun_eq_iff)
  have "strncpy_from_user dst src count s = strncpy_from_user_loop dst src count [0..<count] (stac s)"
    using True assms by (simp add: strncpy_from_user_def)
  with strncpy_from_user_loop_spec [of src count dst 0 "stac s" "mem s"] assms show ?thesis
    by (auto simp: c0 Let_def split: prod.splits)
qed

theorem strncpy_from_user_confined_witness:
  "\<exists>r s'. strncpy_from_user 0xFFFF800000000000 0x1000 8 user_example = (r, s') \<and> \<not> access_open s'"
  using strncpy_from_user_confined [of 8 "0x1000" "0xFFFF800000000000" user_example]
  by (auto simp: user_example_def KOS_USER_SPACE_MAX_def Let_def split: prod.splits)

end
