(* ===== verification/KOS_Asn1.thy ===== *)
theory KOS_Asn1
  imports KOS_Prelude
begin

text \<open>
  The DER parser of \<open>src/lib/asn1.c\<close>. A buffer is the list of its bytes, and \<open>buffer_size\<close> is its length;
  a pointer into the buffer is an offset. Offsets and lengths are \<open>uint32_t\<close>, with the wrap-around of
  the bounds check written out. The reference is the encoder \<open>der\<close>: tag, minimal length octets,
  contents. The second half has the calendar arithmetic of the validity times.
\<close>

definition ASN1_TAG_INTEGER :: u8 where "ASN1_TAG_INTEGER = 0x02"
definition ASN1_TAG_BIT_STRING :: u8 where "ASN1_TAG_BIT_STRING = 0x03"
definition ASN1_TAG_OBJECT_ID :: u8 where "ASN1_TAG_OBJECT_ID = 0x06"
definition ASN1_TAG_UTC_TIME :: u8 where "ASN1_TAG_UTC_TIME = 0x17"
definition ASN1_TAG_GENERALIZED_TIME :: u8 where "ASN1_TAG_GENERALIZED_TIME = 0x18"
definition ASN1_TAG_SEQUENCE :: u8 where "ASN1_TAG_SEQUENCE = 0x30"

record asn1_element =
  el_tag :: u8
  el_constructed :: bool
  el_data :: nat
  el_length :: nat
  el_header_length :: nat

section \<open>The parser\<close>

text \<open>The loop over the length octets: shift by 8 and add the next octet, in 32 bits.\<close>

fun read_length :: "u8 list \<Rightarrow> nat list \<Rightarrow> nat \<Rightarrow> nat" where
  "read_length buffer [] len = len"
| "read_length buffer (i # is) len = read_length buffer is (mul32 len 256 + unat (buffer ! i))"

definition parse_length :: "u8 list \<Rightarrow> (nat \<times> nat) option" where
  "parse_length buffer =
     (let len_byte = buffer ! 1; offset = 2 in
      if len_byte AND 0x80 = 0 then Some (unat len_byte, offset)
      else let num_octets = unat (len_byte AND 0x7F) in
        if num_octets = 0 \<or> num_octets > 4 then None
        else if add32 offset num_octets > length buffer then None
        else if buffer ! offset = 0 then None
        else let len = read_length buffer [offset..<offset + num_octets] 0
             in if len < 128 then None else Some (len, offset + num_octets))"

definition asn1_parse_element :: "u8 list \<Rightarrow> asn1_element option" where
  "asn1_parse_element buffer =
     (if length buffer < 2 then None
      else case parse_length buffer of None \<Rightarrow> None
      | Some (len, offset) \<Rightarrow>
          if add32 offset len > length buffer then None
          else Some \<lparr>el_tag = buffer ! 0, el_constructed = (buffer ! 0 AND 0x20 \<noteq> 0), el_data = offset,
                     el_length = len, el_header_length = offset\<rparr>)"

definition asn1_get_sequence :: "u8 list \<Rightarrow> asn1_element option" where
  "asn1_get_sequence buffer = (case asn1_parse_element buffer of None \<Rightarrow> None
     | Some elem \<Rightarrow> if el_tag elem \<noteq> ASN1_TAG_SEQUENCE then None else Some elem)"

definition asn1_get_integer :: "u8 list \<Rightarrow> (nat \<times> nat) option" where
  "asn1_get_integer buffer = (case asn1_parse_element buffer of None \<Rightarrow> None
     | Some elem \<Rightarrow> if el_tag elem \<noteq> ASN1_TAG_INTEGER \<or> el_length elem = 0 then None
                    else Some (el_data elem, el_length elem))"

definition asn1_get_bitstring :: "u8 list \<Rightarrow> (nat \<times> nat \<times> u8) option" where
  "asn1_get_bitstring buffer = (case asn1_parse_element buffer of None \<Rightarrow> None
     | Some elem \<Rightarrow> if el_tag elem \<noteq> ASN1_TAG_BIT_STRING \<or> el_length elem = 0 then None
                    else let unused = buffer ! el_data elem
                         in if unused > 7 then None
                            else Some (el_data elem + 1, el_length elem - 1, unused))"

definition asn1_get_oid :: "u8 list \<Rightarrow> (nat \<times> nat) option" where
  "asn1_get_oid buffer = (case asn1_parse_element buffer of None \<Rightarrow> None
     | Some elem \<Rightarrow> if el_tag elem \<noteq> ASN1_TAG_OBJECT_ID \<or> el_length elem = 0 then None
                    else Some (el_data elem, el_length elem))"

fun match_from :: "u8 list \<Rightarrow> u8 list \<Rightarrow> nat list \<Rightarrow> bool" where
  "match_from oid_data expected_oid [] = True"
| "match_from oid_data expected_oid (i # is) =
     (if oid_data ! i \<noteq> expected_oid ! i then False else match_from oid_data expected_oid is)"

definition asn1_match_oid :: "u8 list \<Rightarrow> u8 list \<Rightarrow> bool" where
  "asn1_match_oid oid_data expected_oid =
     (if length oid_data \<noteq> length expected_oid then False
      else match_from oid_data expected_oid [0..<length oid_data])"

section \<open>Times\<close>

definition parse_2digits :: "u8 list \<Rightarrow> nat \<Rightarrow> nat" where
  "parse_2digits buffer i =
     nat (((uint (buffer ! i) - 48) * 10 + (uint (buffer ! (i + 1)) - 48)) mod 2 ^ 32)"

definition is_leap_year :: "nat \<Rightarrow> bool" where
  "is_leap_year year \<longleftrightarrow> (year mod 4 = 0 \<and> year mod 100 \<noteq> 0) \<or> year mod 400 = 0"

definition days_before_month :: "nat list" where
  "days_before_month = [0, 31, 59, 90, 120, 151, 181, 212, 243, 273, 304, 334]"

definition calendar_to_epoch_seconds :: "nat \<Rightarrow> nat \<Rightarrow> nat \<Rightarrow> nat \<Rightarrow> nat \<Rightarrow> nat \<Rightarrow> nat" where
  "calendar_to_epoch_seconds year month day hour mins sec =
     (if year < 1970 \<or> month < 1 \<or> month > 12 \<or> day < 1 \<or> day > 31 then 0
      else let days0 = fold (\<lambda>y days. add64 days (if is_leap_year y then 366 else 365)) [1970..<year] 0;
               days1 = add64 days0 (days_before_month ! (month - 1));
               days2 = (if month > 2 \<and> is_leap_year year then add64 days1 1 else days1);
               days = add64 days2 (day - 1)
           in add64 (add64 (add64 (mul64 days 86400) (mul64 hour 3600)) (mul64 mins 60)) sec)"

definition asn1_parse_time :: "u8 list \<Rightarrow> u8 \<Rightarrow> nat option" where
  "asn1_parse_time buffer tag =
     (if tag = ASN1_TAG_UTC_TIME
      then if length buffer < 11 then None
           else let yy = parse_2digits buffer 0;
                    year = (if yy \<ge> 50 then add32 1900 yy else 2000 + yy);
                    sec = (if length buffer \<ge> 13 \<and> buffer ! 10 \<ge> 48 \<and> buffer ! 10 \<le> 57
                           then parse_2digits buffer 10 else 0)
                in Some (calendar_to_epoch_seconds year (parse_2digits buffer 2) (parse_2digits buffer 4)
                           (parse_2digits buffer 6) (parse_2digits buffer 8) sec)
      else if tag = ASN1_TAG_GENERALIZED_TIME
      then if length buffer < 13 then None
           else let year = add32 (mul32 (parse_2digits buffer 0) 100) (parse_2digits buffer 2);
                    sec = (if length buffer \<ge> 15 \<and> buffer ! 12 \<ge> 48 \<and> buffer ! 12 \<le> 57
                           then parse_2digits buffer 12 else 0)
                in Some (calendar_to_epoch_seconds year (parse_2digits buffer 4) (parse_2digits buffer 6)
                           (parse_2digits buffer 8) (parse_2digits buffer 10) sec)
      else None)"

section \<open>DER encoding\<close>

text \<open>The minimal big-endian octets of a length, and the encoding of an element.\<close>

fun octets :: "nat \<Rightarrow> u8 list" where
  "octets n = (if n < 256 then [of_nat n] else octets (n div 256) @ [of_nat (n mod 256)])"

declare octets.simps [simp del]

definition der_length :: "nat \<Rightarrow> u8 list" where
  "der_length n = (if n < 128 then [of_nat n] else of_nat (128 + length (octets n)) # octets n)"

definition der :: "u8 \<Rightarrow> u8 list \<Rightarrow> u8 list" where
  "der tag contents = tag # der_length (length contents) @ contents"

text \<open>The number that octets denote.\<close>

fun octets_value :: "u8 list \<Rightarrow> nat" where
  "octets_value [] = 0"
| "octets_value (b # bs) = unat b * 256 ^ length bs + octets_value bs"

lemma octets_value_append: "octets_value (bs @ [b]) = octets_value bs * 256 + unat b"
  by (induction bs) (auto simp: algebra_simps)

lemma unat_u8: "unat (b :: u8) < 256"
  using unsigned_less [of b] by simp

lemma unat_of_nat_u8: "x < 256 \<Longrightarrow> unat (of_nat x :: u8) = x"
  by (simp add: unat_of_nat take_bit_eq_mod)

lemma octets_value_less: "octets_value bs < 256 ^ length bs"
proof (induction bs)
  case (Cons b bs)
  have "unat b * 256 ^ length bs + 256 ^ length bs = (unat b + 1) * 256 ^ length bs" by simp
  also have "\<dots> \<le> 256 * 256 ^ length bs" using unat_u8 [of b] by (intro mult_le_mono1) simp
  finally have "unat b * 256 ^ length bs + 256 ^ length bs \<le> 256 * 256 ^ length bs" .
  with Cons.IH show ?case by (simp only: octets_value.simps list.size power_Suc add_0_right add_Suc_right)
qed simp

lemma octets_value_octets: "octets_value (octets n) = n"
proof (induction n rule: octets.induct)
  case (1 n)
  have "unat (of_nat n :: u8) = n" if "n < 256" using that by (simp add: unat_of_nat take_bit_eq_mod)
  moreover have "unat (of_nat (n mod 256) :: u8) = n mod 256" by (simp add: unat_of_nat take_bit_eq_mod)
  ultimately show ?case using 1 by (subst octets.simps) (auto simp: octets_value_append)
qed

text \<open>Octets are minimal: the first is not zero, and they are determined by the value.\<close>

lemma octets_unique: "bs \<noteq> [] \<Longrightarrow> hd bs \<noteq> 0 \<Longrightarrow> octets (octets_value bs) = bs"
proof (induction bs rule: rev_induct)
  case (snoc b bs)
  have small: "unat b < 256" by (rule unat_u8)
  show ?case
  proof (cases "bs = []")
    case True
    then show ?thesis using small by (subst octets.simps) simp
  next
    case False
    then have h: "hd bs \<noteq> 0" using snoc.prems by simp
    have "octets_value bs > 0"
    proof (cases bs)
      case (Cons c cs)
      then have "unat c > 0" using h by (simp add: unat_gt_0)
      with Cons show ?thesis by simp
    qed (use False in simp)
    then have "\<not> octets_value (bs @ [b]) < 256" by (simp add: octets_value_append)
    moreover have "octets_value (bs @ [b]) div 256 = octets_value bs"
      "octets_value (bs @ [b]) mod 256 = unat b" using small by (simp_all add: octets_value_append)
    ultimately show ?thesis using snoc.IH [OF False h] by (subst octets.simps) simp
  qed
qed simp

lemma octets_head: "n > 0 \<Longrightarrow> octets n \<noteq> [] \<and> hd (octets n) \<noteq> 0"
proof (induction n rule: octets.induct)
  case (1 n)
  show ?case
  proof (cases "n < 256")
    case True
    then have "unat (of_nat n :: u8) = n" by (simp add: unat_of_nat take_bit_eq_mod)
    with 1 True show ?thesis by (subst octets.simps, subst octets.simps) auto
  next
    case False
    then have "octets (n div 256) \<noteq> []" "hd (octets (n div 256)) \<noteq> 0" using 1 by auto
    with False show ?thesis by (subst octets.simps, subst octets.simps) auto
  qed
qed

lemma octets_length: "0 < n \<Longrightarrow> n < 256 ^ k \<Longrightarrow> length (octets n) \<le> k"
proof (induction k arbitrary: n)
  case (Suc k)
  show ?case
  proof (cases "n < 256")
    case True
    then show ?thesis by (subst octets.simps) simp
  next
    case False
    then have "length (octets (n div 256)) \<le> k" using Suc by (intro Suc.IH) (auto simp: less_mult_imp_div_less)
    with False show ?thesis by (subst octets.simps) simp
  qed
qed simp

section \<open>The parser accepts DER\<close>

lemma length_form:
  fixes b :: u8
  shows "b AND 0x80 = 0 \<longleftrightarrow> unat b < 128" and "unat (b AND 0x7F) = unat b mod 128"
proof -
  have "b AND 2 ^ 7 = 0 \<longleftrightarrow> \<not> bit b 7" by (rule and_exp_eq_0_iff_not_bit)
  also have "bit b 7 \<longleftrightarrow> bit (unat b) 7" by (simp add: bit_unsigned_iff)
  also have "\<dots> \<longleftrightarrow> odd (unat b div 128)" by (simp add: bit_iff_odd)
  also have "\<dots> \<longleftrightarrow> \<not> unat b < 128"
  proof
    assume "\<not> unat b < 128"
    with unat_u8 [of b] have "unat b div 128 = 1" by (simp add: div_nat_eqI)
    then show "odd (unat b div 128)" by simp
  qed auto
  finally show "b AND 0x80 = 0 \<longleftrightarrow> unat b < 128" by simp
  have "b AND mask 7 = take_bit 7 b" by (simp add: take_bit_eq_mask)
  then have "unat (b AND mask 7) = unat b mod 128" by (simp add: take_bit_eq_mod unat_mod)
  then show "unat (b AND 0x7F) = unat b mod 128" by (simp add: mask_eq_exp_minus_1)
qed

lemma read_length_value:
  assumes "(l + 1) * 256 ^ k \<le> 2 ^ 32" and "p + k \<le> length buffer"
  shows "read_length buffer [p..<p + k] l = l * 256 ^ k + octets_value (take k (drop p buffer))"
  using assms
proof (induction k arbitrary: p l)
  case (Suc k)
  have up: "[p..<p + Suc k] = p # [Suc p..<Suc p + k]" by (simp add: upt_rec)
  let ?b = "buffer ! p"
  have tk: "take (Suc k) (drop p buffer) = ?b # take k (drop (Suc p) buffer)"
    using Suc.prems(2) by (simp add: Cons_nth_drop_Suc [symmetric])
  have "(l * 256 + 256) * 256 ^ k = (l + 1) * 256 ^ Suc k" by (simp add: algebra_simps)
  also have "\<dots> \<le> 2 ^ 32" by (rule Suc.prems(1))
  finally have b: "(l * 256 + 256) * 256 ^ k \<le> 2 ^ 32" .
  have "(l * 256 + 256) * 1 \<le> (l * 256 + 256) * 256 ^ k" by (intro mult_le_mono2) simp
  from order_trans [OF this b] have "mul32 l 256 = l * 256" by (simp add: mul32_def)
  moreover have "(l * 256 + unat ?b + 1) * 256 ^ k \<le> (l * 256 + 256) * 256 ^ k"
    using unat_u8 [of ?b] by (intro mult_le_mono1) simp
  with b have "(l * 256 + unat ?b + 1) * 256 ^ k \<le> 2 ^ 32" by (rule order_trans [rotated])
  then have "read_length buffer [Suc p..<Suc p + k] (l * 256 + unat ?b)
      = (l * 256 + unat ?b) * 256 ^ k + octets_value (take k (drop (Suc p) buffer))"
    using Suc.prems(2) by (intro Suc.IH) auto
  moreover have "length (take k (drop (Suc p) buffer)) = k" using Suc.prems(2) by simp
  ultimately show ?case unfolding up tk by (simp add: algebra_simps)
qed simp

definition der_element :: "u8 \<Rightarrow> u8 list \<Rightarrow> asn1_element" where
  "der_element tag contents = (let n = length contents; header = 1 + length (der_length n)
     in \<lparr>el_tag = tag, el_constructed = (tag AND 0x20 \<noteq> 0), el_data = header, el_length = n,
         el_header_length = header\<rparr>)"

lemma parse_length_der:
  assumes "n < 2 ^ 32" and "length rest \<ge> n"
  shows "parse_length (tag # der_length n @ rest) = Some (n, 1 + length (der_length n))"
proof (cases "n < 128")
  case True
  then have "unat (of_nat n :: u8) = n" by (simp add: unat_of_nat take_bit_eq_mod)
  with True length_form(1) [of "of_nat n"] show ?thesis by (simp add: parse_length_def der_length_def)
next
  case False
  let ?os = "octets n" and ?k = "length (octets n)"
  have h: "?os \<noteq> []" "hd ?os \<noteq> 0" using octets_head [of n] False by auto
  have k: "?k \<le> 4" using octets_length [of n 4] assms False by simp
  have u: "unat (of_nat (128 + ?k) :: u8) = 128 + ?k" by (rule unat_of_nat_u8) (use k in simp)
  let ?buf = "tag # der_length n @ rest"
  have buf: "?buf = tag # of_nat (128 + ?k) # ?os @ rest" using False by (simp add: der_length_def)
  have "read_length ?buf [2..<2 + ?k] 0 = 0 * 256 ^ ?k + octets_value (take ?k (drop 2 ?buf))"
  proof (rule read_length_value)
    have "(256 :: nat) ^ ?k \<le> 256 ^ 4" using k by (intro power_increasing) auto
    then show "(0 + 1) * 256 ^ ?k \<le> (2 :: nat) ^ 32" by simp
    show "2 + ?k \<le> length ?buf" unfolding buf by simp
  qed
  then have "read_length ?buf [2..<2 + ?k] 0 = n" unfolding buf by (simp add: octets_value_octets)
  moreover have "?buf ! 2 = hd ?os" unfolding buf using h(1) by (cases ?os) simp_all
  moreover have "?buf ! 1 = of_nat (128 + ?k)" unfolding buf by simp
  moreover have "length (der_length n) = Suc ?k" using False by (simp add: der_length_def)
  moreover have "length ?buf \<ge> 2 + ?k" unfolding buf by simp
  ultimately show ?thesis
    using False h k u length_form [of "of_nat (128 + ?k)"]
    by (simp add: parse_length_def Let_def add32_def)
qed

lemma parse_length_Some:
  assumes "parse_length buffer = Some (n, p)" and "2 \<le> length buffer" and "length buffer < 2 ^ 32"
  shows "n < 2 ^ 32 \<and> p = 1 + length (der_length n) \<and> take p buffer = buffer ! 0 # der_length n"
proof -
  obtain a b bs where buf: "buffer = a # b # bs"
    using assms(2) by (cases buffer; cases "tl buffer") auto
  show ?thesis
  proof (cases "unat b < 128")
    case True
    with assms(1) length_form(1) [of b] have "n = unat b" "p = 2" by (simp_all add: parse_length_def buf)
    with True show ?thesis by (simp add: buf der_length_def)
  next
    case False
    let ?k = "unat b mod 128"
    have b: "unat b = 128 + ?k" using False unat_u8 [of b] by (simp add: le_mod_geq)
    have L: "add32 2 ?k = 2 + ?k" by (simp add: add32_def)
    from assms(1) False length_form [of b] have P: "1 \<le> ?k" "?k \<le> 4" "2 + ?k \<le> length buffer"
        "buffer ! 2 \<noteq> 0" "n = read_length buffer [2..<2 + ?k] 0" "128 \<le> n" "p = 2 + ?k"
      by (auto simp: parse_length_def buf Let_def L split: if_splits)
    let ?os = "take ?k (drop 2 buffer)"
    have len: "length ?os = ?k" using P(3) by simp
    have pw: "(256 :: nat) ^ ?k \<le> 256 ^ 4" using P(2) by (intro power_increasing) auto
    have "n = 0 * 256 ^ ?k + octets_value ?os"
      unfolding P(5) by (rule read_length_value) (use pw P(3) in auto)
    then have n: "n = octets_value ?os" by simp
    have "n < 256 ^ ?k" using octets_value_less [of ?os] len unfolding n by simp
    with pw have small: "n < 2 ^ 32" by simp
    have ne: "?os \<noteq> []" using len P(1) by auto
    have "hd ?os = buffer ! 2" using P(1,3) by (simp add: hd_drop_conv_nth hd_take)
    with octets_unique [OF ne] P(4) n have os: "octets n = ?os" by simp
    have "of_nat (128 + ?k) = b" using b by (metis of_nat_unat ucast_id)
    then have "der_length n = b # ?os" using P(6) os len by (simp add: der_length_def)
    with small P(7) len show ?thesis by (simp add: buf)
  qed
qed

text \<open>As long as the end of the element is computed without overflow, the parser accepts exactly the
  buffers that start with a DER element, and returns that element.\<close>

lemma parse_element_der:
  assumes "length (der tag contents @ rest) < 2 ^ 32"
  shows "asn1_parse_element (der tag contents @ rest) = Some (der_element tag contents)"
proof -
  let ?n = "length contents"
  have "der tag contents @ rest = tag # der_length ?n @ (contents @ rest)" by (simp add: der_def)
  moreover have "parse_length (tag # der_length ?n @ (contents @ rest)) = Some (?n, 1 + length (der_length ?n))"
    by (rule parse_length_der) (use assms in \<open>simp_all add: der_def\<close>)
  moreover have "der_length ?n \<noteq> []" by (simp add: der_length_def)
  moreover have "add32 (1 + length (der_length ?n)) ?n = 1 + length (der_length ?n) + ?n"
    using assms by (simp add: add32_def der_def)
  ultimately show ?thesis
    by (cases "der_length ?n") (auto simp: asn1_parse_element_def der_element_def Let_def)
qed

lemma parse_element_is_der:
  assumes "asn1_parse_element buffer = Some e" and "length buffer < 2 ^ 32"
    and "el_header_length e + el_length e < 2 ^ 32"
  shows "\<exists>tag contents rest. buffer = der tag contents @ rest \<and> e = der_element tag contents"
proof -
  from assms(1) obtain n p where np: "parse_length buffer = Some (n, p)" "2 \<le> length buffer"
      "add32 p n \<le> length buffer" "e = \<lparr>el_tag = buffer ! 0, el_constructed = (buffer ! 0 AND 0x20 \<noteq> 0),
        el_data = p, el_length = n, el_header_length = p\<rparr>"
    by (auto simp: asn1_parse_element_def split: if_splits option.splits)
  with assms(3) have fits: "p + n \<le> length buffer" by (simp add: add32_def)
  from parse_length_Some [OF np(1,2) assms(2)] have p: "p = 1 + length (der_length n)"
      "take p buffer = buffer ! 0 # der_length n" by auto
  let ?c = "take n (drop p buffer)" and ?r = "drop (p + n) buffer"
  have "buffer = take p buffer @ ?c @ ?r"
    by (metis append_take_drop_id drop_drop add.commute)
  moreover have "length ?c = n" using fits by simp
  ultimately have "buffer = der (buffer ! 0) ?c @ ?r" using p(2) by (simp add: der_def)
  moreover have "e = der_element (buffer ! 0) ?c"
    using np(4) p(1) \<open>length ?c = n\<close> by (simp add: der_element_def Let_def)
  ultimately show ?thesis by blast
qed

section \<open>The calendar\<close>

text \<open>The Gregorian calendar, stated on its own: a century year is a leap year when 400 divides it, any
  other year when 4 does.\<close>

definition gregorian_leap :: "nat \<Rightarrow> bool" where
  "gregorian_leap year = (if 100 dvd year then 400 dvd year else 4 dvd year)"

fun month_days :: "nat \<Rightarrow> nat \<Rightarrow> nat" where
  "month_days year month = (if month = 2 then if gregorian_leap year then 29 else 28
     else if month \<in> {4, 6, 9, 11} then 30 else 31)"

definition valid_date :: "nat \<Rightarrow> nat \<Rightarrow> nat \<Rightarrow> bool" where
  "valid_date year month day \<longleftrightarrow> 1970 \<le> year \<and> 1 \<le> month \<and> month \<le> 12 \<and> 1 \<le> day \<and> day \<le> month_days year month"

fun next_date :: "nat \<times> nat \<times> nat \<Rightarrow> nat \<times> nat \<times> nat" where
  "next_date (year, month, day) =
     (if day < month_days year month then (year, month, day + 1)
      else if month < 12 then (year, month + 1, 1) else (year + 1, 1, 1))"

text \<open>The test of the code is the Gregorian one.\<close>

lemma is_leap_year_gregorian: "is_leap_year year \<longleftrightarrow> gregorian_leap year"
proof -
  have "4 dvd year" if "400 dvd year" using that by (rule dvd_trans [rotated]) simp
  moreover have "100 dvd year" if "400 dvd year" using that by (rule dvd_trans [rotated]) simp
  ultimately show ?thesis
    unfolding is_leap_year_def gregorian_leap_def dvd_eq_mod_eq_0 [symmetric] by simp blast
qed

text \<open>Days since the epoch, without the wrap-around of the code.\<close>

definition year_days :: "nat \<Rightarrow> nat" where
  "year_days year = fold (\<lambda>y days. days + (if is_leap_year y then 366 else 365)) [1970..<year] 0"

definition epoch_days :: "nat \<Rightarrow> nat \<Rightarrow> nat \<Rightarrow> nat" where
  "epoch_days year month day = year_days year + days_before_month ! (month - 1)
     + (if month > 2 \<and> is_leap_year year then 1 else 0) + (day - 1)"

lemma year_days_Suc: "1970 \<le> year \<Longrightarrow> year_days (Suc year) = year_days year + (if is_leap_year year then 366 else 365)"
  by (simp add: year_days_def)

lemma year_days_le: "year_days year \<le> 366 * year"
proof (cases "1970 \<le> year")
  case True
  then show ?thesis
  proof (induction year rule: dec_induct)
    case base
    then show ?case by (simp add: year_days_def)
  next
    case (step n)
    then show ?case by (simp add: year_days_Suc)
  qed
qed (simp add: year_days_def)

lemma year_days_fold:
  assumes "year < 2 ^ 32"
  shows "fold (\<lambda>y days. add64 days (if is_leap_year y then 366 else 365)) [1970..<year] 0 = year_days year"
proof (cases "1970 \<le> year")
  case True
  then show ?thesis using assms
  proof (induction year rule: dec_induct)
    case base
    then show ?case by (simp add: year_days_def)
  next
    case (step n)
    then have "fold (\<lambda>y days. add64 days (if is_leap_year y then 366 else 365)) [1970..<Suc n] 0
        = add64 (year_days n) (if is_leap_year n then 366 else 365)" by simp
    also have "\<dots> = year_days n + (if is_leap_year n then 366 else 365)"
      using year_days_le [of n] step by (intro add64_exact) auto
    finally show ?case using step by (simp add: year_days_Suc)
  qed
qed (simp add: year_days_def)

lemma month_cases: "1 \<le> m \<Longrightarrow> m \<le> 12 \<Longrightarrow> m \<in> {1, 2, 3, 4, 5, 6, 7, 8, 9, 10, 11, 12}" for m :: nat
  by (auto simp: numeral_eq_Suc le_Suc_eq)

lemma days_before_month_le: "1 \<le> m \<Longrightarrow> m \<le> 12 \<Longrightarrow> days_before_month ! (m - 1) \<le> 334"
  by (drule (1) month_cases) (auto simp: days_before_month_def)

lemma epoch_seconds_eq:
  assumes "1970 \<le> year" "year < 2 ^ 32" "1 \<le> month" "month \<le> 12" "1 \<le> day" "day \<le> 31"
    and "hour < 2 ^ 32" "mins < 2 ^ 32" "sec < 2 ^ 32"
  shows "calendar_to_epoch_seconds year month day hour mins sec
    = epoch_days year month day * 86400 + hour * 3600 + mins * 60 + sec"
proof -
  have y: "year_days year \<le> 366 * 2 ^ 32" using year_days_le [of year] assms(2) by simp
  note m = days_before_month_le [OF assms(3,4)]
  have d: "epoch_days year month day \<le> 366 * 2 ^ 32 + 400"
    using y m assms(6) by (auto simp: epoch_days_def)
  have D: "add64 (if month > 2 \<and> is_leap_year year
        then add64 (add64 (year_days year) (days_before_month ! (month - 1))) 1
        else add64 (year_days year) (days_before_month ! (month - 1))) (day - 1) = epoch_days year month day"
    using y m assms(6) by (simp add: epoch_days_def add64_exact)
  have g: "\<not> (year < 1970 \<or> month < 1 \<or> month > 12 \<or> day < 1 \<or> day > 31)" using assms by auto
  have "calendar_to_epoch_seconds year month day hour mins sec
      = add64 (add64 (add64 (mul64 (epoch_days year month day) 86400) (mul64 hour 3600)) (mul64 mins 60)) sec"
    unfolding calendar_to_epoch_seconds_def Let_def year_days_fold [OF assms(2)] D using g by (simp only: if_False)
  also have "\<dots> = epoch_days year month day * 86400 + hour * 3600 + mins * 60 + sec"
    using d assms(7-9) by (simp add: mul64_exact add64_exact)
  finally show ?thesis .
qed

text \<open>The table of days before a month and the lengths of the months agree.\<close>

definition month_start :: "nat \<Rightarrow> nat \<Rightarrow> nat" where
  "month_start year month = days_before_month ! (month - 1) + (if month > 2 \<and> is_leap_year year then 1 else 0)"

lemma month_start_next:
  assumes "1 \<le> month" and "month < 12"
  shows "month_start year (month + 1) = month_start year month + month_days year month"
proof -
  have "month \<in> {1, 2, 3, 4, 5, 6, 7, 8, 9, 10, 11, 12}" using assms by (intro month_cases) auto
  with assms(2) show ?thesis
    by (elim insertE emptyE) (simp_all add: month_start_def days_before_month_def is_leap_year_gregorian)
qed

lemma month_start_end: "month_start year 12 + 31 = (if is_leap_year year then 366 else 365)"
  by (simp add: month_start_def days_before_month_def)

lemma month_start_first: "month_start year 1 = 0"
  by (simp add: month_start_def days_before_month_def)

lemma epoch_days_start: "epoch_days year month day = year_days year + month_start year month + (day - 1)"
  by (simp add: epoch_days_def month_start_def)

lemma month_days_pos: "1 \<le> month_days year month"
  by simp

lemma epoch_days_next:
  assumes "valid_date year month day" and "next_date (year, month, day) = (year', month', day')"
  shows "epoch_days year' month' day' = epoch_days year month day + 1 \<and> valid_date year' month' day'"
proof -
  note v = assms(1) [unfolded valid_date_def]
  consider (in_month) "day < month_days year month" | (month_end) "day = month_days year month" "month < 12"
    | (year_end) "day = month_days year month" "month = 12"
    using v by linarith
  then show ?thesis
  proof cases
    case in_month
    with assms(2) v show ?thesis unfolding epoch_days_start valid_date_def by (simp del: month_days.simps) auto
  next
    case month_end
    have "1 \<le> month" "1 \<le> day" "1970 \<le> year" using v by auto
    with month_end assms(2) month_start_next [of month year] month_days_pos [of year "month + 1"]
    show ?thesis unfolding epoch_days_start valid_date_def by (auto simp del: month_days.simps)
  next
    case year_end
    have "day = 31" "1970 \<le> year" using v year_end by auto
    with year_end assms(2) month_start_end [of year] month_start_first [of "Suc year"] month_days_pos [of "Suc year" 1]
    show ?thesis unfolding epoch_days_start valid_date_def by (auto simp: year_days_Suc simp del: month_days.simps)
  qed
qed

section \<open>Properties\<close>

text \<open>C18. Round trip: every DER element whose total size fits in 32 bits is parsed, from the front of any
  buffer, to exactly its tag, its constructed flag, its contents' position and its length.\<close>

theorem asn1_parse_der:
  assumes "length (der tag contents @ rest) < 2 ^ 32"
  shows "\<exists>e. asn1_parse_element (der tag contents @ rest) = Some e \<and> el_tag e = tag
    \<and> el_constructed e = (tag AND 0x20 \<noteq> 0) \<and> el_header_length e + el_length e = length (der tag contents)
    \<and> take (el_length e) (drop (el_data e) (der tag contents @ rest)) = contents"
  using parse_element_der [OF assms] by (simp add: der_element_def der_def Let_def)

theorem asn1_parse_der_witness:
  "\<exists>e. asn1_parse_element (der 0x30 [1, 2, 3] @ [9]) = Some e \<and> el_tag e = 0x30"
  using asn1_parse_der [of "0x30" "[1, 2, 3]" "[9]"] by (auto simp: der_def der_length_def)

text \<open>C19. The parser accepts nothing but DER, as long as the end of the element does not wrap around in 32
  bits: an accepted buffer starts with the minimal encoding of the element returned, which lies inside
  the buffer. The identifier of an element is one octet here, as in the code: identifiers of more
  octets are not part of the format.\<close>

theorem asn1_parse_only_der:
  assumes "asn1_parse_element buffer = Some e" and "length buffer < 2 ^ 32"
    and "el_header_length e + el_length e < 2 ^ 32"
  shows "el_data e + el_length e \<le> length buffer
    \<and> (\<exists>contents rest. buffer = der (el_tag e) contents @ rest \<and> length contents = el_length e)"
proof -
  from parse_element_is_der [OF assms] obtain tag contents rest where
    "buffer = der tag contents @ rest" "e = der_element tag contents" by blast
  then show ?thesis by (auto simp: der_element_def der_def Let_def)
qed

theorem asn1_parse_only_der_witness:
  "\<exists>e. asn1_parse_element [0x02, 0x01, 0x05] = Some e \<and> el_data e + el_length e \<le> 3"
proof -
  have p: "asn1_parse_element [0x02, 0x01, 0x05] = Some \<lparr>el_tag = 0x02, el_constructed = False, el_data = 2,
      el_length = 1, el_header_length = 2\<rparr>"
    by (simp add: asn1_parse_element_def parse_length_def add32_def)
  from asn1_parse_only_der [OF p] p show ?thesis by simp
qed

text \<open>C20. The bounds check can be passed by an element that does not fit: the sum of header and length is
  computed in 32 bits, so a 6-byte buffer is accepted as an element with 4294967295 bytes of contents.\<close>

theorem asn1_length_wraps:
  "\<exists>buffer e. length buffer = 6 \<and> asn1_parse_element buffer = Some e \<and> el_length e = 2 ^ 32 - 1
    \<and> length buffer < el_data e + el_length e"
proof -
  have "asn1_parse_element [0x04, 0x84, 0xFF, 0xFF, 0xFF, 0xFF] = Some \<lparr>el_tag = 0x04, el_constructed = False,
      el_data = 6, el_length = 4294967295, el_header_length = 6\<rparr>"
    by (simp add: asn1_parse_element_def parse_length_def add32_def mul32_def upt_rec)
  then show ?thesis by (intro exI [of _ "[0x04, 0x84, 0xFF, 0xFF, 0xFF, 0xFF]"]) simp
qed

text \<open>C21. Epoch seconds count the days of the Gregorian calendar: the epoch itself is 0, the day after a
  valid date is 86400 seconds later, across month ends, leap days (century years included) and year
  ends, and within a day the time adds up.\<close>

theorem calendar_to_epoch_seconds_correct:
  assumes "valid_date year month day" and "year < 2 ^ 32 - 1"
    and "next_date (year, month, day) = (year', month', day')"
    and "hour < 2 ^ 32" "mins < 2 ^ 32" "sec < 2 ^ 32"
  shows "calendar_to_epoch_seconds 1970 1 1 0 0 0 = 0
    \<and> calendar_to_epoch_seconds year' month' day' 0 0 0 = calendar_to_epoch_seconds year month day 0 0 0 + 86400
    \<and> calendar_to_epoch_seconds year month day hour mins sec
        = calendar_to_epoch_seconds year month day 0 0 0 + hour * 3600 + mins * 60 + sec"
proof -
  have v: "1970 \<le> y \<and> 1 \<le> m \<and> m \<le> 12 \<and> 1 \<le> d \<and> d \<le> 31" if "valid_date y m d" for y m d
    using that by (auto simp: valid_date_def split: if_splits)
  have n: "epoch_days year' month' day' = epoch_days year month day + 1" "valid_date year' month' day'"
    using epoch_days_next [OF assms(1,3)] by auto
  have "year' < 2 ^ 32" using assms(2,3) by (auto split: if_splits)
  then have "calendar_to_epoch_seconds year' month' day' 0 0 0 = epoch_days year' month' day' * 86400"
    using epoch_seconds_eq [of year' month' day' 0 0 0] v [OF n(2)] by simp
  moreover have "calendar_to_epoch_seconds year month day 0 0 0 = epoch_days year month day * 86400"
    using epoch_seconds_eq [of year month day 0 0 0] v [OF assms(1)] assms(2) by simp
  moreover have "calendar_to_epoch_seconds 1970 1 1 0 0 0 = 0"
    using epoch_seconds_eq [of 1970 1 1 0 0 0] by (simp add: epoch_days_def year_days_def days_before_month_def)
  ultimately show ?thesis
    using epoch_seconds_eq [of year month day hour mins sec] v [OF assms(1)] assms(2,4-6) n(1) by simp
qed

theorem calendar_to_epoch_seconds_correct_witness:
  "calendar_to_epoch_seconds 2024 3 1 0 0 0 = calendar_to_epoch_seconds 2024 2 29 0 0 0 + 86400"
  using calendar_to_epoch_seconds_correct [of 2024 2 29 2024 3 1 0 0 0]
  by (simp add: valid_date_def gregorian_leap_def)

end
