(* ===== verification/KOS_Sha2.thy ===== *)
theory KOS_Sha2
  imports KOS_Prelude
begin

text \<open>
  Hash functions of \<open>src/lib/crypto.c\<close>: SHA-256, SHA-384, HMAC and HKDF. Both hashes buffer their input
  and compress full blocks; the buffering loops have the same text with different block sizes, so they
  are one definition with the block size and the compression function as arguments. The reference is
  the one-shot definition: pad the whole message, split it into blocks and fold the compression
  function. The locale \<open>block_hash\<close> proves once that the buffered computation is the reference, for any
  splitting of the message into updates.
\<close>

section \<open>Words and bytes\<close>

definition ror32 :: "u32 \<Rightarrow> nat \<Rightarrow> u32" where
  "ror32 v count = drop_bit count v OR push_bit (32 - count) v"

definition ror64 :: "u64 \<Rightarrow> nat \<Rightarrow> u64" where
  "ror64 v count = drop_bit count v OR push_bit (64 - count) v"

definition read_u32_be :: "u8 list \<Rightarrow> nat \<Rightarrow> u32" where
  "read_u32_be data p = push_bit 24 (ucast (data ! p)) OR push_bit 16 (ucast (data ! (p + 1)))
     OR push_bit 8 (ucast (data ! (p + 2))) OR ucast (data ! (p + 3))"

definition write_u32_be :: "u32 \<Rightarrow> u8 list" where
  "write_u32_be v = [ucast (drop_bit 24 v), ucast (drop_bit 16 v), ucast (drop_bit 8 v), ucast v]"

definition read_u64_be :: "u8 list \<Rightarrow> nat \<Rightarrow> u64" where
  "read_u64_be data p = push_bit 56 (ucast (data ! p)) OR push_bit 48 (ucast (data ! (p + 1)))
     OR push_bit 40 (ucast (data ! (p + 2))) OR push_bit 32 (ucast (data ! (p + 3)))
     OR push_bit 24 (ucast (data ! (p + 4))) OR push_bit 16 (ucast (data ! (p + 5)))
     OR push_bit 8 (ucast (data ! (p + 6))) OR ucast (data ! (p + 7))"

definition write_u64_be :: "u64 \<Rightarrow> u8 list" where
  "write_u64_be v = map (\<lambda>i. ucast (drop_bit (56 - i * 8) v)) [0..<8]"

section \<open>Buffering\<close>

type_synonym 's hash_state = "'s \<times> u8 list \<times> nat"

definition buffer_copy :: "nat \<Rightarrow> nat \<Rightarrow> u8 list \<Rightarrow> u8 list \<Rightarrow> u8 list" where
  "buffer_copy n amount data buf = fold (\<lambda>i b. b[n + i := data ! i]) [0..<amount] buf"

text \<open>The loop of the update functions. \<open>buffer_size\<close> never exceeds the block size; for a larger one, with
  which the code would write outside its buffer, the definition stops.\<close>

function hash_absorb :: "nat \<Rightarrow> ('s \<Rightarrow> u8 list \<Rightarrow> 's) \<Rightarrow> 's hash_state \<Rightarrow> u8 list \<Rightarrow> 's hash_state" where
  "hash_absorb B f (st, buf, n) data =
     (if data = [] \<or> B < n \<or> B = 0 then (st, buf, n)
      else let amount = min (B - n) (length data);
               buf' = buffer_copy n amount data buf;
               n' = n + amount
           in if n' = B then hash_absorb B f (f st buf', buf', 0) (drop amount data)
              else hash_absorb B f (st, buf', n') (drop amount data))"
  by pat_completeness auto
termination
  by (relation "measure (\<lambda>(B, f, (st, buf, n), data). 2 * length data + (if n = B then 1 else 0))")
    (auto simp: min_def)

text \<open>The loop of the finalize functions: zero bytes up to position \<open>P\<close>, compressing a full block on the
  way. The stop conditions other than the first never hold.\<close>

function hash_pad :: "nat \<Rightarrow> nat \<Rightarrow> ('s \<Rightarrow> u8 list \<Rightarrow> 's) \<Rightarrow> 's hash_state \<Rightarrow> 's hash_state" where
  "hash_pad B P f (st, buf, n) =
     (if n = P \<or> B < n \<or> B \<le> P \<or> P = 0 then (st, buf, n)
      else let (st1, n1) = (if n = B then (f st buf, 0) else (st, n))
           in hash_pad B P f (st1, buf[n1 := 0], n1 + 1))"
  by pat_completeness auto
termination
  by (relation "measure (\<lambda>(B, P, f, st, buf, n). if n \<le> P then P - n else P + B + 1 - n)")
    (auto split: if_splits)

declare hash_absorb.simps [simp del] hash_pad.simps [simp del]

section \<open>SHA-256\<close>

record kos_sha256_context =
  s256_state :: "u32 list"
  s256_bit_count :: u64
  s256_buffer :: "u8 list"
  s256_buffer_size :: nat

text \<open>The round constants, row by row as the source lists them.\<close>

definition sha256_k :: "u32 list" where
  "sha256_k = concat [
    [0x428a2f98, 0x71374491, 0xb5c0fbcf, 0xe9b5dba5, 0x3956c25b, 0x59f111f1],
    [0x923f82a4, 0xab1c5ed5, 0xd807aa98, 0x12835b01, 0x243185be, 0x550c7dc3],
    [0x72be5d74, 0x80deb1fe, 0x9bdc06a7, 0xc19bf174, 0xe49b69c1, 0xefbe4786],
    [0x0fc19dc6, 0x240ca1cc, 0x2de92c6f, 0x4a7484aa, 0x5cb0a9dc, 0x76f988da],
    [0x983e5152, 0xa831c66d, 0xb00327c8, 0xbf597fc7, 0xc6e00bf3, 0xd5a79147],
    [0x06ca6351, 0x14292967, 0x27b70a85, 0x2e1b2138, 0x4d2c6dfc, 0x53380d13],
    [0x650a7354, 0x766a0abb, 0x81c2c92e, 0x92722c85, 0xa2bfe8a1, 0xa81a664b],
    [0xc24b8b70, 0xc76c51a3, 0xd192e819, 0xd6990624, 0xf40e3585, 0x106aa070],
    [0x19a4c116, 0x1e376c08, 0x2748774c, 0x34b0bcb5, 0x391c0cb3, 0x4ed8aa4a],
    [0x5b9cca4f, 0x682e6ff3, 0x748f82ee, 0x78a5636f, 0x84c87814, 0x8cc70208],
    [0x90befffa, 0xa4506ceb, 0xbef9a3f7, 0xc67178f2]]"

definition sha256_schedule_step :: "nat \<Rightarrow> u32 list \<Rightarrow> u32 list" where
  "sha256_schedule_step i w =
     (let s0 = ror32 (w ! (i - 15)) 7 XOR ror32 (w ! (i - 15)) 18 XOR drop_bit 3 (w ! (i - 15));
          s1 = ror32 (w ! (i - 2)) 17 XOR ror32 (w ! (i - 2)) 19 XOR drop_bit 10 (w ! (i - 2))
      in w @ [w ! (i - 16) + s0 + w ! (i - 7) + s1])"

definition sha256_schedule :: "u8 list \<Rightarrow> u32 list" where
  "sha256_schedule block = fold sha256_schedule_step [16..<64] (map (\<lambda>i. read_u32_be block (i * 4)) [0..<16])"

fun sha256_round :: "u32 list \<Rightarrow> nat \<Rightarrow> u32 list \<Rightarrow> u32 list" where
  "sha256_round w i [a, b, c, d, e, f, g, h] =
     (let s1 = ror32 e 6 XOR ror32 e 11 XOR ror32 e 25;
          ch = (e AND f) XOR (NOT e AND g);
          t1 = h + s1 + ch + sha256_k ! i + w ! i;
          s0 = ror32 a 2 XOR ror32 a 13 XOR ror32 a 22;
          maj = (a AND b) XOR (a AND c) XOR (b AND c);
          t2 = s0 + maj
      in [t1 + t2, a, b, c, d + t1, e, f, g])"
| "sha256_round w i xs = xs"

definition sha256_transform :: "u32 list \<Rightarrow> u8 list \<Rightarrow> u32 list" where
  "sha256_transform state block = map2 (+) state (fold (sha256_round (sha256_schedule block)) [0..<64] state)"

definition kos_sha256_initialize :: kos_sha256_context where
  "kos_sha256_initialize = \<lparr>s256_state = [0x6a09e667, 0xbb67ae85, 0x3c6ef372, 0xa54ff53a,
     0x510e527f, 0x9b05688c, 0x1f83d9ab, 0x5be0cd19], s256_bit_count = 0, s256_buffer = replicate 64 0,
     s256_buffer_size = 0\<rparr>"

definition kos_sha256_update :: "kos_sha256_context \<Rightarrow> u8 list \<Rightarrow> kos_sha256_context" where
  "kos_sha256_update ctx data =
     (let (st, buf, n) = hash_absorb 64 sha256_transform
            (s256_state ctx, s256_buffer ctx, s256_buffer_size ctx) data
      in \<lparr>s256_state = st, s256_bit_count = s256_bit_count ctx + of_nat (length data) * 8,
          s256_buffer = buf, s256_buffer_size = n\<rparr>)"

definition store_bit_length :: "u64 \<Rightarrow> u8 list \<Rightarrow> u8 list" where
  "store_bit_length bits buf = fold (\<lambda>i b. b[56 + i := ucast (drop_bit (56 - i * 8) bits)]) [0..<8] buf"

definition kos_sha256_finalize :: "kos_sha256_context \<Rightarrow> u8 list" where
  "kos_sha256_finalize ctx =
     (let original_bits = s256_bit_count ctx;
          n = s256_buffer_size ctx;
          (st, buf, _) = hash_pad 64 56 sha256_transform (s256_state ctx, (s256_buffer ctx)[n := 0x80], n + 1)
      in concat (map write_u32_be (sha256_transform st (store_bit_length original_bits buf))))"

definition kos_sha256 :: "u8 list \<Rightarrow> u8 list" where
  "kos_sha256 data = kos_sha256_finalize (kos_sha256_update kos_sha256_initialize data)"

section \<open>SHA-384\<close>

record kos_sha384_context =
  s384_state :: "u64 list"
  s384_bit_count_high :: u64
  s384_bit_count_low :: u64
  s384_buffer :: "u8 list"
  s384_buffer_size :: nat

definition sha384_k :: "u64 list" where
  "sha384_k = concat [
    [0x428a2f98d728ae22, 0x7137449123ef65cd, 0xb5c0fbcfec4d3b2f, 0xe9b5dba58189dbbc],
    [0x3956c25bf348b538, 0x59f111f1b605d019, 0x923f82a4af194f9b, 0xab1c5ed5da6d8118],
    [0xd807aa98a3030242, 0x12835b0145706fbe, 0x243185be4ee4b28c, 0x550c7dc3d5ffb4e2],
    [0x72be5d74f27b896f, 0x80deb1fe3b1696b1, 0x9bdc06a725c71235, 0xc19bf174cf692694],
    [0xe49b69c19ef14ad2, 0xefbe4786384f25e3, 0x0fc19dc68b8cd5b5, 0x240ca1cc77ac9c65],
    [0x2de92c6f592b0275, 0x4a7484aa6ea6e483, 0x5cb0a9dcbd41fbd4, 0x76f988da831153b5],
    [0x983e5152ee66dfab, 0xa831c66d2db43210, 0xb00327c898fb213f, 0xbf597fc7beef0ee4],
    [0xc6e00bf33da88fc2, 0xd5a79147930aa725, 0x06ca6351e003826f, 0x142929670a0e6e70],
    [0x27b70a8546d22ffc, 0x2e1b21385c26c926, 0x4d2c6dfc5ac42aed, 0x53380d139d95b3df],
    [0x650a73548baf63de, 0x766a0abb3c77b2a8, 0x81c2c92e47edaee6, 0x92722c851482353b],
    [0xa2bfe8a14cf10364, 0xa81a664bbc423001, 0xc24b8b70d0f89791, 0xc76c51a30654be30],
    [0xd192e819d6ef5218, 0xd69906245565a910, 0xf40e35855771202a, 0x106aa07032bbd1b8],
    [0x19a4c116b8d2d0c8, 0x1e376c085141ab53, 0x2748774cdf8eeb99, 0x34b0bcb5e19b48a8],
    [0x391c0cb3c5c95a63, 0x4ed8aa4ae3418acb, 0x5b9cca4f7763e373, 0x682e6ff3d6b2b8a3],
    [0x748f82ee5defb2fc, 0x78a5636f43172f60, 0x84c87814a1f0ab72, 0x8cc702081a6439ec],
    [0x90befffa23631e28, 0xa4506cebde82bde9, 0xbef9a3f7b2c67915, 0xc67178f2e372532b],
    [0xca273eceea26619c, 0xd186b8c721c0c207, 0xeada7dd6cde0eb1e, 0xf57d4f7fee6ed178],
    [0x06f067aa72176fba, 0x0a637dc5a2c898a6, 0x113f9804bef90dae, 0x1b710b35131c471b],
    [0x28db77f523047d84, 0x32caab7b40c72493, 0x3c9ebe0a15c9bebc, 0x431d67c49c100d4c],
    [0x4cc5d4becb3e42b6, 0x597f299cfc657e2a, 0x5fcb6fab3ad6faec, 0x6c44198c4a475817]]"

definition sha384_schedule_step :: "nat \<Rightarrow> u64 list \<Rightarrow> u64 list" where
  "sha384_schedule_step i w =
     (let s0 = ror64 (w ! (i - 15)) 1 XOR ror64 (w ! (i - 15)) 8 XOR drop_bit 7 (w ! (i - 15));
          s1 = ror64 (w ! (i - 2)) 19 XOR ror64 (w ! (i - 2)) 61 XOR drop_bit 6 (w ! (i - 2))
      in w @ [w ! (i - 16) + s0 + w ! (i - 7) + s1])"

definition sha384_schedule :: "u8 list \<Rightarrow> u64 list" where
  "sha384_schedule block = fold sha384_schedule_step [16..<80] (map (\<lambda>i. read_u64_be block (i * 8)) [0..<16])"

fun sha384_round :: "u64 list \<Rightarrow> nat \<Rightarrow> u64 list \<Rightarrow> u64 list" where
  "sha384_round w i [a, b, c, d, e, f, g, h] =
     (let s1 = ror64 e 14 XOR ror64 e 18 XOR ror64 e 41;
          ch = (e AND f) XOR (NOT e AND g);
          t1 = h + s1 + ch + sha384_k ! i + w ! i;
          s0 = ror64 a 28 XOR ror64 a 34 XOR ror64 a 39;
          maj = (a AND b) XOR (a AND c) XOR (b AND c);
          t2 = s0 + maj
      in [t1 + t2, a, b, c, d + t1, e, f, g])"
| "sha384_round w i xs = xs"

definition sha384_transform :: "u64 list \<Rightarrow> u8 list \<Rightarrow> u64 list" where
  "sha384_transform state block = map2 (+) state (fold (sha384_round (sha384_schedule block)) [0..<80] state)"

definition kos_sha384_initialize :: kos_sha384_context where
  "kos_sha384_initialize = \<lparr>s384_state = [0xcbbb9d5dc1059ed8, 0x629a292a367cd507, 0x9159015a3070dd17,
     0x152fecd8f70e5939, 0x67332667ffc00b31, 0x8eb44a8768581511, 0xdb0c2e0d64f98fa7, 0x47b5481dbefa4fa4],
     s384_bit_count_high = 0, s384_bit_count_low = 0, s384_buffer = replicate 128 0, s384_buffer_size = 0\<rparr>"

definition kos_sha384_update :: "kos_sha384_context \<Rightarrow> u8 list \<Rightarrow> kos_sha384_context" where
  "kos_sha384_update ctx data =
     (let add_bits = of_nat (length data) * 8;
          low = s384_bit_count_low ctx + add_bits;
          high = (if low < add_bits then s384_bit_count_high ctx + 1 else s384_bit_count_high ctx);
          (st, buf, n) = hash_absorb 128 sha384_transform
            (s384_state ctx, s384_buffer ctx, s384_buffer_size ctx) data
      in \<lparr>s384_state = st, s384_bit_count_high = high, s384_bit_count_low = low,
          s384_buffer = buf, s384_buffer_size = n\<rparr>)"

definition kos_sha384_finalize :: "kos_sha384_context \<Rightarrow> u8 list" where
  "kos_sha384_finalize ctx =
     (let n = s384_buffer_size ctx;
          (st, buf, _) = hash_pad 128 112 sha384_transform (s384_state ctx, (s384_buffer ctx)[n := 0x80], n + 1);
          buf' = take 112 buf @ write_u64_be (s384_bit_count_high ctx) @ write_u64_be (s384_bit_count_low ctx)
      in concat (map write_u64_be (take 6 (sha384_transform st buf'))))"

definition kos_sha384 :: "u8 list \<Rightarrow> u8 list" where
  "kos_sha384 data = kos_sha384_finalize (kos_sha384_update kos_sha384_initialize data)"

section \<open>HMAC and HKDF\<close>

definition key_block :: "nat \<Rightarrow> (u8 list \<Rightarrow> u8 list) \<Rightarrow> u8 list \<Rightarrow> u8 list" where
  "key_block B hash key =
     (if length key > B then hash key @ replicate (B - length (hash key)) 0
      else key @ replicate (B - length key) 0)"

definition kos_hmac_sha256 :: "u8 list \<Rightarrow> u8 list \<Rightarrow> u8 list" where
  "kos_hmac_sha256 key data =
     (let k = key_block 64 kos_sha256 key;
          inner = map (\<lambda>b. b XOR 0x36) k;
          outer = map (\<lambda>b. b XOR 0x5c) k;
          inner_digest = kos_sha256_finalize (kos_sha256_update
            (kos_sha256_update kos_sha256_initialize inner) data)
      in kos_sha256_finalize (kos_sha256_update (kos_sha256_update kos_sha256_initialize outer) inner_digest))"

definition kos_hmac_sha384 :: "u8 list \<Rightarrow> u8 list \<Rightarrow> u8 list" where
  "kos_hmac_sha384 key data =
     (let k = key_block 128 kos_sha384 key;
          inner = map (\<lambda>b. b XOR 0x36) k;
          outer = map (\<lambda>b. b XOR 0x5c) k;
          inner_digest = kos_sha384_finalize (kos_sha384_update
            (kos_sha384_update kos_sha384_initialize inner) data)
      in kos_sha384_finalize (kos_sha384_update (kos_sha384_update kos_sha384_initialize outer) inner_digest))"

definition kos_hkdf_extract_sha256 :: "u8 list \<Rightarrow> u8 list \<Rightarrow> u8 list" where
  "kos_hkdf_extract_sha256 salt ikm =
     (let salt' = (if salt = [] then replicate 32 0 else salt) in kos_hmac_sha256 salt' ikm)"

text \<open>The expansion writes each block into a stack buffer of 288 bytes, the label construction into one of
  512 bytes from a label buffer of 64: an input for which the code would leave a buffer gives \<open>Overrun\<close>.\<close>

datatype hkdf_result = Refused | Overrun | Output "u8 list"

function hkdf_expand_loop :: "u8 list \<Rightarrow> u8 list \<Rightarrow> nat \<Rightarrow> u8 list \<Rightarrow> u8 \<Rightarrow> nat \<Rightarrow> u8 list \<Rightarrow> hkdf_result" where
  "hkdf_expand_loop prk info output_size previous counter produced out =
     (if produced < output_size
      then let block = (if counter \<noteq> 1 then previous else []) @ info @ [counter];
               previous' = kos_hmac_sha256 prk block;
               amount = (if output_size - produced < 32 then output_size - produced else 32)
           in if length block > 32 + 256 then Overrun
              else hkdf_expand_loop prk info output_size previous' (counter + 1) (produced + amount)
                     (out @ take amount previous')
      else Output out)"
  by pat_completeness auto
termination
  by (relation "measure (\<lambda>(prk, info, output_size, previous, counter, produced, out). output_size - produced)") auto

declare hkdf_expand_loop.simps [simp del]

definition kos_hkdf_expand_sha256 :: "u8 list \<Rightarrow> u8 list \<Rightarrow> nat \<Rightarrow> hkdf_result" where
  "kos_hkdf_expand_sha256 prk info output_size =
     (if output_size > 255 * 32 then Refused
      else hkdf_expand_loop prk info output_size (replicate 32 0) 1 0 [])"

definition kos_hkdf_sha256 :: "u8 list \<Rightarrow> u8 list \<Rightarrow> u8 list \<Rightarrow> nat \<Rightarrow> hkdf_result" where
  "kos_hkdf_sha256 salt ikm info output_size =
     kos_hkdf_expand_sha256 (kos_hkdf_extract_sha256 salt ikm) info output_size"

definition tls13_prefix :: "u8 list" where
  "tls13_prefix = [0x74, 0x6c, 0x73, 0x31, 0x33, 0x20]"

definition kos_hkdf_expand_label_sha256 :: "u8 list \<Rightarrow> u8 list \<Rightarrow> u8 list \<Rightarrow> u16 \<Rightarrow> hkdf_result" where
  "kos_hkdf_expand_label_sha256 secret label context len =
     (let full_label = take 64 (tls13_prefix @ label @ replicate 64 0);
          full_label_len = unat (of_nat (6 + length label) :: u8);
          hkdf_label = [ucast (drop_bit 8 len), ucast len, of_nat full_label_len]
            @ take full_label_len full_label @ [of_nat (length context)] @ context
      in if full_label_len > 64 then Overrun
         else if length hkdf_label > 512 then Overrun
         else kos_hkdf_expand_sha256 secret hkdf_label (unat len))"

section \<open>The reference: compression over the blocks of the padded message\<close>

function fold_blocks :: "nat \<Rightarrow> ('s \<Rightarrow> u8 list \<Rightarrow> 's) \<Rightarrow> 's \<Rightarrow> u8 list \<Rightarrow> 's \<times> u8 list" where
  "fold_blocks B f st xs =
     (if length xs < B \<or> B = 0 then (st, xs) else fold_blocks B f (f st (take B xs)) (drop B xs))"
  by pat_completeness auto
termination
  by (relation "measure (\<lambda>(B, f, st, xs). length xs)") auto

declare fold_blocks.simps [simp del]

definition merkle_damgard :: "nat \<Rightarrow> nat \<Rightarrow> ('s \<Rightarrow> u8 list \<Rightarrow> 's) \<Rightarrow> 's \<Rightarrow> u8 list \<Rightarrow> u8 list \<Rightarrow> 's" where
  "merkle_damgard B P f iv m len =
     fst (fold_blocks B f iv (m @ [0x80] @ replicate ((B + P - (length m mod B + 1)) mod B) 0 @ len))"

definition holds :: "nat \<Rightarrow> ('s \<Rightarrow> u8 list \<Rightarrow> 's) \<Rightarrow> 's \<Rightarrow> u8 list \<Rightarrow> 's hash_state \<Rightarrow> bool" where
  "holds B f iv m h = (case h of (st, buf, n) \<Rightarrow>
     length buf = B \<and> n < B \<and> n = length m mod B \<and> fold_blocks B f iv m = (st, take n buf))"

section \<open>Buffering computes the reference\<close>

lemma length_buffer_copy [simp]: "length (buffer_copy n amount data buf) = length buf"
proof -
  have "length (fold (\<lambda>i b. b[n + i := data ! i]) is b) = length b" for "is" b
    by (induction "is" arbitrary: b) auto
  then show ?thesis by (simp add: buffer_copy_def)
qed

lemma buffer_copy_eq:
  assumes "n + amount \<le> length buf" "amount \<le> length data"
  shows "buffer_copy n amount data buf = take n buf @ take amount data @ drop (n + amount) buf"
  using assms
proof (induction amount)
  case 0
  then show ?case by (simp add: buffer_copy_def)
next
  case (Suc a)
  then have "buffer_copy n (Suc a) data buf = (take n buf @ take a data @ drop (n + a) buf)[n + a := data ! a]"
    by (simp add: buffer_copy_def)
  also have "\<dots> = take n buf @ take a data @ (drop (n + a) buf)[0 := data ! a]"
    using Suc.prems by (simp add: list_update_append min_def)
  also have "(drop (n + a) buf)[0 := data ! a] = data ! a # drop (n + Suc a) buf"
    using Suc.prems by (simp add: Cons_nth_drop_Suc [symmetric])
  finally show ?case
    using Suc.prems by (simp add: take_Suc_conv_app_nth)
qed

locale block_hash =
  fixes B P :: nat and compress :: "'s \<Rightarrow> u8 list \<Rightarrow> 's"
  assumes padding_position: "0 < P" "P < B"
begin

lemma fold_blocks_short: "length xs < B \<Longrightarrow> fold_blocks B compress st xs = (st, xs)"
  by (simp add: fold_blocks.simps)

lemma fold_blocks_full:
  "length xs = B \<Longrightarrow> fold_blocks B compress st (xs @ ys) = fold_blocks B compress (compress st xs) ys"
  using padding_position by (subst fold_blocks.simps) auto

lemma fold_blocks_append:
  "fold_blocks B compress st (xs @ ys) =
     (case fold_blocks B compress st xs of (st', r) \<Rightarrow> fold_blocks B compress st' (r @ ys))"
proof (induction xs arbitrary: st rule: length_induct)
  case (1 xs)
  show ?case
  proof (cases "length xs < B")
    case True
    then show ?thesis by (simp add: fold_blocks_short)
  next
    case False
    then have "fold_blocks B compress st (xs @ ys) = fold_blocks B compress (compress st (take B xs)) (drop B xs @ ys)"
      using fold_blocks_full [of "take B xs" st "drop B xs @ ys"] by (simp flip: append.assoc)
    moreover have "fold_blocks B compress st xs = fold_blocks B compress (compress st (take B xs)) (drop B xs)"
      using False fold_blocks_full [of "take B xs" st "drop B xs"] by simp
    moreover have "length (drop B xs) < length xs" using False padding_position by simp
    ultimately show ?thesis using 1 by metis
  qed
qed

lemma absorb_holds:
  assumes "holds B compress iv m h"
  shows "holds B compress iv (m @ data) (hash_absorb B compress h data)"
  using assms
proof (induction data arbitrary: h m rule: length_induct)
  case (1 data)
  obtain st buf n where h: "h = (st, buf, n)" by (cases h) auto
  from 1(2) h have buf: "length buf = B" "n < B" "n = length m mod B"
    "fold_blocks B compress iv m = (st, take n buf)" by (auto simp: holds_def)
  show ?case
  proof (cases "data = []")
    case True
    then show ?thesis using 1(2) h by (simp add: hash_absorb.simps)
  next
    case False
    define a where "a = min (B - n) (length data)"
    define buf' where "buf' = buffer_copy n a data buf"
    define h' where "h' = (if n + a = B then (compress st buf', buf', 0) else (st, buf', n + a))"
    have a: "0 < a" "n + a \<le> B" "a \<le> length data" using False buf by (auto simp: a_def)
    have buf': "buf' = take n buf @ take a data @ drop (n + a) buf" "length buf' = B"
      using a buf by (simp_all add: buf'_def buffer_copy_eq)
    have step: "hash_absorb B compress h data = hash_absorb B compress h' (drop a data)"
      using False buf(2) by (simp add: h hash_absorb.simps [of B compress st buf n data] Let_def a_def buf'_def h'_def)
    have fb: "fold_blocks B compress iv (m @ take a data) = fold_blocks B compress st (take n buf @ take a data)"
      by (simp add: fold_blocks_append [of iv m] buf)
    have len: "(length m + a) mod B = (n + a) mod B" using buf by (simp add: mod_simps)
    have "holds B compress iv (m @ take a data) h'"
    proof (cases "n + a = B")
      case True
      then have "buf' = take n buf @ take a data" using buf by (simp add: buf')
      then have "fold_blocks B compress iv (m @ take a data) = (compress st buf', [])"
        using fb fold_blocks_full [of buf' st "[]"] buf' fold_blocks_short [of "[]"] padding_position by simp
      then show ?thesis using True len a buf' padding_position by (simp add: holds_def h'_def)
    next
      case False
      then have "n + a < B" using a by simp
      moreover have "take (n + a) buf' = take n buf @ take a data" using a buf by (simp add: buf' min_def)
      ultimately show ?thesis
        using False len a buf' buf fb fold_blocks_short [of "take n buf @ take a data"]
        by (simp add: holds_def h'_def min_def)
    qed
    moreover have "length (drop a data) < length data" using a by simp
    ultimately have "holds B compress iv ((m @ take a data) @ drop a data) (hash_absorb B compress h' (drop a data))"
      using 1(1) by blast
    then show ?thesis by (simp add: step)
  qed
qed

lemma pad_low:
  assumes "n \<le> P" "length buf = B"
  shows "\<exists>buf'. hash_pad B P compress (st, buf, n) = (st, buf', P) \<and> length buf' = B
    \<and> take P buf' = take n buf @ replicate (P - n) 0"
  using assms
proof (induction "P - n" arbitrary: n buf)
  case 0
  then show ?case by (simp add: hash_pad.simps)
next
  case (Suc d)
  then have n: "n < P" by simp
  then have "hash_pad B P compress (st, buf, n) = hash_pad B P compress (st, buf[n := 0], n + 1)"
    using padding_position by (simp add: hash_pad.simps [of B P compress st buf n])
  moreover have "take (n + 1) (buf[n := 0]) @ replicate (P - (n + 1)) 0 = take n buf @ replicate (P - n) 0"
    using n Suc.prems padding_position
    by (simp add: take_Suc_conv_app_nth Suc_diff_Suc [symmetric] del: Suc_diff_Suc)
  ultimately show ?case using Suc.hyps(1) [of "n + 1" "buf[n := 0]"] Suc.hyps(2) Suc.prems n by simp
qed

lemma pad_high:
  assumes "P < n" "n \<le> B" "length buf = B"
  shows "\<exists>buf'. hash_pad B P compress (st, buf, n) = (compress st (take n buf @ replicate (B - n) 0), buf', P)
    \<and> length buf' = B \<and> take P buf' = replicate P 0"
  using assms
proof (induction "B - n" arbitrary: n buf)
  case 0
  then have n: "n = B" by simp
  have "hash_pad B P compress (st, buf, n) = hash_pad B P compress (compress st buf, buf[0 := 0], 1)"
    unfolding n using padding_position by (simp add: hash_pad.simps [of B P compress st buf B])
  moreover obtain buf' where "hash_pad B P compress (compress st buf, buf[0 := 0], 1) = (compress st buf, buf', P)"
    "length buf' = B" "take P buf' = take 1 (buf[0 := 0]) @ replicate (P - 1) 0"
    using pad_low [of 1 "buf[0 := 0]" "compress st buf"] padding_position 0 by auto
  moreover have "take 1 (buf[0 := 0]) @ replicate (P - 1) 0 = replicate P (0 :: u8)"
    using padding_position 0 by (cases buf; cases P) auto
  ultimately show ?case using n 0 by simp
next
  case (Suc d)
  then have n: "n < B" by simp
  then have "hash_pad B P compress (st, buf, n) = hash_pad B P compress (st, buf[n := 0], n + 1)"
    using padding_position Suc.prems by (simp add: hash_pad.simps [of B P compress st buf n])
  moreover have "take (n + 1) (buf[n := 0]) @ replicate (B - (n + 1)) 0 = take n buf @ replicate (B - n) 0"
    using n Suc.prems by (simp add: take_Suc_conv_app_nth Suc_diff_Suc [symmetric] del: Suc_diff_Suc)
  ultimately show ?case using Suc.hyps(1) [of "n + 1" "buf[n := 0]"] Suc.hyps(2) Suc.prems n by simp
qed

lemma final_block:
  assumes h: "holds B compress iv m (st, buf, n)" and len: "length len = B - P"
  shows "case hash_pad B P compress (st, buf[n := 0x80], n + 1) of (st', buf', _) \<Rightarrow>
    length buf' = B \<and> compress st' (take P buf' @ len) = merkle_damgard B P compress iv m len"
proof -
  from h have buf: "length buf = B" "n < B" "n = length m mod B"
    "fold_blocks B compress iv m = (st, take n buf)" by (auto simp: holds_def)
  define b1 where "b1 = buf[n := 0x80]"
  have b1: "length b1 = B" "take (n + 1) b1 = take n buf @ [0x80]"
    using buf by (simp_all add: b1_def take_Suc_conv_app_nth)
  have ref: "merkle_damgard B P compress iv m len =
      fst (fold_blocks B compress st (take n buf @ [0x80] @ replicate ((B + P - (n + 1)) mod B) 0 @ len))"
    using buf by (simp add: merkle_damgard_def fold_blocks_append [of iv m])
  have one: "fst (fold_blocks B compress s (xs @ len)) = compress s (xs @ len)" if "length xs = P" for s xs
    using that fold_blocks_full [of "xs @ len" s "[]"] fold_blocks_short [of "[]"] len padding_position by simp
  show ?thesis
  proof (cases "n + 1 \<le> P")
    case True
    then obtain buf' where p: "hash_pad B P compress (st, b1, n + 1) = (st, buf', P)" "length buf' = B"
      "take P buf' = take (n + 1) b1 @ replicate (P - (n + 1)) 0"
      using pad_low b1(1) by blast
    have z: "(B + P - (n + 1)) mod B = P - (n + 1)"
      using True padding_position
      by (metis Nat.add_diff_assoc diff_le_self le_less_trans mod_add_self1 mod_less)
    have "take P buf' = take n buf @ [0x80] @ replicate (P - (n + 1)) 0" by (simp only: p b1(2) append.assoc)
    moreover have "length (take n buf @ [0x80] @ replicate (P - (n + 1)) (0::u8)) = P"
      using True buf by simp
    ultimately show ?thesis
      using one [of "take n buf @ [0x80] @ replicate (P - (n + 1)) 0" st] p(2)
      unfolding ref z p(1) [unfolded b1_def] by simp
  next
    case False
    then obtain buf' where p: "hash_pad B P compress (st, b1, n + 1) =
        (compress st (take (n + 1) b1 @ replicate (B - (n + 1)) 0), buf', P)" "length buf' = B"
      "take P buf' = replicate P 0"
      using pad_high [of "n + 1" b1 st] b1(1) buf(2) by auto
    have z: "(B + P - (n + 1)) mod B = (B - (n + 1)) + P"
      using False buf(2) by simp
    have "fold_blocks B compress st ((take n buf @ [0x80] @ replicate (B - (n + 1)) 0) @ (replicate P 0 @ len)) =
        fold_blocks B compress (compress st (take n buf @ [0x80] @ replicate (B - (n + 1)) 0)) (replicate P 0 @ len)"
      by (rule fold_blocks_full) (use buf in simp)
    then show ?thesis
      using one [of "replicate P 0"] p(2,3) b1(2)
      unfolding ref z p(1) [unfolded b1_def] by (simp add: replicate_add b1_def)
  qed
qed

end

interpretation sha256_blocks: block_hash 64 56 sha256_transform
  by unfold_locales simp_all

interpretation sha384_blocks: block_hash 128 112 sha384_transform
  by unfold_locales simp_all

section \<open>The contexts hold what was absorbed\<close>

definition sha256_iv :: "u32 list" where
  "sha256_iv = s256_state kos_sha256_initialize"

definition sha256_holds :: "u8 list \<Rightarrow> kos_sha256_context \<Rightarrow> bool" where
  "sha256_holds m ctx \<longleftrightarrow>
     holds 64 sha256_transform sha256_iv m (s256_state ctx, s256_buffer ctx, s256_buffer_size ctx)
     \<and> s256_bit_count ctx = of_nat (8 * length m)"

definition sha256_spec :: "u8 list \<Rightarrow> u8 list" where
  "sha256_spec m = concat (map write_u32_be
     (merkle_damgard 64 56 sha256_transform sha256_iv m (write_u64_be (of_nat (8 * length m)))))"

definition sha384_iv :: "u64 list" where
  "sha384_iv = s384_state kos_sha384_initialize"

definition sha384_holds :: "u8 list \<Rightarrow> kos_sha384_context \<Rightarrow> bool" where
  "sha384_holds m ctx \<longleftrightarrow>
     holds 128 sha384_transform sha384_iv m (s384_state ctx, s384_buffer ctx, s384_buffer_size ctx)
     \<and> s384_bit_count_low ctx = of_nat (8 * length m)
     \<and> s384_bit_count_high ctx = of_nat (8 * length m div 2 ^ 64)"

definition sha384_spec :: "u8 list \<Rightarrow> u8 list" where
  "sha384_spec m = concat (map write_u64_be (take 6
     (merkle_damgard 128 112 sha384_transform sha384_iv m
       (write_u64_be (of_nat (8 * length m div 2 ^ 64)) @ write_u64_be (of_nat (8 * length m))))))"

lemma length_write_u64_be [simp]: "length (write_u64_be v) = 8"
  by (simp add: write_u64_be_def)

lemma length_write_u32_be [simp]: "length (write_u32_be v) = 4"
  by (simp add: write_u32_be_def)

lemma sha256_holds_initialize: "sha256_holds [] kos_sha256_initialize"
  by (simp add: sha256_holds_def holds_def sha256_iv_def kos_sha256_initialize_def sha256_blocks.fold_blocks_short)

lemma sha256_holds_update: "sha256_holds m ctx \<Longrightarrow> sha256_holds (m @ data) (kos_sha256_update ctx data)"
  using sha256_blocks.absorb_holds [of sha256_iv m _ data]
  by (fastforce simp: sha256_holds_def kos_sha256_update_def Let_def algebra_simps split: prod.splits)

lemma store_bit_length_eq: "length buf = 64 \<Longrightarrow> store_bit_length v buf = take 56 buf @ write_u64_be v"
proof -
  assume len: "length buf = 64"
  have "store_bit_length v buf = buffer_copy 56 8 (write_u64_be v) buf"
    unfolding buffer_copy_def store_bit_length_def
    by (rule fold_cong) (auto simp: write_u64_be_def simp del: upt_rec_numeral)
  then show ?thesis using len by (simp add: buffer_copy_eq)
qed

lemma sha256_holds_finalize:
  assumes "sha256_holds m ctx"
  shows "kos_sha256_finalize ctx = sha256_spec m"
proof -
  obtain st buf k where p: "hash_pad 64 56 sha256_transform
      (s256_state ctx, (s256_buffer ctx)[s256_buffer_size ctx := 0x80], s256_buffer_size ctx + 1) = (st, buf, k)"
    by (metis prod_cases3)
  show ?thesis
    using assms sha256_blocks.final_block [of sha256_iv m "s256_state ctx" "s256_buffer ctx" "s256_buffer_size ctx"
        "write_u64_be (of_nat (8 * length m))"] p
    by (simp add: sha256_holds_def kos_sha256_finalize_def sha256_spec_def store_bit_length_eq Let_def)
qed

lemma sha256_holds_fold: "sha256_holds m ctx \<Longrightarrow> sha256_holds (m @ concat chunks) (foldl kos_sha256_update ctx chunks)"
proof (induction chunks arbitrary: m ctx)
  case (Cons c cs)
  then show ?case using Cons.IH [OF sha256_holds_update [OF Cons.prems, of c]] by simp
qed simp

lemma sha256_chunks: "kos_sha256_finalize (foldl kos_sha256_update kos_sha256_initialize chunks) = sha256_spec (concat chunks)"
  using sha256_holds_finalize [OF sha256_holds_fold [OF sha256_holds_initialize]] by simp

lemma kos_sha256_spec: "kos_sha256 m = sha256_spec m"
  using sha256_chunks [of "[m]"] by (simp add: kos_sha256_def)

lemma sha384_holds_initialize: "sha384_holds [] kos_sha384_initialize"
  by (simp add: sha384_holds_def holds_def sha384_iv_def kos_sha384_initialize_def sha384_blocks.fold_blocks_short)

lemma carry_of_add:
  fixes x y :: nat
  assumes "y < 2 ^ 64"
  shows "(of_nat ((x + y) div 2 ^ 64) :: u64) =
    (if (of_nat x + of_nat y :: u64) < of_nat y then of_nat (x div 2 ^ 64) + 1 else of_nat (x div 2 ^ 64))"
proof -
  have y: "unat (of_nat y :: u64) = y" using assms by (simp add: unat_of_nat)
  have "(of_nat x + of_nat y :: u64) = of_nat (x + y)" by simp
  then have xy: "unat (of_nat x + of_nat y :: u64) = (x mod 2 ^ 64 + y) mod 2 ^ 64"
    by (simp only: unat_of_nat mod_add_left_eq) simp
  have split: "(x + y) div 2 ^ 64 = x div 2 ^ 64 + (x mod 2 ^ 64 + y) div 2 ^ 64"
    using div_mult_self3 [of "2 ^ 64" "x div 2 ^ 64" "x mod 2 ^ 64 + y"]
    by (simp only: add.assoc [symmetric] div_mult_mod_eq) simp
  have carry: "(x mod 2 ^ 64 + y) div 2 ^ 64 = (if (x mod 2 ^ 64 + y) mod 2 ^ 64 < y then 1 else 0)"
  proof (cases "x mod 2 ^ 64 + y < 2 ^ 64")
    case False
    have "x mod 2 ^ 64 < 2 ^ 64" by simp
    with False assms show ?thesis by (simp add: le_div_geq le_mod_geq)
  qed simp
  show ?thesis unfolding split carry by (simp add: word_less_nat_alt y xy)
qed

lemma sha384_holds_update:
  assumes "sha384_holds m ctx" "length data < 2 ^ 61"
  shows "sha384_holds (m @ data) (kos_sha384_update ctx data)"
proof -
  obtain st buf n where a: "hash_absorb 128 sha384_transform
      (s384_state ctx, s384_buffer ctx, s384_buffer_size ctx) data = (st, buf, n)"
    by (metis prod_cases3)
  have "holds 128 sha384_transform sha384_iv (m @ data) (st, buf, n)"
    using sha384_blocks.absorb_holds [of sha384_iv m
        "(s384_state ctx, s384_buffer ctx, s384_buffer_size ctx)" data] assms(1)
    by (simp add: sha384_holds_def a)
  moreover have bits: "of_nat (length data) * 8 = (of_nat (8 * length data) :: u64)"
    "8 * length (m @ data) = 8 * length m + 8 * length data" by simp_all
  moreover have "8 * length data < 2 ^ 64" using assms(2) by simp
  ultimately show ?thesis
    using assms(1)
    unfolding sha384_holds_def kos_sha384_update_def Let_def a prod.case kos_sha384_context.simps bits
    by (auto simp only: carry_of_add of_nat_add split: if_splits)
qed

lemma sha384_holds_finalize:
  assumes "sha384_holds m ctx"
  shows "kos_sha384_finalize ctx = sha384_spec m"
proof -
  obtain st buf k where p: "hash_pad 128 112 sha384_transform
      (s384_state ctx, (s384_buffer ctx)[s384_buffer_size ctx := 0x80], s384_buffer_size ctx + 1) = (st, buf, k)"
    by (metis prod_cases3)
  show ?thesis
    using assms sha384_blocks.final_block [of sha384_iv m "s384_state ctx" "s384_buffer ctx" "s384_buffer_size ctx"
        "write_u64_be (of_nat (8 * length m div 2 ^ 64)) @ write_u64_be (of_nat (8 * length m))"] p
    by (simp add: sha384_holds_def kos_sha384_finalize_def sha384_spec_def Let_def)
qed

lemma sha384_holds_fold:
  "sha384_holds m ctx \<Longrightarrow> list_all (\<lambda>c. length c < 2 ^ 61) chunks \<Longrightarrow>
   sha384_holds (m @ concat chunks) (foldl kos_sha384_update ctx chunks)"
proof (induction chunks arbitrary: m ctx)
  case (Cons c cs)
  then show ?case using Cons.IH [OF sha384_holds_update [OF Cons.prems(1), of c]] by simp
qed simp

lemma sha384_chunks:
  "list_all (\<lambda>c. length c < 2 ^ 61) chunks \<Longrightarrow>
   kos_sha384_finalize (foldl kos_sha384_update kos_sha384_initialize chunks) = sha384_spec (concat chunks)"
  using sha384_holds_finalize [OF sha384_holds_fold [OF sha384_holds_initialize]] by simp

lemma kos_sha384_spec: "length m < 2 ^ 61 \<Longrightarrow> kos_sha384 m = sha384_spec m"
  using sha384_chunks [of "[m]"] by (simp add: kos_sha384_def)

text \<open>
  C22. Streaming. However a message is cut into calls of the update function, finalizing gives the
  Merkle-Damgard reference on the whole message: the message, a byte 0x80, the least number of zero bytes
  that leaves room for the length at the end of a block, and the length in bits as a big-endian number
  (64 bits for SHA-256, 128 bits for SHA-384), compressed block by block from the initial value. For SHA-384
  each single piece is shorter than \<open>2 ^ 61\<close> bytes, so that its number of bits fits 64 bits.
\<close>

theorem sha2_streaming_correct:
  assumes "list_all (\<lambda>c. length c < 2 ^ 61) chunks"
  shows "kos_sha256_finalize (foldl kos_sha256_update kos_sha256_initialize chunks) = sha256_spec (concat chunks)
    \<and> kos_sha384_finalize (foldl kos_sha384_update kos_sha384_initialize chunks) = sha384_spec (concat chunks)"
  using assms by (simp add: sha256_chunks sha384_chunks)

theorem sha2_streaming_correct_witness:
  "kos_sha256_finalize (foldl kos_sha256_update kos_sha256_initialize [[0x61], [], [0x62, 0x63]]) =
     sha256_spec [0x61, 0x62, 0x63]
   \<and> kos_sha384_finalize (foldl kos_sha384_update kos_sha384_initialize [[0x61], [], [0x62, 0x63]]) =
     sha384_spec [0x61, 0x62, 0x63]"
  using sha2_streaming_correct [of "[[0x61], [], [0x62, 0x63]]"] by simp

section \<open>HMAC and HKDF compute their references\<close>

text \<open>HMAC as RFC 2104 has it: the key fills one block of the hash function from the left, a key that is
  too long being hashed first, and the rest of the block is zero.\<close>

definition hmac_key :: "nat \<Rightarrow> (u8 list \<Rightarrow> u8 list) \<Rightarrow> u8 list \<Rightarrow> u8 list" where
  "hmac_key B h key = (let k = (if length key \<le> B then key else h key)
     in map (\<lambda>i. if i < length k then k ! i else 0) [0..<B])"

definition hmac :: "nat \<Rightarrow> (u8 list \<Rightarrow> u8 list) \<Rightarrow> u8 list \<Rightarrow> u8 list \<Rightarrow> u8 list" where
  "hmac B h key m = h (map (\<lambda>b. b XOR 0x5c) (hmac_key B h key) @ h (map (\<lambda>b. b XOR 0x36) (hmac_key B h key) @ m))"

lemma key_block_eq: "length (h key) \<le> B \<Longrightarrow> key_block B h key = hmac_key B h key"
  by (rule nth_equalityI) (auto simp: key_block_def hmac_key_def nth_append Let_def)

lemma sha256_two_updates:
  "kos_sha256_finalize (kos_sha256_update (kos_sha256_update kos_sha256_initialize a) b) = kos_sha256 (a @ b)"
  using sha256_chunks [of "[a, b]"] by (simp add: kos_sha256_spec)

lemma sha256_round_length [simp]: "length (sha256_round w i st) = length st"
  by (induction w i st rule: sha256_round.induct) (auto simp: Let_def)

lemma sha256_transform_length: "length st = 8 \<Longrightarrow> length (sha256_transform st block) = 8"
proof -
  have "length (fold (sha256_round w) is st) = length st" for w "is" st
    by (induction "is" arbitrary: st) auto
  then show "length st = 8 \<Longrightarrow> ?thesis" by (simp add: sha256_transform_def)
qed

lemma fold_blocks_invariant:
  "P st \<Longrightarrow> (\<And>s b. P s \<Longrightarrow> P (f s b)) \<Longrightarrow> P (fst (fold_blocks B f st xs))"
  by (induction B f st xs rule: fold_blocks.induct) (simp add: fold_blocks.simps)

lemma kos_sha256_length [simp]: "length (kos_sha256 m) = 32"
proof -
  have "length sha256_iv = 8" by (simp add: sha256_iv_def kos_sha256_initialize_def)
  then have "length (merkle_damgard 64 56 sha256_transform sha256_iv m len) = 8" for len
    unfolding merkle_damgard_def using fold_blocks_invariant [of "\<lambda>s. length s = 8"] sha256_transform_length by blast
  then show ?thesis
    by (simp add: kos_sha256_spec sha256_spec_def length_concat o_def map_replicate_const sum_list_replicate)
qed

lemma kos_hmac_sha256_eq: "kos_hmac_sha256 key m = hmac 64 kos_sha256 key m"
  by (simp add: kos_hmac_sha256_def hmac_def Let_def sha256_two_updates key_block_eq)

lemma hmac_sha256_length [simp]: "length (hmac 64 kos_sha256 key m) = 32"
  by (simp add: hmac_def)

fun hkdf_T :: "u8 list \<Rightarrow> u8 list \<Rightarrow> nat \<Rightarrow> u8 list" where
  "hkdf_T prk info 0 = []"
| "hkdf_T prk info (Suc i) = hmac 64 kos_sha256 prk (hkdf_T prk info i @ info @ [of_nat (Suc i)])"

definition hkdf_stream :: "u8 list \<Rightarrow> u8 list \<Rightarrow> nat \<Rightarrow> u8 list" where
  "hkdf_stream prk info n = concat (map (hkdf_T prk info) [1..<Suc n])"

definition hkdf_expand :: "u8 list \<Rightarrow> u8 list \<Rightarrow> nat \<Rightarrow> u8 list" where
  "hkdf_expand prk info len = take len (hkdf_stream prk info ((len + 31) div 32))"

lemma hkdf_T_length [simp]: "0 < i \<Longrightarrow> length (hkdf_T prk info i) = 32"
  by (cases i) (auto simp del: kos_sha256_length)

lemma hkdf_stream_Suc: "hkdf_stream prk info (Suc n) = hkdf_stream prk info n @ hkdf_T prk info (Suc n)"
  by (simp add: hkdf_stream_def)

lemma hkdf_stream_length [simp]: "length (hkdf_stream prk info n) = 32 * n"
  by (induction n) (simp_all add: hkdf_stream_Suc, simp add: hkdf_stream_def)

text \<open>The loop after \<open>i\<close> blocks.\<close>

definition hkdf_at :: "u8 list \<Rightarrow> u8 list \<Rightarrow> nat \<Rightarrow> nat \<Rightarrow> hkdf_result" where
  "hkdf_at prk info len i = hkdf_expand_loop prk info len (if i = 0 then replicate 32 0 else hkdf_T prk info i)
     (of_nat (Suc i)) (min (32 * i) len) (take (min (32 * i) len) (hkdf_stream prk info i))"

lemma hkdf_at_done: "len \<le> 32 * i \<Longrightarrow> hkdf_at prk info len i = Output (take len (hkdf_stream prk info i))"
  by (simp add: hkdf_at_def hkdf_expand_loop.simps min_def)

lemma hkdf_counter:
  assumes "i < 255"
  shows "((of_nat (Suc i) :: u8) \<noteq> 1) = (i \<noteq> 0)"
proof -
  have "unat (of_nat (Suc i) :: u8) = Suc i" using assms unfolding unat_of_nat by simp
  then show ?thesis unfolding word_unat_eq_iff by simp
qed

lemma hkdf_at_step:
  assumes "32 * i < len" "len \<le> 255 * 32"
  shows "hkdf_at prk info len i =
    (if (if i = 0 then 0 else 32) + length info + 1 > 288 then Overrun else hkdf_at prk info len (Suc i))"
proof -
  define amount where "amount = (if len - 32 * i < 32 then len - 32 * i else 32)"
  have i: "i < 255" using assms by simp
  have a: "min (32 * i) len = 32 * i" "min (32 * Suc i) len = 32 * i + amount" "amount \<le> 32"
    using assms by (auto simp: amount_def)
  have block: "(if (of_nat (Suc i) :: u8) \<noteq> 1 then (if i = 0 then replicate 32 0 else hkdf_T prk info i) else [])
      @ info @ [of_nat (Suc i)] = hkdf_T prk info i @ info @ [of_nat (Suc i)]"
    by (simp only: hkdf_counter [OF i]) auto
  have len: "length (hkdf_T prk info i) = (if i = 0 then 0 else 32)" by simp
  have out: "take (32 * i) (hkdf_stream prk info i) @ take amount (hkdf_T prk info (Suc i)) =
      take (32 * i + amount) (hkdf_stream prk info (Suc i))"
    by (simp add: hkdf_stream_Suc)
  show ?thesis
    unfolding hkdf_at_def a(1) a(2)
    by (subst hkdf_expand_loop.simps)
      (use assms in \<open>simp add: Let_def block kos_hmac_sha256_eq flip: amount_def out hkdf_T.simps(2) of_nat_Suc\<close>, simp add: len)
qed

lemma hkdf_at_all:
  assumes "length info \<le> 255" "len \<le> 255 * 32" "i \<le> (len + 31) div 32"
  shows "hkdf_at prk info len i = Output (hkdf_expand prk info len)"
  using assms(3)
proof (induction "(len + 31) div 32 - i" arbitrary: i)
  case 0
  then have "i = (len + 31) div 32" by simp
  moreover have "len \<le> 32 * ((len + 31) div 32)" by simp
  ultimately show ?case by (simp only: hkdf_at_done hkdf_expand_def)
next
  case (Suc d)
  then have "32 * i < len" by linarith
  moreover have "hkdf_at prk info len (Suc i) = Output (hkdf_expand prk info len)"
    using Suc by simp
  ultimately show ?case using assms by (simp add: hkdf_at_step)
qed

lemma kos_hkdf_expand_eq:
  "kos_hkdf_expand_sha256 prk info len =
     (if len > 255 * 32 then Refused
      else if 0 < len \<and> length info > 287 \<or> 32 < len \<and> length info > 255 then Overrun
      else Output (hkdf_expand prk info len))"
proof -
  have start: "len \<le> 255 * 32 \<Longrightarrow> kos_hkdf_expand_sha256 prk info len = hkdf_at prk info len 0"
    by (simp add: kos_hkdf_expand_sha256_def hkdf_at_def)
  consider "len > 255 * 32" | "len = 0" | "len \<le> 255 * 32" "0 < len" "length info > 287"
    | "len \<le> 255 * 32" "32 < len" "255 < length info" "length info \<le> 287"
    | "0 < len" "len \<le> 32" "length info \<le> 287" | "len \<le> 255 * 32" "length info \<le> 255"
    by linarith
  then show ?thesis
  proof cases
    case 1
    then show ?thesis by (simp add: kos_hkdf_expand_sha256_def)
  next
    case 4
    then show ?thesis by (simp add: start hkdf_at_step [of 0] hkdf_at_step [of "Suc 0"])
  next
    case 5
    then have "(len + 31) div 32 = 1" by auto
    with 5 show ?thesis by (simp add: start hkdf_at_step [of 0] hkdf_at_done hkdf_expand_def)
  next
    case 6
    then show ?thesis using hkdf_at_all [of info len 0 prk] by (auto simp: start)
  qed (use start in \<open>simp_all add: hkdf_at_step hkdf_at_done hkdf_expand_def\<close>)
qed

text \<open>
  C23. HKDF. For every salt, input keying material, info and length, the key derivation extracts
  HMAC-SHA-256 of the input under the salt (32 zero bytes for an empty salt), refuses more than 255 blocks,
  and otherwise returns the first bytes of the chained blocks \<open>T 1, T 2, \<dots>\<close> of RFC 5869, where each block
  is HMAC-SHA-256 of the block before it, the info and the counter. The one exception is an info that does
  not fit the 288-byte stack buffer beside the chaining block: more than 255 bytes when a second block is
  needed, more than 287 bytes in any case. There the loop writes past the buffer.
\<close>

theorem hkdf_rfc5869:
  "kos_hkdf_sha256 salt ikm info len =
     (let prk = hmac 64 kos_sha256 (if salt = [] then replicate 32 0 else salt) ikm
      in if len > 255 * 32 then Refused
         else if (if 32 < len then 255 else if 0 < len then 287 else length info) < length info then Overrun
         else Output (hkdf_expand prk info len))"
  by (simp add: kos_hkdf_sha256_def kos_hkdf_extract_sha256_def kos_hkdf_expand_eq kos_hmac_sha256_eq Let_def)

end
