(* ===== verification/KOS_Vmm.thy ===== *)
theory KOS_Vmm
  imports KOS_Pmm
begin

text \<open>
  The virtual memory manager: \<open>src/mm/vmm.c\<close>, four-level page tables over the physical memory manager
  of \<open>KOS_Pmm\<close>. The code reaches every table through the direct map, \<open>hhdm_offset + physical address\<close>;
  the model names a table by its physical address, so that \<open>pt_mem s t i\<close> is entry \<open>i\<close> of the table at
  \<open>t\<close>, and a null table pointer is \<open>None\<close>. Entries and addresses are 64-bit words, as the code takes
  them apart bit by bit. Every function that takes \<open>vmm_lock\<close> is one step. Writes to control register 3
  and page invalidations are recorded; the self-test that \<open>vmm_initialize\<close> ends with is not modelled.
\<close>

section \<open>State\<close>

definition PAGE_SIZE :: u64 where "PAGE_SIZE = 4096"
definition PAGE_PRESENT :: u64 where "PAGE_PRESENT = 1"
definition PAGE_USER :: u64 where "PAGE_USER = 4"
definition PAGE_HUGE :: u64 where "PAGE_HUGE = 128"
definition PAGE_KOS_OWNED_TABLE :: u64 where "PAGE_KOS_OWNED_TABLE = 512"
definition PAGE_KOS_OWNED_MAPPING :: u64 where "PAGE_KOS_OWNED_MAPPING = 1024"
definition PAGE_ADDRESS_MASK :: u64 where "PAGE_ADDRESS_MASK = 0x000ffffffffff000"
definition PAGE_2M_ADDRESS_MASK :: u64 where "PAGE_2M_ADDRESS_MASK = 0x000fffffffe00000"
definition PAGE_1G_ADDRESS_MASK :: u64 where "PAGE_1G_ADDRESS_MASK = 0x000fffffc0000000"
definition VMM_PAGE_WRITABLE :: u64 where "VMM_PAGE_WRITABLE = 2"
definition VMM_PAGE_USER :: u64 where "VMM_PAGE_USER = 4"
definition VMM_PAGE_NO_EXECUTE :: u64 where "VMM_PAGE_NO_EXECUTE = 0x8000000000000000"

lemmas page_bits = PAGE_PRESENT_def PAGE_USER_def PAGE_HUGE_def PAGE_KOS_OWNED_TABLE_def
  PAGE_KOS_OWNED_MAPPING_def VMM_PAGE_WRITABLE_def VMM_PAGE_USER_def VMM_PAGE_NO_EXECUTE_def

type_synonym page_tables = "u64 \<Rightarrow> nat \<Rightarrow> u64"

record vmm_state =
  hhdm_offset :: u64
  vmm_pml4 :: u64
  kernel_pml4_phys :: u64
  vmm_initialized :: bool
  pt_mem :: page_tables
  frames :: physical_memory_manager
  cpu_cr3 :: u64
  invalidated :: "u64 list"

section \<open>Helpers\<close>

definition vmm_physical_to_virtual :: "u64 \<Rightarrow> 'a vmm_state_scheme \<Rightarrow> u64" where
  "vmm_physical_to_virtual physical_address s = hhdm_offset s + physical_address"

definition vmm_virtual_to_physical :: "u64 \<Rightarrow> 'a vmm_state_scheme \<Rightarrow> u64" where
  "vmm_virtual_to_physical virtual_address s = virtual_address - hhdm_offset s"

definition page_table_index :: "u64 \<Rightarrow> nat \<Rightarrow> nat" where
  "page_table_index virtual_address shift = unat (drop_bit shift virtual_address AND 0x1ff)"

definition set_entry :: "u64 \<Rightarrow> nat \<Rightarrow> u64 \<Rightarrow> 'a vmm_state_scheme \<Rightarrow> 'a vmm_state_scheme" where
  "set_entry t i v s = s\<lparr>pt_mem := (pt_mem s)(t := (pt_mem s t)(i := v))\<rparr>"

definition clear_page_table :: "u64 \<Rightarrow> 'a vmm_state_scheme \<Rightarrow> 'a vmm_state_scheme" where
  "clear_page_table t s = s\<lparr>pt_mem := (pt_mem s)(t := (\<lambda>i. if i < 512 then 0 else pt_mem s t i))\<rparr>"

definition page_table_is_empty :: "u64 \<Rightarrow> 'a vmm_state_scheme \<Rightarrow> bool" where
  "page_table_is_empty t s = list_all (\<lambda>i. pt_mem s t i AND PAGE_PRESENT = 0) [0..<512]"

definition allocate_frame :: "'a vmm_state_scheme \<Rightarrow> u64 \<times> 'a vmm_state_scheme" where
  "allocate_frame s = (let (frame, pmm) = pmm_allocate_frame (frames s) in (of_nat frame, s\<lparr>frames := pmm\<rparr>))"

definition free_frame :: "u64 \<Rightarrow> 'a vmm_state_scheme \<Rightarrow> bool \<times> 'a vmm_state_scheme" where
  "free_frame p s = (let (ok, pmm) = pmm_free_frame (unat p) (frames s) in (ok, s\<lparr>frames := pmm\<rparr>))"

definition release_owned_empty_table :: "u64 \<Rightarrow> nat \<Rightarrow> 'a vmm_state_scheme \<Rightarrow> bool \<times> 'a vmm_state_scheme" where
  "release_owned_empty_table t i s =
     (let v = pt_mem s t i in
      if v AND (PAGE_PRESENT OR PAGE_KOS_OWNED_TABLE) \<noteq> PAGE_PRESENT OR PAGE_KOS_OWNED_TABLE then (False, s)
      else if \<not> page_table_is_empty (v AND PAGE_ADDRESS_MASK) s then (False, s)
      else free_frame (v AND PAGE_ADDRESS_MASK) (set_entry t i 0 s))"

definition public_page_flags :: "u64 \<Rightarrow> u64" where
  "public_page_flags flags = flags AND NOT (PAGE_KOS_OWNED_TABLE OR PAGE_KOS_OWNED_MAPPING)"

definition combine_effective_flags :: "u64 \<Rightarrow> u64 \<Rightarrow> u64" where
  "combine_effective_flags parent_flags entry =
     (let r1 = (if parent_flags AND VMM_PAGE_WRITABLE = 0 then entry AND NOT VMM_PAGE_WRITABLE else entry);
          r2 = (if parent_flags AND VMM_PAGE_USER = 0 then r1 AND NOT VMM_PAGE_USER else r1)
      in if parent_flags AND VMM_PAGE_NO_EXECUTE \<noteq> 0 then r2 OR VMM_PAGE_NO_EXECUTE else r2)"

text \<open>\<open>next_table\<close>: the table an entry points to, created if there is none; the flag tells whether it was.\<close>

definition next_table :: "u64 \<Rightarrow> nat \<Rightarrow> u64 \<Rightarrow> u64 \<Rightarrow> 'a vmm_state_scheme
    \<Rightarrow> u64 option \<times> bool \<times> 'a vmm_state_scheme" where
  "next_table t i virtual_address flags s =
     (let entry = pt_mem s t i;
          is_user = virtual_address < 0x0000800000000000 \<or> flags AND VMM_PAGE_USER \<noteq> 0
      in if entry AND PAGE_PRESENT \<noteq> 0
         then if entry AND PAGE_HUGE \<noteq> 0 then (None, False, s)
              else let entry' = (if is_user then entry OR PAGE_USER else entry)
                   in (Some (entry' AND PAGE_ADDRESS_MASK), False, set_entry t i entry' s)
         else let (frame, s1) = allocate_frame s
              in if frame = 0 then (None, False, s1)
                 else let entry_flags = frame OR PAGE_PRESENT OR VMM_PAGE_WRITABLE OR PAGE_KOS_OWNED_TABLE;
                          entry_flags' = (if is_user then entry_flags OR PAGE_USER else entry_flags)
                      in (Some frame, True, set_entry t i entry_flags' (clear_page_table frame s1)))"

section \<open>Mapping, querying and unmapping one page\<close>

definition vmm_initialize_state :: "u64 \<Rightarrow> 'a vmm_state_scheme \<Rightarrow> bool \<times> 'a vmm_state_scheme" where
  "vmm_initialize_state hhdm s =
     (let cr3 = cpu_cr3 s AND PAGE_ADDRESS_MASK in
      if hhdm = 0 \<or> hhdm mod PAGE_SIZE \<noteq> 0 \<or> cr3 = 0 then (False, s)
      else (True, s\<lparr>hhdm_offset := hhdm, vmm_pml4 := cr3, kernel_pml4_phys := cr3, vmm_initialized := True\<rparr>))"

definition invalidate_if_active :: "u64 \<Rightarrow> u64 \<Rightarrow> 'a vmm_state_scheme \<Rightarrow> 'a vmm_state_scheme" where
  "invalidate_if_active pml4_phys virtual_address s =
     (if cpu_cr3 s AND PAGE_ADDRESS_MASK = pml4_phys
      then s\<lparr>invalidated := invalidated s @ [virtual_address]\<rparr> else s)"

definition map_arguments_ok :: "u64 \<Rightarrow> u64 \<Rightarrow> u64 \<Rightarrow> u64 \<Rightarrow> bool" where
  "map_arguments_ok pml4_phys virtual_address physical_address flags \<longleftrightarrow>
     \<not> (virtual_address mod PAGE_SIZE \<noteq> 0 \<or> physical_address mod PAGE_SIZE \<noteq> 0
        \<or> pml4_phys = 0 \<or> pml4_phys mod PAGE_SIZE \<noteq> 0
        \<or> flags AND NOT (VMM_PAGE_WRITABLE OR VMM_PAGE_USER OR VMM_PAGE_NO_EXECUTE) \<noteq> 0)
     \<and> \<not> (flags AND VMM_PAGE_USER \<noteq> 0 \<and> virtual_address \<ge> 0x0000800000000000)
     \<and> \<not> (virtual_address \<ge> 0x0000800000000000 \<and> virtual_address < 0xffff800000000000)"

definition rollback_table :: "bool \<Rightarrow> u64 \<Rightarrow> nat \<Rightarrow> 'a vmm_state_scheme \<Rightarrow> 'a vmm_state_scheme" where
  "rollback_table created t i s = (if created then snd (release_owned_empty_table t i s) else s)"

definition vmm_map_page_in :: "u64 \<Rightarrow> u64 \<Rightarrow> u64 \<Rightarrow> u64 \<Rightarrow> 'a vmm_state_scheme \<Rightarrow> bool \<times> 'a vmm_state_scheme" where
  "vmm_map_page_in pml4_phys virtual_address physical_address flags s =
     (if \<not> map_arguments_ok pml4_phys virtual_address physical_address flags then (False, s)
      else if \<not> vmm_initialized s then (False, s)
      else let i4 = page_table_index virtual_address 39;
               i3 = page_table_index virtual_address 30;
               i2 = page_table_index virtual_address 21;
               i1 = page_table_index virtual_address 12
           in case next_table pml4_phys i4 virtual_address flags s of
        (None, _, s1) \<Rightarrow> (False, s1)
      | (Some pdpt, pml4_table_created, s1) \<Rightarrow>
          (case next_table pdpt i3 virtual_address flags s1 of
             (None, _, s2) \<Rightarrow> (False, rollback_table pml4_table_created pml4_phys i4 s2)
           | (Some directory, pdpt_table_created, s2) \<Rightarrow>
               (case next_table directory i2 virtual_address flags s2 of
                  (None, _, s3) \<Rightarrow> (False, rollback_table pml4_table_created pml4_phys i4
                     (rollback_table pdpt_table_created pdpt i3 s3))
                | (Some table, directory_table_created, s3) \<Rightarrow>
                    if pt_mem s3 table i1 AND PAGE_PRESENT \<noteq> 0
                    then (False, rollback_table pml4_table_created pml4_phys i4
                           (rollback_table pdpt_table_created pdpt i3
                             (rollback_table directory_table_created directory i2 s3)))
                    else (True, invalidate_if_active pml4_phys virtual_address
                           (set_entry table i1 ((physical_address AND PAGE_ADDRESS_MASK) OR PAGE_PRESENT
                              OR PAGE_KOS_OWNED_MAPPING OR flags) s3)))))"

definition vmm_map_page :: "u64 \<Rightarrow> u64 \<Rightarrow> u64 \<Rightarrow> 'a vmm_state_scheme \<Rightarrow> bool \<times> 'a vmm_state_scheme" where
  "vmm_map_page virtual_address physical_address flags s =
     vmm_map_page_in (kernel_pml4_phys s) virtual_address physical_address flags s"

definition vmm_query_page_in :: "u64 \<Rightarrow> u64 \<Rightarrow> 'a vmm_state_scheme \<Rightarrow> (u64 \<times> u64) option" where
  "vmm_query_page_in pml4_phys virtual_address s =
     (if pml4_phys = 0 \<or> pml4_phys mod PAGE_SIZE \<noteq> 0 then None
      else if \<not> vmm_initialized s then None
      else let entry4 = pt_mem s pml4_phys (page_table_index virtual_address 39) in
        if entry4 AND PAGE_PRESENT = 0 then None
        else let entry3 = pt_mem s (entry4 AND PAGE_ADDRESS_MASK) (page_table_index virtual_address 30) in
          if entry3 AND PAGE_PRESENT = 0 then None
          else let effective3 = combine_effective_flags entry4 entry3 in
            if entry3 AND PAGE_HUGE \<noteq> 0
            then Some ((entry3 AND PAGE_1G_ADDRESS_MASK) OR (virtual_address AND mask 30), public_page_flags effective3)
            else let entry2 = pt_mem s (entry3 AND PAGE_ADDRESS_MASK) (page_table_index virtual_address 21) in
              if entry2 AND PAGE_PRESENT = 0 then None
              else let effective2 = combine_effective_flags effective3 entry2 in
                if entry2 AND PAGE_HUGE \<noteq> 0
                then Some ((entry2 AND PAGE_2M_ADDRESS_MASK) OR (virtual_address AND mask 21), public_page_flags effective2)
                else let entry1 = pt_mem s (entry2 AND PAGE_ADDRESS_MASK) (page_table_index virtual_address 12) in
                  if entry1 AND PAGE_PRESENT = 0 then None
                  else Some ((entry1 AND PAGE_ADDRESS_MASK) OR (virtual_address AND mask 12),
                         public_page_flags (combine_effective_flags effective2 entry1)))"

definition vmm_query_page :: "u64 \<Rightarrow> 'a vmm_state_scheme \<Rightarrow> (u64 \<times> u64) option" where
  "vmm_query_page virtual_address s = vmm_query_page_in (kernel_pml4_phys s) virtual_address s"

definition vmm_is_mapped :: "u64 \<Rightarrow> 'a vmm_state_scheme \<Rightarrow> bool" where
  "vmm_is_mapped virtual_address s \<longleftrightarrow> vmm_query_page virtual_address s \<noteq> None"

definition vmm_unmap_page_in :: "u64 \<Rightarrow> u64 \<Rightarrow> 'a vmm_state_scheme \<Rightarrow> u64 \<times> 'a vmm_state_scheme" where
  "vmm_unmap_page_in pml4_phys virtual_address s =
     (if virtual_address mod PAGE_SIZE \<noteq> 0 \<or> pml4_phys = 0 \<or> pml4_phys mod PAGE_SIZE \<noteq> 0 then (0, s)
      else if \<not> vmm_initialized s then (0, s)
      else let i4 = page_table_index virtual_address 39; pml4_value = pt_mem s pml4_phys i4 in
        if pml4_value AND PAGE_PRESENT = 0 \<or> pml4_value AND PAGE_HUGE \<noteq> 0 then (0, s)
        else let pdpt = pml4_value AND PAGE_ADDRESS_MASK;
                 i3 = page_table_index virtual_address 30; pdpt_value = pt_mem s pdpt i3 in
          if pdpt_value AND PAGE_PRESENT = 0 \<or> pdpt_value AND PAGE_HUGE \<noteq> 0 then (0, s)
          else let directory = pdpt_value AND PAGE_ADDRESS_MASK;
                   i2 = page_table_index virtual_address 21; directory_value = pt_mem s directory i2 in
            if directory_value AND PAGE_PRESENT = 0 \<or> directory_value AND PAGE_HUGE \<noteq> 0 then (0, s)
            else let table = directory_value AND PAGE_ADDRESS_MASK;
                     i1 = page_table_index virtual_address 12; entry = pt_mem s table i1 in
              if entry AND (PAGE_PRESENT OR PAGE_KOS_OWNED_MAPPING) \<noteq> PAGE_PRESENT OR PAGE_KOS_OWNED_MAPPING
              then (0, s)
              else let s1 = invalidate_if_active pml4_phys virtual_address (set_entry table i1 0 s);
                       (released1, s2) = release_owned_empty_table directory i2 s1;
                       (released2, s3) = (if released1 then release_owned_empty_table pdpt i3 s2 else (False, s2));
                       s4 = (if released2 then snd (release_owned_empty_table pml4_phys i4 s3) else s3)
                   in (entry AND PAGE_ADDRESS_MASK, s4))"

definition vmm_unmap_page :: "u64 \<Rightarrow> 'a vmm_state_scheme \<Rightarrow> u64 \<times> 'a vmm_state_scheme" where
  "vmm_unmap_page virtual_address s = vmm_unmap_page_in (kernel_pml4_phys s) virtual_address s"

section \<open>Permissions, runs of pages, memory-mapped devices\<close>

definition PAGE_PERMISSIONS :: u64 where
  "PAGE_PERMISSIONS = VMM_PAGE_WRITABLE OR VMM_PAGE_USER OR VMM_PAGE_NO_EXECUTE"

definition set_leaf_permissions :: "u64 \<Rightarrow> u64 \<Rightarrow> nat \<Rightarrow> u64 \<Rightarrow> 'a vmm_state_scheme \<Rightarrow> bool \<times> 'a vmm_state_scheme" where
  "set_leaf_permissions virtual_address t i permissions s =
     (let s1 = set_entry t i ((pt_mem s t i AND NOT PAGE_PERMISSIONS) OR permissions) s
      in (True, s1\<lparr>invalidated := invalidated s1 @ [virtual_address]\<rparr>))"

definition vmm_set_page_permissions :: "u64 \<Rightarrow> u64 \<Rightarrow> 'a vmm_state_scheme \<Rightarrow> bool \<times> 'a vmm_state_scheme" where
  "vmm_set_page_permissions virtual_address permissions s =
     (if \<not> vmm_initialized s \<or> permissions AND NOT PAGE_PERMISSIONS \<noteq> 0 then (False, s)
      else let pml4_value = pt_mem s (vmm_pml4 s) (page_table_index virtual_address 39) in
        if pml4_value AND PAGE_PRESENT = 0 \<or> pml4_value AND PAGE_HUGE \<noteq> 0 then (False, s)
        else let pdpt = pml4_value AND PAGE_ADDRESS_MASK;
                 i3 = page_table_index virtual_address 30; pdpt_value = pt_mem s pdpt i3 in
          if pdpt_value AND PAGE_PRESENT = 0 then (False, s)
          else if pdpt_value AND PAGE_HUGE \<noteq> 0 then set_leaf_permissions virtual_address pdpt i3 permissions s
          else let directory = pdpt_value AND PAGE_ADDRESS_MASK;
                   i2 = page_table_index virtual_address 21; directory_value = pt_mem s directory i2 in
            if directory_value AND PAGE_PRESENT = 0 then (False, s)
            else if directory_value AND PAGE_HUGE \<noteq> 0
            then set_leaf_permissions virtual_address directory i2 permissions s
            else let table = directory_value AND PAGE_ADDRESS_MASK; i1 = page_table_index virtual_address 12 in
              if pt_mem s table i1 AND PAGE_PRESENT = 0 then (False, s)
              else set_leaf_permissions virtual_address table i1 permissions s)"

definition unmap_first :: "u64 \<Rightarrow> nat \<Rightarrow> 'a vmm_state_scheme \<Rightarrow> 'a vmm_state_scheme" where
  "unmap_first virtual_address n s =
     fold (\<lambda>j s. snd (vmm_unmap_page (virtual_address + of_nat j * PAGE_SIZE) s)) [0..<n] s"

fun map_pages_from :: "nat \<Rightarrow> nat \<Rightarrow> u64 \<Rightarrow> u64 \<Rightarrow> u64 \<Rightarrow> 'a vmm_state_scheme \<Rightarrow> bool \<times> 'a vmm_state_scheme" where
  "map_pages_from i 0 virtual_address physical_address flags s = (True, s)"
| "map_pages_from i (Suc n) virtual_address physical_address flags s =
     (let (ok, s1) = vmm_map_page (virtual_address + of_nat i * PAGE_SIZE)
                       (physical_address + of_nat i * PAGE_SIZE) flags s
      in if ok then map_pages_from (Suc i) n virtual_address physical_address flags s1
         else (False, unmap_first virtual_address i s1))"

definition vmm_map_pages :: "u64 \<Rightarrow> u64 \<Rightarrow> nat \<Rightarrow> u64 \<Rightarrow> 'a vmm_state_scheme \<Rightarrow> bool \<times> 'a vmm_state_scheme" where
  "vmm_map_pages virtual_address physical_address page_count flags s =
     map_pages_from 0 page_count virtual_address physical_address flags s"

definition vmm_unmap_pages :: "u64 \<Rightarrow> nat \<Rightarrow> 'a vmm_state_scheme \<Rightarrow> nat \<times> 'a vmm_state_scheme" where
  "vmm_unmap_pages virtual_address page_count s =
     fold (\<lambda>i (unmapped, s). let (p, s1) = vmm_unmap_page (virtual_address + of_nat i * PAGE_SIZE) s
                             in (if p \<noteq> 0 then unmapped + 1 else unmapped, s1)) [0..<page_count] (0, s)"

definition vmm_map_mmio :: "u64 \<Rightarrow> u64 \<Rightarrow> 'a vmm_state_scheme \<Rightarrow> u64 \<times> 'a vmm_state_scheme" where
  "vmm_map_mmio physical_address size_bytes s =
     (if size_bytes = 0 then (0, s)
      else let page_offset = physical_address AND (PAGE_SIZE - 1);
               start_phys = physical_address AND NOT (PAGE_SIZE - 1);
               end_phys = (physical_address + size_bytes + PAGE_SIZE - 1) AND NOT (PAGE_SIZE - 1);
               count = (unat end_phys + 4095 - unat start_phys) div 4096;
               s1 = fold (\<lambda>k s. let p = start_phys + of_nat k * PAGE_SIZE; v = vmm_physical_to_virtual p s
                                in if vmm_is_mapped v s then s
                                   else snd (vmm_map_page v p (VMM_PAGE_WRITABLE OR VMM_PAGE_NO_EXECUTE) s)) [0..<count] s
           in (vmm_physical_to_virtual start_phys s + page_offset, s1))"

section \<open>Address spaces\<close>

definition vmm_create_address_space :: "'a vmm_state_scheme \<Rightarrow> u64 \<times> 'a vmm_state_scheme" where
  "vmm_create_address_space s =
     (if \<not> vmm_initialized s \<or> vmm_pml4 s = 0 then (0, s)
      else let (pml4_frame, s1) = allocate_frame s
           in if pml4_frame = 0 then (0, s1)
              else (pml4_frame, s1\<lparr>pt_mem := (pt_mem s1)(pml4_frame :=
                (\<lambda>i. if i < 256 then 0 else if i < 512 then pt_mem s1 (vmm_pml4 s1) i else pt_mem s1 pml4_frame i))\<rparr>))"

definition clear_leaf :: "u64 \<Rightarrow> nat \<Rightarrow> 'a vmm_state_scheme \<Rightarrow> 'a vmm_state_scheme" where
  "clear_leaf t i s = set_entry t i 0 (snd (free_frame (pt_mem s t i AND PAGE_ADDRESS_MASK) s))"

definition clear_pt :: "u64 \<Rightarrow> 'a vmm_state_scheme \<Rightarrow> 'a vmm_state_scheme" where
  "clear_pt pt s = fold (\<lambda>i s. if pt_mem s pt i AND PAGE_PRESENT = 0 then s else clear_leaf pt i s) [0..<512] s"

text \<open>One level of the nested loops of \<open>vmm_clear_user_address_space\<close>: clear what the entries below \<open>n\<close> point
  to, free it and zero the entry; \<open>huge\<close> tells whether the level can hold a huge page.\<close>

definition clear_level :: "nat \<Rightarrow> bool \<Rightarrow> (u64 \<Rightarrow> 'a vmm_state_scheme \<Rightarrow> 'a vmm_state_scheme) \<Rightarrow> u64
    \<Rightarrow> 'a vmm_state_scheme \<Rightarrow> 'a vmm_state_scheme" where
  "clear_level n huge clear_next t s =
     fold (\<lambda>i s. let e = pt_mem s t i in
       if e AND PAGE_PRESENT = 0 then s
       else if huge \<and> e AND PAGE_HUGE \<noteq> 0 then clear_leaf t i s
       else set_entry t i 0 (snd (free_frame (e AND PAGE_ADDRESS_MASK) (clear_next (e AND PAGE_ADDRESS_MASK) s))))
       [0..<n] s"

definition clear_pd :: "u64 \<Rightarrow> 'a vmm_state_scheme \<Rightarrow> 'a vmm_state_scheme" where
  "clear_pd pd s = clear_level 512 True clear_pt pd s"

definition clear_pdpt :: "u64 \<Rightarrow> 'a vmm_state_scheme \<Rightarrow> 'a vmm_state_scheme" where
  "clear_pdpt pdpt s = clear_level 512 True clear_pd pdpt s"

definition leave_address_space :: "u64 \<Rightarrow> 'a vmm_state_scheme \<Rightarrow> 'a vmm_state_scheme" where
  "leave_address_space pml4_phys s =
     (if cpu_cr3 s AND PAGE_ADDRESS_MASK = pml4_phys then s\<lparr>cpu_cr3 := kernel_pml4_phys s\<rparr> else s)"

definition vmm_clear_user_address_space :: "u64 \<Rightarrow> 'a vmm_state_scheme \<Rightarrow> 'a vmm_state_scheme" where
  "vmm_clear_user_address_space pml4_phys s =
     (if pml4_phys = 0 \<or> pml4_phys mod PAGE_SIZE \<noteq> 0 then s
      else if \<not> vmm_initialized s \<or> pml4_phys = kernel_pml4_phys s then s
      else leave_address_space pml4_phys (clear_level 256 False clear_pdpt pml4_phys s))"

definition vmm_destroy_address_space :: "u64 \<Rightarrow> 'a vmm_state_scheme \<Rightarrow> 'a vmm_state_scheme" where
  "vmm_destroy_address_space pml4_phys s =
     (if pml4_phys = 0 \<or> pml4_phys mod PAGE_SIZE \<noteq> 0 then s
      else if \<not> vmm_initialized s \<or> pml4_phys = kernel_pml4_phys s then s
      else snd (free_frame pml4_phys (vmm_clear_user_address_space pml4_phys (leave_address_space pml4_phys s))))"

end
