(* ===== verification/KOS_Vmm_Tables.thy ===== *)
theory KOS_Vmm_Tables
  imports KOS_Vmm
begin

text \<open>
  Page tables as trees: which table the walk of an address reaches at each depth (\<open>tab\<close>, depth 0 is the
  root), which entry it ends at (\<open>found\<close>), and how these change when one entry is written. The tables
  of an address space are not shared between paths (\<open>nosharing\<close>); every write of the virtual memory
  manager is one of three kinds: it keeps what an entry points to, it replaces an entry that leads to
  nothing mapped by another such entry, or it writes a leaf.
\<close>

section \<open>Bits\<close>

lemma PAGE_ADDRESS_MASK_bits: "bit PAGE_ADDRESS_MASK n \<longleftrightarrow> 12 \<le> n \<and> n < 52"
proof -
  have eq: "PAGE_ADDRESS_MASK = mask 52 AND NOT (mask 12)"
    by (simp add: PAGE_ADDRESS_MASK_def mask_eq_exp_minus_1)
  show ?thesis unfolding eq by (auto simp: bit_and_iff bit_not_iff bit_mask_iff)
qed

definition frame_address :: "u64 \<Rightarrow> bool" where
  "frame_address p \<longleftrightarrow> p AND PAGE_ADDRESS_MASK = p"

lemma frame_address_masked [simp]: "frame_address (e AND PAGE_ADDRESS_MASK)"
  by (simp add: frame_address_def ac_simps)

lemma mask_low_bits:
  "PAGE_PRESENT AND PAGE_ADDRESS_MASK = 0" "PAGE_USER AND PAGE_ADDRESS_MASK = 0"
  "PAGE_HUGE AND PAGE_ADDRESS_MASK = 0" "VMM_PAGE_WRITABLE AND PAGE_ADDRESS_MASK = 0"
  "VMM_PAGE_USER AND PAGE_ADDRESS_MASK = 0"
  "VMM_PAGE_NO_EXECUTE AND PAGE_ADDRESS_MASK = 0" "PAGE_KOS_OWNED_TABLE AND PAGE_ADDRESS_MASK = 0"
  "PAGE_KOS_OWNED_MAPPING AND PAGE_ADDRESS_MASK = 0"
  by (simp_all add: page_bits PAGE_ADDRESS_MASK_def)

lemma frame_low_bits:
  assumes "frame_address p" "b AND PAGE_ADDRESS_MASK = 0"
  shows "p AND b = 0"
proof -
  have "p AND b = p AND (b AND PAGE_ADDRESS_MASK)"
    using assms(1) by (metis (no_types, lifting) and.commute and.assoc frame_address_def)
  with assms(2) show ?thesis by simp
qed

lemma page_table_index_less: "page_table_index va k < 512"
proof -
  have "unat (w AND 511 :: u64) < 512" for w
  proof -
    have "(511 :: u64) = mask 9" by (simp add: mask_eq_exp_minus_1)
    then have "unat (w AND 511) = unat (take_bit 9 w)" by (simp only: take_bit_eq_mask)
    then show ?thesis using take_bit_nat_less_exp [of 9 "unat w"] by (simp add: unsigned_take_bit_eq)
  qed
  then show ?thesis by (simp add: page_table_index_def)
qed

section \<open>Walks\<close>

definition present :: "u64 \<Rightarrow> bool" where
  "present e \<longleftrightarrow> e AND PAGE_PRESENT \<noteq> 0"

definition huge :: "u64 \<Rightarrow> bool" where
  "huge e \<longleftrightarrow> e AND PAGE_HUGE \<noteq> 0"

definition sub :: "u64 \<Rightarrow> u64 option" where
  "sub e = (if present e \<and> \<not> huge e then Some (e AND PAGE_ADDRESS_MASK) else None)"

definition ix :: "nat \<Rightarrow> u64 \<Rightarrow> nat" where
  "ix d va = page_table_index va (39 - 9 * d)"

fun tab :: "page_tables \<Rightarrow> u64 \<Rightarrow> u64 \<Rightarrow> nat \<Rightarrow> u64 option" where
  "tab m p va 0 = Some p"
| "tab m p va (Suc d) = (case tab m p va d of None \<Rightarrow> None | Some t \<Rightarrow> sub (m t (ix d va)))"

definition same_path :: "nat \<Rightarrow> u64 \<Rightarrow> u64 \<Rightarrow> bool" where
  "same_path d va va' \<longleftrightarrow> (\<forall>k < d. ix k va = ix k va')"

definition nosharing :: "page_tables \<Rightarrow> u64 \<Rightarrow> bool" where
  "nosharing m p \<longleftrightarrow> (\<forall>va va' d d' t. d \<le> 3 \<longrightarrow> d' \<le> 3 \<longrightarrow> tab m p va d = Some t \<longrightarrow>
     tab m p va' d' = Some t \<longrightarrow> d = d' \<and> same_path d va va')"

text \<open>The entry at which a walk ends: in the deepest table it reaches.\<close>

definition depth :: "page_tables \<Rightarrow> u64 \<Rightarrow> u64 \<Rightarrow> nat" where
  "depth m p va = (if tab m p va 3 \<noteq> None then 3 else if tab m p va 2 \<noteq> None then 2
     else if tab m p va 1 \<noteq> None then 1 else 0)"

definition last_entry :: "page_tables \<Rightarrow> u64 \<Rightarrow> u64 \<Rightarrow> u64" where
  "last_entry m p va = m (the (tab m p va (depth m p va))) (ix (depth m p va) va)"

definition found :: "page_tables \<Rightarrow> u64 \<Rightarrow> u64 \<Rightarrow> (nat \<times> u64) option" where
  "found m p va = (if present (last_entry m p va) then Some (depth m p va, last_entry m p va) else None)"

definition empty_table :: "page_tables \<Rightarrow> u64 \<Rightarrow> bool" where
  "empty_table m t \<longleftrightarrow> (\<forall>i < 512. \<not> present (m t i))"

lemma ix_less [simp]: "ix d va < 512"
  by (simp add: ix_def page_table_index_less)

lemma same_path_refl [simp]: "same_path d va va"
  by (simp add: same_path_def)

lemma same_path_sym: "same_path d va va' \<longleftrightarrow> same_path d va' va"
  by (auto simp: same_path_def)

lemma same_path_Suc: "same_path (Suc d) va va' \<longleftrightarrow> same_path d va va' \<and> ix d va = ix d va'"
  by (auto simp: same_path_def less_Suc_eq)

lemma same_path_mono: "same_path d va va' \<Longrightarrow> k \<le> d \<Longrightarrow> same_path k va va'"
  by (simp add: same_path_def)

lemma tab_same_path: "same_path d va va' \<Longrightarrow> tab m p va d = tab m p va' d"
  by (induction d) (auto simp: same_path_Suc split: option.splits)

lemma tab_None_mono: "tab m p va d = None \<Longrightarrow> d \<le> d' \<Longrightarrow> tab m p va d' = None"
  by (induction d') (auto simp: le_Suc_eq)

lemma nosharingD:
  assumes "nosharing m p" "tab m p va d = Some t" "tab m p va' d' = Some t" "d \<le> 3" "d' \<le> 3"
  shows "d = d'" "same_path d va va'"
  using assms unfolding nosharing_def by blast+

lemma nosharing_cong:
  assumes "nosharing m p" and eq: "\<And>va d. d \<le> 3 \<Longrightarrow> tab m' p va d = tab m p va d"
  shows "nosharing m' p"
  unfolding nosharing_def
proof (intro allI impI)
  fix va va' d d' t
  assume "d \<le> 3" "d' \<le> 3" "tab m' p va d = Some t" "tab m' p va' d' = Some t"
  then show "d = d' \<and> same_path d va va'"
    using nosharingD [OF assms(1), of va d t va' d'] eq by metis
qed

lemma depth_le: "depth m p va \<le> 3"
  by (simp add: depth_def)

lemma tab_depth: "tab m p va (depth m p va) \<noteq> None"
  by (auto simp: depth_def)

lemma depth_eqI:
  assumes "tab m p va d \<noteq> None" "d \<le> 3" "d < 3 \<Longrightarrow> tab m p va (Suc d) = None"
  shows "depth m p va = d"
proof -
  have some: "tab m p va k \<noteq> None" if "k \<le> d" for k
    using assms(1) tab_None_mono [of m p va k d] that by (cases "tab m p va k") auto
  have none: "tab m p va k = None" if "d < k" "k \<le> 3" for k
    using assms(3) tab_None_mono [of m p va "Suc d" k] that by (simp del: tab.simps)
  consider "d = 0" | "d = 1" | "d = 2" | "d = 3" using assms(2) by linarith
  then show ?thesis
  proof cases
    case 1
    then show ?thesis using none [of 1] none [of 2] none [of 3] by (simp add: depth_def del: tab.simps)
  next
    case 2
    then show ?thesis using none [of 2] none [of 3] some [of 1] by (simp add: depth_def del: tab.simps)
  next
    case 3
    then show ?thesis using none [of 3] some [of 2] by (simp add: depth_def del: tab.simps)
  next
    case 4
    then show ?thesis using some [of 3] by (simp add: depth_def del: tab.simps)
  qed
qed

lemma last_entryI: "tab m p va d = Some t \<Longrightarrow> d \<le> 3 \<Longrightarrow> (d < 3 \<Longrightarrow> tab m p va (Suc d) = None) \<Longrightarrow>
  depth m p va = d \<and> last_entry m p va = m t (ix d va)"
  using depth_eqI [of m p va d] by (simp add: last_entry_def)

lemma found_cong:
  assumes "\<And>d. d \<le> 3 \<Longrightarrow> tab m' p va d = tab m p va d"
    and "\<And>t d. d \<le> 3 \<Longrightarrow> tab m p va d = Some t \<Longrightarrow> depth m p va = d \<Longrightarrow> m' t (ix d va) = m t (ix d va)"
  shows "found m' p va = found m p va"
proof -
  have d: "depth m' p va = depth m p va"
    using assms(1) [of 1] assms(1) [of 2] assms(1) [of 3] by (simp add: depth_def del: tab.simps)
  obtain t where t: "tab m p va (depth m p va) = Some t" using tab_depth by (metis option.exhaust)
  then have "last_entry m' p va = last_entry m p va"
    using assms(1) [of "depth m p va"] assms(2) [OF depth_le t] depth_le [of m p va]
    by (simp add: last_entry_def d)
  then show ?thesis by (simp add: found_def d)
qed

section \<open>Writing one entry\<close>

definition put :: "u64 \<Rightarrow> nat \<Rightarrow> u64 \<Rightarrow> page_tables \<Rightarrow> page_tables" where
  "put t i e m = m(t := (m t)(i := e))"

lemma put_same [simp]: "put t i e m t i = e"
  by (simp add: put_def)

lemma put_other: "t' \<noteq> t \<or> i' \<noteq> i \<Longrightarrow> put t i e m t' i' = m t' i'"
  by (auto simp: put_def)

text \<open>Off the path of the written entry, and above it, nothing changes.\<close>

lemma tab_put_off:
  assumes "nosharing m p" "tab m p va d = Some t" "d \<le> 3" "d' \<le> 3"
    and "\<not> same_path (Suc d) va va' \<or> d' \<le> d"
  shows "tab (put t (ix d va) e m) p va' d' = tab m p va' d'"
  using assms(4,5)
proof (induction d')
  case (Suc k)
  then have IH: "tab (put t (ix d va) e m) p va' k = tab m p va' k" by auto
  show ?case
  proof (cases "tab m p va' k")
    case (Some t')
    have "t' \<noteq> t \<or> ix k va' \<noteq> ix d va"
    proof (rule ccontr)
      assume "\<not> (t' \<noteq> t \<or> ix k va' \<noteq> ix d va)"
      then have "tab m p va' k = Some t" "ix k va' = ix d va" using Some by simp_all
      moreover from this have "d = k" "same_path d va va'"
        using nosharingD [OF assms(1,2)] Suc.prems assms(3) by auto
      ultimately show False using Suc.prems by (auto simp: same_path_Suc)
    qed
    then show ?thesis by (simp add: IH Some put_other)
  qed (simp add: IH)
qed simp

lemma tab_put_at:
  assumes "nosharing m p" "tab m p va d = Some t" "d \<le> 3" "same_path (Suc d) va va'"
  shows "tab (put t (ix d va) e m) p va' (Suc d) = sub e"
proof -
  have "tab (put t (ix d va) e m) p va' d = tab m p va' d"
    using assms by (intro tab_put_off) auto
  also have "\<dots> = Some t"
    using assms tab_same_path [of d va va'] by (simp add: same_path_Suc)
  finally show ?thesis using assms(4) by (simp add: same_path_Suc)
qed

text \<open>A write that keeps what the entry points to.\<close>

lemma tab_put_keep:
  assumes "nosharing m p" "tab m p va d = Some t" "d \<le> 3" "d' \<le> 3"
    and "sub e = sub (m t (ix d va))"
  shows "tab (put t (ix d va) e m) p va' d' = tab m p va' d'"
  using assms(4)
proof (induction d')
  case (Suc k)
  then have IH: "tab (put t (ix d va) e m) p va' k = tab m p va' k" by simp
  show ?case
  proof (cases "tab m p va' k")
    case (Some t')
    have "sub (put t (ix d va) e m t' (ix k va')) = sub (m t' (ix k va'))"
      using assms(5) by (auto simp: put_def)
    then show ?thesis by (simp add: IH Some)
  qed (simp add: IH)
qed simp

lemma found_put_keep:
  assumes "nosharing m p" "tab m p va d = Some t" "d \<le> 2"
    and "sub e = sub (m t (ix d va))" "sub (m t (ix d va)) \<noteq> None"
  shows "found (put t (ix d va) e m) p va' = found m p va'"
proof (rule found_cong)
  show "tab (put t (ix d va) e m) p va' k = tab m p va' k" if "k \<le> 3" for k
    using tab_put_keep assms that by simp
next
  fix t' k assume k: "k \<le> 3" "tab m p va' k = Some t'" "depth m p va' = k"
  show "put t (ix d va) e m t' (ix k va') = m t' (ix k va')"
  proof (rule put_other, rule ccontr)
    assume "\<not> (t' \<noteq> t \<or> ix k va' \<noteq> ix d va)"
    then have e: "t' = t" "ix k va' = ix d va" by simp_all
    then have "k = d" using nosharingD(1) [OF assms(1) _ k(2)] assms k by auto
    then have "tab m p va' (Suc k) \<noteq> None" using e k assms(5) by simp
    with \<open>k = d\<close> assms(3) have "depth m p va' \<noteq> d"
      by (auto simp: depth_def numeral_eq_Suc le_Suc_eq split: if_splits)
    with k \<open>k = d\<close> show False by simp
  qed
qed

text \<open>A write between two entries neither of which leads to a mapping: each is not present, or points to
  an empty table.\<close>

definition leads_nowhere :: "page_tables \<Rightarrow> u64 \<Rightarrow> bool" where
  "leads_nowhere m e \<longleftrightarrow> (case sub e of None \<Rightarrow> \<not> present e | Some f \<Rightarrow> empty_table m f)"

lemma empty_table_sub: "empty_table m f \<Longrightarrow> i < 512 \<Longrightarrow> sub (m f i) = None"
  by (simp add: empty_table_def sub_def)

lemma tab_past_nowhere:
  assumes "tab m p va (Suc d) = sub e" "leads_nowhere m e" "Suc (Suc d) \<le> d'"
  shows "tab m p va d' = None"
proof -
  have "tab m p va (Suc (Suc d)) = None"
    using assms(1,2) by (cases "sub e") (auto simp: leads_nowhere_def empty_table_sub)
  then show ?thesis using tab_None_mono assms(3) by blast
qed

lemma tab_put_nowhere:
  assumes "nosharing m p" "tab m p va d = Some t" "d \<le> 2" "d' \<le> 3"
    and "leads_nowhere m (m t (ix d va))" "leads_nowhere (put t (ix d va) e m) e"
  shows "tab (put t (ix d va) e m) p va' d' =
    (if same_path (Suc d) va va' \<and> d' = Suc d then sub e else tab m p va' d')"
proof (cases "same_path (Suc d) va va' \<and> d < d'")
  case True
  have at: "tab (put t (ix d va) e m) p va' (Suc d) = sub e"
    using tab_put_at [OF assms(1,2)] assms(3) True by simp
  have "tab m p va' d = Some t"
    using True tab_same_path [of d va va' m p] assms(2) by (simp add: same_path_Suc)
  then have old: "tab m p va' (Suc d) = sub (m t (ix d va))"
    using True by (simp add: same_path_Suc)
  show ?thesis
  proof (cases "d' = Suc d")
    case False
    then have "Suc (Suc d) \<le> d'" using True by simp
    then show ?thesis
      using False tab_past_nowhere [OF at assms(6)] tab_past_nowhere [OF old assms(5)] by simp
  qed (use True at in simp)
next
  case False
  then have "\<not> same_path (Suc d) va va' \<or> d' \<le> d" by auto
  from tab_put_off [OF assms(1,2) _ assms(4) this] assms(3) have
    "tab (put t (ix d va) e m) p va' d' = tab m p va' d'" by simp
  with False show ?thesis by auto
qed

lemma found_nowhere:
  assumes "tab m p va d = Some t" "d \<le> 2" "leads_nowhere m (m t (ix d va))"
  shows "found m p va = None"
proof (cases "sub (m t (ix d va))")
  case None
  then have "last_entry m p va = m t (ix d va)" using last_entryI [of m p va d t] assms by simp
  then show ?thesis using assms(3) None by (simp add: leads_nowhere_def found_def)
next
  case (Some f)
  then have f: "tab m p va (Suc d) = Some f" "empty_table m f" using assms by (auto simp: leads_nowhere_def)
  then have "last_entry m p va = m f (ix (Suc d) va)"
    using last_entryI [of m p va "Suc d" f] assms(2) by (simp add: empty_table_sub)
  then show ?thesis using f by (simp add: found_def empty_table_def)
qed

lemma found_put_nowhere:
  assumes "nosharing m p" "tab m p va d = Some t" "d \<le> 2"
    and "leads_nowhere m (m t (ix d va))" "leads_nowhere (put t (ix d va) e m) e"
  shows "found (put t (ix d va) e m) p va' = found m p va'"
proof (cases "same_path (Suc d) va va'")
  case True
  have t: "tab m p va' d = Some t" "ix d va' = ix d va"
    using True tab_same_path [of d va va' m p] assms(2) by (auto simp: same_path_Suc)
  moreover have "tab (put t (ix d va) e m) p va' d = Some t"
    using tab_put_off [OF assms(1,2), of d va' e] assms(3) t by simp
  ultimately show ?thesis
    using found_nowhere [of m p va' d t] found_nowhere [of "put t (ix d va) e m" p va' d t] assms by simp
next
  case False
  show ?thesis
  proof (rule found_cong)
    show "tab (put t (ix d va) e m) p va' k = tab m p va' k" if "k \<le> 3" for k
      using tab_put_off [OF assms(1,2)] assms(3) that False by simp
  next
    fix t' k assume k: "k \<le> 3" "tab m p va' k = Some t'" "depth m p va' = k"
    show "put t (ix d va) e m t' (ix k va') = m t' (ix k va')"
    proof (rule put_other, rule ccontr)
      assume "\<not> (t' \<noteq> t \<or> ix k va' \<noteq> ix d va)"
      then have e: "t' = t" "ix k va' = ix d va" by simp_all
      then have "d = k" "same_path d va va'" using nosharingD [OF assms(1,2), of va' k] k assms(3) by auto
      with e False show False by (simp add: same_path_Suc)
    qed
  qed
qed

lemma nosharing_put_keep:
  assumes "nosharing m p" "tab m p va d = Some t" "d \<le> 3" "sub e = sub (m t (ix d va))"
  shows "nosharing (put t (ix d va) e m) p"
  by (rule nosharing_cong [OF assms(1)]) (rule tab_put_keep [OF assms(1,2,3) _ assms(4)])

lemma nosharing_put_nowhere:
  assumes ns: "nosharing m p" and t: "tab m p va d = Some t" "d \<le> 2"
    and nw: "leads_nowhere m (m t (ix d va))" "leads_nowhere (put t (ix d va) e m) e"
    and fresh: "\<And>va k. k \<le> 3 \<Longrightarrow> sub e \<noteq> None \<Longrightarrow> tab m p va k \<noteq> sub e"
  shows "nosharing (put t (ix d va) e m) p"
  unfolding nosharing_def
proof (intro allI impI)
  fix va1 va2 d1 d2 t'
  assume d: "d1 \<le> 3" "d2 \<le> 3" and tabs: "tab (put t (ix d va) e m) p va1 d1 = Some t'"
    "tab (put t (ix d va) e m) p va2 d2 = Some t'"
  note P = tab_put_nowhere [OF ns t _ nw]
  let ?n1 = "same_path (Suc d) va va1 \<and> d1 = Suc d" and ?n2 = "same_path (Suc d) va va2 \<and> d2 = Suc d"
  have 1: "if ?n1 then sub e = Some t' else tab m p va1 d1 = Some t'" using tabs(1) unfolding P [OF d(1)] by (auto split: if_splits)
  have 2: "if ?n2 then sub e = Some t' else tab m p va2 d2 = Some t'" using tabs(2) unfolding P [OF d(2)] by (auto split: if_splits)
  show "d1 = d2 \<and> same_path d1 va1 va2"
  proof (cases ?n1)
    case n1: True
    then have "?n2" using 1 2 fresh [OF d(2), of va2] by (auto split: if_splits)
    with n1 show ?thesis by (simp add: same_path_def)
  next
    case n1: False
    then have "\<not> ?n2" using 1 2 fresh [OF d(1), of va1] by (auto split: if_splits)
    with n1 1 2 have "tab m p va1 d1 = Some t'" "tab m p va2 d2 = Some t'" by argo+
    then show ?thesis using nosharingD [OF ns _ _ d] by blast
  qed
qed

text \<open>A write of a leaf.\<close>

lemma tab_put_leaf:
  assumes "nosharing m p" "tab m p va 3 = Some t" "d' \<le> 3"
  shows "tab (put t (ix 3 va) e m) p va' d' = tab m p va' d'"
  using tab_put_off [OF assms(1,2)] assms(3) by simp

lemma found_put_leaf:
  assumes "nosharing m p" "tab m p va 3 = Some t"
  shows "found (put t (ix 3 va) e m) p va' =
    (if same_path 4 va va' then (if present e then Some (3, e) else None) else found m p va')"
proof (cases "same_path 4 va va'")
  case True
  then have s: "same_path 3 va va'" "ix 3 va = ix 3 va'" by (auto simp: same_path_def)
  have "tab (put t (ix 3 va) e m) p va' 3 = Some t"
    using tab_put_leaf [OF assms, of 3] tab_same_path [OF s(1), of m p] assms(2) by simp
  from last_entryI [OF this] have "depth (put t (ix 3 va) e m) p va' = 3
      \<and> last_entry (put t (ix 3 va) e m) p va' = e" using s by simp
  with True show ?thesis by (simp add: found_def)
next
  case False
  have "found (put t (ix 3 va) e m) p va' = found m p va'"
  proof (rule found_cong)
    show "tab (put t (ix 3 va) e m) p va' k = tab m p va' k" if "k \<le> 3" for k
      using tab_put_leaf [OF assms] that by simp
  next
    fix t' k assume k: "k \<le> 3" "tab m p va' k = Some t'"
    show "put t (ix 3 va) e m t' (ix k va') = m t' (ix k va')"
    proof (rule put_other, rule ccontr)
      assume "\<not> (t' \<noteq> t \<or> ix k va' \<noteq> ix 3 va)"
      then have e: "t' = t" "ix k va' = ix 3 va" by simp_all
      then have "3 = k" "same_path 3 va va'" using nosharingD [OF assms, of va' k] k by auto
      with e False show False by (auto simp: same_path_def less_Suc_eq numeral_eq_Suc)
    qed
  qed
  with False show ?thesis by simp
qed

lemma nosharing_put_leaf:
  assumes "nosharing m p" "tab m p va 3 = Some t"
  shows "nosharing (put t (ix 3 va) e m) p"
  by (rule nosharing_cong [OF assms(1)]) (rule tab_put_leaf [OF assms])

text \<open>Filling a table that is not in use.\<close>

definition fill :: "u64 \<Rightarrow> (nat \<Rightarrow> u64) \<Rightarrow> page_tables \<Rightarrow> page_tables" where
  "fill f c m = m(f := c)"

lemma fill_simps [simp]: "fill f c m f = c" "t \<noteq> f \<Longrightarrow> fill f c m t = m t"
  by (simp_all add: fill_def)

lemma tab_fill:
  assumes "\<And>va k. k \<le> 3 \<Longrightarrow> tab m p va k \<noteq> Some f" "d \<le> 3"
  shows "tab (fill f c m) p va d = tab m p va d"
  using assms(2)
proof (induction d)
  case (Suc d)
  then have IH: "tab (fill f c m) p va d = tab m p va d" by simp
  have "tab m p va d \<noteq> Some f" using assms(1) Suc.prems by simp
  then show ?case by (cases "tab m p va d") (auto simp: IH)
qed simp

lemma found_fill:
  assumes "\<And>va k. k \<le> 3 \<Longrightarrow> tab m p va k \<noteq> Some f"
  shows "found (fill f c m) p va = found m p va"
proof (rule found_cong)
  show "tab (fill f c m) p va d = tab m p va d" if "d \<le> 3" for d using tab_fill [OF assms that] .
  show "fill f c m t (ix d va) = m t (ix d va)" if "d \<le> 3" "tab m p va d = Some t" for t d
    using assms [of d va] that by auto
qed

lemma nosharing_fill:
  assumes "nosharing m p" "\<And>va k. k \<le> 3 \<Longrightarrow> tab m p va k \<noteq> Some f"
  shows "nosharing (fill f c m) p"
  by (rule nosharing_cong [OF assms(1)]) (rule tab_fill [OF assms(2)])

end
