(* ===== verification/KOS_Vmm_Correct.thy ===== *)
theory KOS_Vmm_Correct
  imports KOS_Vmm_Tables
begin

text \<open>
  Correctness of mapping and unmapping a page. \<open>vmm_inv s p\<close> says that the tables below the root \<open>p\<close> are
  not shared, that none of them is a free frame, and that a table the manager marked as its own is a
  frame that is out of the physical memory manager, whose contract is used through the interpretation
  \<open>pmm_frames\<close>.
\<close>

section \<open>The invariant\<close>

definition owned_entry :: "u64 \<Rightarrow> bool" where
  "owned_entry e \<longleftrightarrow> e AND PAGE_KOS_OWNED_TABLE \<noteq> 0"

definition tables_out :: "page_tables \<Rightarrow> u64 \<Rightarrow> nat set \<Rightarrow> bool" where
  "tables_out m p A \<longleftrightarrow> (\<forall>va d t. d \<le> 3 \<longrightarrow> tab m p va d = Some t \<longrightarrow> unat t \<notin> A)"

definition owned_out :: "page_tables \<Rightarrow> u64 \<Rightarrow> nat set \<Rightarrow> bool" where
  "owned_out m p O' \<longleftrightarrow> (\<forall>va d t f. d \<le> 2 \<longrightarrow> tab m p va d = Some t \<longrightarrow> sub (m t (ix d va)) = Some f \<longrightarrow>
     owned_entry (m t (ix d va)) \<longrightarrow> unat f \<in> O')"

definition root_ok :: "page_tables \<Rightarrow> u64 \<Rightarrow> bool" where
  "root_ok m p \<longleftrightarrow> (\<forall>i < 512. present (m p i) \<longrightarrow> \<not> huge (m p i))"

definition vmm_inv :: "'a vmm_state_scheme \<Rightarrow> u64 \<Rightarrow> bool" where
  "vmm_inv s p \<longleftrightarrow> vmm_initialized s \<and> p \<noteq> 0 \<and> p mod PAGE_SIZE = 0 \<and> pmm_ready (frames s)
     \<and> nosharing (pt_mem s) p \<and> tables_out (pt_mem s) p (pmm_avail (frames s))
     \<and> owned_out (pt_mem s) p (pmm_owned (frames s)) \<and> root_ok (pt_mem s) p"

lemma vmm_invD:
  assumes "vmm_inv s p"
  shows "vmm_initialized s" "p \<noteq> 0" "p mod PAGE_SIZE = 0" "pmm_ready (frames s)" "nosharing (pt_mem s) p"
    "tables_out (pt_mem s) p (pmm_avail (frames s))" "owned_out (pt_mem s) p (pmm_owned (frames s))"
    "root_ok (pt_mem s) p"
  using assms by (simp_all add: vmm_inv_def)

lemma tables_outD: "tables_out m p A \<Longrightarrow> d \<le> 3 \<Longrightarrow> tab m p va d = Some t \<Longrightarrow> unat t \<notin> A"
  by (auto simp: tables_out_def)

lemma pt_mem_set_entry [simp]: "pt_mem (set_entry t i e s) = put t i e (pt_mem s)"
  by (simp add: set_entry_def put_def)

lemma set_entry_simps [simp]: "frames (set_entry t i e s) = frames s"
  "vmm_initialized (set_entry t i e s) = vmm_initialized s"
  "kernel_pml4_phys (set_entry t i e s) = kernel_pml4_phys s" "cpu_cr3 (set_entry t i e s) = cpu_cr3 s"
  by (simp_all add: set_entry_def)

lemma avail_frame_address:
  assumes "pmm_ready pm" "a \<in> pmm_avail pm"
  shows "frame_address (of_nat a) \<and> unat (of_nat a :: u64) = a \<and> (of_nat a :: u64) \<noteq> 0"
proof -
  from assms obtain f where f: "a = f * 4096" "f \<in> free_set pm" "pmm_inv pm"
    by (auto simp: pmm_avail_def pmm_ready_def FRAME_SIZE_def)
  then have "f < frame_search_limit pm" "frame_search_limit pm \<le> 64 * BITMAP_WORDS"
    using pmm_inv_free(1) pmm_inv_limit by blast+
  moreover have "64 * BITMAP_WORDS = 2 ^ 24" by (simp add: MAX_TRACKED_FRAMES_words [symmetric] kos_consts)
  ultimately have lt: "f < 2 ^ 24" by simp
  have "a \<noteq> 0" using assms pmm_frames.null_not_avail by metis
  moreover have "a < 2 ^ 64" using f lt by simp
  then have "unat (of_nat a :: u64) = a" unfolding unat_of_nat by simp
  moreover have "frame_address (of_nat a)"
  proof -
    have small: "k < 24" if "bit f k" for k
    proof (rule ccontr)
      assume "\<not> k < 24"
      then have "(2::nat) ^ 24 \<le> 2 ^ k" using power_increasing [of 24 k "2 :: nat"] by simp
      with lt have "f div 2 ^ k = 0" by (meson div_less less_le_trans)
      with that show False by (simp add: bit_iff_odd)
    qed
    have "a = push_bit 12 f" using f by (simp add: push_bit_eq_mult)
    then have "bit (of_nat a :: u64) n \<longrightarrow> 12 \<le> n \<and> n < 52" for n
      using small [of "n - 12"] by (auto simp: bit_of_nat_iff bit_push_bit_iff)
    then show ?thesis
      by (auto simp: frame_address_def bit_eq_iff bit_and_iff PAGE_ADDRESS_MASK_bits)
  qed
  ultimately show ?thesis by (metis unat_0)
qed

section \<open>Writes keep the invariant and every translation\<close>

text \<open>The frames that are taken but are no page tables: those that hold other components' data.\<close>

definition table_frames :: "page_tables \<Rightarrow> u64 \<Rightarrow> nat set" where
  "table_frames m p = {unat t |t va d. d \<le> 3 \<and> tab m p va d = Some t}"

definition data_frames :: "u64 \<Rightarrow> 'a vmm_state_scheme \<Rightarrow> nat set" where
  "data_frames p s = pmm_owned (frames s) - table_frames (pt_mem s) p"

lemma table_framesI: "tab m p va d = Some t \<Longrightarrow> d \<le> 3 \<Longrightarrow> unat t \<in> table_frames m p"
  by (auto simp: table_frames_def)

lemma table_framesE:
  assumes "x \<in> table_frames m p"
  obtains t va d where "x = unat t" "d \<le> 3" "tab m p va d = Some t"
  using assms by (auto simp: table_frames_def)

lemma table_frames_cong:
  "(\<And>va d. d \<le> 3 \<Longrightarrow> tab m' p va d = tab m p va d) \<Longrightarrow> table_frames m' p = table_frames m p"
  by (auto simp: table_frames_def) metis+

text \<open>A state whose tables give the same translations as those of another, with the same data frames.\<close>

definition same_view :: "u64 \<Rightarrow> 'a vmm_state_scheme \<Rightarrow> 'a vmm_state_scheme \<Rightarrow> bool" where
  "same_view p s s' \<longleftrightarrow> vmm_inv s' p \<and> (\<forall>va. found (pt_mem s') p va = found (pt_mem s) p va)
     \<and> data_frames p s' = data_frames p s"

lemma same_view_refl: "vmm_inv s p \<Longrightarrow> same_view p s s"
  by (simp add: same_view_def)

lemma same_view_trans: "same_view p s s1 \<Longrightarrow> same_view p s1 s2 \<Longrightarrow> same_view p s s2"
  by (simp add: same_view_def)

lemma same_view_inv: "same_view p s s' \<Longrightarrow> vmm_inv s' p"
  by (simp add: same_view_def)

lemma sub_SomeD: "sub e = Some f \<Longrightarrow> f = e AND PAGE_ADDRESS_MASK \<and> present e \<and> \<not> huge e"
  by (auto simp: sub_def split: if_splits)

lemma same_view_keep:
  assumes inv: "vmm_inv s p" and t: "tab (pt_mem s) p va d = Some t" "d \<le> 2"
    and old: "sub (pt_mem s t (ix d va)) = Some f" and new: "sub e = Some f"
    and own: "owned_entry e = owned_entry (pt_mem s t (ix d va))"
    and s': "pt_mem s' = put t (ix d va) e (pt_mem s)" "frames s' = frames s" "vmm_initialized s' = vmm_initialized s"
  shows "same_view p s s'"
proof -
  note D = vmm_invD [OF inv]
  have tabs: "tab (pt_mem s') p va' k = tab (pt_mem s) p va' k" if "k \<le> 3" for va' k
    unfolding s' by (rule tab_put_keep [OF D(5) t(1) _ that]) (use t old new in auto)
  have "nosharing (pt_mem s') p" using tabs by (rule nosharing_cong [OF D(5)])
  moreover have "tables_out (pt_mem s') p (pmm_avail (frames s'))"
    unfolding tables_out_def s'(2) using tables_outD [OF D(6)] tabs by metis
  moreover have "owned_out (pt_mem s') p (pmm_owned (frames s'))"
    unfolding owned_out_def s'(2)
  proof (intro allI impI)
    fix va' k t' f'
    assume k: "k \<le> 2" and t': "tab (pt_mem s') p va' k = Some t'" "sub (pt_mem s' t' (ix k va')) = Some f'"
      "owned_entry (pt_mem s' t' (ix k va'))"
    have old': "tab (pt_mem s) p va' k = Some t'" using t'(1) tabs k by simp
    have "sub (pt_mem s t' (ix k va')) = Some f' \<and> owned_entry (pt_mem s t' (ix k va'))"
      using t'(2,3) old new own unfolding s'(1) by (cases "t' = t \<and> ix k va' = ix d va") (auto simp: put_other)
    with old' k show "unat f' \<in> pmm_owned (frames s)" using D(7) by (auto simp: owned_out_def)
  qed
  moreover have "root_ok (pt_mem s') p"
    using D(8) sub_SomeD [OF new] unfolding s' root_ok_def by (auto simp: put_def)
  moreover have "found (pt_mem s') p va' = found (pt_mem s) p va'" for va'
    unfolding s' by (rule found_put_keep [OF D(5) t]) (use old new in auto)
  moreover have "data_frames p s' = data_frames p s"
    using table_frames_cong [OF tabs] by (simp add: data_frames_def s'(2))
  ultimately show ?thesis using D s' by (simp add: same_view_def vmm_inv_def)
qed

lemma same_view_create:
  assumes inv: "vmm_inv s p" and t: "tab (pt_mem s) p va d = Some t" "d \<le> 2"
    and old: "\<not> present (pt_mem s t (ix d va))"
    and a: "unat f \<in> pmm_avail (frames s)" and c: "\<And>i. i < 512 \<Longrightarrow> c i = 0"
    and new: "sub e = Some f"
    and s': "pt_mem s' = put t (ix d va) e (fill f c (pt_mem s))" "vmm_initialized s' = vmm_initialized s"
    and fr: "pmm_ready (frames s')" "pmm_avail (frames s') = pmm_avail (frames s) - {unat f}"
      "pmm_owned (frames s') = insert (unat f) (pmm_owned (frames s))"
  shows "same_view p s s'" and "tab (pt_mem s') p va (Suc d) = Some f" and "tab (pt_mem s') p va d = Some t"
proof -
  note D = vmm_invD [OF inv]
  define m1 where "m1 = fill f c (pt_mem s)"
  have fresh: "tab (pt_mem s) p va' k \<noteq> Some f" if "k \<le> 3" for va' k
    using tables_outD [OF D(6) that] a by blast
  have tabs1: "tab m1 p va' k = tab (pt_mem s) p va' k" if "k \<le> 3" for va' k
    unfolding m1_def using tab_fill [OF fresh that] .
  have ns1: "nosharing m1 p" using tabs1 by (rule nosharing_cong [OF D(5)])
  have t1: "tab m1 p va d = Some t" using tabs1 t by simp
  have tf: "t \<noteq> f" using fresh [of d va] t by auto
  have old1: "m1 t (ix d va) = pt_mem s t (ix d va)" using tf by (simp add: m1_def)
  have nw1: "leads_nowhere m1 (m1 t (ix d va))" using old by (simp add: old1 leads_nowhere_def sub_def)
  have empty: "empty_table (put t (ix d va) e m1) f"
    using tf c by (simp add: empty_table_def put_other m1_def present_def)
  then have nw2: "leads_nowhere (put t (ix d va) e m1) e" by (simp add: leads_nowhere_def new)
  have m': "pt_mem s' = put t (ix d va) e m1" by (simp add: s' m1_def)
  have tabs: "tab (pt_mem s') p va' k = (if same_path (Suc d) va va' \<and> k = Suc d then Some f else tab (pt_mem s) p va' k)"
    if "k \<le> 3" for va' k
    unfolding m' using tab_put_nowhere [OF ns1 t1 t(2) that nw1 nw2] tabs1 [OF that] new by simp
  show "tab (pt_mem s') p va (Suc d) = Some f" using tabs [of "Suc d" va] t(2) by (simp del: tab.simps)
  show "tab (pt_mem s') p va d = Some t" using tabs [of d va] t by simp
  have "nosharing (pt_mem s') p"
    unfolding m' by (rule nosharing_put_nowhere [OF ns1 t1 t(2) nw1 nw2]) (use tabs1 fresh new in auto)
  moreover have "tables_out (pt_mem s') p (pmm_avail (frames s'))"
    unfolding tables_out_def fr(2)
  proof (intro allI impI)
    fix va' k t' assume "k \<le> 3" "tab (pt_mem s') p va' k = Some t'"
    then show "unat t' \<notin> pmm_avail (frames s) - {unat f}"
      using tabs tables_outD [OF D(6)] by (auto split: if_splits)
  qed
  moreover have "owned_out (pt_mem s') p (pmm_owned (frames s'))"
    unfolding owned_out_def fr(3)
  proof (intro allI impI)
    fix va' k t' f'
    assume k: "k \<le> 2" and t': "tab (pt_mem s') p va' k = Some t'" "sub (pt_mem s' t' (ix k va')) = Some f'"
      "owned_entry (pt_mem s' t' (ix k va'))"
    consider "t' = f" | "t' \<noteq> f" "t' = t" "ix k va' = ix d va" | "t' \<noteq> f" "t' \<noteq> t \<or> ix k va' \<noteq> ix d va" by blast
    then show "unat f' \<in> insert (unat f) (pmm_owned (frames s))"
    proof cases
      case 1
      then show ?thesis using t'(2) empty by (simp add: m' empty_table_sub)
    next
      case 2
      then show ?thesis using t'(2) new by (simp add: m')
    next
      case 3
      then have "pt_mem s' t' (ix k va') = pt_mem s t' (ix k va')" by (simp add: m' put_other m1_def)
      moreover have "tab (pt_mem s) p va' k = Some t'"
        using tabs [of k va'] k t'(1) 3(1) by (auto split: if_splits)
      ultimately show ?thesis using D(7) k t' by (auto simp: owned_out_def)
    qed
  qed
  moreover have "root_ok (pt_mem s') p"
  proof -
    have "p \<noteq> f" using fresh [of 0] by simp
    then show ?thesis using D(8) sub_SomeD [OF new] unfolding m' root_ok_def by (auto simp: put_def m1_def)
  qed
  moreover have "found (pt_mem s') p va' = found (pt_mem s) p va'" for va'
    unfolding m' using found_put_nowhere [OF ns1 t1 t(2) nw1 nw2] found_fill [OF fresh] by (simp add: m1_def)
  moreover have "data_frames p s' = data_frames p s"
  proof -
    have "table_frames (pt_mem s') p \<subseteq> insert (unat f) (table_frames (pt_mem s) p)"
      using tabs by (auto elim!: table_framesE intro: table_framesI split: if_splits)
    moreover have "table_frames (pt_mem s) p \<subseteq> table_frames (pt_mem s') p"
    proof
      fix x assume "x \<in> table_frames (pt_mem s) p"
      then obtain t' va' k where x: "x = unat t'" "k \<le> 3" "tab (pt_mem s) p va' k = Some t'" by (rule table_framesE)
      have "\<not> (same_path (Suc d) va va' \<and> k = Suc d)"
      proof
        assume "same_path (Suc d) va va' \<and> k = Suc d"
        then have "tab (pt_mem s) p va (Suc d) = Some t'" using x(3) tab_same_path [of "Suc d" va va' "pt_mem s" p] by simp
        then show False using t(1) old by (simp add: sub_def)
      qed
      then show "x \<in> table_frames (pt_mem s') p" using tabs [OF x(2), of va'] x by (auto intro: table_framesI)
    qed
    moreover have "unat f \<in> table_frames (pt_mem s') p"
      using tabs [of "Suc d" va] t(2) by (auto intro!: table_framesI [of _ _ va "Suc d"] simp del: tab.simps)
    moreover have "unat f \<notin> pmm_owned (frames s)" using pmm_frames.apart [OF D(4)] a by blast
    ultimately show ?thesis by (auto simp: data_frames_def fr(3))
  qed
  ultimately show "same_view p s s'" using D s' fr by (simp add: same_view_def vmm_inv_def)
qed

lemma same_view_release:
  assumes inv: "vmm_inv s p" and t: "tab (pt_mem s) p va d = Some t" "d \<le> 2"
    and old: "sub (pt_mem s t (ix d va)) = Some f" "empty_table (pt_mem s) f"
    and s': "pt_mem s' = put t (ix d va) 0 (pt_mem s)" "vmm_initialized s' = vmm_initialized s"
    and fr: "pmm_ready (frames s')" "pmm_avail (frames s') = insert (unat f) (pmm_avail (frames s))"
      "pmm_owned (frames s') = pmm_owned (frames s) - {unat f}"
  shows "same_view p s s'"
proof -
  note D = vmm_invD [OF inv]
  have nw1: "leads_nowhere (pt_mem s) (pt_mem s t (ix d va))" using old by (simp add: leads_nowhere_def)
  have sub0: "sub 0 = None" "\<not> present 0" by (simp_all add: sub_def present_def)
  then have nw2: "leads_nowhere (put t (ix d va) 0 (pt_mem s)) 0" by (simp add: leads_nowhere_def)
  have tabs: "tab (pt_mem s') p va' k = (if same_path (Suc d) va va' \<and> k = Suc d then None else tab (pt_mem s) p va' k)"
    if "k \<le> 3" for va' k
    unfolding s' using tab_put_nowhere [OF D(5) t that nw1 nw2] sub0 by simp
  have at: "tab (pt_mem s) p va (Suc d) = Some f" using t old by simp
  have gone: "tab (pt_mem s') p va' k \<noteq> Some f" if "k \<le> 3" for va' k
  proof
    assume f: "tab (pt_mem s') p va' k = Some f"
    then have "tab (pt_mem s) p va' k = Some f" using tabs [OF that] by (auto split: if_splits)
    from nosharingD [OF D(5) at this _ that] t(2) have "Suc d = k" "same_path (Suc d) va va'" by auto
    with f tabs [OF that, of va'] show False by auto
  qed
  have "nosharing (pt_mem s') p"
    unfolding s' by (rule nosharing_put_nowhere [OF D(5) t nw1 nw2]) (use sub0 in auto)
  moreover have "tables_out (pt_mem s') p (pmm_avail (frames s'))"
    unfolding tables_out_def fr(2)
  proof (intro allI impI)
    fix va' k t' assume k: "k \<le> 3" "tab (pt_mem s') p va' k = Some t'"
    then have "t' \<noteq> f" "tab (pt_mem s) p va' k = Some t'"
      using gone [OF k(1), of va'] tabs [OF k(1), of va'] by (auto split: if_splits)
    then show "unat t' \<notin> insert (unat f) (pmm_avail (frames s))"
      using tables_outD [OF D(6) k(1)] by (simp add: word_unat_eq_iff)
  qed
  moreover have "owned_out (pt_mem s') p (pmm_owned (frames s'))"
    unfolding owned_out_def fr(3)
  proof (intro allI impI)
    fix va' k t' f'
    assume k: "k \<le> 2" and t': "tab (pt_mem s') p va' k = Some t'" "sub (pt_mem s' t' (ix k va')) = Some f'"
      "owned_entry (pt_mem s' t' (ix k va'))"
    have ne: "t' \<noteq> t \<or> ix k va' \<noteq> ix d va" using t'(2) sub0 by (auto simp: s')
    then have e: "pt_mem s' t' (ix k va') = pt_mem s t' (ix k va')" by (simp add: s' put_other)
    have "tab (pt_mem s') p va' (Suc k) = Some f'" using t' by simp
    then have "f' \<noteq> f" using gone [of "Suc k" va'] k by auto
    moreover have "tab (pt_mem s) p va' k = Some t'" using tabs [of k va'] k t'(1) by (auto split: if_splits)
    then have "unat f' \<in> pmm_owned (frames s)" using D(7) k t' e by (auto simp: owned_out_def)
    ultimately show "unat f' \<in> pmm_owned (frames s) - {unat f}" by (simp add: word_unat_eq_iff)
  qed
  moreover have "root_ok (pt_mem s') p" using D(8) sub0 unfolding s' root_ok_def by (auto simp: put_def)
  moreover have "found (pt_mem s') p va' = found (pt_mem s) p va'" for va'
    unfolding s' using found_put_nowhere [OF D(5) t nw1 nw2] .
  moreover have "data_frames p s' = data_frames p s"
  proof -
    have "table_frames (pt_mem s') p \<subseteq> table_frames (pt_mem s) p"
      using tabs by (auto elim!: table_framesE intro: table_framesI split: if_splits)
    moreover have "table_frames (pt_mem s) p \<subseteq> insert (unat f) (table_frames (pt_mem s') p)"
    proof
      fix x assume "x \<in> table_frames (pt_mem s) p"
      then obtain t' va' k where x: "x = unat t'" "k \<le> 3" "tab (pt_mem s) p va' k = Some t'" by (rule table_framesE)
      show "x \<in> insert (unat f) (table_frames (pt_mem s') p)"
      proof (cases "same_path (Suc d) va va' \<and> k = Suc d")
        case True
        then have "tab (pt_mem s) p va (Suc d) = Some t'" using x(3) tab_same_path [of "Suc d" va va' "pt_mem s" p] by simp
        then show ?thesis using at x(1) by (simp del: tab.simps)
      next
        case False
        then show ?thesis using tabs [OF x(2), of va'] x by (auto intro: table_framesI)
      qed
    qed
    moreover have "unat f \<in> table_frames (pt_mem s) p"
      using at t(2) by (intro table_framesI [of _ _ va "Suc d"]) auto
    ultimately show ?thesis by (auto simp: data_frames_def fr(3))
  qed
  ultimately show ?thesis using D s' fr by (simp add: same_view_def vmm_inv_def)
qed

section \<open>The steps of the walk\<close>

lemma or_and_apart: "b AND c = 0 \<Longrightarrow> (e OR b) AND c = e AND c" for e :: u64
  by (simp add: bit.conj_disj_distrib2)

lemma both_bits_iff:
  "v AND (2 ^ i OR 2 ^ j) = 2 ^ i OR 2 ^ j \<longleftrightarrow> v AND 2 ^ i \<noteq> 0 \<and> v AND 2 ^ j \<noteq> 0" if "i < 64" "j < 64" for v :: u64
proof -
  have "v AND (2 ^ i OR 2 ^ j) = 2 ^ i OR 2 ^ j \<longleftrightarrow> bit v i \<and> bit v j"
  proof
    assume eq: "v AND (2 ^ i OR 2 ^ j) = 2 ^ i OR 2 ^ j"
    have "bit (2 ^ i OR 2 ^ j :: u64) i" "bit (2 ^ i OR 2 ^ j :: u64) j"
      using that by (auto simp: bit_or_iff bit_exp_iff)
    then have "bit (v AND (2 ^ i OR 2 ^ j)) i" "bit (v AND (2 ^ i OR 2 ^ j)) j" by (simp_all only: eq)
    then show "bit v i \<and> bit v j" by (simp add: bit_and_iff)
  next
    assume "bit v i \<and> bit v j"
    then show "v AND (2 ^ i OR 2 ^ j) = 2 ^ i OR 2 ^ j"
      by (intro bit_word_eqI) (auto simp: bit_and_iff bit_or_iff bit_exp_iff)
  qed
  then show ?thesis by (simp add: and_exp_eq_0_iff_not_bit)
qed

lemma present_and_owned_iff:
  "v AND (PAGE_PRESENT OR PAGE_KOS_OWNED_TABLE) = PAGE_PRESENT OR PAGE_KOS_OWNED_TABLE \<longleftrightarrow> present v \<and> owned_entry v"
  using both_bits_iff [of 0 9 v] by (simp add: present_def owned_entry_def page_bits)

lemma present_and_mapped_iff:
  "v AND (PAGE_PRESENT OR PAGE_KOS_OWNED_MAPPING) = PAGE_PRESENT OR PAGE_KOS_OWNED_MAPPING \<longleftrightarrow>
     present v \<and> v AND PAGE_KOS_OWNED_MAPPING \<noteq> 0"
  using both_bits_iff [of 0 10 v] by (simp add: present_def page_bits)

lemma user_bit_keeps: "sub (e OR PAGE_USER) = sub e" "owned_entry (e OR PAGE_USER) = owned_entry e"
  by (simp_all add: sub_def present_def huge_def owned_entry_def or_and_apart mask_low_bits)
    (simp_all add: or_and_apart page_bits)

lemma new_table_entry:
  assumes "frame_address f"
  shows "sub (f OR PAGE_PRESENT OR VMM_PAGE_WRITABLE OR PAGE_KOS_OWNED_TABLE) = Some f"
    "owned_entry (f OR PAGE_PRESENT OR VMM_PAGE_WRITABLE OR PAGE_KOS_OWNED_TABLE)"
proof -
  have "f AND PAGE_ADDRESS_MASK = f" using assms by (simp add: frame_address_def)
  moreover have "f AND PAGE_HUGE = 0" "f AND PAGE_PRESENT = 0" "f AND PAGE_KOS_OWNED_TABLE = 0"
    using frame_low_bits [OF assms] mask_low_bits by simp_all
  ultimately show "sub (f OR PAGE_PRESENT OR VMM_PAGE_WRITABLE OR PAGE_KOS_OWNED_TABLE) = Some f"
    "owned_entry (f OR PAGE_PRESENT OR VMM_PAGE_WRITABLE OR PAGE_KOS_OWNED_TABLE)"
    by (simp_all add: sub_def present_def huge_def owned_entry_def bit.conj_disj_distrib2 mask_low_bits)
      (simp_all add: page_bits)
qed

lemma next_table_cases:
  assumes inv: "vmm_inv s p" and t: "tab (pt_mem s) p va d = Some t" "d \<le> 2"
    and r: "next_table t (ix d va) v flags s = (r, c, s')"
  obtains
    (existing) f e where "r = Some f" "\<not> c" "sub (pt_mem s t (ix d va)) = Some f" "same_view p s s'"
      "tab (pt_mem s') p va (Suc d) = Some f" "frames s' = frames s" "pt_mem s' = put t (ix d va) e (pt_mem s)"
      "tab (pt_mem s') p va d = Some t" "sub e = Some f"
  | (created) f e where "r = Some f" "c" "\<not> present (pt_mem s t (ix d va))" "same_view p s s'"
      "tab (pt_mem s') p va (Suc d) = Some f" "unat f \<in> pmm_avail (frames s)"
      "pmm_avail (frames s') = pmm_avail (frames s) - {unat f}" "sub e = Some f" "owned_entry e"
      "pt_mem s' = put t (ix d va) e (fill f (\<lambda>i. if i < 512 then 0 else pt_mem s f i) (pt_mem s))"
      "tab (pt_mem s') p va d = Some t" "t \<noteq> f"
  | (is_huge) "r = None" "\<not> c" "present (pt_mem s t (ix d va))" "huge (pt_mem s t (ix d va))" "s' = s"
  | (no_frame) "r = None" "\<not> c" "\<not> present (pt_mem s t (ix d va))" "pmm_avail (frames s) = {}" "s' = s"
proof -
  let ?e = "pt_mem s t (ix d va)"
  let ?user = "v < 0x0000800000000000 \<or> flags AND VMM_PAGE_USER \<noteq> 0"
  note D = vmm_invD [OF inv]
  show thesis
  proof (cases "present ?e")
    case pr: True
    show thesis
    proof (cases "huge ?e")
      case True
      with pr r show thesis by (intro is_huge) (auto simp: next_table_def present_def huge_def Let_def)
    next
      case False
      define e where "e = (if ?user then ?e OR PAGE_USER else ?e)"
      define f where "f = e AND PAGE_ADDRESS_MASK"
      have keep: "sub e = sub ?e" "owned_entry e = owned_entry ?e" by (simp_all add: e_def user_bit_keeps)
      obtain g where g: "sub ?e = Some g" using pr False by (simp add: sub_def)
      then have "g = f" using sub_SomeD [of e g] keep(1) by (simp add: f_def)
      then have sub: "sub ?e = Some f" using g by simp
      have "r = Some f" "\<not> c" "s' = set_entry t (ix d va) e s"
        using r pr False by (auto simp: next_table_def present_def huge_def Let_def e_def f_def)
      moreover have sv: "same_view p s (set_entry t (ix d va) e s)"
        by (rule same_view_keep [OF inv t sub _ keep(2)]) (use keep sub in simp_all)
      moreover have "tab (pt_mem (set_entry t (ix d va) e s)) p va (Suc d) = Some f"
        using tab_put_at [OF D(5) t(1), of va e] t(2) keep(1) sub by (simp del: tab.simps)
      moreover have "tab (pt_mem (set_entry t (ix d va) e s)) p va d = Some t"
        using tab_put_off [OF D(5) t(1), of d va e] t by simp
      ultimately show thesis using existing [of f e] sub keep by simp
    qed
  next
    case pr: False
    obtain a pm where al: "pmm_allocate_frame (frames s) = (a, pm)" by fastforce
    have np: "?e AND PAGE_PRESENT = 0" using pr by (simp add: present_def)
    from D(4) show thesis
    proof (cases rule: pmm_frames.alloc_cases)
      case none
      with r np have "r = None" "\<not> c" "s' = s"
        by (auto simp: next_table_def allocate_frame_def Let_def)
      then show thesis using no_frame pr none by blast
    next
      case (frame a' pm')
      then have a: "a = a'" "pm = pm'" using al by simp_all
      define f :: u64 where "f = of_nat a"
      have fa: "frame_address f" "unat f = a" "f \<noteq> 0"
        using avail_frame_address [OF D(4)] frame(2) a by (simp_all add: f_def)
      define e0 where "e0 = f OR PAGE_PRESENT OR VMM_PAGE_WRITABLE OR PAGE_KOS_OWNED_TABLE"
      define e where "e = (if ?user then e0 OR PAGE_USER else e0)"
      have e: "sub e = Some f" "owned_entry e"
        using new_table_entry [OF fa(1)] by (simp_all add: e_def e0_def user_bit_keeps)
      have res: "r = Some f" "c" "s' = set_entry t (ix d va) e (clear_page_table f (s\<lparr>frames := pm\<rparr>))"
        using r np al fa(3) by (auto simp: next_table_def allocate_frame_def Let_def f_def e_def e0_def)
      then have mem: "pt_mem s' = put t (ix d va) e (fill f (\<lambda>i. if i < 512 then 0 else pt_mem s f i) (pt_mem s))"
        and fr: "frames s' = pm" and ini: "vmm_initialized s' = vmm_initialized s"
        by (simp_all add: clear_page_table_def fill_def cong: if_cong)
      have av: "unat f \<in> pmm_avail (frames s)" "pmm_avail (frames s') = pmm_avail (frames s) - {unat f}"
        "pmm_owned (frames s') = insert (unat f) (pmm_owned (frames s))" "pmm_ready (frames s')"
        using frame a fa(2) fr by simp_all
      note C = same_view_create [OF inv t pr av(1) _ e(1) mem ini av(4) av(2) av(3)]
      have "same_view p s s'" "tab (pt_mem s') p va (Suc d) = Some f" "tab (pt_mem s') p va d = Some t" using C by simp_all
      moreover have "t \<noteq> f" using tables_outD [OF D(6) _ t(1)] t(2) av(1) by auto
      ultimately show thesis using created [OF res(1,2) pr _ _ av(1,2) e mem] by blast
    qed
  qed
qed

lemma page_table_is_empty_iff: "page_table_is_empty f s \<longleftrightarrow> empty_table (pt_mem s) f"
  by (auto simp: page_table_is_empty_def empty_table_def present_def list_all_iff simp del: upt_rec_numeral)

lemma release_cases:
  assumes inv: "vmm_inv s p" and t: "tab (pt_mem s) p va d = Some t" "d \<le> 2"
    and old: "sub (pt_mem s t (ix d va)) = Some f"
    and r: "release_owned_empty_table t (ix d va) s = (r, s')"
  obtains
    (released) "r" "same_view p s s'" "owned_entry (pt_mem s t (ix d va))" "empty_table (pt_mem s) f"
      "pt_mem s' = put t (ix d va) 0 (pt_mem s)" "pmm_avail (frames s') = insert (unat f) (pmm_avail (frames s))"
  | (kept) "\<not> r" "s' = s" "\<not> (owned_entry (pt_mem s t (ix d va)) \<and> empty_table (pt_mem s) f)"
proof -
  let ?e = "pt_mem s t (ix d va)"
  note D = vmm_invD [OF inv]
  have f: "f = ?e AND PAGE_ADDRESS_MASK" "present ?e" using sub_SomeD [OF old] by simp_all
  show thesis
  proof (cases "owned_entry ?e \<and> empty_table (pt_mem s) f")
    case True
    then have "unat f \<in> pmm_owned (frames s)" using D(7) t old by (auto simp: owned_out_def)
    from pmm_frames.release_owned [OF D(4) this] obtain pm where pm: "pmm_free_frame (unat f) (frames s) = (True, pm)"
      "pmm_ready pm" "pmm_avail pm = insert (unat f) (pmm_avail (frames s))" "pmm_owned pm = pmm_owned (frames s) - {unat f}"
      by blast
    have s': "r" "s' = (set_entry t (ix d va) 0 s)\<lparr>frames := pm\<rparr>"
      using r True f pm(1)
      by (auto simp: release_owned_empty_table_def present_and_owned_iff page_table_is_empty_iff free_frame_def Let_def)
    have "same_view p s s'"
      by (rule same_view_release [OF inv t old]) (use True pm s' in simp_all)
    then show thesis using released True s' pm by simp
  next
    case False
    then have "\<not> r" "s' = s"
      using r f by (auto simp: release_owned_empty_table_def present_and_owned_iff page_table_is_empty_iff Let_def split: if_splits)
    then show thesis using kept False by blast
  qed
qed

section \<open>Queries\<close>

lemma ix_shifts: "page_table_index va 39 = ix 0 va" "page_table_index va 30 = ix 1 va"
  "page_table_index va 21 = ix 2 va" "page_table_index va 12 = ix 3 va"
  by (simp_all add: ix_def)

definition page_of :: "nat \<Rightarrow> u64 \<Rightarrow> u64 \<Rightarrow> u64" where
  "page_of d e va = (if d = 1 then (e AND PAGE_1G_ADDRESS_MASK) OR (va AND mask 30)
     else if d = 2 then (e AND PAGE_2M_ADDRESS_MASK) OR (va AND mask 21)
     else (e AND PAGE_ADDRESS_MASK) OR (va AND mask 12))"

definition translation :: "u64 \<Rightarrow> u64 \<Rightarrow> 'a vmm_state_scheme \<Rightarrow> u64 option" where
  "translation p va s = map_option fst (vmm_query_page_in p va s)"

lemma query_found:
  assumes "vmm_inv s p"
  shows "\<exists>g. vmm_query_page_in p va s = map_option (\<lambda>(d, e).
    (page_of d e va, public_page_flags (combine_effective_flags g e))) (found (pt_mem s) p va)"
proof -
  note D = vmm_invD [OF assms]
  define m where "m = pt_mem s"
  define e4 where "e4 = m p (ix 0 va)"
  define e3 where "e3 = m (e4 AND PAGE_ADDRESS_MASK) (ix 1 va)"
  define e2 where "e2 = m (e3 AND PAGE_ADDRESS_MASK) (ix 2 va)"
  define e1 where "e1 = m (e2 AND PAGE_ADDRESS_MASK) (ix 3 va)"
  define g3 where "g3 = combine_effective_flags e4 e3"
  define g2 where "g2 = combine_effective_flags g3 e2"
  have q: "vmm_query_page_in p va s = (if \<not> present e4 then None else if \<not> present e3 then None
      else if huge e3 then Some (page_of 1 e3 va, public_page_flags (combine_effective_flags e4 e3))
      else if \<not> present e2 then None
      else if huge e2 then Some (page_of 2 e2 va, public_page_flags (combine_effective_flags g3 e2))
      else if \<not> present e1 then None
      else Some (page_of 3 e1 va, public_page_flags (combine_effective_flags g2 e1)))"
    using D(1-3)
    by (simp add: g2_def g3_def vmm_query_page_in_def Let_def ix_shifts present_def huge_def page_of_def
        e1_def e2_def e3_def e4_def m_def)
  have nh: "\<not> huge e4" if "present e4" using D(8) that by (simp add: root_ok_def e4_def m_def)
  have t0: "tab m p va 0 = Some p" by simp
  have t1: "tab m p va (Suc 0) = sub e4" by (simp add: e4_def)
  have t2: "sub e4 = Some (e4 AND PAGE_ADDRESS_MASK) \<Longrightarrow> tab m p va (Suc 1) = sub e3" by (simp add: e4_def e3_def)
  have t3: "sub e4 = Some (e4 AND PAGE_ADDRESS_MASK) \<Longrightarrow> sub e3 = Some (e3 AND PAGE_ADDRESS_MASK) \<Longrightarrow>
    tab m p va (Suc 2) = sub e2" by (simp add: e4_def e3_def e2_def numeral_2_eq_2)
  note L = last_entryI [of m p va]
  consider (a) "\<not> present e4" | (b) "present e4" "\<not> present e3 \<or> huge e3"
    | (c) "present e4" "present e3" "\<not> huge e3" "\<not> present e2 \<or> huge e2"
    | (d) "present e4" "present e3" "\<not> huge e3" "present e2" "\<not> huge e2" by blast
  then have "found m p va = (if \<not> present e4 then None else if \<not> present e3 then None
      else if huge e3 then Some (1, e3) else if \<not> present e2 then None
      else if huge e2 then Some (2, e2) else if \<not> present e1 then None else Some (3, e1))"
  proof cases
    case a
    then have "sub e4 = None" by (simp add: sub_def)
    with L [of 0 p] t1 have "depth m p va = 0 \<and> last_entry m p va = e4" by (simp add: e4_def)
    with a show ?thesis by (simp add: found_def)
  next
    case b
    then have "sub e4 = Some (e4 AND PAGE_ADDRESS_MASK)" "sub e3 = None" using nh by (auto simp: sub_def)
    with L [of 1 "e4 AND PAGE_ADDRESS_MASK"] t1 t2 have "depth m p va = 1 \<and> last_entry m p va = e3"
      by (simp add: e3_def del: tab.simps)
    with b show ?thesis by (auto simp: found_def)
  next
    case c
    then have "sub e4 = Some (e4 AND PAGE_ADDRESS_MASK)" "sub e3 = Some (e3 AND PAGE_ADDRESS_MASK)" "sub e2 = None"
      using nh by (auto simp: sub_def)
    with L [of 2 "e3 AND PAGE_ADDRESS_MASK"] t2 t3 have "depth m p va = 2 \<and> last_entry m p va = e2"
      by (simp add: e2_def numeral_2_eq_2 del: tab.simps)
    with c show ?thesis by (auto simp: found_def)
  next
    case d
    then have "sub e4 = Some (e4 AND PAGE_ADDRESS_MASK)" "sub e3 = Some (e3 AND PAGE_ADDRESS_MASK)"
      "sub e2 = Some (e2 AND PAGE_ADDRESS_MASK)" using nh by (auto simp: sub_def)
    with L [of 3 "e2 AND PAGE_ADDRESS_MASK"] t3 have "depth m p va = 3 \<and> last_entry m p va = e1"
      by (simp add: e1_def numeral_3_eq_3 numeral_2_eq_2 del: tab.simps)
    with d show ?thesis by (simp add: found_def)
  qed
  then have F: "found (pt_mem s) p va = (if \<not> present e4 then None else if \<not> present e3 then None
      else if huge e3 then Some (1, e3) else if \<not> present e2 then None
      else if huge e2 then Some (2, e2) else if \<not> present e1 then None else Some (3, e1))"
    by (simp add: m_def)
  define g where "g = (if huge e3 then e4 else if huge e2 then g3 else g2)"
  show ?thesis by (rule exI [of _ g]) (simp add: q F g_def)
qed

lemma translation_found:
  assumes "vmm_inv s p"
  shows "translation p va s = map_option (\<lambda>(d, e). page_of d e va) (found (pt_mem s) p va)"
  using query_found [OF assms, of va] by (auto simp: translation_def map_option_case split: option.splits)

lemma same_view_translation: "vmm_inv s p \<Longrightarrow> same_view p s s' \<Longrightarrow> translation p va s' = translation p va s"
  by (simp add: translation_found same_view_def)

section \<open>Mapping a page\<close>

lemma walk_distinct:
  assumes "vmm_inv s p" "tab (pt_mem s) p va d = Some t" "tab (pt_mem s) p va' d' = Some t'" "d \<le> 3" "d' \<le> 3" "d \<noteq> d'"
  shows "t \<noteq> t'"
  using nosharingD(1) [OF vmm_invD(5) [OF assms(1)]] assms by blast

lemma inv_put_leaf:
  assumes inv: "vmm_inv s p" and t: "tab (pt_mem s) p va 3 = Some t"
    and s': "pt_mem s' = put t (ix 3 va) e (pt_mem s)" "frames s' = frames s" "vmm_initialized s' = vmm_initialized s"
  shows "vmm_inv s' p"
proof -
  note D = vmm_invD [OF inv]
  have tabs: "tab (pt_mem s') p va' k = tab (pt_mem s) p va' k" if "k \<le> 3" for va' k
    unfolding s' using tab_put_leaf [OF D(5) t that] .
  have above: "pt_mem s' t' i = pt_mem s t' i" if "tab (pt_mem s) p va' k = Some t'" "k \<le> 2" for t' va' k i
  proof -
    have "t' \<noteq> t" using walk_distinct [OF inv that(1) t] that(2) by simp
    then show ?thesis by (simp add: s' put_other)
  qed
  have "nosharing (pt_mem s') p" using tabs by (rule nosharing_cong [OF D(5)])
  moreover have "tables_out (pt_mem s') p (pmm_avail (frames s'))"
    unfolding tables_out_def s'(2) using tables_outD [OF D(6)] tabs by metis
  moreover have "owned_out (pt_mem s') p (pmm_owned (frames s'))"
    unfolding owned_out_def s'(2)
  proof (intro allI impI)
    fix va' k t' f'
    assume k: "k \<le> 2" and t': "tab (pt_mem s') p va' k = Some t'" "sub (pt_mem s' t' (ix k va')) = Some f'"
      "owned_entry (pt_mem s' t' (ix k va'))"
    have "tab (pt_mem s) p va' k = Some t'" using t'(1) tabs k by simp
    with k t' above show "unat f' \<in> pmm_owned (frames s)" using D(7) by (auto simp: owned_out_def)
  qed
  moreover have "root_ok (pt_mem s') p" using D(8) above [of va 0 p] by (simp add: root_ok_def)
  ultimately show ?thesis using D s' by (simp add: vmm_inv_def)
qed

text \<open>What one step down leaves behind, and how a rollback undoes it.\<close>

definition entered :: "bool \<Rightarrow> u64 \<Rightarrow> nat \<Rightarrow> u64 \<Rightarrow> 'a vmm_state_scheme \<Rightarrow> 'a vmm_state_scheme \<Rightarrow> bool" where
  "entered c t i f s s1 \<longleftrightarrow> sub (pt_mem s1 t i) = Some f \<and> (\<forall>t' i'. t' \<noteq> f \<longrightarrow> (t' \<noteq> t \<or> i' \<noteq> i) \<longrightarrow> pt_mem s1 t' i' = pt_mem s t' i')
     \<and> (if c then \<not> present (pt_mem s t i) \<and> empty_table (pt_mem s1) f \<and> owned_entry (pt_mem s1 t i)
                \<and> pmm_avail (frames s) = insert (unat f) (pmm_avail (frames s1))
        else present (pt_mem s t i) \<and> (\<forall>i'. t \<noteq> f \<longrightarrow> pt_mem s1 f i' = pt_mem s f i') \<and> frames s1 = frames s)"

lemma next_table_entered:
  assumes inv: "vmm_inv s p" and t: "tab (pt_mem s) p va d = Some t" "d \<le> 2"
    and r: "next_table t (ix d va) v flags s = (Some f, c, s1)"
  shows "same_view p s s1 \<and> tab (pt_mem s1) p va (Suc d) = Some f \<and> tab (pt_mem s1) p va d = Some t
    \<and> entered c t (ix d va) f s s1"
  using inv t r
proof (cases rule: next_table_cases)
  case (existing g e)
  then have "present (pt_mem s t (ix d va))" using sub_SomeD by blast
  with existing show ?thesis by (auto simp: entered_def put_other simp del: tab.simps)
next
  case (created g e)
  then have g: "g = f" and c: "c = True" by simp_all
  note C = created [unfolded g]
  have "entered True t (ix d va) f s s1"
    unfolding entered_def if_True
  proof (intro conjI)
    show "sub (pt_mem s1 t (ix d va)) = Some f" using C by simp
    show "\<forall>t' i'. t' \<noteq> f \<longrightarrow> t' \<noteq> t \<or> i' \<noteq> ix d va \<longrightarrow> pt_mem s1 t' i' = pt_mem s t' i'"
      unfolding C(10) by (simp add: put_other)
    show "\<not> present (pt_mem s t (ix d va))" by (rule C(3))
    show "empty_table (pt_mem s1) f" unfolding C(10) using C(12) by (simp add: empty_table_def put_other present_def)
    show "owned_entry (pt_mem s1 t (ix d va))" unfolding C(10) using C(9) by simp
    show "pmm_avail (frames s) = insert (unat f) (pmm_avail (frames s1))" using C(6,7) by auto
  qed
  then show ?thesis using C(4,5,11) c by (simp del: tab.simps)
qed auto

lemma entered_empty: "entered c t i f s s1 \<Longrightarrow> c \<Longrightarrow> empty_table (pt_mem s1) f"
  by (simp add: entered_def)

lemma entered_avail:
  "entered c t i f s s1 \<Longrightarrow> pmm_avail (frames s) = (if c then insert (unat f) (pmm_avail (frames s1)) else pmm_avail (frames s1))"
  by (simp add: entered_def)

lemma entered_other: "entered c t i f s s1 \<Longrightarrow> t' \<noteq> f \<Longrightarrow> t' \<noteq> t \<or> i' \<noteq> i \<Longrightarrow> pt_mem s1 t' i' = pt_mem s t' i'"
  by (simp add: entered_def)

lemma next_table_None:
  assumes inv: "vmm_inv s p" and t: "tab (pt_mem s) p va d = Some t" "d \<le> 2"
    and r: "next_table t (ix d va) v flags s = (None, c, s1)"
  shows "s1 = s \<and> (present (pt_mem s t (ix d va)) \<and> huge (pt_mem s t (ix d va)) \<or> pmm_avail (frames s) = {})"
  using assms by (cases rule: next_table_cases) auto

lemma rollback_undoes:
  assumes inv: "vmm_inv s2 p" and t: "tab (pt_mem s2) p va d = Some t" "d \<le> 2"
    and ent: "entered c t (ix d va) f s s1" and same: "pt_mem s2 t (ix d va) = pt_mem s1 t (ix d va)"
    and emp: "c \<Longrightarrow> empty_table (pt_mem s2) f" and av: "pmm_avail (frames s2) = pmm_avail (frames s1)"
  shows "same_view p s2 (rollback_table c t (ix d va) s2)
    \<and> pmm_avail (frames (rollback_table c t (ix d va) s2)) = pmm_avail (frames s)
    \<and> pt_mem (rollback_table c t (ix d va) s2) = (if c then put t (ix d va) 0 (pt_mem s2) else pt_mem s2)"
proof (cases c)
  case True
  obtain r s3 where r: "release_owned_empty_table t (ix d va) s2 = (r, s3)" by fastforce
  have sub: "sub (pt_mem s2 t (ix d va)) = Some f" using ent same by (simp add: entered_def)
  from inv t sub r show ?thesis
  proof (cases rule: release_cases)
    case released
    then show ?thesis using True r ent av by (simp add: rollback_table_def entered_def)
  next
    case kept
    then show ?thesis using True ent same emp by (simp add: entered_def)
  qed
next
  case False
  then show ?thesis using same_view_refl [OF inv] ent av by (simp add: rollback_table_def entered_def)
qed

lemma found_stop:
  assumes "tab m p va d = Some t" "d \<le> 3" "present (m t (ix d va))" "d < 3 \<Longrightarrow> huge (m t (ix d va))"
  shows "found m p va \<noteq> None"
proof -
  have "d < 3 \<Longrightarrow> tab m p va (Suc d) = None" using assms by (simp add: sub_def)
  from last_entryI [OF assms(1,2) this] assms(3) show ?thesis by (simp add: found_def)
qed

lemma entered_avail_card:
  assumes "entered c t i f s s1"
  shows "card (pmm_avail (frames s)) \<le> Suc (card (pmm_avail (frames s1)))"
proof -
  have "card (insert x A) \<le> Suc (card A)" for x :: nat and A
    by (cases "finite A") (simp_all add: card_insert_if)
  with assms show ?thesis by (cases c) (auto simp: entered_def)
qed

lemma entered_empty_created:
  "empty_table (pt_mem s) t \<Longrightarrow> i < 512 \<Longrightarrow> entered c t i f s s1 \<Longrightarrow> c"
  by (auto simp: entered_def empty_table_def split: if_splits)

lemma vmm_map_page_in_cases:
  assumes inv: "vmm_inv s p" and args: "map_arguments_ok p va pa flags"
    and r: "vmm_map_page_in p va pa flags s = (ok, s')"
  obtains
    (mapped) s1 s2 s3 c1 c2 c3 f1 f2 f3 where "ok" "same_view p s s3" "tab (pt_mem s3) p va 3 = Some f3"
      "\<not> present (pt_mem s3 f3 (ix 3 va))"
      "s' = invalidate_if_active p va (set_entry f3 (ix 3 va)
         ((pa AND PAGE_ADDRESS_MASK) OR PAGE_PRESENT OR PAGE_KOS_OWNED_MAPPING OR flags) s3)"
      "entered c1 p (ix 0 va) f1 s s1" "entered c2 f1 (ix 1 va) f2 s1 s2" "entered c3 f2 (ix 2 va) f3 s2 s3"
      "tab (pt_mem s3) p va 1 = Some f1" "tab (pt_mem s3) p va 2 = Some f2"
  | (failed) "\<not> ok" "same_view p s s'" "pmm_avail (frames s') = pmm_avail (frames s)"
      "found (pt_mem s) p va \<noteq> None \<or> card (pmm_avail (frames s)) < 3"
proof -
  note D = vmm_invD [OF inv]
  have huge_found: "found (pt_mem s) p va \<noteq> None"
    if "same_view p s s1" "tab (pt_mem s1) p va d = Some t" "d \<le> 2" "present (pt_mem s1 t (ix d va))" "huge (pt_mem s1 t (ix d va))" for s1 :: "'a vmm_state_scheme" and d t
    using found_stop [of "pt_mem s1" p va d t] that by (simp add: same_view_def)
  obtain r1 c1 s1 where n1: "next_table p (ix 0 va) va flags s = (r1, c1, s1)" by (metis prod_cases3)
  have t0: "tab (pt_mem s) p va 0 = Some p" by simp
  note R = r [unfolded vmm_map_page_in_def Let_def ix_shifts n1 prod.case]
  show thesis
  proof (cases r1)
    case None
    then have "ok = False" "s' = s1" using R args D(1) by simp_all
    moreover have "s1 = s \<and> pmm_avail (frames s) = {}"
      using next_table_None [OF inv t0 _ n1 [unfolded None]] D(8) by (auto simp: root_ok_def)
    ultimately show thesis using failed same_view_refl [OF inv] by simp
  next
    case (Some f1)
    from next_table_entered [OF inv t0 _ n1 [unfolded Some]] have
      V1: "same_view p s s1" and T1: "tab (pt_mem s1) p va 1 = Some f1" and E1: "entered c1 p (ix 0 va) f1 s s1" by simp_all
    have I1: "vmm_inv s1 p" using V1 same_view_inv by blast
    obtain r2 c2 s2 where n2: "next_table f1 (ix 1 va) va flags s1 = (r2, c2, s2)" by (metis prod_cases3)
    note R2 = R [unfolded Some option.case n2 prod.case]
    show thesis
    proof (cases r2)
      case None
      then have s': "ok = False" "s' = rollback_table c1 p (ix 0 va) s2" using R2 args D(1) by simp_all
      have s2: "s2 = s1 \<and> (found (pt_mem s) p va \<noteq> None \<or> pmm_avail (frames s1) = {})"
        using next_table_None [OF I1 T1 _ n2 [unfolded None]] huge_found [OF V1 T1] by auto
      have "c1 \<Longrightarrow> empty_table (pt_mem s1) f1" using E1 by (simp add: entered_def)
      then have U: "same_view p s1 s'" "pmm_avail (frames s') = pmm_avail (frames s)"
        using rollback_undoes [OF I1, of va 0 p c1 f1 s s1] E1 s2 s' by simp_all
      have "found (pt_mem s) p va \<noteq> None \<or> card (pmm_avail (frames s)) < 3"
        using s2 entered_avail_card [OF E1] by auto
      then show thesis using failed s'(1) same_view_trans [OF V1 U(1)] U(2) by simp
    next
      case (Some f2)
      from next_table_entered [OF I1 T1 _ n2 [unfolded Some]] have
        V2: "same_view p s1 s2" and T2: "tab (pt_mem s2) p va 2 = Some f2" and T2': "tab (pt_mem s2) p va 1 = Some f1"
        and E2: "entered c2 f1 (ix 1 va) f2 s1 s2" by (simp_all add: numeral_2_eq_2 del: tab.simps)
      have I2: "vmm_inv s2 p" using V2 same_view_inv by blast
      have V02: "same_view p s s2" using same_view_trans [OF V1 V2] .
      have c12: "c1 \<Longrightarrow> c2" using entered_empty_created [OF entered_empty [OF E1] ix_less E2] .
      have ne: "p \<noteq> f1" "p \<noteq> f2" "f1 \<noteq> f2"
        using walk_distinct [OF I2 _ T2', of va 0] walk_distinct [OF I2 _ T2, of va 0] walk_distinct [OF I2 T2' T2] by auto
      obtain r3 c3 s3 where n3: "next_table f2 (ix 2 va) va flags s2 = (r3, c3, s3)" by (metis prod_cases3)
      note R3 = R2 [unfolded Some option.case n3 prod.case]
      show thesis
      proof (cases r3)
        case None
        define s4 where "s4 = rollback_table c2 f1 (ix 1 va) s2"
        have s3: "s3 = s2 \<and> (found (pt_mem s) p va \<noteq> None \<or> pmm_avail (frames s2) = {})"
          using next_table_None [OF I2 T2 _ n3 [unfolded None]] huge_found [OF V02 T2] by auto
        then have s': "ok = False" "s' = rollback_table c1 p (ix 0 va) s4"
          using None R3 args D(1) by (simp_all add: s4_def)
        have U: "same_view p s2 s4" "pmm_avail (frames s4) = pmm_avail (frames s1)"
          "pt_mem s4 = (if c2 then put f1 (ix 1 va) 0 (pt_mem s2) else pt_mem s2)"
          using rollback_undoes [OF I2 T2' _ E2] entered_empty [OF E2] by (simp_all add: s4_def)
        have "pt_mem s4 p (ix 0 va) = pt_mem s1 p (ix 0 va)"
          using U(3) entered_other [OF E2] ne by (auto simp: put_other)
        moreover have "empty_table (pt_mem s4) f1" if c1
          using U(3) c12 [OF that] entered_empty [OF E1 that] entered_other [OF E2, of f1] ne
          by (auto simp: empty_table_def put_def present_def)
        ultimately have W: "same_view p s4 s'" "pmm_avail (frames s') = pmm_avail (frames s)"
          using rollback_undoes [OF same_view_inv [OF U(1)], of va 0 p c1 f1 s s1] E1 U(2) s' by simp_all
        have "found (pt_mem s) p va \<noteq> None \<or> card (pmm_avail (frames s)) < 3"
          using s3 entered_avail_card [OF E1] entered_avail_card [OF E2] by auto
        then show thesis
          using failed s'(1) same_view_trans [OF same_view_trans [OF V02 U(1)] W(1)] W(2) by simp
      next
        case (Some f3)
        from next_table_entered [OF I2 T2 _ n3 [unfolded Some]] have
          V3: "same_view p s2 s3" and T3: "tab (pt_mem s3) p va 3 = Some f3"
          and E3: "entered c3 f2 (ix 2 va) f3 s2 s3" by (simp_all add: numeral_3_eq_3 numeral_2_eq_2 del: tab.simps)
        have V03: "same_view p s s3" using same_view_trans [OF V02 V3] .
        have c23: "c2 \<Longrightarrow> c3" using entered_empty_created [OF entered_empty [OF E2] ix_less E3] .
        have T32: "tab (pt_mem s3) p va 2 = Some f2" using next_table_entered [OF I2 T2 _ n3 [unfolded Some]] by simp
        have "pt_mem s3 p (ix 0 va) = pt_mem s2 p (ix 0 va)"
          using entered_other [OF E3, of p] ne walk_distinct [OF same_view_inv [OF V3] _ T3, of va 0] by simp
        then have T31: "tab (pt_mem s3) p va 1 = Some f1" using T2' by simp
        show thesis
        proof (cases "present (pt_mem s3 f3 (ix 3 va))")
          case True
          then have "\<not> c3" using entered_empty [OF E3] by (auto simp: empty_table_def)
          then have nc: "\<not> c1" "\<not> c2" "\<not> c3" using c12 c23 by blast+
          then have s': "ok = False" "s' = s3"
            using True R3 Some args D(1) by (simp_all add: rollback_table_def present_def)
          moreover have "pmm_avail (frames s3) = pmm_avail (frames s)"
            using entered_avail [OF E1] entered_avail [OF E2] entered_avail [OF E3] nc by simp
          moreover have "found (pt_mem s) p va \<noteq> None"
            using found_stop [OF T3 _ True] V03 by (simp add: same_view_def)
          ultimately show thesis using failed V03 by simp
        next
          case False
          then have "ok" "s' = invalidate_if_active p va (set_entry f3 (ix 3 va)
              ((pa AND PAGE_ADDRESS_MASK) OR PAGE_PRESENT OR PAGE_KOS_OWNED_MAPPING OR flags) s3)"
            using R3 Some args D(1) by (simp_all add: present_def)
          then show thesis using mapped [OF _ V03 T3 False _ E1 E2 E3 T31 T32] by simp
        qed
      qed
    qed
  qed
qed

text \<open>The entry that a mapping writes.\<close>

lemma subset_bits: "flags AND NOT c = 0 \<Longrightarrow> flags AND c = flags" for flags :: u64
  by (auto simp: bit_eq_iff bit_and_iff bit_not_iff)

lemma leaf_entry:
  fixes pa flags :: u64
  assumes "flags AND NOT (VMM_PAGE_WRITABLE OR VMM_PAGE_USER OR VMM_PAGE_NO_EXECUTE) = 0"
  defines "e \<equiv> (pa AND PAGE_ADDRESS_MASK) OR PAGE_PRESENT OR PAGE_KOS_OWNED_MAPPING OR flags"
  shows "e AND PAGE_ADDRESS_MASK = pa AND PAGE_ADDRESS_MASK" "present e" "e AND PAGE_KOS_OWNED_MAPPING \<noteq> 0"
    "e AND VMM_PAGE_WRITABLE = flags AND VMM_PAGE_WRITABLE" "e AND VMM_PAGE_USER = flags AND VMM_PAGE_USER"
    "e AND VMM_PAGE_NO_EXECUTE = flags AND VMM_PAGE_NO_EXECUTE"
proof -
  have f: "flags AND b = 0" if "(VMM_PAGE_WRITABLE OR VMM_PAGE_USER OR VMM_PAGE_NO_EXECUTE) AND b = 0" for b
    using arg_cong [OF subset_bits [OF assms(1)], of "\<lambda>x. x AND b"] that by (simp add: and.assoc)
  have p: "(pa AND PAGE_ADDRESS_MASK) AND b = 0" if "b AND PAGE_ADDRESS_MASK = 0" for b
    using frame_low_bits [OF frame_address_masked that] .
  have z: "flags AND PAGE_ADDRESS_MASK = 0" "flags AND PAGE_PRESENT = 0" "flags AND PAGE_KOS_OWNED_MAPPING = 0"
    by (rule f, simp add: page_bits PAGE_ADDRESS_MASK_def)+
  show "e AND PAGE_ADDRESS_MASK = pa AND PAGE_ADDRESS_MASK"
    by (simp add: e_def bit.conj_disj_distrib2 z mask_low_bits and.assoc)
  show "present e" by (simp add: e_def present_def bit.conj_disj_distrib2 z p mask_low_bits) (simp add: page_bits)
  show "e AND PAGE_KOS_OWNED_MAPPING \<noteq> 0"
    by (simp add: e_def bit.conj_disj_distrib2 z p mask_low_bits) (simp add: page_bits)
  show "e AND VMM_PAGE_WRITABLE = flags AND VMM_PAGE_WRITABLE" "e AND VMM_PAGE_USER = flags AND VMM_PAGE_USER"
    "e AND VMM_PAGE_NO_EXECUTE = flags AND VMM_PAGE_NO_EXECUTE"
    by (simp_all add: e_def bit.conj_disj_distrib2 p mask_low_bits) (simp_all add: page_bits)
qed

text \<open>The flags a query reports never grant more than the leaf does.\<close>

definition no_more_than :: "u64 \<Rightarrow> u64 \<Rightarrow> bool" where
  "no_more_than fl flags \<longleftrightarrow> (fl AND VMM_PAGE_WRITABLE \<noteq> 0 \<longrightarrow> flags AND VMM_PAGE_WRITABLE \<noteq> 0)
     \<and> (fl AND VMM_PAGE_USER \<noteq> 0 \<longrightarrow> flags AND VMM_PAGE_USER \<noteq> 0)
     \<and> (flags AND VMM_PAGE_NO_EXECUTE \<noteq> 0 \<longrightarrow> fl AND VMM_PAGE_NO_EXECUTE \<noteq> 0)"

lemma effective_flags_no_more: "no_more_than (public_page_flags (combine_effective_flags g e)) e"
proof -
  have pub: "public_page_flags x AND b = x AND b"
    if "NOT (PAGE_KOS_OWNED_TABLE OR PAGE_KOS_OWNED_MAPPING) AND b = b" for x b
    using that by (simp add: public_page_flags_def and.assoc)
  have pubs: "public_page_flags x AND VMM_PAGE_WRITABLE = x AND VMM_PAGE_WRITABLE"
    "public_page_flags x AND VMM_PAGE_USER = x AND VMM_PAGE_USER"
    "public_page_flags x AND VMM_PAGE_NO_EXECUTE = x AND VMM_PAGE_NO_EXECUTE" for x
    by (rule pub, simp add: page_bits)+
  define r1 where "r1 = (if g AND VMM_PAGE_WRITABLE = 0 then e AND NOT VMM_PAGE_WRITABLE else e)"
  define r2 where "r2 = (if g AND VMM_PAGE_USER = 0 then r1 AND NOT VMM_PAGE_USER else r1)"
  have c: "combine_effective_flags g e = (if g AND VMM_PAGE_NO_EXECUTE \<noteq> 0 then r2 OR VMM_PAGE_NO_EXECUTE else r2)"
    by (simp add: combine_effective_flags_def Let_def r1_def r2_def)
  have 1: "r1 AND VMM_PAGE_WRITABLE \<in> {0, e AND VMM_PAGE_WRITABLE}" "r1 AND VMM_PAGE_USER = e AND VMM_PAGE_USER"
    "r1 AND VMM_PAGE_NO_EXECUTE = e AND VMM_PAGE_NO_EXECUTE"
    by (simp_all add: r1_def and.assoc page_bits)
  have 2: "r2 AND VMM_PAGE_WRITABLE = r1 AND VMM_PAGE_WRITABLE" "r2 AND VMM_PAGE_USER \<in> {0, r1 AND VMM_PAGE_USER}"
    "r2 AND VMM_PAGE_NO_EXECUTE = r1 AND VMM_PAGE_NO_EXECUTE"
    by (simp_all add: r2_def and.assoc page_bits)
  have 3: "(r2 OR VMM_PAGE_NO_EXECUTE) AND VMM_PAGE_WRITABLE = r2 AND VMM_PAGE_WRITABLE"
    "(r2 OR VMM_PAGE_NO_EXECUTE) AND VMM_PAGE_USER = r2 AND VMM_PAGE_USER"
    by (rule or_and_apart, simp add: page_bits)+
  have "VMM_PAGE_NO_EXECUTE AND (r2 OR VMM_PAGE_NO_EXECUTE) = VMM_PAGE_NO_EXECUTE"
    by (auto simp: bit_eq_iff bit_and_iff bit_or_iff)
  then have 4: "(r2 OR VMM_PAGE_NO_EXECUTE) AND VMM_PAGE_NO_EXECUTE \<noteq> 0"
    by (simp add: and.commute) (simp add: page_bits)
  show ?thesis unfolding no_more_than_def pubs c using 1 2 3 4 by auto
qed

section \<open>Pages and paths\<close>

definition same_page :: "u64 \<Rightarrow> u64 \<Rightarrow> bool" where
  "same_page va va' \<longleftrightarrow> take_bit 36 (drop_bit 12 va) = take_bit 36 (drop_bit 12 va')"

lemma field_eq_iff:
  "take_bit n (drop_bit a v) = take_bit n (drop_bit a w) \<longleftrightarrow> (\<forall>r < n. bit v (a + r) = bit w (a + r))" for v w :: u64
proof
  assume eq: "take_bit n (drop_bit a v) = take_bit n (drop_bit a w)"
  show "\<forall>r < n. bit v (a + r) = bit w (a + r)"
  proof (intro allI impI)
    fix r assume "r < n"
    moreover have "bit (take_bit n (drop_bit a v)) r = bit (take_bit n (drop_bit a w)) r" by (simp only: eq)
    ultimately show "bit v (a + r) = bit w (a + r)" by (simp add: bit_take_bit_iff bit_drop_bit_eq)
  qed
qed (auto intro!: bit_word_eqI simp: bit_take_bit_iff bit_drop_bit_eq)

lemma ix_eq_iff: "ix k va = ix k va' \<longleftrightarrow> (\<forall>r < 9. bit va (39 - 9 * k + r) = bit va' (39 - 9 * k + r))"
proof -
  have m: "(511 :: u64) = mask 9" by (simp add: mask_eq_exp_minus_1)
  have "ix k va = ix k va' \<longleftrightarrow> take_bit 9 (drop_bit (39 - 9 * k) va) = take_bit 9 (drop_bit (39 - 9 * k) va')"
    unfolding ix_def page_table_index_def m take_bit_eq_mask [symmetric] by (simp add: word_unat_eq_iff)
  also have "\<dots> \<longleftrightarrow> (\<forall>r < 9. bit va (39 - 9 * k + r) = bit va' (39 - 9 * k + r))"
    by (rule field_eq_iff)
  finally show ?thesis .
qed

lemma same_page_path: "same_page va va' \<longleftrightarrow> same_path 4 va va'"
proof -
  have "same_page va va' \<longleftrightarrow> (\<forall>n < 36. bit va (12 + n) = bit va' (12 + n))"
    unfolding same_page_def by (rule field_eq_iff)
  also have "\<dots> \<longleftrightarrow> (\<forall>k < 4. \<forall>r < 9. bit va (39 - 9 * k + r) = bit va' (39 - 9 * k + r))"
  proof safe
    fix k r :: nat
    assume *: "\<forall>n < 36. bit va (12 + n) = bit va' (12 + n)" and k: "k < 4" "r < 9"
    then have "27 - 9 * k + r < 36" by linarith
    then have "bit va (12 + (27 - 9 * k + r)) = bit va' (12 + (27 - 9 * k + r))" using * by blast
    moreover have "12 + (27 - 9 * k + r) = 39 - 9 * k + r" using k by linarith
    ultimately have "bit va (39 - 9 * k + r) = bit va' (39 - 9 * k + r)" by metis
    then show "bit va (39 - 9 * k + r) \<Longrightarrow> bit va' (39 - 9 * k + r)"
      and "bit va' (39 - 9 * k + r) \<Longrightarrow> bit va (39 - 9 * k + r)" by blast+
  next
    fix n :: nat
    assume *: "\<forall>k < 4. \<forall>r < 9. bit va (39 - 9 * k + r) = bit va' (39 - 9 * k + r)" and n: "n < 36"
    have d: "n = 9 * (n div 9) + n mod 9" "n mod 9 < 9" by simp_all
    have "n div 9 \<le> 3" using n by linarith
    then have "39 - 9 * (3 - n div 9) + n mod 9 = 12 + n" using d by linarith
    then have "bit va (12 + n) = bit va' (12 + n)" using * [rule_format, of "3 - n div 9" "n mod 9"] d(2) by simp
    then show "bit va (12 + n) \<Longrightarrow> bit va' (12 + n)" and "bit va' (12 + n) \<Longrightarrow> bit va (12 + n)" by blast+
  qed
  finally show ?thesis by (simp add: same_path_def ix_eq_iff)
qed

lemma same_page_refl [simp]: "same_page va va"
  by (simp add: same_page_def)

section \<open>Mapping: the result\<close>

lemma invalidate_simps [simp]: "pt_mem (invalidate_if_active p va s) = pt_mem s"
  "frames (invalidate_if_active p va s) = frames s" "vmm_initialized (invalidate_if_active p va s) = vmm_initialized s"
  by (simp_all add: invalidate_if_active_def)

lemma map_success:
  assumes inv: "vmm_inv s p" and args: "map_arguments_ok p va pa flags"
    and V: "same_view p s s3" and T: "tab (pt_mem s3) p va 3 = Some f" and N: "\<not> present (pt_mem s3 f (ix 3 va))"
    and s': "s' = invalidate_if_active p va (set_entry f (ix 3 va)
         ((pa AND PAGE_ADDRESS_MASK) OR PAGE_PRESENT OR PAGE_KOS_OWNED_MAPPING OR flags) s3)"
  shows "vmm_inv s' p" "found (pt_mem s) p va = None"
    "\<And>va'. \<not> same_page va va' \<Longrightarrow> found (pt_mem s') p va' = found (pt_mem s) p va'"
    "\<And>va'. same_page va va' \<Longrightarrow> \<exists>fl. no_more_than fl flags
       \<and> vmm_query_page_in p va' s' = Some ((pa AND PAGE_ADDRESS_MASK) OR (va' AND mask 12), fl)"
proof -
  define e where "e = (pa AND PAGE_ADDRESS_MASK) OR PAGE_PRESENT OR PAGE_KOS_OWNED_MAPPING OR flags"
  have m': "pt_mem s' = put f (ix 3 va) e (pt_mem s3)" by (simp add: s' e_def)
  have I3: "vmm_inv s3 p" using V same_view_inv by blast
  show I': "vmm_inv s' p" by (rule inv_put_leaf [OF I3 T]) (simp_all add: s')
  have fs: "found (pt_mem s3) p va' = found (pt_mem s) p va'" for va' using V by (simp add: same_view_def)
  have "depth (pt_mem s3) p va = 3 \<and> last_entry (pt_mem s3) p va = pt_mem s3 f (ix 3 va)"
    using last_entryI [OF T] by simp
  then show "found (pt_mem s) p va = None" using N fs [of va] by (simp add: found_def)
  have flags: "flags AND NOT (VMM_PAGE_WRITABLE OR VMM_PAGE_USER OR VMM_PAGE_NO_EXECUTE) = 0"
    using args by (simp add: map_arguments_ok_def)
  note E = leaf_entry [OF flags, of pa, folded e_def]
  note F = found_put_leaf [OF vmm_invD(5) [OF I3] T, of e, folded m' same_page_path]
  show "found (pt_mem s') p va' = found (pt_mem s) p va'" if "\<not> same_page va va'" for va'
    using F [of va'] that fs by simp
  show "\<exists>fl. no_more_than fl flags
       \<and> vmm_query_page_in p va' s' = Some ((pa AND PAGE_ADDRESS_MASK) OR (va' AND mask 12), fl)"
    if "same_page va va'" for va'
  proof -
    have "found (pt_mem s') p va' = Some (3, e)" using F [of va'] that E(2) by simp
    moreover obtain g where "vmm_query_page_in p va' s' = map_option (\<lambda>(d, e).
        (page_of d e va', public_page_flags (combine_effective_flags g e))) (found (pt_mem s') p va')"
      using query_found [OF I'] by blast
    ultimately have "vmm_query_page_in p va' s' =
        Some ((pa AND PAGE_ADDRESS_MASK) OR (va' AND mask 12), public_page_flags (combine_effective_flags g e))"
      using E(1) by (simp add: page_of_def)
    moreover have "no_more_than (public_page_flags (combine_effective_flags g e)) flags"
      using effective_flags_no_more [of g e] E(4,5,6) by (simp add: no_more_than_def)
    ultimately show ?thesis by blast
  qed
qed

lemma map_result:
  assumes inv: "vmm_inv s p" and r: "vmm_map_page_in p va pa flags s = (ok, s')"
  shows "vmm_inv s' p
    \<and> (\<forall>va'. \<not> (ok \<and> same_page va va') \<longrightarrow> translation p va' s' = translation p va' s)
    \<and> (ok \<longrightarrow> map_arguments_ok p va pa flags \<and> translation p va s = None
        \<and> (\<forall>va'. same_page va va' \<longrightarrow> (\<exists>fl. no_more_than fl flags
              \<and> vmm_query_page_in p va' s' = Some ((pa AND PAGE_ADDRESS_MASK) OR (va' AND mask 12), fl))))
    \<and> (\<not> ok \<longrightarrow> pmm_avail (frames s') = pmm_avail (frames s))
    \<and> (map_arguments_ok p va pa flags \<and> translation p va s = None \<and> 3 \<le> card (pmm_avail (frames s)) \<longrightarrow> ok)"
proof (cases "map_arguments_ok p va pa flags")
  case False
  then have "ok = False" "s' = s" using r by (simp_all add: vmm_map_page_in_def)
  with inv False show ?thesis by simp
next
  case args: True
  from inv args r show ?thesis
  proof (cases rule: vmm_map_page_in_cases)
    case (mapped s1 s2 s3 c1 c2 c3 f1 f2 f3)
    note M = map_success [OF inv args mapped(2-5)]
    show ?thesis using M mapped(1) args by (simp add: translation_found [OF inv] translation_found [OF M(1)] split: if_splits)
  next
    case failed
    then show ?thesis using same_view_translation [OF inv failed(2)] same_view_inv [OF failed(2)]
      by (auto simp: translation_found [OF inv])
  qed
qed

end
