(* ===== verification/KOS_Vmm_Unmap.thy ===== *)
theory KOS_Vmm_Unmap
  imports KOS_Vmm_Correct
begin

text \<open>
  Unmapping in \<open>src/mm/vmm.c\<close>: what \<open>vmm_unmap_page_in\<close> removes, which page tables it gives back,
  and the round trip with \<open>vmm_map_page_in\<close>.
\<close>

section \<open>Unmapping a page\<close>

lemma sub_None_iff: "sub e = None \<longleftrightarrow> e AND PAGE_PRESENT = 0 \<or> e AND PAGE_HUGE \<noteq> 0"
  by (auto simp: sub_def present_def huge_def)

text \<open>The tail of \<open>vmm_unmap_page_in\<close>: the emptied tables are given back from the bottom up.\<close>

definition release_up :: "u64 \<Rightarrow> u64 \<Rightarrow> u64 \<Rightarrow> u64 \<Rightarrow> 'a vmm_state_scheme \<Rightarrow> 'a vmm_state_scheme" where
  "release_up p f1 f2 va s =
     (let (released1, s2) = release_owned_empty_table f2 (ix 2 va) s;
          (released2, s3) = (if released1 then release_owned_empty_table f1 (ix 1 va) s2 else (False, s2))
      in if released2 then snd (release_owned_empty_table p (ix 0 va) s3) else s3)"

lemma unmap_unfold:
  assumes "vmm_inv s p" "va mod PAGE_SIZE = 0"
  shows "tab (pt_mem s) p va 3 = None \<Longrightarrow> vmm_unmap_page_in p va s = (0, s)"
    "tab (pt_mem s) p va 1 = Some f1 \<Longrightarrow> tab (pt_mem s) p va 2 = Some f2 \<Longrightarrow> tab (pt_mem s) p va 3 = Some f3 \<Longrightarrow>
     vmm_unmap_page_in p va s =
       (let e = pt_mem s f3 (ix 3 va) in
        if present e \<and> e AND PAGE_KOS_OWNED_MAPPING \<noteq> 0
        then (e AND PAGE_ADDRESS_MASK,
              release_up p f1 f2 va (invalidate_if_active p va (set_entry f3 (ix 3 va) 0 s)))
        else (0, s))"
proof -
  note D = vmm_invD [OF assms(1)]
  define e4 where "e4 = pt_mem s p (ix 0 va)"
  define e3 where "e3 = pt_mem s (e4 AND PAGE_ADDRESS_MASK) (ix 1 va)"
  define e2 where "e2 = pt_mem s (e3 AND PAGE_ADDRESS_MASK) (ix 2 va)"
  have unf: "vmm_unmap_page_in p va s =
      (if sub e4 = None then (0, s) else if sub e3 = None then (0, s) else if sub e2 = None then (0, s)
       else let e = pt_mem s (e2 AND PAGE_ADDRESS_MASK) (ix 3 va) in
        if present e \<and> e AND PAGE_KOS_OWNED_MAPPING \<noteq> 0
        then (e AND PAGE_ADDRESS_MASK, release_up p (e4 AND PAGE_ADDRESS_MASK) (e3 AND PAGE_ADDRESS_MASK) va
               (invalidate_if_active p va (set_entry (e2 AND PAGE_ADDRESS_MASK) (ix 3 va) 0 s)))
        else (0, s))"
    using D(1-3) assms(2)
    by (simp add: vmm_unmap_page_in_def release_up_def Let_def ix_shifts sub_None_iff present_and_mapped_iff
        e4_def e3_def e2_def split: prod.splits)
  have t1: "tab (pt_mem s) p va (Suc 0) = sub e4" by (simp add: e4_def)
  have t2: "sub e4 = Some a \<Longrightarrow> tab (pt_mem s) p va (Suc (Suc 0)) = sub e3" for a
    using sub_SomeD [of e4 a] by (simp add: e4_def [symmetric] e3_def)
  have t3: "sub e4 = Some a \<Longrightarrow> sub e3 = Some b \<Longrightarrow> tab (pt_mem s) p va (Suc (Suc (Suc 0))) = sub e2" for a b
    using t2 [of a] sub_SomeD [of e4 a] sub_SomeD [of e3 b] by (simp add: e2_def numeral_2_eq_2 del: tab.simps(1))
  show "vmm_unmap_page_in p va s = (0, s)" if "tab (pt_mem s) p va 3 = None"
  proof (cases "sub e4")
    case (Some a)
    then show ?thesis
    proof (cases "sub e3")
      case (Some b)
      then show ?thesis using t3 [OF \<open>sub e4 = Some a\<close> Some] that by (simp add: unf numeral_3_eq_3 del: tab.simps)
    qed (simp add: unf)
  qed (simp add: unf)
  assume "tab (pt_mem s) p va 1 = Some f1" and "tab (pt_mem s) p va 2 = Some f2" and T3: "tab (pt_mem s) p va 3 = Some f3"
  then have 1: "sub e4 = Some f1" "f1 = e4 AND PAGE_ADDRESS_MASK" using t1 sub_SomeD [of e4 f1] by (simp_all del: tab.simps)
  then have 2: "sub e3 = Some f2" "f2 = e3 AND PAGE_ADDRESS_MASK"
    using t2 [of f1] \<open>tab (pt_mem s) p va 2 = Some f2\<close> sub_SomeD [of e3 f2] by (simp_all add: numeral_2_eq_2 del: tab.simps)
  then have 3: "sub e2 = Some f3" "f3 = e2 AND PAGE_ADDRESS_MASK"
    using t3 [of f1 f2] 1 T3 sub_SomeD [of e2 f3] by (simp_all add: numeral_3_eq_3 del: tab.simps)
  show "vmm_unmap_page_in p va s =
       (let e = pt_mem s f3 (ix 3 va) in
        if present e \<and> e AND PAGE_KOS_OWNED_MAPPING \<noteq> 0
        then (e AND PAGE_ADDRESS_MASK,
              release_up p f1 f2 va (invalidate_if_active p va (set_entry f3 (ix 3 va) 0 s)))
        else (0, s))"
    unfolding unf by (simp add: 1 2 3 cong: if_cong)
qed

text \<open>Every table that is the manager's own and empty once its child is gone is given back.\<close>

lemma release_up_result:
  assumes inv: "vmm_inv s p" and T1: "tab (pt_mem s) p va 1 = Some f1" and T2: "tab (pt_mem s) p va 2 = Some f2"
    and T3: "tab (pt_mem s) p va 3 = Some f3"
  shows "same_view p s (release_up p f1 f2 va s) \<and> pmm_avail (frames s) \<subseteq> pmm_avail (frames (release_up p f1 f2 va s))
    \<and> (owned_entry (pt_mem s f2 (ix 2 va)) \<and> empty_table (pt_mem s) f3 \<longrightarrow>
        unat f3 \<in> pmm_avail (frames (release_up p f1 f2 va s))
        \<and> (owned_entry (pt_mem s f1 (ix 1 va)) \<and> empty_table (put f2 (ix 2 va) 0 (pt_mem s)) f2 \<longrightarrow>
            unat f2 \<in> pmm_avail (frames (release_up p f1 f2 va s))
            \<and> (owned_entry (pt_mem s p (ix 0 va)) \<and> empty_table (put f1 (ix 1 va) 0 (pt_mem s)) f1 \<longrightarrow>
                unat f1 \<in> pmm_avail (frames (release_up p f1 f2 va s)))))"
proof -
  have ne: "p \<noteq> f1" "p \<noteq> f2" "f1 \<noteq> f2" "f1 \<noteq> f3" "f2 \<noteq> f3"
    using walk_distinct [OF inv _ T1, of va 0] walk_distinct [OF inv _ T2, of va 0] walk_distinct [OF inv T1 T2]
      walk_distinct [OF inv T1 T3] walk_distinct [OF inv T2 T3] by auto
  have sub: "sub (pt_mem s p (ix 0 va)) = Some f1" "sub (pt_mem s f1 (ix 1 va)) = Some f2" "sub (pt_mem s f2 (ix 2 va)) = Some f3"
    using T1 T2 T3 by (simp_all add: numeral_2_eq_2 numeral_3_eq_3)
  have le: "(0::nat) \<le> 2" "(1::nat) \<le> 2" "(2::nat) \<le> 2" by simp_all
  obtain r2 s2 where r2: "release_owned_empty_table f2 (ix 2 va) s = (r2, s2)" by fastforce
  from inv T2 le(3) sub(3) r2 show ?thesis
  proof (cases rule: release_cases)
    case kept
    then show ?thesis using same_view_refl [OF inv] r2 by (auto simp: release_up_def)
  next
    case A: released
    have I2: "vmm_inv s2 p" using A(2) same_view_inv by blast
    have m2: "pt_mem s2 f1 (ix 1 va) = pt_mem s f1 (ix 1 va)" "pt_mem s2 p (ix 0 va) = pt_mem s p (ix 0 va)"
      using A(5) ne by (simp_all add: put_other)
    have T1': "tab (pt_mem s2) p va 1 = Some f1" using m2 sub by simp
    obtain r1 s3 where r1: "release_owned_empty_table f1 (ix 1 va) s2 = (r1, s3)" by fastforce
    have "sub (pt_mem s2 f1 (ix 1 va)) = Some f2" using m2 sub by simp
    from I2 T1' le(2) this r1 show ?thesis
    proof (cases rule: release_cases)
      case kept
      then show ?thesis using A r1 r2 m2 by (auto simp: release_up_def)
    next
      case B: released
      have I3: "vmm_inv s3 p" using B(2) same_view_inv by blast
      have m3: "pt_mem s3 p (ix 0 va) = pt_mem s p (ix 0 va)" using B(5) m2 ne by (simp add: put_other)
      have emp: "empty_table (pt_mem s3) f1 = empty_table (put f1 (ix 1 va) 0 (pt_mem s)) f1"
        using A(5) B(5) ne by (simp add: put_def empty_table_def)
      obtain r0 s4 where r0: "release_owned_empty_table p (ix 0 va) s3 = (r0, s4)" by fastforce
      have "sub (pt_mem s3 p (ix 0 va)) = Some f1" using m3 sub by simp
      have T0: "tab (pt_mem s3) p va 0 = Some p" by simp
      have V: "same_view p s s3" using same_view_trans [OF A(2) B(2)] .
      from I3 T0 le(1) \<open>sub (pt_mem s3 p (ix 0 va)) = Some f1\<close> r0 show ?thesis
      proof (cases rule: release_cases)
        case kept
        then show ?thesis using A B r0 r1 r2 m2 m3 V emp by (auto simp: release_up_def)
      next
        case C: released
        then show ?thesis using A B r0 r1 r2 same_view_trans [OF V C(2)] by (auto simp: release_up_def)
      qed
    qed
  qed
qed

lemma unmap_leaf:
  assumes inv: "vmm_inv s p" and T3: "tab (pt_mem s) p va 3 = Some f3"
  defines "s1 \<equiv> invalidate_if_active p va (set_entry f3 (ix 3 va) 0 s)"
  shows "vmm_inv s1 p" "found (pt_mem s1) p va' = (if same_page va va' then None else found (pt_mem s) p va')"
    "tab (pt_mem s1) p va k = tab (pt_mem s) p va k \<or> 3 < k" "frames s1 = frames s"
proof -
  note D = vmm_invD [OF inv]
  show "vmm_inv s1 p" by (rule inv_put_leaf [OF inv T3]) (simp_all add: s1_def)
  show "found (pt_mem s1) p va' = (if same_page va va' then None else found (pt_mem s) p va')"
    using found_put_leaf [OF D(5) T3, of 0 va'] by (simp add: s1_def same_page_path present_def)
  show "tab (pt_mem s1) p va k = tab (pt_mem s) p va k \<or> 3 < k"
    using tab_put_leaf [OF D(5) T3, of k 0 va] by (auto simp: s1_def)
qed (simp add: s1_def)

lemma walk_prefix: "tab m p va 3 = Some f3 \<Longrightarrow> \<exists>f1 f2. tab m p va 1 = Some f1 \<and> tab m p va 2 = Some f2"
  by (auto simp: numeral_2_eq_2 numeral_3_eq_3 split: option.splits)

lemma aligned_offset: "va mod PAGE_SIZE = 0 \<Longrightarrow> va AND mask 12 = 0"
  by (simp add: PAGE_SIZE_def take_bit_eq_mask [symmetric] take_bit_eq_mod)

text \<open>A page \<open>vmm_unmap_page_in\<close> may remove: a 4 KiB leaf the manager itself installed.\<close>

definition owned_mapping :: "u64 \<Rightarrow> u64 \<Rightarrow> 'a vmm_state_scheme \<Rightarrow> bool" where
  "owned_mapping p va s \<longleftrightarrow> (\<exists>e. found (pt_mem s) p va = Some (3, e) \<and> e AND PAGE_KOS_OWNED_MAPPING \<noteq> 0)"

lemma owned_mapping_leaf:
  assumes "tab (pt_mem s) p va 3 = Some f"
  shows "owned_mapping p va s \<longleftrightarrow>
    present (pt_mem s f (ix 3 va)) \<and> pt_mem s f (ix 3 va) AND PAGE_KOS_OWNED_MAPPING \<noteq> 0"
  using last_entryI [OF assms] by (auto simp: owned_mapping_def found_def)

lemma owned_mapping_no_table: "tab (pt_mem s) p va 3 = None \<Longrightarrow> \<not> owned_mapping p va s"
  using tab_depth [of "pt_mem s" p va] by (auto simp: owned_mapping_def found_def split: if_splits)

lemma unmap_result:
  assumes inv: "vmm_inv s p" and r: "vmm_unmap_page_in p va s = (pa, s')"
  shows "vmm_inv s' p \<and> pmm_avail (frames s) \<subseteq> pmm_avail (frames s')
    \<and> (\<forall>va'. \<not> same_page va va' \<longrightarrow> translation p va' s' = translation p va' s)
    \<and> (if va mod PAGE_SIZE = 0 \<and> owned_mapping p va s
       then translation p va s = Some pa \<and> (\<forall>va'. same_page va va' \<longrightarrow> translation p va' s' = None)
       else pa = 0 \<and> s' = s)"
proof (cases "va mod PAGE_SIZE = 0 \<and> owned_mapping p va s")
  case False
  have "pa = 0 \<and> s' = s"
  proof (cases "va mod PAGE_SIZE = 0")
    case al: True
    show ?thesis
    proof (cases "tab (pt_mem s) p va 3")
      case None
      then show ?thesis using unmap_unfold(1) [OF inv al] r by simp
    next
      case T3: (Some f3)
      obtain f1 f2 where T12: "tab (pt_mem s) p va 1 = Some f1" "tab (pt_mem s) p va 2 = Some f2"
        using walk_prefix [OF T3] by blast
      show ?thesis
        using unmap_unfold(2) [OF inv al T12 T3] r False al owned_mapping_leaf [OF T3] by (auto simp: Let_def)
    qed
  qed (use r in \<open>simp add: vmm_unmap_page_in_def\<close>)
  with inv False show ?thesis by auto
next
  case True
  then have al: "va mod PAGE_SIZE = 0" and own: "owned_mapping p va s" by simp_all
  obtain f3 where T3: "tab (pt_mem s) p va 3 = Some f3" using owned_mapping_no_table own by fastforce
  obtain f1 f2 where T12: "tab (pt_mem s) p va 1 = Some f1" "tab (pt_mem s) p va 2 = Some f2" using walk_prefix [OF T3] by blast
  define e where "e = pt_mem s f3 (ix 3 va)"
  define s1 where "s1 = invalidate_if_active p va (set_entry f3 (ix 3 va) 0 s)"
  have e: "present e \<and> e AND PAGE_KOS_OWNED_MAPPING \<noteq> 0" using own owned_mapping_leaf [OF T3] by (simp add: e_def)
  then have res: "pa = e AND PAGE_ADDRESS_MASK" "s' = release_up p f1 f2 va s1"
    using unmap_unfold(2) [OF inv al T12 T3, folded e_def s1_def] r by (simp_all add: Let_def)
  note L = unmap_leaf [OF inv T3, folded s1_def]
  have tabs: "tab (pt_mem s1) p va 1 = Some f1" "tab (pt_mem s1) p va 2 = Some f2" "tab (pt_mem s1) p va 3 = Some f3"
    using L(3) [of 1] L(3) [of 2] L(3) [of 3] T12 T3 by simp_all
  note R = release_up_result [OF L(1) tabs, folded res(2)]
  have I': "vmm_inv s' p" using R same_view_inv by blast
  have F: "found (pt_mem s') p va' = (if same_page va va' then None else found (pt_mem s) p va')" for va'
    using R L(2) [of va'] by (simp add: same_view_def)
  have "found (pt_mem s) p va = Some (3, e)"
    using last_entryI [OF T3] e by (simp add: found_def e_def)
  then have "translation p va s = Some pa"
    using res(1) aligned_offset [OF al] by (simp add: translation_found [OF inv] page_of_def)
  then show ?thesis using I' R L(4) F al own by (simp add: translation_found [OF inv] translation_found [OF I'])
qed

section \<open>Unmapping what was mapped\<close>

lemma empty_table_put: "empty_table m t \<Longrightarrow> empty_table (put t i 0 (put t i e m)) t"
  by (simp add: empty_table_def put_def present_def)

lemma entered_undone:
  assumes "entered c t i f s s1" "empty_table (pt_mem s) t" "f \<noteq> t" "\<And>j. j \<noteq> i \<Longrightarrow> pt_mem s' t j = pt_mem s1 t j"
  shows "empty_table (put t i 0 (pt_mem s')) t"
  using assms entered_other [OF assms(1), of t] by (simp add: empty_table_def put_def present_def)

lemma map_unmap_avail:
  assumes inv: "vmm_inv s p" and V: "same_view p s s3"
    and T: "tab (pt_mem s3) p va 1 = Some f1" "tab (pt_mem s3) p va 2 = Some f2" "tab (pt_mem s3) p va 3 = Some f3"
    and E: "entered c1 p (ix 0 va) f1 s s1" "entered c2 f1 (ix 1 va) f2 s1 s2" "entered c3 f2 (ix 2 va) f3 s2 s3"
    and s': "pt_mem s' = put f3 (ix 3 va) 0 (put f3 (ix 3 va) e (pt_mem s3))" "frames s' = frames s3" "vmm_inv s' p"
  shows "pmm_avail (frames s) \<subseteq> pmm_avail (frames (release_up p f1 f2 va s'))"
proof -
  have I3: "vmm_inv s3 p" using V same_view_inv by blast
  have T0: "tab (pt_mem s3) p va 0 = Some p" by simp
  have ne: "p \<noteq> f1" "p \<noteq> f2" "p \<noteq> f3" "f1 \<noteq> f2" "f1 \<noteq> f3" "f2 \<noteq> f3"
    using walk_distinct [OF I3 T0 T(1)] walk_distinct [OF I3 T0 T(2)] walk_distinct [OF I3 T0 T(3)]
      walk_distinct [OF I3 T(1,2)] walk_distinct [OF I3 T(1,3)] walk_distinct [OF I3 T(2,3)] by auto
  have mem: "pt_mem s' t = pt_mem s3 t" if "t \<noteq> f3" for t using that by (simp add: s' put_def fun_eq_iff)
  have sub: "sub (pt_mem s3 p (ix 0 va)) = Some f1" "sub (pt_mem s3 f1 (ix 1 va)) = Some f2" "sub (pt_mem s3 f2 (ix 2 va)) = Some f3"
    using T by (simp_all add: numeral_2_eq_2 numeral_3_eq_3)
  have T': "tab (pt_mem s') p va 1 = Some f1" "tab (pt_mem s') p va 2 = Some f2" "tab (pt_mem s') p va 3 = Some f3"
    using sub ne mem by (simp_all add: numeral_2_eq_2 numeral_3_eq_3)
  note R = release_up_result [OF s'(3) T', unfolded s'(2)]
  have c23: "c1 \<Longrightarrow> c2" "c2 \<Longrightarrow> c3"
    using entered_empty_created [OF entered_empty [OF E(1)] ix_less E(2)]
      entered_empty_created [OF entered_empty [OF E(2)] ix_less E(3)] by simp_all
  have o3: "owned_entry (pt_mem s' f2 (ix 2 va))" "empty_table (pt_mem s') f3" if c3
    using that E(3) ne mem entered_empty [OF E(3)] empty_table_put by (simp_all add: entered_def s')
  have m2: "pt_mem s' f1 j = pt_mem s2 f1 j" for j using entered_other [OF E(3), of f1] ne mem by simp
  have o2: "owned_entry (pt_mem s' f1 (ix 1 va))" "empty_table (put f2 (ix 2 va) 0 (pt_mem s')) f2" if c2
    using that E(2) m2 entered_undone [OF E(3) entered_empty [OF E(2)], of s'] ne mem by (simp_all add: entered_def)
  have m1: "pt_mem s' p j = pt_mem s1 p j" for j
    using entered_other [OF E(3), of p j] entered_other [OF E(2), of p j] ne mem by simp
  have o1: "owned_entry (pt_mem s' p (ix 0 va))" "empty_table (put f1 (ix 1 va) 0 (pt_mem s')) f1" if c1
    using that E(1) m1 entered_undone [OF E(2) entered_empty [OF E(1)], of s'] ne m2 by (simp_all add: entered_def)
  show ?thesis
    unfolding entered_avail [OF E(1)] entered_avail [OF E(2)] entered_avail [OF E(3)]
    using R c23 o1 o2 o3 by (simp split: if_splits)
qed

lemma map_unfound:
  assumes "vmm_inv s p" "same_view p s s3" "tab (pt_mem s3) p va 3 = Some f" "\<not> present (pt_mem s3 f (ix 3 va))" "same_page va va'"
  shows "found (pt_mem s) p va' = None"
proof -
  have I3: "vmm_inv s3 p" using assms(2) same_view_inv by blast
  have "put f (ix 3 va) (pt_mem s3 f (ix 3 va)) (pt_mem s3) = pt_mem s3" by (auto simp: put_def fun_eq_iff)
  then have "found (pt_mem s3) p va' = None"
    using found_put_leaf [OF vmm_invD(5) [OF I3] assms(3), of "pt_mem s3 f (ix 3 va)" va'] assms(4,5)
    by (simp add: same_page_path)
  then show ?thesis using assms(2) by (simp add: same_view_def)
qed

lemma map_unmap_result:
  assumes inv: "vmm_inv s p" and m: "vmm_map_page_in p va pa flags s = (True, s1)"
    and u: "vmm_unmap_page_in p va s1 = (r, s2)"
  shows "r = pa AND PAGE_ADDRESS_MASK \<and> vmm_inv s2 p \<and> (\<forall>va'. translation p va' s2 = translation p va' s)
    \<and> pmm_avail (frames s) \<subseteq> pmm_avail (frames s2)"
proof -
  have args: "map_arguments_ok p va pa flags" using map_result [OF inv m] by blast
  then have al: "va mod PAGE_SIZE = 0" by (simp add: map_arguments_ok_def)
  from inv args m show ?thesis
  proof (cases rule: vmm_map_page_in_cases)
    case (mapped t1 t2 t3 c1 c2 c3 f1 f2 f3)
    define e where "e = (pa AND PAGE_ADDRESS_MASK) OR PAGE_PRESENT OR PAGE_KOS_OWNED_MAPPING OR flags"
    have flags: "flags AND NOT (VMM_PAGE_WRITABLE OR VMM_PAGE_USER OR VMM_PAGE_NO_EXECUTE) = 0"
      using args by (simp add: map_arguments_ok_def)
    note E = leaf_entry [OF flags, of pa, folded e_def]
    have m1: "pt_mem s1 = put f3 (ix 3 va) e (pt_mem t3)" "frames s1 = frames t3"
      "vmm_initialized s1 = vmm_initialized t3" by (simp_all add: mapped(5) e_def)
    have I3: "vmm_inv t3 p" using mapped(2) same_view_inv by blast
    note M = map_success [OF inv args mapped(2-5)]
    have tabs: "tab (pt_mem s1) p va k = tab (pt_mem t3) p va k" if "k \<le> 3" for k
      unfolding m1 using tab_put_leaf [OF vmm_invD(5) [OF I3] mapped(3) that] .
    have T1: "tab (pt_mem s1) p va 1 = Some f1" "tab (pt_mem s1) p va 2 = Some f2" "tab (pt_mem s1) p va 3 = Some f3"
      using tabs [of 1] tabs [of 2] tabs [of 3] mapped(3,9,10) by simp_all
    define s' where "s' = invalidate_if_active p va (set_entry f3 (ix 3 va) 0 s1)"
    have leaf: "pt_mem s1 f3 (ix 3 va) = e" by (simp add: m1 put_def)
    have rs: "r = e AND PAGE_ADDRESS_MASK" "s2 = release_up p f1 f2 va s'"
      using unmap_unfold(2) [OF M(1) al T1, folded s'_def] u E(2,3) leaf by (simp_all add: Let_def)
    have I': "vmm_inv s' p" using unmap_leaf(1) [OF M(1) T1(3)] by (simp add: s'_def)
    have "pmm_avail (frames s) \<subseteq> pmm_avail (frames s2)"
      unfolding rs(2) using I' m1
      by (intro map_unmap_avail [OF inv mapped(2,9,10,3,6,7,8)]) (simp_all add: s'_def)
    moreover have I2: "vmm_inv s2 p" using unmap_result [OF M(1) u] by blast
    moreover have "translation p va' s2 = translation p va' s" for va'
    proof -
      note L = unmap_leaf [OF M(1) T1(3), folded s'_def]
      have T': "tab (pt_mem s') p va 1 = Some f1" "tab (pt_mem s') p va 2 = Some f2" "tab (pt_mem s') p va 3 = Some f3"
        using L(3) [of 1] L(3) [of 2] L(3) [of 3] T1 by simp_all
      have "found (pt_mem s2) p va' = (if same_page va va' then None else found (pt_mem s) p va')"
        using release_up_result [OF I' T'] L(2) [of va'] M(3) [of va'] by (simp add: rs(2) same_view_def)
      moreover have "found (pt_mem s) p va' = None" if "same_page va va'"
        using map_unfound [OF inv mapped(2-4)] that by blast
      ultimately have "found (pt_mem s2) p va' = found (pt_mem s) p va'" by simp
      then show ?thesis by (simp add: translation_found [OF inv] translation_found [OF I2])
    qed
    ultimately show ?thesis using E(1) rs(1) by simp
  next
    case failed
    then show ?thesis by simp
  qed
qed

section \<open>A concrete machine\<close>

text \<open>Three free frames and an empty address space rooted at frame 5.\<close>

definition vmm_example :: vmm_state where
  "vmm_example = \<lparr> hhdm_offset = 0xffff800000000000, vmm_pml4 = 0x5000, kernel_pml4_phys = 0x5000, vmm_initialized = True,
     pt_mem = (\<lambda>_ _. 0), frames = pmm_three_frames, cpu_cr3 = 0x5000, invalidated = [] \<rparr>"

lemma tab_zero: "tab (\<lambda>_ _. 0) p va d = (if d = 0 then Some p else None)"
  by (induction d) (auto simp: sub_def present_def)

lemma vmm_example_inv: "vmm_inv vmm_example 0x5000"
  by (auto simp: vmm_inv_def vmm_example_def PAGE_SIZE_def nosharing_def tables_out_def owned_out_def root_ok_def tab_zero
      present_def same_path_def sub_def pmm_ready_def pmm_avail_def pmm_three_frames_ready FRAME_SIZE_def split: if_splits)

lemma vmm_example_facts:
  "card (pmm_avail (frames vmm_example)) = 3" "map_arguments_ok 0x5000 0x400000 0x7000 VMM_PAGE_WRITABLE"
  "translation 0x5000 va vmm_example = None"
proof -
  have "pmm_avail (frames vmm_example) = {4096, 8192, 12288}"
    by (auto simp: pmm_avail_def vmm_example_def pmm_three_frames_ready FRAME_SIZE_def)
  then show "card (pmm_avail (frames vmm_example)) = 3" by simp
  show "map_arguments_ok 0x5000 0x400000 0x7000 VMM_PAGE_WRITABLE"
    by (simp add: map_arguments_ok_def PAGE_SIZE_def page_bits)
  show "translation 0x5000 va vmm_example = None"
    by (simp add: translation_def vmm_query_page_in_def vmm_example_def Let_def)
qed

definition vmm_example_mapped :: vmm_state where
  "vmm_example_mapped = snd (vmm_map_page_in 0x5000 0x400000 0x7000 VMM_PAGE_WRITABLE vmm_example)"

lemma vmm_example_mapped: "vmm_map_page_in 0x5000 0x400000 0x7000 VMM_PAGE_WRITABLE vmm_example = (True, vmm_example_mapped)"
  "vmm_inv vmm_example_mapped 0x5000"
proof -
  obtain ok s1 where m: "vmm_map_page_in 0x5000 0x400000 0x7000 VMM_PAGE_WRITABLE vmm_example = (ok, s1)" by fastforce
  have R: "ok" "vmm_inv s1 0x5000" using map_result [OF vmm_example_inv m] by (simp_all add: vmm_example_facts)
  then show "vmm_map_page_in 0x5000 0x400000 0x7000 VMM_PAGE_WRITABLE vmm_example = (True, vmm_example_mapped)"
    "vmm_inv vmm_example_mapped 0x5000" using m by (simp_all add: vmm_example_mapped_def)
qed

section \<open>The properties\<close>

text \<open>
  C24. Mapping a page in an address space whose tables are a tree of frames taken from the frame
  allocator: the tree and the allocator stay consistent; no other page's translation to a physical
  address changes (the rights of other pages under a shared table are not part of the statement); on
  success the page was free, and every address of it now translates into the requested frame with
  no more rights than were asked for; on failure every frame taken for a new table has been given
  back; and with three free frames a well-formed request for a free page succeeds.
\<close>

theorem vmm_map_page_correct:
  assumes "vmm_inv s p" and "vmm_map_page_in p va pa flags s = (ok, s')"
  shows "vmm_inv s' p
    \<and> (\<forall>va'. \<not> (ok \<and> same_page va va') \<longrightarrow> translation p va' s' = translation p va' s)
    \<and> (ok \<longrightarrow> map_arguments_ok p va pa flags \<and> translation p va s = None
        \<and> (\<forall>va'. same_page va va' \<longrightarrow> (\<exists>fl. no_more_than fl flags
              \<and> vmm_query_page_in p va' s' = Some ((pa AND PAGE_ADDRESS_MASK) OR (va' AND mask 12), fl))))
    \<and> (\<not> ok \<longrightarrow> pmm_avail (frames s') = pmm_avail (frames s))
    \<and> (map_arguments_ok p va pa flags \<and> translation p va s = None \<and> 3 \<le> card (pmm_avail (frames s)) \<longrightarrow> ok)"
  using assms by (rule map_result)

theorem vmm_map_page_correct_witness:
  "fst (vmm_map_page_in 0x5000 0x400000 0x7000 VMM_PAGE_WRITABLE vmm_example)
   \<and> vmm_inv (snd (vmm_map_page_in 0x5000 0x400000 0x7000 VMM_PAGE_WRITABLE vmm_example)) 0x5000"
  using vmm_map_page_correct [OF vmm_example_inv surjective_pairing, of "0x400000" "0x7000" VMM_PAGE_WRITABLE]
  by (simp add: vmm_example_facts)

text \<open>
  C25. Unmapping a page of such an address space keeps it consistent, never loses a free frame, and
  touches no other page. On a page-aligned address of a 4 KiB page that the manager mapped it returns
  the frame the page was mapped to, and no address of the page translates any more; on everything
  else (an unmapped page, a huge page, a boot-loader mapping) it returns 0 and changes nothing.
\<close>

theorem vmm_unmap_page_correct:
  assumes "vmm_inv s p" and "vmm_unmap_page_in p va s = (pa, s')"
  shows "vmm_inv s' p \<and> pmm_avail (frames s) \<subseteq> pmm_avail (frames s')
    \<and> (\<forall>va'. \<not> same_page va va' \<longrightarrow> translation p va' s' = translation p va' s)
    \<and> (if va mod PAGE_SIZE = 0 \<and> owned_mapping p va s
       then translation p va s = Some pa \<and> (\<forall>va'. same_page va va' \<longrightarrow> translation p va' s' = None)
       else pa = 0 \<and> s' = s)"
  using assms by (rule unmap_result)

theorem vmm_unmap_page_correct_witness:
  "vmm_inv (snd (vmm_unmap_page_in 0x5000 0x400000 vmm_example_mapped)) 0x5000"
  using vmm_unmap_page_correct [OF vmm_example_mapped(2) surjective_pairing, of "0x400000"] by simp

text \<open>
  Mapping a page and unmapping it again is the identity on the address space: the frame comes
  back, every address translates as before, and every frame that was free is free again, the page
  tables that were created on the way included.
\<close>

theorem vmm_map_unmap_roundtrip:
  assumes "vmm_inv s p" and "vmm_map_page_in p va pa flags s = (True, s1)" and "vmm_unmap_page_in p va s1 = (r, s2)"
  shows "r = pa AND PAGE_ADDRESS_MASK \<and> vmm_inv s2 p \<and> (\<forall>va'. translation p va' s2 = translation p va' s)
    \<and> pmm_avail (frames s) \<subseteq> pmm_avail (frames s2)"
  using assms by (rule map_unmap_result)

theorem vmm_map_unmap_roundtrip_witness:
  "fst (vmm_unmap_page_in 0x5000 0x400000 vmm_example_mapped) = 0x7000
   \<and> pmm_avail (frames vmm_example) \<subseteq> pmm_avail (frames (snd (vmm_unmap_page_in 0x5000 0x400000 vmm_example_mapped)))"
  using vmm_map_unmap_roundtrip [OF vmm_example_inv vmm_example_mapped(1) surjective_pairing]
  by (simp add: PAGE_ADDRESS_MASK_def)

end
