(* ===== verification/KOS_Heap.thy ===== *)
theory KOS_Heap
  imports KOS_Vmm_Unmap
begin

text \<open>
  The kernel heap: \<open>src/mm/heap.c\<close>, a first-fit allocator over a list of blocks. The heap grows by
  taking frames from the physical memory manager and mapping them with the virtual memory manager, so
  its state extends theirs. A block is its 32-byte header, \<open>sizeof (struct heap_block)\<close>, at an address,
  followed by \<open>size\<close> bytes; headers are kept in a store of their own, apart from the bytes of the
  allocations, and a null pointer is 0. Every function that takes \<open>heap_lock\<close> is one step. The walks
  along the block list need not end on a damaged list: they are partial functions, and their result,
  like that of the calls made of them, is \<open>None\<close> when they do not.
\<close>

section \<open>State\<close>

definition HEAP_BASE :: nat where "HEAP_BASE = 0xffffffffc0000000"
definition HEAP_MAXIMUM_BYTES :: nat where "HEAP_MAXIMUM_BYTES = 128 * 1024 * 1024"
definition HEAP_ALIGNMENT :: nat where "HEAP_ALIGNMENT = 16"
definition BLOCK_HEADER :: nat where "BLOCK_HEADER = 32"
definition HEAP_PAGE_SIZE :: nat where "HEAP_PAGE_SIZE = 4096"

lemmas heap_consts = HEAP_BASE_def HEAP_MAXIMUM_BYTES_def HEAP_ALIGNMENT_def BLOCK_HEADER_def HEAP_PAGE_SIZE_def

record heap_block =
  hb_size :: nat
  hb_previous :: nat
  hb_next :: nat
  hb_free :: bool

record heap_state = vmm_state +
  heap_first :: nat
  heap_last :: nat
  heap_mapped_bytes :: nat
  heap_active :: nat
  heap_initialized :: bool
  hblk :: "nat \<Rightarrow> heap_block"
  hmem :: "nat \<Rightarrow> u8"

definition upd_block :: "nat \<Rightarrow> (heap_block \<Rightarrow> heap_block) \<Rightarrow> 'a heap_state_scheme \<Rightarrow> 'a heap_state_scheme" where
  "upd_block a f s = s\<lparr>hblk := (hblk s)(a := f (hblk s a))\<rparr>"

section \<open>Blocks\<close>

definition heap_align_up :: "nat \<Rightarrow> nat \<Rightarrow> nat option" where
  "heap_align_up value alignment =
     (if value > 2 ^ 64 - 1 - (alignment - 1) then None
      else Some ((value + alignment - 1) div alignment * alignment))"

definition blocks_are_adjacent :: "nat \<Rightarrow> nat \<Rightarrow> 'a heap_state_scheme \<Rightarrow> bool" where
  "blocks_are_adjacent left right s \<longleftrightarrow> add64 (add64 left BLOCK_HEADER) (hb_size (hblk s left)) = right"

definition merge_with_next :: "nat \<Rightarrow> 'a heap_state_scheme \<Rightarrow> 'a heap_state_scheme" where
  "merge_with_next block s =
     (let n = hb_next (hblk s block) in
      if n = 0 \<or> \<not> hb_free (hblk s n) \<or> \<not> blocks_are_adjacent block n s then s
      else let s1 = upd_block block (\<lambda>b. b\<lparr>hb_size := add64 (hb_size b) (add64 BLOCK_HEADER (hb_size (hblk s n))),
                                           hb_next := hb_next (hblk s n)\<rparr>) s
           in if hb_next (hblk s1 n) \<noteq> 0 then upd_block (hb_next (hblk s1 n)) (\<lambda>b. b\<lparr>hb_previous := block\<rparr>) s1
              else s1\<lparr>heap_last := block\<rparr>)"

partial_function (option) find_free_from :: "(nat \<Rightarrow> heap_block) \<Rightarrow> nat \<Rightarrow> nat \<Rightarrow> nat option" where
  "find_free_from blk sz block =
     (if block = 0 then Some 0
      else if hb_free (blk block) \<and> hb_size (blk block) \<ge> sz then Some block
      else find_free_from blk sz (hb_next (blk block)))"

definition find_free_block :: "nat \<Rightarrow> 'a heap_state_scheme \<Rightarrow> nat option" where
  "find_free_block sz s = find_free_from (hblk s) sz (heap_first s)"

section \<open>Growing and shrinking\<close>

text \<open>The first loop of \<open>grow_heap\<close>: how many pages were mapped; the second: giving them back.\<close>

fun map_heap_pages :: "u64 \<Rightarrow> nat \<Rightarrow> nat \<Rightarrow> 'a vmm_state_scheme \<Rightarrow> nat \<times> 'a vmm_state_scheme" where
  "map_heap_pages virtual_address mapped_pages 0 s = (mapped_pages, s)"
| "map_heap_pages virtual_address mapped_pages (Suc n) s =
     (let (physical_frame, s1) = allocate_frame s in
      if physical_frame = 0 then (mapped_pages, s1)
      else let (ok, s2) = vmm_map_page (virtual_address + of_nat mapped_pages * PAGE_SIZE) physical_frame
                            (VMM_PAGE_WRITABLE OR VMM_PAGE_NO_EXECUTE) s1
           in if ok then map_heap_pages virtual_address (Suc mapped_pages) n s2
              else (mapped_pages, snd (free_frame physical_frame s2)))"

definition give_back_page :: "u64 \<Rightarrow> nat \<Rightarrow> 'a vmm_state_scheme \<Rightarrow> 'a vmm_state_scheme" where
  "give_back_page virtual_address page s =
     (let (physical_frame, s1) = vmm_unmap_page (virtual_address + of_nat page * PAGE_SIZE) s
      in if physical_frame \<noteq> 0 then snd (free_frame physical_frame s1) else s1)"

definition back_pages :: "u64 \<Rightarrow> nat \<Rightarrow> 'a vmm_state_scheme \<Rightarrow> bool \<times> 'a vmm_state_scheme" where
  "back_pages virtual_address page_count s =
     (let (mapped_pages, s1) = map_heap_pages virtual_address 0 page_count s
      in if mapped_pages \<noteq> page_count then (False, fold (give_back_page virtual_address) [0..<mapped_pages] s1)
         else (True, s1))"

definition grow_heap :: "nat \<Rightarrow> 'a heap_state_scheme \<Rightarrow> nat \<times> 'a heap_state_scheme" where
  "grow_heap requested_size s =
     (if requested_size > HEAP_MAXIMUM_BYTES - BLOCK_HEADER then (0, s)
      else let required_bytes = requested_size + BLOCK_HEADER;
               page_count = (required_bytes + HEAP_PAGE_SIZE - 1) div HEAP_PAGE_SIZE;
               mapped_bytes = page_count * HEAP_PAGE_SIZE
           in if mapped_bytes > sub64 HEAP_MAXIMUM_BYTES (heap_mapped_bytes s) then (0, s)
              else let virtual_address = add64 HEAP_BASE (heap_mapped_bytes s);
                       (ok, s1) = back_pages (of_nat virtual_address) page_count s
                   in if \<not> ok then (0, s1)
                      else let s2 = upd_block virtual_address (\<lambda>_. \<lparr>hb_size = mapped_bytes - BLOCK_HEADER,
                                      hb_previous = heap_last s1, hb_next = 0, hb_free = True\<rparr>) s1;
                               s3 = (if heap_last s2 \<noteq> 0
                                     then upd_block (heap_last s2) (\<lambda>b. b\<lparr>hb_next := virtual_address\<rparr>) s2
                                     else s2\<lparr>heap_first := virtual_address\<rparr>)
                           in (virtual_address, s3\<lparr>heap_last := virtual_address,
                                 heap_mapped_bytes := add64 (heap_mapped_bytes s3) mapped_bytes\<rparr>))"

fun unback_pages :: "u64 \<Rightarrow> nat \<Rightarrow> nat \<Rightarrow> 'a vmm_state_scheme \<Rightarrow> bool \<times> 'a vmm_state_scheme" where
  "unback_pages block_address page 0 s = (True, s)"
| "unback_pages block_address page (Suc n) s =
     (let (physical_frame, s1) = vmm_unmap_page (block_address + of_nat page * PAGE_SIZE) s in
      if physical_frame = 0 then (False, s1)
      else let (ok, s2) = free_frame physical_frame s1
           in if ok then unback_pages block_address (Suc page) n s2 else (False, s2))"

definition reclaim_trailing_block :: "'a heap_state_scheme \<Rightarrow> 'a heap_state_scheme" where
  "reclaim_trailing_block s =
     (let block = heap_last s in
      if block = 0 \<or> \<not> hb_free (hblk s block) \<or> block mod HEAP_PAGE_SIZE \<noteq> 0 then s
      else let block_bytes = add64 BLOCK_HEADER (hb_size (hblk s block)) in
        if block_bytes mod HEAP_PAGE_SIZE \<noteq> 0 then s
        else if add64 block block_bytes \<noteq> add64 HEAP_BASE (heap_mapped_bytes s) then s
        else let previous = hb_previous (hblk s block);
                 (ok, s1) = unback_pages (of_nat block) 0 (block_bytes div HEAP_PAGE_SIZE) s
             in if \<not> ok then s1
                else let s2 = s1\<lparr>heap_last := previous\<rparr>;
                         s3 = (if heap_last s2 \<noteq> 0 then upd_block (heap_last s2) (\<lambda>b. b\<lparr>hb_next := 0\<rparr>) s2
                               else s2\<lparr>heap_first := 0\<rparr>)
                     in s3\<lparr>heap_mapped_bytes := sub64 (heap_mapped_bytes s3) block_bytes\<rparr>)"

section \<open>The calls\<close>

definition heap_initialize :: "'a heap_state_scheme \<Rightarrow> bool \<times> 'a heap_state_scheme" where
  "heap_initialize s = (True, s\<lparr>heap_first := 0, heap_last := 0, heap_mapped_bytes := 0, heap_active := 0,
     heap_initialized := True\<rparr>)"

definition split_block :: "nat \<Rightarrow> nat \<Rightarrow> 'a heap_state_scheme \<Rightarrow> 'a heap_state_scheme" where
  "split_block block sz s =
     (if hb_size (hblk s block) \<ge> add64 (add64 sz BLOCK_HEADER) HEAP_ALIGNMENT
      then let split = add64 (add64 block BLOCK_HEADER) sz;
               b = hblk s block;
               s1 = upd_block split (\<lambda>_. \<lparr>hb_size = hb_size b - sz - BLOCK_HEADER, hb_previous = block,
                                          hb_next = hb_next b, hb_free = True\<rparr>) s;
               s2 = (if hb_next b \<noteq> 0 then upd_block (hb_next b) (\<lambda>n. n\<lparr>hb_previous := split\<rparr>) s1
                     else s1\<lparr>heap_last := split\<rparr>)
           in upd_block block (\<lambda>b. b\<lparr>hb_next := split, hb_size := sz\<rparr>) s2
      else s)"

definition take_block :: "nat \<Rightarrow> nat \<Rightarrow> 'a heap_state_scheme \<Rightarrow> nat \<times> 'a heap_state_scheme" where
  "take_block block sz s =
     (let s1 = upd_block block (\<lambda>b. b\<lparr>hb_free := False\<rparr>) (split_block block sz s)
      in (add64 block BLOCK_HEADER, s1\<lparr>heap_active := add64 (heap_active s1) 1\<rparr>))"

definition kmalloc :: "nat \<Rightarrow> 'a heap_state_scheme \<Rightarrow> (nat \<times> 'a heap_state_scheme) option" where
  "kmalloc sz s =
     (if \<not> heap_initialized s \<or> sz = 0 then Some (0, s)
      else case heap_align_up sz HEAP_ALIGNMENT of
        None \<Rightarrow> Some (0, s)
      | Some sz \<Rightarrow>
          (case find_free_block sz s of
             None \<Rightarrow> None
           | Some block \<Rightarrow>
               Some (if block \<noteq> 0 then take_block block sz s
                     else let (block, s1) = grow_heap sz s
                          in if block = 0 then (0, s1) else take_block block sz s1)))"

partial_function (option) find_block_from :: "(nat \<Rightarrow> heap_block) \<Rightarrow> nat \<Rightarrow> nat \<Rightarrow> nat option" where
  "find_block_from blk candidate block =
     (if block = 0 \<or> block = candidate then Some block
      else find_block_from blk candidate (hb_next (blk block)))"

text \<open>The block an address was handed out for, as \<open>kfree\<close> and \<open>krealloc\<close> look for it: 0 when there is none.\<close>

definition allocated_block :: "nat \<Rightarrow> 'a heap_state_scheme \<Rightarrow> nat option" where
  "allocated_block pointer s =
     (if heap_mapped_bytes s = 0 \<or> pointer < HEAP_BASE + BLOCK_HEADER
         \<or> pointer \<ge> add64 HEAP_BASE (heap_mapped_bytes s) then Some 0
      else case find_block_from (hblk s) (pointer - BLOCK_HEADER) (heap_first s) of
        None \<Rightarrow> None
      | Some block \<Rightarrow> Some (if block = 0 \<or> hb_free (hblk s block) then 0 else block))"

definition release_block :: "nat \<Rightarrow> 'a heap_state_scheme \<Rightarrow> 'a heap_state_scheme" where
  "release_block block s =
     (let s1 = upd_block block (\<lambda>b. b\<lparr>hb_free := True\<rparr>) s;
          s2 = merge_with_next block (s1\<lparr>heap_active := heap_active s1 - 1\<rparr>);
          previous = hb_previous (hblk s2 block);
          s3 = (if previous \<noteq> 0 \<and> hb_free (hblk s2 previous) then merge_with_next previous s2 else s2)
      in reclaim_trailing_block s3)"

definition kfree :: "nat \<Rightarrow> 'a heap_state_scheme \<Rightarrow> (bool \<times> 'a heap_state_scheme) option" where
  "kfree pointer s =
     (if \<not> heap_initialized s \<or> pointer = 0 then Some (False, s)
      else case allocated_block pointer s of
        None \<Rightarrow> None
      | Some block \<Rightarrow>
          Some (if block = 0 then (False, s)
                else if heap_active s = 0 then (False, s)
                else (True, release_block block s)))"

definition kcalloc :: "nat \<Rightarrow> nat \<Rightarrow> 'a heap_state_scheme \<Rightarrow> (nat \<times> 'a heap_state_scheme) option" where
  "kcalloc num sz s =
     (if num \<noteq> 0 \<and> sz > (2 ^ 64 - 1) div num then Some (0, s)
      else let total = mul64 num sz in
        case kmalloc total s of
          None \<Rightarrow> None
        | Some (ptr, s1) \<Rightarrow>
            Some (if ptr \<noteq> 0
                  then (ptr, s1\<lparr>hmem := (\<lambda>a. if ptr \<le> a \<and> a < ptr + total then 0 else hmem s1 a)\<rparr>)
                  else (ptr, s1)))"

definition copy_bytes_up :: "nat \<Rightarrow> nat \<Rightarrow> nat \<Rightarrow> (nat \<Rightarrow> u8) \<Rightarrow> nat \<Rightarrow> u8" where
  "copy_bytes_up new_ptr pointer n m = fold (\<lambda>i m. m(new_ptr + i := m (pointer + i))) [0..<n] m"

definition krealloc :: "nat \<Rightarrow> nat \<Rightarrow> 'a heap_state_scheme \<Rightarrow> (nat \<times> 'a heap_state_scheme) option" where
  "krealloc pointer new_size s =
     (if pointer = 0 then kmalloc new_size s
      else if new_size = 0 then map_option (\<lambda>(_, s1). (0, s1)) (kfree pointer s)
      else if \<not> heap_initialized s then Some (0, s)
      else case allocated_block pointer s of
        None \<Rightarrow> None
      | Some block \<Rightarrow>
          if block = 0 then Some (0, s)
          else let old_size = hb_size (hblk s block) in
            if new_size \<le> old_size then Some (pointer, s)
            else case kmalloc new_size s of
              None \<Rightarrow> None
            | Some (new_ptr, s1) \<Rightarrow>
                if new_ptr = 0 then Some (0, s1)
                else let copy_bytes = min old_size new_size;
                         s2 = s1\<lparr>hmem := copy_bytes_up new_ptr pointer copy_bytes (hmem s1)\<rparr>
                     in map_option (\<lambda>(_, s3). (new_ptr, s3)) (kfree pointer s2))"

definition heap_active_allocation_count :: "'a heap_state_scheme \<Rightarrow> nat" where
  "heap_active_allocation_count s = heap_active s"

definition heap_mapped_page_count :: "'a heap_state_scheme \<Rightarrow> nat" where
  "heap_mapped_page_count s = heap_mapped_bytes s div HEAP_PAGE_SIZE"

end
