(* ===== verification/KOS_Heap_Pages.thy ===== *)
theory KOS_Heap_Pages
  imports KOS_Heap
begin

text \<open>
  The pages under the kernel heap: the loops of \<open>src/mm/heap.c\<close> that map and unmap heap pages, against
  the virtual and the physical memory manager. Each page of the heap is a leaf the memory manager
  installed, on a frame of its own that is no page table and belongs to nobody else.
\<close>

unbundle bit_operations_syntax

section \<open>Frames taken and given back\<close>

lemma alloc_data_frame:
  assumes inv: "vmm_inv s p" and a: "allocate_frame s = (f, s1)"
  shows "if f = 0 then s1 = s
    else vmm_inv s1 p \<and> pt_mem s1 = pt_mem s \<and> frame_address f \<and> unat f \<notin> data_frames p s
      \<and> data_frames p s1 = insert (unat f) (data_frames p s) \<and> f mod PAGE_SIZE = 0"
proof -
  note D = vmm_invD [OF inv]
  from D(4) show ?thesis
  proof (cases rule: pmm_frames.alloc_cases)
    case none
    then show ?thesis using a by (simp add: allocate_frame_def)
  next
    case (frame q pm)
    note A = avail_frame_address [OF D(4) frame(2)]
    have f: "f = of_nat q" "s1 = s\<lparr>frames := pm\<rparr>" using a frame(1) by (simp_all add: allocate_frame_def)
    have q: "q \<notin> table_frames (pt_mem s) p"
      using tables_outD [OF D(6)] frame(2) by (auto elim!: table_framesE)
    have "tables_out (pt_mem s) p (pmm_avail pm)" "owned_out (pt_mem s) p (pmm_owned pm)"
      using D(6,7) frame(5,6) by (auto simp: tables_out_def owned_out_def)
    then have "vmm_inv s1 p" using D frame(7) by (simp add: vmm_inv_def f(2))
    moreover have "data_frames p s1 = insert (unat f) (data_frames p s)" "unat f \<notin> data_frames p s"
      using q frame(4,6) A by (auto simp: data_frames_def f)
    moreover have "unat (f mod PAGE_SIZE) = 0"
      using A frame(2) by (auto simp: f(1) PAGE_SIZE_def unat_mod pmm_avail_def FRAME_SIZE_def)
    then have "f mod PAGE_SIZE = 0" by (simp add: unat_eq_0)
    ultimately show ?thesis using A f by simp
  qed
qed

lemma free_data_frame:
  assumes inv: "vmm_inv s p" and f: "unat f \<in> data_frames p s"
  obtains s' where "free_frame f s = (True, s')" "vmm_inv s' p" "pt_mem s' = pt_mem s"
    "data_frames p s' = data_frames p s - {unat f}" "s' = s\<lparr>frames := frames s'\<rparr>"
proof -
  note D = vmm_invD [OF inv]
  have own: "unat f \<in> pmm_owned (frames s)" "unat f \<notin> table_frames (pt_mem s) p" using f by (simp_all add: data_frames_def)
  from pmm_frames.release_owned [OF D(4) own(1)] obtain pm where pm: "pmm_free_frame (unat f) (frames s) = (True, pm)"
    "pmm_ready pm" "pmm_avail pm = insert (unat f) (pmm_avail (frames s))" "pmm_owned pm = pmm_owned (frames s) - {unat f}"
    by blast
  define s' where "s' = s\<lparr>frames := pm\<rparr>"
  have "tables_out (pt_mem s) p (pmm_avail pm)"
    using D(6) own(2) pm(3) by (auto simp: tables_out_def dest: table_framesI)
  moreover have "owned_out (pt_mem s) p (pmm_owned pm)"
    unfolding owned_out_def
  proof (intro allI impI)
    fix va d t g assume d: "d \<le> 2" "tab (pt_mem s) p va d = Some t" "sub (pt_mem s t (ix d va)) = Some g" "owned_entry (pt_mem s t (ix d va))"
    then have "tab (pt_mem s) p va (Suc d) = Some g" by simp
    then have "unat g \<in> table_frames (pt_mem s) p" using d(1) by (intro table_framesI [of _ _ va "Suc d"]) auto
    then have "unat g \<noteq> unat f" using own(2) by metis
    then show "unat g \<in> pmm_owned pm" using D(7) d pm(4) by (auto simp: owned_out_def)
  qed
  ultimately have "vmm_inv s' p" using D pm(2) by (simp add: vmm_inv_def s'_def)
  moreover have "free_frame f s = (True, s')" by (simp add: free_frame_def pm(1) s'_def)
  moreover have "data_frames p s' = data_frames p s - {unat f}" by (auto simp: data_frames_def s'_def pm(4))
  ultimately show thesis using that by (simp add: s'_def)
qed

section \<open>Mapping and unmapping, once more\<close>

lemma translation_cong: "vmm_inv s p \<Longrightarrow> vmm_inv s' p \<Longrightarrow> found (pt_mem s') p va = found (pt_mem s) p va \<Longrightarrow>
  translation p va s' = translation p va s \<and> (owned_mapping p va s' \<longleftrightarrow> owned_mapping p va s)"
  by (simp add: translation_found owned_mapping_def)

lemma map_keeps:
  assumes inv: "vmm_inv s p" and r: "vmm_map_page_in p va pa flags s = (ok, s')"
  shows "data_frames p s' = data_frames p s"
    "\<not> (ok \<and> same_page va va') \<Longrightarrow> found (pt_mem s') p va' = found (pt_mem s) p va'"
    "ok \<Longrightarrow> owned_mapping p va s'"
proof -
  have "data_frames p s' = data_frames p s \<and> (\<not> (ok \<and> same_page va va') \<longrightarrow> found (pt_mem s') p va' = found (pt_mem s) p va')
    \<and> (ok \<longrightarrow> owned_mapping p va s')"
  proof (cases "map_arguments_ok p va pa flags")
    case args: True
    from inv args r show ?thesis
    proof (cases rule: vmm_map_page_in_cases)
      case (mapped s1 s2 s3 c1 c2 c3 f1 f2 f3)
      note M = map_success [OF inv args mapped(2-5)]
      have I3: "vmm_inv s3 p" using mapped(2) same_view_inv by blast
      have flags: "flags AND NOT (VMM_PAGE_WRITABLE OR VMM_PAGE_USER OR VMM_PAGE_NO_EXECUTE) = 0"
        using args by (simp add: map_arguments_ok_def)
      note E = leaf_entry [OF flags, of pa]
      have "table_frames (pt_mem s') p = table_frames (pt_mem s3) p"
        using tab_put_leaf [OF vmm_invD(5) [OF I3] mapped(3)] by (intro table_frames_cong) (simp add: mapped(5))
      then have "data_frames p s' = data_frames p s" using mapped(2,5) by (simp add: same_view_def data_frames_def)
      moreover have "tab (pt_mem s') p va 3 = Some f3"
        using tab_put_leaf [OF vmm_invD(5) [OF I3] mapped(3), of 3] mapped(3) by (simp add: mapped(5))
      then have "owned_mapping p va s'" using E(2,3) by (simp add: owned_mapping_leaf mapped(5))
      ultimately show ?thesis using M(3) [of va'] mapped(1) by blast
    next
      case failed
      then show ?thesis by (simp add: same_view_def)
    qed
  qed (use r in \<open>simp add: vmm_map_page_in_def\<close>)
  then show "data_frames p s' = data_frames p s"
    "\<not> (ok \<and> same_page va va') \<Longrightarrow> found (pt_mem s') p va' = found (pt_mem s) p va'" "ok \<Longrightarrow> owned_mapping p va s'" by simp_all
qed

lemma unmap_keeps:
  assumes inv: "vmm_inv s p" and r: "vmm_unmap_page_in p va s = (pa, s')"
  shows "data_frames p s' = data_frames p s"
    "\<not> same_page va va' \<Longrightarrow> found (pt_mem s') p va' = found (pt_mem s) p va'"
proof -
  have "data_frames p s' = data_frames p s \<and> (\<not> same_page va va' \<longrightarrow> found (pt_mem s') p va' = found (pt_mem s) p va')"
  proof (cases "va mod PAGE_SIZE = 0 \<and> owned_mapping p va s")
    case False
    then have "s' = s" using unmap_result [OF inv r] by auto
    then show ?thesis by simp
  next
    case True
    then have al: "va mod PAGE_SIZE = 0" and own: "owned_mapping p va s" by simp_all
    obtain f3 where T3: "tab (pt_mem s) p va 3 = Some f3" using owned_mapping_no_table own by fastforce
    obtain f1 f2 where T12: "tab (pt_mem s) p va 1 = Some f1" "tab (pt_mem s) p va 2 = Some f2" using walk_prefix [OF T3] by blast
    define s1 where "s1 = invalidate_if_active p va (set_entry f3 (ix 3 va) 0 s)"
    have res: "s' = release_up p f1 f2 va s1"
      using unmap_unfold(2) [OF inv al T12 T3, folded s1_def] r own owned_mapping_leaf [OF T3] by (simp add: Let_def)
    note L = unmap_leaf [OF inv T3, folded s1_def]
    have tabs: "tab (pt_mem s1) p va 1 = Some f1" "tab (pt_mem s1) p va 2 = Some f2" "tab (pt_mem s1) p va 3 = Some f3"
      using L(3) [of 1] L(3) [of 2] L(3) [of 3] T12 T3 by simp_all
    have "table_frames (pt_mem s1) p = table_frames (pt_mem s) p"
      using tab_put_leaf [OF vmm_invD(5) [OF inv] T3] by (intro table_frames_cong) (simp add: s1_def)
    then have "data_frames p s1 = data_frames p s" by (simp add: data_frames_def s1_def)
    then show ?thesis
      using release_up_result [OF L(1) tabs, folded res] L(2) [of va'] by (simp add: same_view_def)
  qed
  then show "data_frames p s' = data_frames p s"
    "\<not> same_page va va' \<Longrightarrow> found (pt_mem s') p va' = found (pt_mem s) p va'" by simp_all
qed

text \<open>The memory managers change nothing but their own part of the state.\<close>

definition same_rest :: "'a vmm_state_scheme \<Rightarrow> 'a vmm_state_scheme \<Rightarrow> bool" where
  "same_rest s s' \<longleftrightarrow> vmm_state.more s' = vmm_state.more s \<and> kernel_pml4_phys s' = kernel_pml4_phys s"

lemma same_rest_refl [simp]: "same_rest s s"
  by (simp add: same_rest_def)

lemma same_rest_trans: "same_rest s s1 \<Longrightarrow> same_rest s1 s2 \<Longrightarrow> same_rest s s2"
  by (simp add: same_rest_def)

lemma rest_simps [simp]:
  "same_rest s (set_entry t i e s1) \<longleftrightarrow> same_rest s s1" "same_rest s (clear_page_table t s1) \<longleftrightarrow> same_rest s s1"
  "same_rest s (invalidate_if_active p va s1) \<longleftrightarrow> same_rest s s1" "same_rest s (s1\<lparr>frames := pm\<rparr>) \<longleftrightarrow> same_rest s s1"
  by (simp_all add: same_rest_def set_entry_def clear_page_table_def invalidate_if_active_def)

lemma rest_frames: "same_rest s (snd (allocate_frame s))" "same_rest s (snd (free_frame f s))"
  by (simp_all add: allocate_frame_def free_frame_def split: prod.splits)

lemma rest_release: "same_rest s (snd (release_owned_empty_table t i s))"
  by (simp add: release_owned_empty_table_def Let_def free_frame_def split: prod.splits)

lemma rest_rollback: "same_rest s s1 \<Longrightarrow> same_rest s (rollback_table c t i s1)"
  by (simp add: rollback_table_def same_rest_trans [OF _ rest_release])

lemma rest_next_table: "next_table t i va fl s = (r, c, s1) \<Longrightarrow> same_rest s s1"
  using rest_frames(1) [of s] by (auto simp: next_table_def Let_def split: prod.splits if_splits)

lemma rest_map: "vmm_map_page_in p va pa fl s = (ok, s') \<Longrightarrow> same_rest s s'"
  by (auto simp: vmm_map_page_in_def Let_def intro!: rest_rollback
      dest!: rest_next_table split: prod.splits option.splits if_splits intro: same_rest_trans)

lemma rest_unmap: "vmm_unmap_page_in p va s = (pa, s') \<Longrightarrow> same_rest s s'"
proof -
  have rel: "same_rest s s2" if "release_owned_empty_table t i s1 = (r, s2)" "same_rest s s1" for t i s1 r s2
    using same_rest_trans [OF that(2) rest_release [of s1 t i]] that(1) by simp
  show "vmm_unmap_page_in p va s = (pa, s') \<Longrightarrow> same_rest s s'"
    by (auto simp: vmm_unmap_page_in_def Let_def intro!: same_rest_trans [OF _ rest_release]
        dest!: rel split: prod.splits if_splits)
qed

section \<open>The pages of the heap\<close>

definition heap_page :: "nat \<Rightarrow> u64" where
  "heap_page i = of_nat (HEAP_BASE + i * 4096)"

lemma heap_page_add: "heap_page k + of_nat i * PAGE_SIZE = heap_page (k + i)"
  by (simp add: heap_page_def PAGE_SIZE_def algebra_simps)

lemma unat_heap_page: "i < 32768 \<Longrightarrow> unat (heap_page i) = HEAP_BASE + i * 4096"
  unfolding heap_page_def unat_of_nat by (simp add: HEAP_BASE_def)

lemma heap_page_aligned: "i < 32768 \<Longrightarrow> heap_page i mod PAGE_SIZE = 0"
proof -
  assume "i < 32768"
  then have "unat (heap_page i mod PAGE_SIZE) = (HEAP_BASE + i * 4096) mod 4096"
    by (simp add: unat_mod unat_heap_page PAGE_SIZE_def)
  also have "\<dots> = 0" by (simp add: HEAP_BASE_def)
  finally show ?thesis by (simp add: unat_eq_0)
qed

lemma same_page_div: "same_page v w \<longleftrightarrow> unat v div 4096 mod 2 ^ 36 = unat w div 4096 mod 2 ^ 36"
proof -
  have "unat (take_bit 36 (drop_bit 12 v)) = unat v div 4096 mod 2 ^ 36" for v :: u64
    by (simp add: take_bit_eq_mod drop_bit_eq_div unat_mod unat_div)
  then show ?thesis by (simp add: same_page_def word_unat_eq_iff)
qed

lemma same_page_heap: "i < 32768 \<Longrightarrow> j < 32768 \<Longrightarrow> same_page (heap_page i) (heap_page j) \<longleftrightarrow> i = j"
proof -
  have d: "(HEAP_BASE + k * 4096) div 4096 mod 2 ^ 36 = 68719214592 + k" if "k < 32768" for k
  proof -
    have "(HEAP_BASE + k * 4096) div 4096 = 4503599627108352 + k" by (simp add: HEAP_BASE_def)
    also have "\<dots> mod 2 ^ 36 = 68719214592 + k" using that by (simp add: mod_nat_eqI)
    finally show ?thesis .
  qed
  show "i < 32768 \<Longrightarrow> j < 32768 \<Longrightarrow> same_page (heap_page i) (heap_page j) \<longleftrightarrow> i = j"
    unfolding same_page_div by (simp only: unat_heap_page d) simp
qed

lemma heap_map_arguments:
  "i < 32768 \<Longrightarrow> f mod PAGE_SIZE = 0 \<Longrightarrow> p \<noteq> 0 \<Longrightarrow> p mod PAGE_SIZE = 0 \<Longrightarrow>
   map_arguments_ok p (heap_page i) f (VMM_PAGE_WRITABLE OR VMM_PAGE_NO_EXECUTE)"
proof -
  assume a: "i < 32768" "f mod PAGE_SIZE = 0" "p \<noteq> 0" "p mod PAGE_SIZE = 0"
  have "0xffff800000000000 \<le> heap_page i"
    using a(1) by (simp add: word_le_nat_alt unat_heap_page HEAP_BASE_def)
  then show ?thesis using a heap_page_aligned [OF a(1)] by (auto simp: map_arguments_ok_def page_bits not_less)
qed

text \<open>The heap owns the pages \<open>K\<close>: each is mapped by the memory manager to a frame of its own; \<open>D\<close> are
  the data frames of everybody else.\<close>

definition heap_frame :: "'a vmm_state_scheme \<Rightarrow> nat \<Rightarrow> nat" where
  "heap_frame s i = unat (the (translation (kernel_pml4_phys s) (heap_page i) s))"

definition backs :: "nat set \<Rightarrow> nat set \<Rightarrow> 'a vmm_state_scheme \<Rightarrow> bool" where
  "backs D K s \<longleftrightarrow> vmm_inv s (kernel_pml4_phys s) \<and> K \<subseteq> {..<32768}
     \<and> (\<forall>i \<in> K. owned_mapping (kernel_pml4_phys s) (heap_page i) s) \<and> inj_on (heap_frame s) K
     \<and> data_frames (kernel_pml4_phys s) s = D \<union> heap_frame s ` K \<and> D \<inter> heap_frame s ` K = {}"

lemma backsD:
  assumes "backs D K s"
  shows "vmm_inv s (kernel_pml4_phys s)" "i \<in> K \<Longrightarrow> i < 32768" "i \<in> K \<Longrightarrow> owned_mapping (kernel_pml4_phys s) (heap_page i) s"
    "inj_on (heap_frame s) K" "data_frames (kernel_pml4_phys s) s = D \<union> heap_frame s ` K" "D \<inter> heap_frame s ` K = {}"
  using assms by (auto simp: backs_def)

lemma backs_cong:
  assumes B: "backs D K s" and inv: "vmm_inv s' p" and p: "p = kernel_pml4_phys s" "kernel_pml4_phys s' = p"
    and found: "\<And>i. i \<in> K \<Longrightarrow> found (pt_mem s') p (heap_page i) = found (pt_mem s) p (heap_page i)"
  shows "i \<in> K \<Longrightarrow> heap_frame s' i = heap_frame s i" "i \<in> K \<Longrightarrow> owned_mapping p (heap_page i) s'"
    "inj_on (heap_frame s') K" "heap_frame s' ` K = heap_frame s ` K"
proof -
  note D = backsD [OF B]
  have T: "translation p (heap_page i) s' = translation p (heap_page i) s" "owned_mapping p (heap_page i) s'" if "i \<in> K" for i
    using translation_cong [OF D(1) _ found [OF that, unfolded p]] inv D(3) [OF that] p by simp_all
  then have F: "heap_frame s' i = heap_frame s i" if "i \<in> K" for i using that p by (simp add: heap_frame_def)
  then show "i \<in> K \<Longrightarrow> heap_frame s' i = heap_frame s i" "inj_on (heap_frame s') K" "heap_frame s' ` K = heap_frame s ` K"
    using D(4) by (auto simp: inj_on_def)
  show "i \<in> K \<Longrightarrow> owned_mapping p (heap_page i) s'" using T by simp
qed

lemma owned_mapping_translation: "vmm_inv s p \<Longrightarrow> owned_mapping p va s \<Longrightarrow> translation p va s \<noteq> None"
  by (auto simp: owned_mapping_def translation_found)

lemma backs_map:
  assumes B: "backs D K s" and i: "i < 32768" "i \<notin> K" and a: "allocate_frame s = (f, s1)" "f \<noteq> 0"
    and m: "vmm_map_page (heap_page i) f (VMM_PAGE_WRITABLE OR VMM_PAGE_NO_EXECUTE) s1 = (ok, s2)"
  shows "if ok then backs D (insert i K) s2 else backs D K (snd (free_frame f s2))"
    "same_rest s s2" "same_rest s (snd (free_frame f s2))"
proof -
  define p where "p = kernel_pml4_phys s"
  note D = backsD [OF B, folded p_def]
  have A: "vmm_inv s1 p" "pt_mem s1 = pt_mem s" "f AND PAGE_ADDRESS_MASK = f" "unat f \<notin> data_frames p s"
    "data_frames p s1 = insert (unat f) (data_frames p s)"
    using alloc_data_frame [OF D(1) a(1)] a(2) by (simp_all add: frame_address_def)
  have rest1: "same_rest s s1" using rest_frames(1) [of s] a(1) by simp
  then have m': "vmm_map_page_in p (heap_page i) f (VMM_PAGE_WRITABLE OR VMM_PAGE_NO_EXECUTE) s1 = (ok, s2)"
    using m by (simp add: vmm_map_page_def p_def same_rest_def)
  note M = map_result [OF A(1) m'] and MK = map_keeps [OF A(1) m']
  show rest2: "same_rest s s2" using same_rest_trans [OF rest1 rest_map [OF m']] .
  then show "same_rest s (snd (free_frame f s2))" using same_rest_trans rest_frames(2) by blast
  have p2: "kernel_pml4_phys s2 = p" using rest2 by (simp add: same_rest_def p_def)
  have I2: "vmm_inv s2 p" using M by blast
  have found: "found (pt_mem s2) p (heap_page j) = found (pt_mem s) p (heap_page j)" if "j \<in> K" for j
    using MK(2) [of "heap_page j"] same_page_heap [OF i(1), of j] D(2) [OF that] i(2) that A(2) by auto
  show "if ok then backs D (insert i K) s2 else backs D K (snd (free_frame f s2))"
  proof (cases ok)
    case True
    note C = backs_cong [OF B I2 p_def p2 found]
    have "translation p (heap_page i) s2 = Some (f OR (heap_page i AND mask 12))"
      using conjunct1 [OF conjunct2 [OF conjunct2 [OF M]]] True A(3) same_page_refl [of "heap_page i"]
      by (fastforce simp: translation_def)
    then have fi: "heap_frame s2 i = unat f"
      using aligned_offset [OF heap_page_aligned [OF i(1)]] by (simp add: heap_frame_def p2)
    have df: "data_frames p s2 = insert (unat f) (D \<union> heap_frame s ` K)" using MK(1) A(5) D(5) by simp
    have fresh: "unat f \<notin> D \<union> heap_frame s ` K" using A(4) D(5) by simp
    have "backs D (insert i K) s2"
      unfolding backs_def p2
    proof (intro conjI)
      show "insert i K \<subseteq> {..<32768}" using D(2) i(1) by auto
      show "\<forall>j\<in>insert i K. owned_mapping p (heap_page j) s2" using C(2) MK(3) True by auto
      show "inj_on (heap_frame s2) (insert i K)" using C(3,4) fi fresh i(2) by auto
      show "data_frames p s2 = D \<union> heap_frame s2 ` insert i K" using df C(4) fi by auto
      show "D \<inter> heap_frame s2 ` insert i K = {}" using C(4) fi fresh D(6) by auto
    qed (rule I2)
    with True show ?thesis by simp
  next
    case False
    have "unat f \<in> data_frames p s2" using MK(1) A(5) by simp
    from free_data_frame [OF I2 this] obtain s3 where s3: "free_frame f s2 = (True, s3)" "vmm_inv s3 p" "pt_mem s3 = pt_mem s2"
      "data_frames p s3 = data_frames p s2 - {unat f}" "s3 = s2\<lparr>frames := frames s3\<rparr>" by blast
    have p3: "kernel_pml4_phys s3 = p" using s3(5) p2 by (metis vmm_state.simps(3) vmm_state.surjective vmm_state.update_convs(6) vmm_state.ext_inject)
    note C = backs_cong [OF B s3(2) p_def p3 found [folded s3(3)]]
    have "data_frames p s3 = D \<union> heap_frame s ` K" using s3(4) MK(1) A(4,5) D(5) by simp
    then have "backs D K s3" unfolding backs_def p3 using s3(2) C D by auto
    with False s3(1) show ?thesis by simp
  qed
qed

lemma backs_unmap:
  assumes B: "backs D K s" and i: "i \<in> K" and u: "vmm_unmap_page (heap_page i) s = (f, s1)"
  shows "f \<noteq> 0 \<and> (\<exists>s2. free_frame f s1 = (True, s2) \<and> backs D (K - {i}) s2 \<and> same_rest s s2)"
proof -
  define p where "p = kernel_pml4_phys s"
  note D = backsD [OF B, folded p_def]
  have u': "vmm_unmap_page_in p (heap_page i) s = (f, s1)" using u by (simp add: vmm_unmap_page_def p_def)
  note U = unmap_result [OF D(1) u'] and UK = unmap_keeps [OF D(1) u']
  have i': "i < 32768" using D(2) i .
  have f: "translation p (heap_page i) s = Some f" using U heap_page_aligned [OF i'] D(3) [OF i] by simp
  then have fi: "heap_frame s i = unat f" by (simp add: heap_frame_def p_def)
  have I1: "vmm_inv s1 p" using U by blast
  have rest1: "same_rest s s1" using rest_unmap [OF u'] .
  have fd: "unat f \<in> data_frames p s1" using UK(1) D(5) imageI [OF i, of "heap_frame s"] fi by simp
  have "f \<noteq> 0" using fd pmm_frames.null_not_owned [OF vmm_invD(4) [OF I1]] by (auto simp: data_frames_def)
  from free_data_frame [OF I1 fd] obtain s2 where s2: "free_frame f s1 = (True, s2)" "vmm_inv s2 p" "pt_mem s2 = pt_mem s1"
    "data_frames p s2 = data_frames p s1 - {unat f}" by blast
  have rest2: "same_rest s s2" using same_rest_trans [OF rest1] rest_frames(2) [of s1 f] s2(1) by simp
  then have p2: "kernel_pml4_phys s2 = p" by (simp add: same_rest_def p_def)
  have img: "heap_frame s ` (K - {i}) = heap_frame s ` K - {unat f}" "unat f \<in> heap_frame s ` K"
    using inj_on_image_set_diff [OF D(4), of K "{i}"] i fi imageI [OF i, of "heap_frame s"] by simp_all
  have B': "backs (D \<union> {unat f}) (K - {i}) s"
    unfolding backs_def p_def [symmetric] img(1) using D(1,3,5,6) D(2) img(2) inj_on_diff [OF D(4)] by auto
  have found: "found (pt_mem s2) p (heap_page j) = found (pt_mem s) p (heap_page j)" if "j \<in> K - {i}" for j
    using UK(2) [of "heap_page j"] same_page_heap [OF i', of j] D(2) [of j] that s2(3) by auto
  note C = backs_cong [OF B' s2(2) p_def p2 found] and D' = backsD [OF B', folded p_def]
  have "unat f \<notin> D" using D(6) img(2) by blast
  then have "data_frames p s2 = D \<union> heap_frame s2 ` (K - {i})" using s2(4) UK(1) D'(5,6) C(4) by auto
  then have "backs D (K - {i}) s2" unfolding backs_def p2 using s2(2) C D'(6) D(2) by auto
  with \<open>f \<noteq> 0\<close> s2(1) rest2 show ?thesis by blast
qed

section \<open>The loops\<close>

lemma map_heap_pages_backs:
  assumes "backs D {..<k + j} s" "k + j + n \<le> 32768" "map_heap_pages (heap_page k) j n s = (r, s')"
  shows "r \<le> j + n \<and> backs D {..<k + r} s' \<and> same_rest s s'"
  using assms
proof (induction n arbitrary: j s)
  case (Suc n)
  obtain f s1 where a: "allocate_frame s = (f, s1)" by fastforce
  show ?case
  proof (cases "f = 0")
    case True
    then have "s1 = s" using alloc_data_frame [OF backsD(1) [OF Suc.prems(1)] a] by simp
    then show ?thesis using Suc.prems True a by auto
  next
    case False
    obtain ok s2 where m: "vmm_map_page (heap_page (k + j)) f (VMM_PAGE_WRITABLE OR VMM_PAGE_NO_EXECUTE) s1 = (ok, s2)"
      by fastforce
    have kj: "k + j < 32768" "k + j \<notin> {..<k + j}" using Suc.prems(2) by simp_all
    note M = backs_map [OF Suc.prems(1) kj a False m]
    have r: "(r, s') = (if ok then map_heap_pages (heap_page k) (Suc j) n s2 else (j, snd (free_frame f s2)))"
      using Suc.prems(3) a False m by (simp add: heap_page_add)
    show ?thesis
    proof (cases ok)
      case True
      then have "backs D {..<k + Suc j} s2" using M(1) by (simp add: lessThan_Suc)
      from Suc.IH [OF this] Suc.prems(2) r True have "r \<le> Suc j + n \<and> backs D {..<k + r} s' \<and> same_rest s2 s'" by simp
      then show ?thesis using same_rest_trans [OF M(2)] by simp
    next
      case ok: False
      then show ?thesis using r M by simp
    qed
  qed
qed simp

lemma give_back_page_backs:
  assumes "backs D K s" "k + i \<in> K"
  shows "backs D (K - {k + i}) (give_back_page (heap_page k) i s) \<and> same_rest s (give_back_page (heap_page k) i s)"
proof -
  obtain f s1 where u: "vmm_unmap_page (heap_page (k + i)) s = (f, s1)" by fastforce
  from backs_unmap [OF assms this] show ?thesis by (auto simp: give_back_page_def heap_page_add u)
qed

lemma give_back_pages_backs:
  assumes "backs D ({..<k} \<union> {k + j..<k + j + n}) s"
  shows "backs D {..<k} (fold (give_back_page (heap_page k)) [j..<j + n] s)
    \<and> same_rest s (fold (give_back_page (heap_page k)) [j..<j + n] s)"
  using assms
proof (induction n arbitrary: j s)
  case (Suc n)
  have "{..<k} \<union> {k + j..<k + j + Suc n} - {k + j} = {..<k} \<union> {k + Suc j..<k + Suc j + n}" by auto
  then have "backs D ({..<k} \<union> {k + Suc j..<k + Suc j + n}) (give_back_page (heap_page k) j s)"
    "same_rest s (give_back_page (heap_page k) j s)"
    using give_back_page_backs [OF Suc.prems, of k j] by simp_all
  with Suc.IH [OF this(1)] same_rest_trans show ?case by (auto simp: upt_conv_Cons simp del: upt_Suc)
qed simp

lemma back_pages_backs:
  assumes "backs D {..<k} s" "k + n \<le> 32768" "back_pages (heap_page k) n s = (ok, s')"
  shows "backs D {..<(if ok then k + n else k)} s' \<and> same_rest s s'"
proof -
  obtain r s1 where m: "map_heap_pages (heap_page k) 0 n s = (r, s1)" by fastforce
  from map_heap_pages_backs [of D k 0 s n, OF _ _ m] assms(1,2) have r: "backs D {..<k + r} s1" "same_rest s s1" by simp_all
  have "{..<k} \<union> {k..<k + r} = {..<k + r}" by auto
  then have "backs D {..<k} (fold (give_back_page (heap_page k)) [0..<r] s1)
    \<and> same_rest s1 (fold (give_back_page (heap_page k)) [0..<r] s1)"
    using give_back_pages_backs [of D k 0 r s1] r(1) by simp
  then show ?thesis using assms(3) r same_rest_trans by (auto simp: back_pages_def m split: if_splits)
qed

lemma unback_pages_backs:
  assumes "backs D ({..<k} \<union> {k + j..<k + j + n}) s"
  shows "\<exists>s'. unback_pages (heap_page k) j n s = (True, s') \<and> backs D {..<k} s' \<and> same_rest s s'"
  using assms
proof (induction n arbitrary: j s)
  case (Suc n)
  obtain f s1 where u: "vmm_unmap_page (heap_page (k + j)) s = (f, s1)" by fastforce
  have "{..<k} \<union> {k + j..<k + j + Suc n} - {k + j} = {..<k} \<union> {k + Suc j..<k + Suc j + n}" by auto
  with backs_unmap [OF Suc.prems _ u] obtain s2 where s2: "f \<noteq> 0" "free_frame f s1 = (True, s2)"
    "backs D ({..<k} \<union> {k + Suc j..<k + Suc j + n}) s2" "same_rest s s2" by auto
  from Suc.IH [OF s2(3)] same_rest_trans [OF s2(4)] show ?case
    by (auto simp: heap_page_add u s2(1,2))
qed simp

end
