(* ===== verification/KOS_Heap_Blocks.thy ===== *)
theory KOS_Heap_Blocks
  imports KOS_Heap
begin

text \<open>
  The block list of the kernel heap (\<open>src/mm/heap.c\<close>) as a sequence of blocks that tile the heap from
  its base without gaps: each block is its size and whether it is free, its address follows from the
  sizes before it, and its two links name its neighbours.
\<close>

section \<open>Tilings\<close>

type_synonym blocks = "(nat \<times> bool) list"

fun span :: "blocks \<Rightarrow> nat" where
  "span [] = 0"
| "span (b # bs) = 32 + fst b + span bs"

lemma span_append [simp]: "span (xs @ ys) = span xs + span ys"
  by (induction xs) simp_all

definition last_block :: "nat \<Rightarrow> nat \<Rightarrow> blocks \<Rightarrow> nat" where
  "last_block prv a xs = (if xs = [] then prv else a + span (butlast xs))"

lemma last_block_simps [simp]: "last_block prv a [] = prv" "last_block prv a (xs @ [b]) = a + span xs"
  "last_block prv a (b # xs) = last_block a (a + 32 + fst b) xs"
  by (simp_all add: last_block_def)

lemma last_block_append: "last_block prv a (xs @ ys) = last_block (last_block prv a xs) (a + span xs) ys"
  by (induction xs arbitrary: prv a) (simp_all add: add.assoc)

fun seg :: "(nat \<Rightarrow> heap_block) \<Rightarrow> nat \<Rightarrow> nat \<Rightarrow> blocks \<Rightarrow> nat \<Rightarrow> bool" where
  "seg m prv a [] nx \<longleftrightarrow> True"
| "seg m prv a (b # bs) nx \<longleftrightarrow>
     m a = \<lparr>hb_size = fst b, hb_previous = prv, hb_next = (if bs = [] then nx else a + 32 + fst b), hb_free = snd b\<rparr>
     \<and> seg m a (a + 32 + fst b) bs nx"

lemma seg_append: "seg m prv a (xs @ ys) nx \<longleftrightarrow>
  seg m prv a xs (if ys = [] then nx else a + span xs) \<and> seg m (last_block prv a xs) (a + span xs) ys nx"
  by (induction xs arbitrary: prv a) (auto simp: add.assoc)

lemma seg_outside [simp]:
  "x < a \<or> a + span xs \<le> x \<Longrightarrow> seg (m(x := v)) prv a xs nx \<longleftrightarrow> seg m prv a xs nx"
  by (induction xs arbitrary: prv a) auto

lemma seg_previous:
  assumes "seg m prv a xs nx" "xs \<noteq> []"
  shows "seg (m(a := (m a)\<lparr>hb_previous := q\<rparr>)) q a xs nx"
  using assms by (cases xs) auto

lemma seg_next:
  assumes "seg m prv a xs nx" "xs \<noteq> []"
  shows "seg (m(last_block prv a xs := (m (last_block prv a xs))\<lparr>hb_next := nx'\<rparr>)) prv a xs nx'"
  using assms by (cases xs rule: rev_cases) (auto simp: seg_append split: if_splits)

text \<open>The state of the heap shows the tiling \<open>xs\<close>.\<close>

definition lay :: "blocks \<Rightarrow> 'a heap_state_scheme \<Rightarrow> bool" where
  "lay xs s \<longleftrightarrow> seg (hblk s) 0 HEAP_BASE xs 0 \<and> heap_first s = (if xs = [] then 0 else HEAP_BASE)
     \<and> heap_last s = last_block 0 HEAP_BASE xs \<and> heap_mapped_bytes s = span xs \<and> span xs \<le> HEAP_MAXIMUM_BYTES"

text \<open>A block in the middle: what its header holds, and what its neighbours' do.\<close>

lemma lay_block:
  assumes "lay (pre @ b # post) s"
  defines "a \<equiv> HEAP_BASE + span pre"
  shows "hblk s a = \<lparr>hb_size = fst b, hb_previous = last_block 0 HEAP_BASE pre,
      hb_next = (if post = [] then 0 else a + 32 + fst b), hb_free = snd b\<rparr>"
    "seg (hblk s) 0 HEAP_BASE pre a" "seg (hblk s) a (a + 32 + fst b) post 0"
    "heap_first s = HEAP_BASE" "heap_last s = last_block a (a + 32 + fst b) post"
    "heap_mapped_bytes s = span (pre @ b # post)" "span pre + 32 + fst b + span post \<le> HEAP_MAXIMUM_BYTES"
  using assms by (simp_all add: lay_def seg_append last_block_append a_def add.assoc)

lemma layI:
  assumes "hblk s a = \<lparr>hb_size = fst b, hb_previous = last_block 0 HEAP_BASE pre,
      hb_next = (if post = [] then 0 else a + 32 + fst b), hb_free = snd b\<rparr>" "a = HEAP_BASE + span pre"
    "seg (hblk s) 0 HEAP_BASE pre a" "seg (hblk s) a (a + 32 + fst b) post 0"
    "heap_first s = HEAP_BASE" "heap_last s = last_block a (a + 32 + fst b) post"
    "heap_mapped_bytes s = span (pre @ b # post)" "span pre + 32 + fst b + span post \<le> HEAP_MAXIMUM_BYTES"
  shows "lay (pre @ b # post) s"
  using assms by (simp add: lay_def seg_append last_block_append add.assoc)

lemma last_block_zero: "last_block 0 HEAP_BASE xs = 0 \<longleftrightarrow> xs = []"
  by (auto simp: last_block_def HEAP_BASE_def)

lemma last_block_less: "xs \<noteq> [] \<Longrightarrow> a \<le> last_block prv a xs \<and> last_block prv a xs < a + span xs"
  by (cases xs rule: rev_cases) auto

section \<open>The operations on a tiling\<close>

lemma small_sums:
  "x \<le> HEAP_MAXIMUM_BYTES \<Longrightarrow> add64 HEAP_BASE x = HEAP_BASE + x"
  "a \<le> HEAP_BASE + HEAP_MAXIMUM_BYTES \<Longrightarrow> x \<le> HEAP_MAXIMUM_BYTES \<Longrightarrow> add64 a x = a + x"
  "x \<le> HEAP_MAXIMUM_BYTES \<Longrightarrow> y \<le> HEAP_MAXIMUM_BYTES \<Longrightarrow> add64 x y = x + y"
  by (simp_all add: add64_def heap_consts)

lemma upd_block_simps [simp]:
  "hblk (upd_block a f s) = (hblk s)(a := f (hblk s a))" "heap_first (upd_block a f s) = heap_first s"
  "heap_last (upd_block a f s) = heap_last s" "heap_mapped_bytes (upd_block a f s) = heap_mapped_bytes s"
  "heap_active (upd_block a f s) = heap_active s" "heap_initialized (upd_block a f s) = heap_initialized s"
  "hmem (upd_block a f s) = hmem s"
  by (simp_all add: upd_block_def)

lemma lay_mark:
  assumes "lay (pre @ (n, f) # post) s"
  shows "lay (pre @ (n, f') # post) (upd_block (HEAP_BASE + span pre) (\<lambda>b. b\<lparr>hb_free := f'\<rparr>) s)"
  using lay_block [OF assms] by (intro layI [of _ "HEAP_BASE + span pre"]) simp_all

lemma lay_split:
  assumes L: "lay (pre @ (n, f) # post) s" and n: "sz + 48 \<le> n"
  shows "lay (pre @ (sz, f) # (n - sz - 32, True) # post) (split_block (HEAP_BASE + span pre) sz s)"
proof -
  define a where "a = HEAP_BASE + span pre"
  define c where "c = a + 32 + sz"
  define d where "d = a + 32 + n"
  note B = lay_block [OF L, folded a_def, unfolded fst_conv snd_conv, folded d_def]
  have add: "add64 (add64 sz BLOCK_HEADER) HEAP_ALIGNMENT = sz + 48" "add64 (add64 a BLOCK_HEADER) sz = c"
    using n B(7) by (simp_all add: add64_def heap_consts a_def c_def)
  have c: "a < c" "c < d" "c + 32 + (n - sz - 32) = d" "c \<noteq> 0" "d \<noteq> 0" using n by (simp_all add: c_def d_def)
  have ne: "a \<noteq> c" "c \<noteq> d" "a \<noteq> d" "d \<noteq> a" "d \<noteq> c" "c \<noteq> a" "c \<noteq> 0" "d \<noteq> 0" using c by simp_all
  have sp: "split_block a sz s = (let s1 = upd_block c (\<lambda>_. \<lparr>hb_size = n - sz - 32, hb_previous = a,
        hb_next = (if post = [] then 0 else d), hb_free = True\<rparr>) s;
      s2 = (if post = [] then s1\<lparr>heap_last := c\<rparr> else upd_block d (\<lambda>n. n\<lparr>hb_previous := c\<rparr>) s1)
    in upd_block a (\<lambda>b. b\<lparr>hb_next := c, hb_size := sz\<rparr>) s2)"
    unfolding split_block_def add B(1) using n ne(8) by (simp add: BLOCK_HEADER_def)
  let ?s = "split_block a sz s"
  have s: "hblk ?s = ((if post = [] then hblk s else (hblk s)(d := (hblk s d)\<lparr>hb_previous := c\<rparr>))
      (c := \<lparr>hb_size = n - sz - 32, hb_previous = a, hb_next = (if post = [] then 0 else d), hb_free = True\<rparr>,
       a := \<lparr>hb_size = sz, hb_previous = last_block 0 HEAP_BASE pre, hb_next = c, hb_free = f\<rparr>))"
    "heap_last ?s = (if post = [] then c else heap_last s)" "heap_first ?s = heap_first s"
    "heap_mapped_bytes ?s = heap_mapped_bytes s"
    using B(1) ne by (simp_all add: sp Let_def fun_eq_iff)
  have post: "seg (hblk ?s) c d post 0"
    using seg_previous [OF B(3), of c] c by (cases "post = []") (simp_all add: s)
  show ?thesis
    unfolding a_def [symmetric]
  proof (rule layI [of _ a], unfold fst_conv snd_conv, fold c_def)
    show "hblk ?s a = \<lparr>hb_size = sz, hb_previous = last_block 0 HEAP_BASE pre,
        hb_next = (if (n - sz - 32, True) # post = [] then 0 else c), hb_free = f\<rparr>" by (simp add: s)
    show "seg (hblk ?s) 0 HEAP_BASE pre a" using B(2) c unfolding s by (simp add: a_def [symmetric])
    show "seg (hblk ?s) a c ((n - sz - 32, True) # post) 0" using post c by (simp add: s)
    show "heap_last ?s = last_block a c ((n - sz - 32, True) # post)"
      using B(5) c by (simp add: s last_block_def)
    show "heap_first ?s = HEAP_BASE" "heap_mapped_bytes ?s = span (pre @ (sz, f) # (n - sz - 32, True) # post)"
      using B(4,6) n by (simp_all add: s(3,4))
    show "span pre + 32 + sz + span ((n - sz - 32, True) # post) \<le> HEAP_MAXIMUM_BYTES" using B(7) n by simp
  qed (rule a_def)
qed

lemma lay_merge:
  assumes L: "lay (pre @ (n, f) # (n', True) # post) s"
  shows "lay (pre @ (n + 32 + n', f) # post) (merge_with_next (HEAP_BASE + span pre) s)"
proof -
  define a where "a = HEAP_BASE + span pre"
  define c where "c = a + 32 + n"
  define d where "d = a + 32 + (n + 32 + n')"
  note B = lay_block [OF L, folded a_def, unfolded fst_conv snd_conv, folded c_def]
  have cd: "c + 32 + n' = d" "a < c" "c < d" "c \<noteq> 0" "d \<noteq> 0" by (simp_all add: c_def d_def)
  have C: "hblk s c = \<lparr>hb_size = n', hb_previous = a, hb_next = (if post = [] then 0 else d), hb_free = True\<rparr>"
    "seg (hblk s) c d post 0" using B(3) by (simp_all add: cd)
  have adj: "blocks_are_adjacent a c s" "add64 n (add64 BLOCK_HEADER n') = n + 32 + n'"
    using B(1,7) by (simp_all add: blocks_are_adjacent_def add64_def heap_consts a_def c_def)
  let ?s = "merge_with_next a s"
  have s: "hblk ?s = ((if post = [] then hblk s else (hblk s)(d := (hblk s d)\<lparr>hb_previous := a\<rparr>))
      (a := \<lparr>hb_size = n + 32 + n', hb_previous = last_block 0 HEAP_BASE pre, hb_next = (if post = [] then 0 else d), hb_free = f\<rparr>))"
    "heap_last ?s = (if post = [] then a else heap_last s)" "heap_first ?s = heap_first s"
    "heap_mapped_bytes ?s = heap_mapped_bytes s"
    using B(1) C(1) adj cd by (auto simp: merge_with_next_def Let_def fun_eq_iff)
  have post: "seg (hblk ?s) a d post 0"
    using seg_previous [OF C(2), of a] cd by (cases "post = []") (simp_all add: s)
  show ?thesis
    unfolding a_def [symmetric]
  proof (rule layI [of _ a], unfold fst_conv snd_conv, fold d_def)
    show "hblk ?s a = \<lparr>hb_size = n + 32 + n', hb_previous = last_block 0 HEAP_BASE pre,
        hb_next = (if post = [] then 0 else d), hb_free = f\<rparr>" by (simp add: s)
    show "seg (hblk ?s) 0 HEAP_BASE pre a" using B(2) cd unfolding s by (simp add: a_def [symmetric])
    show "seg (hblk ?s) a d post 0" by (rule post)
    show "heap_last ?s = last_block a d post" using B(5) cd by (simp add: s last_block_def)
    show "heap_first ?s = HEAP_BASE" "heap_mapped_bytes ?s = span (pre @ (n + 32 + n', f) # post)"
      using B(4,6) by (simp_all add: s(3,4))
    show "span pre + 32 + (n + 32 + n') + span post \<le> HEAP_MAXIMUM_BYTES" using B(7) by simp
  qed (rule a_def)
qed

lemma merge_none:
  assumes "lay (pre @ (n, f) # post) s" "post = [] \<or> \<not> snd (hd post)"
  shows "merge_with_next (HEAP_BASE + span pre) s = s"
  using lay_block [OF assms(1)] assms(2) by (cases post) (auto simp: merge_with_next_def Let_def)

end
