(* ===== verification/KOS_Heap_Correct.thy ===== *)
theory KOS_Heap_Correct
  imports KOS_Heap_Pages KOS_Heap_Blocks
begin

text \<open>
  Correctness of the kernel heap (\<open>src/mm/heap.c\<close>): the block list tiles the mapped pages, allocations
  are aligned, disjoint and backed by frames of their own, and what is freed comes back.
\<close>

section \<open>Walks along the block list\<close>

fun first_fit :: "nat \<Rightarrow> nat \<Rightarrow> blocks \<Rightarrow> nat" where
  "first_fit sz a [] = 0"
| "first_fit sz a (b # bs) = (if snd b \<and> sz \<le> fst b then a else first_fit sz (a + 32 + fst b) bs)"

fun starts :: "nat \<Rightarrow> blocks \<Rightarrow> nat set" where
  "starts a [] = {}"
| "starts a (b # bs) = insert a (starts (a + 32 + fst b) bs)"

lemma find_free_from_seg:
  "seg m prv a xs 0 \<Longrightarrow> 0 < a \<Longrightarrow> find_free_from m sz (if xs = [] then 0 else a) = Some (first_fit sz a xs)"
proof (induction xs arbitrary: prv a)
  case (Cons b xs)
  then show ?case using Cons.IH [of a "a + 32 + fst b"] by (subst find_free_from.simps) auto
qed (simp add: find_free_from.simps)

lemma find_block_from_seg:
  "seg m prv a xs 0 \<Longrightarrow> 0 < a \<Longrightarrow> 0 < c \<Longrightarrow>
   find_block_from m c (if xs = [] then 0 else a) = Some (if c \<in> starts a xs then c else 0)"
proof (induction xs arbitrary: prv a)
  case (Cons b xs)
  then show ?case using Cons.IH [of a "a + 32 + fst b"] by (subst find_block_from.simps) auto
qed (simp add: find_block_from.simps)

lemma first_fit_cases:
  assumes "0 < a"
  obtains (none) "first_fit sz a xs = 0" "\<forall>b \<in> set xs. \<not> (snd b \<and> sz \<le> fst b)"
  | (fits) pre n post where "xs = pre @ (n, True) # post" "sz \<le> n" "first_fit sz a xs = a + span pre"
proof -
  have "first_fit sz a xs = 0 \<and> (\<forall>b \<in> set xs. \<not> (snd b \<and> sz \<le> fst b))
    \<or> (\<exists>pre n post. xs = pre @ (n, True) # post \<and> sz \<le> n \<and> first_fit sz a xs = a + span pre)"
    using assms
  proof (induction xs arbitrary: a)
    case (Cons b xs)
    show ?case
    proof (cases "snd b \<and> sz \<le> fst b")
      case True
      then have "b # xs = [] @ (fst b, True) # xs" "first_fit sz a (b # xs) = a + span []" by (cases b; simp)+
      with True show ?thesis by blast
    next
      case False
      from Cons.IH [of "a + 32 + fst b"] Cons.prems consider
        "first_fit sz (a + 32 + fst b) xs = 0" "\<forall>b \<in> set xs. \<not> (snd b \<and> sz \<le> fst b)"
        | pre n post where "xs = pre @ (n, True) # post" "sz \<le> n" "first_fit sz (a + 32 + fst b) xs = a + 32 + fst b + span pre"
        by auto
      then show ?thesis
      proof cases
        case 1
        with False show ?thesis by auto
      next
        case (2 pre n post)
        then have "b # xs = (b # pre) @ (n, True) # post" "first_fit sz a (b # xs) = a + span (b # pre)" using False by auto
        with 2(2) show ?thesis by blast
      qed
    qed
  qed simp
  then show thesis using that by blast
qed

lemma starts_split: "c \<in> starts a xs \<Longrightarrow> \<exists>pre b post. xs = pre @ b # post \<and> c = a + span pre"
proof (induction xs arbitrary: a)
  case (Cons b xs)
  show ?case
  proof (cases "c = a")
    case True
    then have "b # xs = [] @ b # xs" "c = a + span []" by simp_all
    then show ?thesis by blast
  next
    case False
    then have "c \<in> starts (a + 32 + fst b) xs" using Cons.prems by simp
    from Cons.IH [OF this] obtain pre b' post where "xs = pre @ b' # post" "c = a + 32 + fst b + span pre" by blast
    then have "b # xs = (b # pre) @ b' # post" "c = a + span (b # pre)" by simp_all
    then show ?thesis by blast
  qed
qed simp

lemma starts_append: "starts a (xs @ ys) = starts a xs \<union> starts (a + span xs) ys"
  by (induction xs arbitrary: a) (auto simp: add.assoc)

lemma starts_bounds: "c \<in> starts a xs \<Longrightarrow> a \<le> c \<and> c < a + span xs"
  by (induction xs arbitrary: a) force+

section \<open>Growing and shrinking\<close>

lemma rest_heap:
  fixes s s' :: "'a heap_state_scheme"
  assumes "same_rest s s'"
  shows "heap_first s' = heap_first s" "heap_last s' = heap_last s" "heap_mapped_bytes s' = heap_mapped_bytes s"
    "heap_active s' = heap_active s" "heap_initialized s' = heap_initialized s" "hblk s' = hblk s" "hmem s' = hmem s"
    "kernel_pml4_phys s' = kernel_pml4_phys s"
  using assms by (cases s; cases s'; simp add: same_rest_def)+

lemma backs_fields:
  fixes s :: "'a vmm_state_scheme" and s' :: "'b vmm_state_scheme"
  assumes "pt_mem s' = pt_mem s" "frames s' = frames s" "kernel_pml4_phys s' = kernel_pml4_phys s"
    "vmm_initialized s' = vmm_initialized s"
  shows "backs D K s' = backs D K s"
proof -
  have "translation p va s' = translation p va s" for p va
    by (simp add: translation_def vmm_query_page_in_def Let_def assms)
  then have "heap_frame s' = heap_frame s" by (simp add: heap_frame_def fun_eq_iff assms)
  then show ?thesis by (simp add: backs_def vmm_inv_def owned_mapping_def data_frames_def assms)
qed

lemma backs_heap_fields [simp]:
  fixes s :: "'a heap_state_scheme"
  shows "backs D K (s\<lparr>hblk := x1\<rparr>) = backs D K s" "backs D K (s\<lparr>heap_first := x2\<rparr>) = backs D K s"
    "backs D K (s\<lparr>heap_last := x2\<rparr>) = backs D K s" "backs D K (s\<lparr>heap_mapped_bytes := x2\<rparr>) = backs D K s"
    "backs D K (s\<lparr>heap_active := x2\<rparr>) = backs D K s" "backs D K (s\<lparr>hmem := x3\<rparr>) = backs D K s"
    "backs D K (upd_block a g s) = backs D K s"
  by (rule backs_fields; simp add: upd_block_def)+

lemma lay_cong:
  "hblk s' = hblk s \<Longrightarrow> heap_first s' = heap_first s \<Longrightarrow> heap_last s' = heap_last s \<Longrightarrow>
   heap_mapped_bytes s' = heap_mapped_bytes s \<Longrightarrow> lay xs s' \<longleftrightarrow> lay xs s"
  by (simp add: lay_def)

lemma lay_extend:
  fixes s s2 :: "'a heap_state_scheme"
  assumes L: "lay xs s" and le: "span xs + 32 + n \<le> HEAP_MAXIMUM_BYTES"
  defines "a \<equiv> HEAP_BASE + span xs"
  assumes s2: "s2 = upd_block a (\<lambda>_. \<lparr>hb_size = n, hb_previous = heap_last s, hb_next = 0, hb_free = True\<rparr>) s"
    and s3: "s3 = (if heap_last s2 \<noteq> 0 then upd_block (heap_last s2) (\<lambda>b. b\<lparr>hb_next := a\<rparr>) s2 else s2\<lparr>heap_first := a\<rparr>)"
  shows "lay (xs @ [(n, True)]) (s3\<lparr>heap_last := a, heap_mapped_bytes := span xs + 32 + n\<rparr>)"
proof (cases "xs = []")
  case True
  then show ?thesis using L le by (simp add: lay_def s3 s2 a_def)
next
  case False
  define l where "l = last_block 0 HEAP_BASE xs"
  have l: "heap_last s = l" "l \<noteq> 0" "l < a" "seg (hblk s) 0 HEAP_BASE xs 0" "heap_first s = HEAP_BASE"
    using L False last_block_zero [of xs] last_block_less [OF False, of HEAP_BASE 0] by (simp_all add: lay_def l_def a_def)
  have "seg ((hblk s)(l := (hblk s l)\<lparr>hb_next := a\<rparr>)) 0 HEAP_BASE xs a"
    using seg_next [OF l(4) False, of a] by (simp add: l_def)
  then have "seg ((hblk s)(l := (hblk s l)\<lparr>hb_next := a\<rparr>,
      a := \<lparr>hb_size = n, hb_previous = l, hb_next = 0, hb_free = True\<rparr>)) 0 HEAP_BASE xs a"
    by (simp add: a_def)
  then show ?thesis using le l False
    by (simp add: lay_def s3 s2 seg_append l_def [symmetric] a_def [symmetric] fun_upd_twist)
qed

lemma lay_drop_last:
  fixes s s2 :: "'a heap_state_scheme"
  assumes L: "lay (xs @ [(n, f)]) s"
    and s2: "s2 = s\<lparr>heap_last := hb_previous (hblk s (HEAP_BASE + span xs))\<rparr>"
    and s3: "s3 = (if heap_last s2 \<noteq> 0 then upd_block (heap_last s2) (\<lambda>b. b\<lparr>hb_next := 0\<rparr>) s2 else s2\<lparr>heap_first := 0\<rparr>)"
  shows "lay xs (s3\<lparr>heap_mapped_bytes := span xs\<rparr>)"
proof (cases "xs = []")
  case True
  then show ?thesis using L lay_block(1) [of "[]" "(n, f)" "[]" s] by (simp add: lay_def s3 s2)
next
  case False
  note B = lay_block [of xs "(n, f)" "[]", OF L]
  define l where "l = last_block 0 HEAP_BASE xs"
  have l: "l \<noteq> 0" "hb_previous (hblk s (HEAP_BASE + span xs)) = l"
    using last_block_zero [of xs] False B(1) by (simp_all add: l_def)
  have "seg ((hblk s)(l := (hblk s l)\<lparr>hb_next := 0\<rparr>)) 0 HEAP_BASE xs 0"
    using seg_next [OF B(2) False, of 0] by (simp add: l_def)
  then show ?thesis using l B(4,7) False by (simp add: lay_def s3 s2 l_def [symmetric])
qed

lemma of_nat_heap_page: "n mod 4096 = 0 \<Longrightarrow> (of_nat (HEAP_BASE + n) :: u64) = heap_page (n div 4096)"
proof -
  assume "n mod 4096 = 0"
  then have "n div 4096 * 4096 = n" by (simp add: dvd_div_mult_self mod_eq_0_iff_dvd)
  then show ?thesis by (simp add: heap_page_def del: of_nat_add of_nat_mult)
qed

lemma grow_heap_result:
  fixes s :: "'a heap_state_scheme"
  assumes L: "lay xs s" and pg: "span xs mod 4096 = 0" and B: "backs D {..<span xs div 4096} s"
    and sz: "sz mod 16 = 0" and g: "grow_heap sz s = (r, s')"
  shows "(r = 0 \<and> lay xs s' \<and> backs D {..<span xs div 4096} s'
      \<or> (\<exists>n. r = HEAP_BASE + span xs \<and> lay (xs @ [(n, True)]) s' \<and> sz \<le> n \<and> n mod 16 = 0 \<and> 16 \<le> n
          \<and> (span xs + 32 + n) mod 4096 = 0 \<and> backs D {..<(span xs + 32 + n) div 4096} s'))
    \<and> heap_active s' = heap_active s \<and> heap_initialized s' = heap_initialized s \<and> hmem s' = hmem s"
proof -
  define pages where "pages = (sz + 32 + 4095) div 4096"
  have mapped: "heap_mapped_bytes s = span xs" "span xs \<le> HEAP_MAXIMUM_BYTES" using L by (simp_all add: lay_def)
  note G = g [unfolded grow_heap_def Let_def BLOCK_HEADER_def HEAP_PAGE_SIZE_def mapped sub64_exact [OF mapped(2)]]
  have pages': "(sz + 32 + 4096 - 1) div 4096 = pages" by (simp add: pages_def)
  show ?thesis
  proof (cases "sz > HEAP_MAXIMUM_BYTES - 32 \<or> pages * 4096 > HEAP_MAXIMUM_BYTES - span xs")
    case True
    then have "r = 0" "s' = s"
      using G unfolding pages' by (auto split: if_splits)
    with L B show ?thesis by simp
  next
    case False
    have va: "add64 HEAP_BASE (span xs) = HEAP_BASE + span xs" using mapped small_sums(1) by simp
    have le: "span xs + pages * 4096 \<le> HEAP_MAXIMUM_BYTES" using False mapped(2) by linarith
    have p1: "sz + 32 \<le> pages * 4096" "1 \<le> pages"
      unfolding pages_def by linarith+
    obtain ok s1 where b: "back_pages (of_nat (HEAP_BASE + span xs)) pages s = (ok, s1)" by fastforce
    have "span xs div 4096 + pages \<le> 32768"
      using le pg unfolding HEAP_MAXIMUM_BYTES_def by linarith
    from back_pages_backs [OF B this b [unfolded of_nat_heap_page [OF pg]]]
    have B1: "backs D {..<(if ok then span xs div 4096 + pages else span xs div 4096)} s1" "same_rest s s1" by simp_all
    note R = rest_heap [OF B1(2)]
    have L1: "lay xs s1" using L R lay_cong [of s1 s xs] by simp
    define s2 where "s2 = upd_block (HEAP_BASE + span xs) (\<lambda>_. \<lparr>hb_size = pages * 4096 - 32,
        hb_previous = heap_last s1, hb_next = 0, hb_free = True\<rparr>) s1"
    define s3 where "s3 = (if heap_last s2 \<noteq> 0 then upd_block (heap_last s2) (\<lambda>b. b\<lparr>hb_next := HEAP_BASE + span xs\<rparr>) s2
        else s2\<lparr>heap_first := HEAP_BASE + span xs\<rparr>)"
    have m3: "heap_mapped_bytes s3 = span xs" using R mapped by (simp add: s3_def s2_def)
    have gr: "(r, s') = (if \<not> ok then (0, s1) else (HEAP_BASE + span xs,
        s3\<lparr>heap_last := HEAP_BASE + span xs, heap_mapped_bytes := span xs + 32 + (pages * 4096 - 32)\<rparr>))"
      using G [unfolded pages' va b prod.case, folded s2_def, folded s3_def] False le p1(1) m3
        small_sums(3) [of "span xs" "pages * 4096"] by (auto split: if_splits)
    show ?thesis
    proof (cases ok)
      case False
      then have "r = 0" "s' = s1" using gr by simp_all
      moreover have "backs D {..<span xs div 4096} s1" using B1(1) False by simp
      ultimately show ?thesis using L1 R(4,5,7) by blast
    next
      case True
      have n: "sz \<le> pages * 4096 - 32" "(pages * 4096 - 32) mod 16 = 0" "16 \<le> pages * 4096 - 32"
      proof -
        have "pages * 4096 - 32 = 16 * (pages * 256 - 2)" by simp
        then show "(pages * 4096 - 32) mod 16 = 0" by (metis mod_mult_self1_is_0)
      qed (use p1 in linarith)+
      have "(span xs + pages * 4096) mod 4096 = 0" "(span xs + pages * 4096) div 4096 = span xs div 4096 + pages"
        using pg by simp_all
      moreover have "lay (xs @ [(pages * 4096 - 32, True)]) s'"
        using lay_extend [OF L1 _ s2_def s3_def] le p1 gr True by simp
      moreover have "backs D {..<span xs div 4096 + pages} s'" using B1(1) gr True by (simp add: s3_def s2_def)
      moreover have "heap_active s' = heap_active s" "heap_initialized s' = heap_initialized s" "hmem s' = hmem s"
        using gr True R by (simp_all add: s3_def s2_def)
      moreover have "32 \<le> pages * 4096" using p1 by simp
      ultimately show ?thesis using gr True n by (auto intro!: exI [of _ "pages * 4096 - 32"])
    qed
  qed
qed

lemma reclaim_result:
  fixes s :: "'a heap_state_scheme"
  assumes L: "lay xs s" and pg: "span xs mod 4096 = 0" and B: "backs D {..<span xs div 4096} s"
  shows "\<exists>ys. lay ys (reclaim_trailing_block s) \<and> span ys mod 4096 = 0 \<and> backs D {..<span ys div 4096} (reclaim_trailing_block s)
    \<and> (ys = xs \<and> \<not> (\<exists>n. xs = [(n, True)]) \<or> (\<exists>n. xs = ys @ [(n, True)]))
    \<and> heap_active (reclaim_trailing_block s) = heap_active s \<and> heap_initialized (reclaim_trailing_block s) = heap_initialized s
    \<and> hmem (reclaim_trailing_block s) = hmem s"
proof (cases xs rule: rev_cases)
  case Nil
  then have "reclaim_trailing_block s = s" using L by (simp add: reclaim_trailing_block_def lay_def)
  then show ?thesis using L pg B Nil by auto
next
  case (snoc ys b)
  obtain n f where b: "b = (n, f)" by fastforce
  note LB = lay_block [of ys "(n, f)" "[]", OF L [unfolded snoc b]]
  define a where "a = HEAP_BASE + span ys"
  have last: "heap_last s = a" "a \<noteq> 0" "heap_mapped_bytes s = span ys + 32 + n"
    and le: "span ys + 32 + n \<le> HEAP_MAXIMUM_BYTES"
    using LB(5,6,7) by (simp_all add: a_def HEAP_BASE_def)
  have hb: "hblk s a = \<lparr>hb_size = n, hb_previous = last_block 0 HEAP_BASE ys, hb_next = 0, hb_free = f\<rparr>"
    using LB(1) by (simp add: a_def)
  have am: "a mod 4096 = span ys mod 4096" by (simp add: a_def HEAP_BASE_def mod_add_eq [symmetric])
  have sums: "add64 32 n = 32 + n" "add64 a (32 + n) = HEAP_BASE + (span ys + 32 + n)"
    "add64 HEAP_BASE (span ys + 32 + n) = HEAP_BASE + (span ys + 32 + n)"
    using le by (simp_all add: add64_def a_def heap_consts)
  have pages: "(span ys + 32 + n) mod 4096 = 0" using pg by (simp add: snoc b add.assoc)
  show ?thesis
  proof (cases "f \<and> span ys mod 4096 = 0")
    case False
    then have "reclaim_trailing_block s = s"
      using last hb am by (auto simp: reclaim_trailing_block_def Let_def HEAP_PAGE_SIZE_def)
    moreover have "xs \<noteq> [(n', True)]" for n' using False snoc b by auto
    ultimately show ?thesis using L pg B by auto
  next
    case True
    define k where "k = span ys div 4096"
    define j where "j = (32 + n) div 4096"
    have yk: "span ys = k * 4096" using True by (auto simp: k_def)
    then have m0: "(32 + n) mod 4096 = 0" using pages by (simp add: add.assoc)
    have "{..<k} \<union> {k + 0..<k + 0 + j} = {..<span xs div 4096}"
    proof -
      have "span xs div 4096 = k + j" using yk by (simp add: snoc b j_def)
      then show ?thesis by auto
    qed
    then obtain s1 where u: "unback_pages (heap_page k) 0 j s = (True, s1)" "backs D {..<k} s1" "same_rest s s1"
      using unback_pages_backs [of D k 0 j s] B by auto
    note R = rest_heap [OF u(3)]
    have page: "(of_nat a :: u64) = heap_page k" using of_nat_heap_page [of "span ys"] True by (simp add: a_def k_def)
    define s2 where "s2 = s1\<lparr>heap_last := hb_previous (hblk s1 (HEAP_BASE + span ys))\<rparr>"
    define s3 where "s3 = (if heap_last s2 \<noteq> 0 then upd_block (heap_last s2) (\<lambda>b. b\<lparr>hb_next := 0\<rparr>) s2 else s2\<lparr>heap_first := 0\<rparr>)"
    have m3: "heap_mapped_bytes s3 = span ys + 32 + n" using R last by (simp add: s3_def s2_def)
    have "reclaim_trailing_block s = s3\<lparr>heap_mapped_bytes := sub64 (heap_mapped_bytes s3) (32 + n)\<rparr>"
      unfolding reclaim_trailing_block_def Let_def last(1,3) hb HEAP_PAGE_SIZE_def BLOCK_HEADER_def heap_block.simps sums page
        j_def [symmetric] u(1) prod.case
      using last(2) True am m0 hb R(6) by (simp add: s3_def s2_def a_def [symmetric])
    then have res: "reclaim_trailing_block s = s3\<lparr>heap_mapped_bytes := span ys\<rparr>" by (simp add: m3 sub64_def)
    have "lay xs s1" using L R lay_cong [of s1 s xs] by simp
    from lay_drop_last [OF this [unfolded snoc b] s2_def s3_def] have "lay ys (reclaim_trailing_block s)" by (simp add: res)
    moreover have "backs D {..<span ys div 4096} (reclaim_trailing_block s)" using u(2) by (simp add: res s3_def s2_def k_def)
    moreover have "xs = ys @ [(n, True)]" using True snoc b by simp
    ultimately show ?thesis using True R by (auto simp: res s3_def s2_def intro!: exI [of _ ys])
  qed
qed

definition split_blocks :: "nat \<Rightarrow> nat \<Rightarrow> blocks" where
  "split_blocks sz n = (if sz + 48 \<le> n then [(sz, False), (n - sz - 32, True)] else [(n, False)])"

lemma take_block_lay:
  assumes L: "lay (pre @ (n, True) # post) s" and sz: "sz \<le> n" and t: "take_block (HEAP_BASE + span pre) sz s = (p, s')"
  shows "p = HEAP_BASE + span pre + 32 \<and> lay (pre @ split_blocks sz n @ post) s'"
    "heap_active s' = add64 (heap_active s) 1" "heap_initialized s' = heap_initialized s" "hmem s' = hmem s"
    "backs D K s' = backs D K s"
proof -
  define a where "a = HEAP_BASE + span pre"
  note LB = lay_block [OF L, folded a_def, unfolded fst_conv snd_conv]
  have p: "p = a + 32" using t LB(7) by (simp add: take_block_def Let_def a_def add64_def heap_consts)
  define s1 where "s1 = split_block a sz s"
  have s': "s' = (upd_block a (\<lambda>b. b\<lparr>hb_free := False\<rparr>) s1)\<lparr>heap_active := add64 (heap_active s1) 1\<rparr>"
    using t by (simp add: take_block_def Let_def a_def s1_def)
  have f1: "heap_active s1 = heap_active s" "heap_initialized s1 = heap_initialized s" "hmem s1 = hmem s" "backs D K s1 = backs D K s"
    by (simp_all add: s1_def split_block_def Let_def)
  then show "heap_active s' = add64 (heap_active s) 1" "heap_initialized s' = heap_initialized s" "hmem s' = hmem s"
    "backs D K s' = backs D K s" by (simp_all add: s')
  have add: "add64 (add64 sz BLOCK_HEADER) HEAP_ALIGNMENT = sz + 48" using sz LB(7) by (simp add: add64_def heap_consts)
  have "lay (pre @ split_blocks sz n @ post) s'"
  proof (cases "sz + 48 \<le> n")
    case True
    from lay_mark [OF lay_split [OF L True], of False] show ?thesis
      using True by (simp add: s' s1_def a_def split_blocks_def lay_def)
  next
    case False
    then have "s1 = s" using add LB(1) by (simp add: s1_def split_block_def)
    with lay_mark [OF L, of False] False show ?thesis by (simp add: s' a_def split_blocks_def lay_def)
  qed
  with p show "p = HEAP_BASE + span pre + 32 \<and> lay (pre @ split_blocks sz n @ post) s'" by (simp add: a_def)
qed

text \<open>Freeing a block of a tiling: it is merged with a free successor, then with a free predecessor.\<close>

fun merge_head :: "nat \<Rightarrow> blocks \<Rightarrow> blocks" where
  "merge_head n ((n', True) # post) = (n + 32 + n', True) # post"
| "merge_head n post = (n, True) # post"

definition merge_tail :: "blocks \<Rightarrow> blocks \<Rightarrow> blocks" where
  "merge_tail pre post = (if pre \<noteq> [] \<and> snd (last pre) then butlast pre @ (fst (last pre) + 32 + fst (hd post), True) # tl post
     else pre @ post)"

lemma merge_head_Cons: "\<exists>m rest. merge_head n post = (m, True) # rest"
  by (cases "(n, post)" rule: merge_head.cases) auto

lemma merge_keeps [simp]:
  "heap_active (merge_with_next a s) = heap_active s" "heap_initialized (merge_with_next a s) = heap_initialized s"
  "hmem (merge_with_next a s) = hmem s" "backs D K (merge_with_next a s) = backs D K s"
  by (simp_all add: merge_with_next_def Let_def)

lemma release_lay:
  fixes s :: "'a heap_state_scheme"
  assumes L: "lay (pre @ (n, f) # post) s"
  defines "a \<equiv> HEAP_BASE + span pre"
  obtains s3 where "release_block a s = reclaim_trailing_block s3" "lay (merge_tail pre (merge_head n post)) s3"
    "heap_active s3 = heap_active s - 1" "heap_initialized s3 = heap_initialized s" "hmem s3 = hmem s"
    "\<And>D K. backs D K s3 = backs D K s"
proof -
  define s1 where "s1 = (upd_block a (\<lambda>b. b\<lparr>hb_free := True\<rparr>) s)\<lparr>heap_active := heap_active s - 1\<rparr>"
  define s2 where "s2 = merge_with_next a s1"
  have L1: "lay (pre @ (n, True) # post) s1"
    using lay_mark [OF L, of True] by (simp add: s1_def a_def lay_def)
  have L2: "lay (pre @ merge_head n post) s2"
  proof (cases "(n, post)" rule: merge_head.cases)
    case (1 m n' post')
    then show ?thesis using lay_merge [of pre n True n' post' s1] L1 by (simp add: s2_def a_def)
  qed (use merge_none [OF L1] L1 in \<open>simp_all add: s2_def a_def\<close>)
  obtain m rest where mh: "merge_head n post = (m, True) # rest" using merge_head_Cons by blast
  have prev: "hb_previous (hblk s2 a) = last_block 0 HEAP_BASE pre"
    using lay_block(1) [OF L2 [unfolded mh]] by (simp add: a_def)
  define s3 where "s3 = (if hb_previous (hblk s2 a) \<noteq> 0 \<and> hb_free (hblk s2 (hb_previous (hblk s2 a)))
    then merge_with_next (hb_previous (hblk s2 a)) s2 else s2)"
  have rel: "release_block a s = reclaim_trailing_block s3"
    by (simp add: release_block_def Let_def s3_def s2_def s1_def)
  have L3: "lay (merge_tail pre (merge_head n post)) s3"
  proof (cases pre rule: rev_cases)
    case Nil
    then show ?thesis using L2 prev by (simp add: merge_tail_def s3_def)
  next
    case (snoc ini b)
    have p: "hb_previous (hblk s2 a) = HEAP_BASE + span ini" "HEAP_BASE + span ini \<noteq> 0"
      using prev snoc by (simp_all add: HEAP_BASE_def)
    have L2': "lay (ini @ (fst b, snd b) # (m, True) # rest) s2" using L2 snoc mh by simp
    have "hb_free (hblk s2 (HEAP_BASE + span ini)) = snd b" using lay_block(1) [OF L2'] by simp
    then show ?thesis
    proof (cases "snd b")
      case True
      then have "lay (ini @ (fst b + 32 + m, True) # rest) (merge_with_next (HEAP_BASE + span ini) s2)"
        using lay_merge [of ini "fst b" True m rest s2] L2' by simp
      then show ?thesis using True p \<open>hb_free _ = snd b\<close> snoc mh by (simp add: merge_tail_def s3_def)
    next
      case False
      then show ?thesis using p \<open>hb_free _ = snd b\<close> snoc L2 by (simp add: merge_tail_def s3_def)
    qed
  qed
  show thesis
    by (rule that [OF rel L3]) (simp_all add: s3_def s2_def s1_def)
qed

section \<open>The invariant\<close>

definition apart_free :: "blocks \<Rightarrow> bool" where
  "apart_free xs \<longleftrightarrow> successively (\<lambda>b c. \<not> (snd b \<and> snd c)) xs"

definition heap_shape :: "nat set \<Rightarrow> blocks \<Rightarrow> 'a heap_state_scheme \<Rightarrow> bool" where
  "heap_shape D xs s \<longleftrightarrow> lay xs s \<and> heap_initialized s \<and> (\<forall>b \<in> set xs. fst b mod 16 = 0 \<and> 16 \<le> fst b) \<and> apart_free xs
     \<and> (xs \<noteq> [] \<longrightarrow> (\<exists>b \<in> set xs. \<not> snd b)) \<and> heap_active s = length (filter (\<lambda>b. \<not> snd b) xs)
     \<and> span xs mod 4096 = 0 \<and> backs D {..<span xs div 4096} s"

definition heap_inv :: "nat set \<Rightarrow> 'a heap_state_scheme \<Rightarrow> bool" where
  "heap_inv D s \<longleftrightarrow> (\<exists>xs. heap_shape D xs s)"

text \<open>The allocations that are out: the blocks on the list that are not free, with their sizes.\<close>

inductive_set heap_nodes :: "'a heap_state_scheme \<Rightarrow> nat set" for s where
  first: "heap_first s \<noteq> 0 \<Longrightarrow> heap_first s \<in> heap_nodes s"
| onward: "a \<in> heap_nodes s \<Longrightarrow> hb_next (hblk s a) \<noteq> 0 \<Longrightarrow> hb_next (hblk s a) \<in> heap_nodes s"

definition live :: "'a heap_state_scheme \<Rightarrow> (nat \<times> nat) set" where
  "live s = {(a + BLOCK_HEADER, hb_size (hblk s a)) |a. a \<in> heap_nodes s \<and> \<not> hb_free (hblk s a)}"

fun placed :: "nat \<Rightarrow> blocks \<Rightarrow> (nat \<times> nat) set" where
  "placed a [] = {}"
| "placed a (b # bs) = (if snd b then {} else {(a + 32, fst b)}) \<union> placed (a + 32 + fst b) bs"

lemma placed_append: "placed a (xs @ ys) = placed a xs \<union> placed (a + span xs) ys"
  by (induction xs arbitrary: a) (auto simp: add.assoc)

lemma placed_bounds: "(p, n) \<in> placed a xs \<Longrightarrow> a + 32 \<le> p \<and> p + n \<le> a + span xs"
  by (induction xs arbitrary: a) (fastforce split: if_splits)+

lemma placed_starts: "(p, n) \<in> placed a xs \<Longrightarrow> p - 32 \<in> starts a xs"
  by (induction xs arbitrary: a) (auto split: if_splits)

lemma placed_disjoint:
  "(p, n) \<in> placed a xs \<Longrightarrow> (q, m) \<in> placed a xs \<Longrightarrow> (p, n) \<noteq> (q, m) \<Longrightarrow> p + n + 32 \<le> q \<or> q + m + 32 \<le> p"
proof (induction xs arbitrary: a)
  case (Cons b xs)
  show ?case
  proof (cases "(p, n) \<in> placed (a + 32 + fst b) xs \<and> (q, m) \<in> placed (a + 32 + fst b) xs")
    case True
    then show ?thesis using Cons by blast
  next
    case False
    then show ?thesis using Cons.prems placed_bounds [of p n "a + 32 + fst b" xs] placed_bounds [of q m "a + 32 + fst b" xs]
      by (auto split: if_splits)
  qed
qed simp

lemma starts_nodes:
  assumes "seg (hblk s) prv a xs 0" "xs \<noteq> [] \<Longrightarrow> a \<in> heap_nodes s"
  shows "starts a xs \<subseteq> heap_nodes s"
  using assms
proof (induction xs arbitrary: prv a)
  case (Cons b xs)
  have "a \<in> heap_nodes s" using Cons.prems(2) by simp
  moreover have "a + 32 + fst b \<in> heap_nodes s" if "xs \<noteq> []"
    using heap_nodes.onward [OF \<open>a \<in> heap_nodes s\<close>] Cons.prems(1) that by simp
  ultimately show ?case using Cons.IH [of a "a + 32 + fst b"] Cons.prems(1) by simp
qed simp

lemma starts_onward:
  "seg m prv a xs 0 \<Longrightarrow> c \<in> starts a xs \<Longrightarrow> hb_next (m c) \<noteq> 0 \<Longrightarrow> hb_next (m c) \<in> starts a xs"
proof (induction xs arbitrary: prv a)
  case (Cons b xs)
  show ?case
  proof (cases "c = a")
    case True
    then show ?thesis using Cons.prems by (cases xs) auto
  next
    case False
    then show ?thesis using Cons by auto
  qed
qed simp

lemma live_placed:
  assumes "lay xs s"
  shows "live s = placed HEAP_BASE xs"
proof -
  have seg: "seg (hblk s) 0 HEAP_BASE xs 0" and first: "heap_first s = (if xs = [] then 0 else HEAP_BASE)"
    using assms by (simp_all add: lay_def)
  have "heap_nodes s = starts HEAP_BASE xs"
  proof
    show "starts HEAP_BASE xs \<subseteq> heap_nodes s"
      using starts_nodes [OF seg] heap_nodes.first [of s] first by (auto simp: HEAP_BASE_def split: if_splits)
    show "heap_nodes s \<subseteq> starts HEAP_BASE xs"
    proof
      fix c assume "c \<in> heap_nodes s"
      then show "c \<in> starts HEAP_BASE xs"
      proof induction
        case first
        then show ?case using \<open>heap_first s = _\<close> by (cases xs) auto
      qed (rule starts_onward [OF seg])
    qed
  qed
  moreover have "placed a xs = {(c + 32, hb_size (hblk s c)) |c. c \<in> starts a xs \<and> \<not> hb_free (hblk s c)}" if "seg (hblk s) prv a xs nx" for prv a xs nx
    using that by (induction xs arbitrary: prv a) auto
  ultimately show ?thesis using seg by (simp add: live_def BLOCK_HEADER_def)
qed

end
