(* ===== verification/KOS_Alloc_Interface.thy ===== *)
theory KOS_Alloc_Interface
  imports KOS_Prelude
begin

text \<open>
  The contract of a memory allocator as its callers see it: the allocations that are out are pairs of
  an address and a size, they do not overlap, a new one is apart from all others, and giving back is
  refused for everything that is not out. The bytes of the memory are never touched by the allocator.
\<close>

locale block_allocator =
  fixes malloc :: "nat \<Rightarrow> 's \<Rightarrow> (nat \<times> 's) option"
    and dealloc :: "nat \<Rightarrow> 's \<Rightarrow> (bool \<times> 's) option"
    and valid :: "'s \<Rightarrow> bool"
    and out :: "'s \<Rightarrow> (nat \<times> nat) set"
    and bytes :: "'s \<Rightarrow> nat \<Rightarrow> u8"
  assumes malloc_law: "valid s \<Longrightarrow> \<exists>p s'. malloc n s = Some (p, s') \<and> valid s' \<and> bytes s' = bytes s
      \<and> (p = 0 \<and> out s' = out s \<or> 0 < p \<and> (\<exists>m \<ge> n. out s' = insert (p, m) (out s) \<and> (p, m) \<notin> out s))"
    and dealloc_law: "valid s \<Longrightarrow> \<exists>ok s'. dealloc p s = Some (ok, s') \<and> valid s' \<and> bytes s' = bytes s
      \<and> (ok \<longleftrightarrow> (\<exists>n. (p, n) \<in> out s)) \<and> (if ok then out s' = {(q, m) \<in> out s. q \<noteq> p} else s' = s)"
    and separate: "valid s \<Longrightarrow> (p, n) \<in> out s \<Longrightarrow> (q, m) \<in> out s \<Longrightarrow> (p, n) \<noteq> (q, m) \<Longrightarrow> p + n \<le> q \<or> q + m \<le> p"
    and positive: "valid s \<Longrightarrow> (p, n) \<in> out s \<Longrightarrow> 0 < p \<and> 0 < n"
begin

lemma malloc_cases:
  assumes "valid s"
  obtains (null) s' where "malloc n s = Some (0, s')" "valid s'" "bytes s' = bytes s" "out s' = out s"
  | (block) p m s' where "malloc n s = Some (p, s')" "valid s'" "bytes s' = bytes s" "0 < p" "n \<le> m"
      "out s' = insert (p, m) (out s)" "(p, m) \<notin> out s"
  using malloc_law [OF assms, of n] by blast

lemma one_size: "valid s \<Longrightarrow> (p, n) \<in> out s \<Longrightarrow> (p, m) \<in> out s \<Longrightarrow> n = m"
  using separate [of s p n p m] positive [of s p n] positive [of s p m] by auto

lemma dealloc_out:
  assumes "valid s" "(p, n) \<in> out s"
  shows "\<exists>s'. dealloc p s = Some (True, s') \<and> valid s' \<and> bytes s' = bytes s \<and> out s' = {(q, m) \<in> out s. q \<noteq> p}"
proof -
  obtain ok s' where d: "dealloc p s = Some (ok, s')" "valid s'" "bytes s' = bytes s"
    "ok \<longleftrightarrow> (\<exists>n. (p, n) \<in> out s)" "if ok then out s' = {(q, m) \<in> out s. q \<noteq> p} else s' = s"
    using dealloc_law [OF assms(1), of p] by (elim exE conjE) (rule that)
  have "ok" using d(4) assms(2) by blast
  then show ?thesis using d by simp
qed

text \<open>Giving back succeeds once.\<close>

lemma dealloc_once:
  assumes "valid s" "dealloc p s = Some (True, s')"
  shows "valid s' \<and> dealloc p s' = Some (False, s')"
proof -
  from dealloc_law [OF assms(1), of p] assms(2)
  have s': "valid s'" "out s' = {(q, m) \<in> out s. q \<noteq> p}" by auto
  from dealloc_law [OF s'(1), of p] obtain ok s'' where d: "dealloc p s' = Some (ok, s'')"
    "ok \<longleftrightarrow> (\<exists>n. (p, n) \<in> out s')" "if ok then out s'' = {(q, m) \<in> out s'. q \<noteq> p} else s'' = s'" by blast
  have "\<not> ok" using d(2) s'(2) by auto
  with d s'(1) show ?thesis by simp
qed

text \<open>A fresh allocation is apart from every other, so writing to it disturbs nobody.\<close>

lemma fresh_apart:
  assumes "valid s" "malloc n s = Some (p, s')" "0 < p" "(q, k) \<in> out s"
  shows "\<exists>m \<ge> n. (p, m) \<in> out s' \<and> (p + m \<le> q \<or> q + k \<le> p)"
proof (rule malloc_cases [OF assms(1), of n])
  fix p' m s'' assume m: "malloc n s = Some (p', s'')" "valid s''" "n \<le> m" "out s'' = insert (p', m) (out s)" "(p', m) \<notin> out s"
  then have eq: "p' = p" "s'' = s'" using assms(2) by simp_all
  have "(p, m) \<noteq> (q, k)" using m(5) assms(4) eq by auto
  then have "p + m \<le> q \<or> q + k \<le> p" using separate [OF m(2), of p m q k] m(4) assms(4) eq by auto
  then show ?thesis using m(3,4) eq by blast
qed (use assms in auto)

text \<open>Allocating and giving back at once leaves what is out as it was.\<close>

lemma malloc_dealloc:
  assumes "valid s" "malloc n s = Some (p, s1)" "0 < p"
  shows "\<exists>s2. dealloc p s1 = Some (True, s2) \<and> valid s2 \<and> out s2 = out s \<and> bytes s2 = bytes s"
proof (rule malloc_cases [OF assms(1), of n])
  fix p' m s'' assume m: "malloc n s = Some (p', s'')" "valid s''" "bytes s'' = bytes s" "out s'' = insert (p', m) (out s)" "(p', m) \<notin> out s"
  then have eq: "p' = p" "s'' = s1" using assms(2) by simp_all
  have other: "q \<noteq> p" if "(q, k) \<in> out s" for q k
    using one_size [OF m(2), of p m k] m(4,5) eq that by auto
  have "(p, m) \<in> out s1" using m(4) eq by blast
  then obtain s2 where s2: "dealloc p s1 = Some (True, s2)" "valid s2" "bytes s2 = bytes s1" "out s2 = {(q, k) \<in> out s1. q \<noteq> p}"
    using dealloc_out [OF m(2) [unfolded eq]] by blast
  have "out s2 = out s" using s2(4) m(4) eq other by auto
  then show ?thesis using s2 m(3) eq by auto
qed (use assms in auto)

end

end
