(* ===== verification/KOS_Heap_Calls.thy ===== *)
theory KOS_Heap_Calls
  imports KOS_Heap_Correct KOS_Alloc_Interface
begin

text \<open>
  The calls of the kernel heap (\<open>src/mm/heap.c\<close>): \<open>kmalloc\<close>, \<open>kfree\<close>, \<open>kcalloc\<close> and \<open>krealloc\<close> against the
  invariant of the heap, as an allocator of disjoint, aligned and backed memory that gives everything
  back.
\<close>

section \<open>Tilings before and after\<close>

lemma apart_free_append: "apart_free (xs @ ys) \<longleftrightarrow>
  apart_free xs \<and> apart_free ys \<and> (xs = [] \<or> ys = [] \<or> \<not> (snd (last xs) \<and> snd (hd ys)))"
  by (auto simp: apart_free_def successively_append_iff)

lemma apart_free_simps [simp]: "apart_free []" "apart_free [b]"
  "apart_free (b # c # xs) \<longleftrightarrow> \<not> (snd b \<and> snd c) \<and> apart_free (c # xs)"
  by (simp_all add: apart_free_def)

lemma apart_all_free: "apart_free xs \<Longrightarrow> \<forall>b \<in> set xs. snd b \<Longrightarrow> length xs \<le> 1"
  by (cases xs; cases "tl xs") auto

lemma split_facts:
  assumes "sz mod 16 = 0" "16 \<le> sz" "n mod 16 = 0" "sz \<le> n"
  shows "b \<in> set (split_blocks sz n) \<Longrightarrow> fst b mod 16 = 0 \<and> 16 \<le> fst b" "span (split_blocks sz n) = 32 + n"
    "filter (\<lambda>b. \<not> snd b) (split_blocks sz n) = [hd (split_blocks sz n)]" "split_blocks sz n \<noteq> []"
    "apart_free (split_blocks sz n)" "\<not> snd (hd (split_blocks sz n))"
    "placed a (split_blocks sz n) = {(a + 32, if sz + 48 \<le> n then sz else n)}"
proof -
  have "(n - sz - 32) mod 16 = 0"
  proof -
    obtain i j where "n = 16 * i" "sz = 16 * j" using assms(1,3) by (metis dvd_def mod_eq_0_iff_dvd)
    then have "n - sz - 32 = 16 * (i - j - 2)" by (simp add: diff_mult_distrib2)
    then show ?thesis by (metis mod_mult_self1_is_0)
  qed
  then show "b \<in> set (split_blocks sz n) \<Longrightarrow> fst b mod 16 = 0 \<and> 16 \<le> fst b"
    using assms by (auto simp: split_blocks_def split: if_splits)
qed (use assms in \<open>auto simp: split_blocks_def\<close>)

lemma apart_split:
  assumes "sz mod 16 = 0" "16 \<le> sz" "n mod 16 = 0" "sz \<le> n"
    and "apart_free pre" "apart_free post" "post = [] \<or> \<not> snd (hd post)"
  shows "apart_free (pre @ split_blocks sz n @ post)"
  using split_facts(4-6) [OF assms(1-4)] assms(5-7) by (auto simp: apart_free_append)

lemma length_span: "32 * length xs \<le> span xs"
  by (induction xs) auto

lemma merge_head_facts:
  "span (merge_head n post) = 32 + n + span post" "placed a (merge_head n post) = placed (a + 32 + n) post"
  "filter (\<lambda>b. \<not> snd b) (merge_head n post) = filter (\<lambda>b. \<not> snd b) post"
  by (cases "(n, post)" rule: merge_head.cases; simp add: add.assoc)+

lemma merged_size: "n mod 16 = 0 \<Longrightarrow> n' mod 16 = 0 \<Longrightarrow> (n + 32 + n') mod 16 = 0" for n n' :: nat
  by presburger

lemma merge_head_sizes:
  "n mod 16 = 0 \<Longrightarrow> 16 \<le> n \<Longrightarrow> \<forall>b \<in> set post. fst b mod 16 = 0 \<and> 16 \<le> fst b \<Longrightarrow>
   b \<in> set (merge_head n post) \<Longrightarrow> fst b mod 16 = 0 \<and> 16 \<le> fst b"
  by (cases "(n, post)" rule: merge_head.cases) (auto simp: merged_size)

lemma merge_head_apart: "apart_free post \<Longrightarrow> apart_free (merge_head n post)"
proof (cases "(n, post)" rule: merge_head.cases)
  case (1 m n' post')
  then show "apart_free post \<Longrightarrow> ?thesis" by (cases post') simp_all
qed simp_all

lemma merge_tail_facts:
  assumes post: "post = (m, True) # rest"
  shows "span (merge_tail pre post) = span pre + span post" "placed a (merge_tail pre post) = placed a pre \<union> placed (a + span pre) post"
    "filter (\<lambda>b. \<not> snd b) (merge_tail pre post) = filter (\<lambda>b. \<not> snd b) pre @ filter (\<lambda>b. \<not> snd b) post"
    "apart_free pre \<Longrightarrow> apart_free post \<Longrightarrow> apart_free (merge_tail pre post)"
    "\<forall>b \<in> set (pre @ post). fst b mod 16 = 0 \<and> 16 \<le> fst b \<Longrightarrow> b \<in> set (merge_tail pre post) \<Longrightarrow> fst b mod 16 = 0 \<and> 16 \<le> fst b"
    "merge_tail pre post \<noteq> []"
proof -
  consider (alone) "merge_tail pre post = pre @ post" "pre = [] \<or> \<not> snd (last pre)"
    | (merged) ini k where "pre = ini @ [(k, True)]" "merge_tail pre post = ini @ (k + 32 + m, True) # rest"
  proof (cases pre rule: rev_cases)
    case Nil
    then show thesis using alone by (simp add: merge_tail_def)
  next
    case (snoc ini b)
    then show thesis using alone merged [of ini "fst b"] post by (cases "snd b") (simp_all add: merge_tail_def prod_eq_iff)
  qed
  note cases = this
  show "span (merge_tail pre post) = span pre + span post"
    by (rule cases) (simp_all add: post)
  show "placed a (merge_tail pre post) = placed a pre \<union> placed (a + span pre) post"
    by (rule cases) (simp_all add: post placed_append add.assoc)
  show "filter (\<lambda>b. \<not> snd b) (merge_tail pre post) = filter (\<lambda>b. \<not> snd b) pre @ filter (\<lambda>b. \<not> snd b) post"
    by (rule cases) (simp_all add: post)
  show "merge_tail pre post \<noteq> []"
    by (rule cases) (simp_all add: post)
  show "fst b mod 16 = 0 \<and> 16 \<le> fst b"
    if "\<forall>b \<in> set (pre @ post). fst b mod 16 = 0 \<and> 16 \<le> fst b" "b \<in> set (merge_tail pre post)"
    using that by - (rule cases, auto simp: post merged_size)
  show "apart_free (merge_tail pre post)" if a: "apart_free pre" "apart_free post"
  proof (rule cases)
    assume "merge_tail pre post = pre @ post" "pre = [] \<or> \<not> snd (last pre)"
    then show ?thesis using a by (auto simp: apart_free_append)
  next
    fix ini k assume *: "pre = ini @ [(k, True)]" "merge_tail pre post = ini @ (k + 32 + m, True) # rest"
    have "apart_free ini" "ini = [] \<or> \<not> snd (last ini)" using a(1) *(1) by (auto simp: apart_free_append)
    moreover have "apart_free ((k + 32 + m, True) # rest)" using a(2) post by (cases rest) simp_all
    ultimately show ?thesis unfolding *(2) by (auto simp: apart_free_append)
  qed
qed

section \<open>kmalloc\<close>

lemma heap_align_up_16:
  assumes "heap_align_up sz HEAP_ALIGNMENT = Some n" "0 < sz"
  shows "n mod 16 = 0" "16 \<le> n" "sz \<le> n" "n < sz + 16"
proof -
  have n: "n = (sz + 15) div 16 * 16" using assms(1) by (simp add: heap_align_up_def HEAP_ALIGNMENT_def add.commute split: if_splits)
  show "n mod 16 = 0" by (simp add: n)
  have "0 < (sz + 15) div 16" using assms(2) by (simp add: div_greater_zero_iff)
  then show "16 \<le> n" unfolding n by linarith
  show "sz \<le> n" "n < sz + 16" unfolding n by linarith+
qed

lemma take_shape:
  assumes L: "lay (pre @ (n, True) # post) s" and i: "heap_initialized s"
    and sizes: "\<forall>b \<in> set (pre @ post). fst b mod 16 = 0 \<and> 16 \<le> fst b" "n mod 16 = 0"
    and apart: "apart_free pre" "apart_free post" "post = [] \<or> \<not> snd (hd post)"
    and act: "heap_active s = length (filter (\<lambda>b. \<not> snd b) (pre @ post))"
    and pg: "(span pre + 32 + n + span post) mod 4096 = 0" and B: "backs D {..<(span pre + 32 + n + span post) div 4096} s"
    and sz: "sz mod 16 = 0" "16 \<le> sz" "sz \<le> n" and t: "take_block (HEAP_BASE + span pre) sz s = (p, s')"
  shows "heap_shape D (pre @ split_blocks sz n @ post) s' \<and> p = HEAP_BASE + span pre + 32 \<and> hmem s' = hmem s
    \<and> (\<exists>m \<ge> sz. placed HEAP_BASE (pre @ split_blocks sz n @ post) = insert (p, m) (placed HEAP_BASE (pre @ (n, True) # post))
        \<and> (p, m) \<notin> placed HEAP_BASE (pre @ (n, True) # post))"
proof -
  note T = take_block_lay [OF L sz(3) t] and F = split_facts [OF sz(1,2) sizes(2) sz(3)]
  let ?ys = "pre @ split_blocks sz n @ post"
  have "length (filter (\<lambda>b. \<not> snd b) (pre @ post)) \<le> HEAP_MAXIMUM_BYTES"
    using length_span [of "pre @ post"] length_filter_le [of "\<lambda>b. \<not> snd b" "pre @ post"] lay_block(7) [OF L]
    unfolding span_append fst_conv by linarith
  then have "heap_active s' = length (filter (\<lambda>b. \<not> snd b) ?ys)"
    using T(2) act F(3) by (simp add: add64_def HEAP_MAXIMUM_BYTES_def)
  moreover have "\<exists>b \<in> set ?ys. \<not> snd b" using F(4,6) by (auto intro!: bexI [of _ "hd (split_blocks sz n)"])
  moreover have "apart_free ?ys" by (rule apart_split [OF sz(1,2) sizes(2) sz(3) apart])
  moreover have "\<forall>b \<in> set ?ys. fst b mod 16 = 0 \<and> 16 \<le> fst b" using sizes(1) F(1) by auto
  moreover have sy: "span ?ys = span pre + 32 + n + span post" using F(2) by simp
  have "span ?ys mod 4096 = 0 \<and> backs D {..<span ?ys div 4096} s'" unfolding sy T(5) using pg B by simp
  ultimately have shape: "heap_shape D ?ys s'"
    unfolding heap_shape_def using T(1,3) i by metis
  define m where "m = (if sz + 48 \<le> n then sz else n)"
  have p: "p = HEAP_BASE + span pre + 32" using T(1) by simp
  have "sz \<le> m" using sz(3) by (simp add: m_def)
  moreover have "placed HEAP_BASE ?ys = insert (p, m) (placed HEAP_BASE (pre @ (n, True) # post))"
    using F(2,7) p by (auto simp: placed_append m_def add.assoc)
  moreover have "(p, m) \<notin> placed HEAP_BASE (pre @ (n, True) # post)"
    using p placed_bounds [of p m HEAP_BASE pre] placed_bounds [of p m "HEAP_BASE + span pre + 32 + n" post]
    by (auto simp: placed_append add.assoc)
  ultimately show ?thesis using shape p T(4) by blast
qed

lemma kmalloc_shape:
  fixes s :: "'a heap_state_scheme"
  assumes I: "heap_shape D xs s"
  shows "\<exists>p s' ys. kmalloc sz s = Some (p, s') \<and> heap_shape D ys s' \<and> hmem s' = hmem s
    \<and> (p = 0 \<and> placed HEAP_BASE ys = placed HEAP_BASE xs
       \<or> p mod 16 = 0 \<and> HEAP_BASE < p \<and> (\<exists>m \<ge> sz. placed HEAP_BASE ys = insert (p, m) (placed HEAP_BASE xs) \<and> (p, m) \<notin> placed HEAP_BASE xs))"
proof (cases "sz = 0 \<or> heap_align_up sz HEAP_ALIGNMENT = None")
  case True
  then have "kmalloc sz s = Some (0, s)" by (auto simp: kmalloc_def)
  with I show ?thesis by auto
next
  case False
  then obtain n where n: "heap_align_up sz HEAP_ALIGNMENT = Some n" "0 < sz" by auto
  note A = heap_align_up_16 [OF n]
  have D: "lay xs s" "heap_initialized s" "\<forall>b \<in> set xs. fst b mod 16 = 0 \<and> 16 \<le> fst b" "apart_free xs"
    "heap_active s = length (filter (\<lambda>b. \<not> snd b) xs)" "span xs mod 4096 = 0" "backs D {..<span xs div 4096} s"
    using I by (simp_all add: heap_shape_def)
  have ff: "find_free_block n s = Some (first_fit n HEAP_BASE xs)"
    using find_free_from_seg [of "hblk s" 0 HEAP_BASE xs n] D(1) by (simp add: find_free_block_def lay_def HEAP_BASE_def)
  have al: "(HEAP_BASE + k + 32) mod 16 = 0" if "k mod 16 = 0" for k
    using that merged_size [of HEAP_BASE k] by (simp add: HEAP_BASE_def add.assoc add.commute)
  have sp: "span ys mod 16 = 0" if "\<forall>b \<in> set ys. fst b mod 16 = 0 \<and> 16 \<le> fst b" for ys
    using that by (induction ys) (auto simp: mod_add_eq [symmetric])
  have km: "kmalloc sz s = Some (if first_fit n HEAP_BASE xs \<noteq> 0 then take_block (first_fit n HEAP_BASE xs) n s
      else let (block, s1) = grow_heap n s in if block = 0 then (0, s1) else take_block block n s1)"
    using n D(2) ff by (simp add: kmalloc_def)
  have "0 < HEAP_BASE" by (simp add: HEAP_BASE_def)
  then show ?thesis
  proof (cases rule: first_fit_cases [where sz = n and xs = xs])
    case (fits pre m post)
    obtain p s' where t: "take_block (HEAP_BASE + span pre) n s = (p, s')" by fastforce
    have K: "kmalloc sz s = Some (p, s')" using km fits(3) t by (simp add: HEAP_BASE_def)
    have post: "post = [] \<or> \<not> snd (hd post)" "apart_free pre" "apart_free post"
      using D(4) fits(1) by (cases post; auto simp: apart_free_append)+
    from take_shape [OF D(1) [unfolded fits(1)] D(2) _ _ post(2,3,1) _ _ _ A(1,2) fits(2) t] D fits(1)
    have T: "heap_shape D (pre @ split_blocks n m @ post) s'" "p = HEAP_BASE + span pre + 32" "hmem s' = hmem s"
      "\<exists>k \<ge> n. placed HEAP_BASE (pre @ split_blocks n m @ post) = insert (p, k) (placed HEAP_BASE xs) \<and> (p, k) \<notin> placed HEAP_BASE xs"
      by (auto simp: add.assoc)
    have "span pre mod 16 = 0" using sp [of pre] D(3) fits(1) by simp
    then have "p mod 16 = 0" "HEAP_BASE < p" using al T(2) by simp_all
    moreover have "\<exists>k \<ge> sz. placed HEAP_BASE (pre @ split_blocks n m @ post) = insert (p, k) (placed HEAP_BASE xs) \<and> (p, k) \<notin> placed HEAP_BASE xs"
      using T(4) A(3) le_trans by blast
    ultimately show ?thesis using K T(1,3) 
        by - (rule exI [of _ p], rule exI [of _ s'], rule exI [of _ "pre @ split_blocks n m @ post"], intro conjI disjI2)
  next
    case none
    obtain r s1 where g: "grow_heap n s = (r, s1)" by (rule prod.exhaust)
    note G = grow_heap_result [OF D(1,6,7) A(1) g]
    from conjunct1 [OF G] show ?thesis
    proof (elim disjE exE conjE)
      assume failed: "r = 0" "lay xs s1" "backs D {..<span xs div 4096} s1"
      have "kmalloc sz s = Some (0, s1)" using failed(1) km none(1) g by simp
      moreover have "heap_shape D xs s1" using I failed G by (simp add: heap_shape_def)
      ultimately show ?thesis using G by blast
    next
      fix m
      assume grown: "r = HEAP_BASE + span xs" "lay (xs @ [(m, True)]) s1" "n \<le> m" "m mod 16 = 0"
        "(span xs + 32 + m) mod 4096 = 0" "backs D {..<(span xs + 32 + m) div 4096} s1"
      obtain p s' where t: "take_block (HEAP_BASE + span xs) n s1 = (p, s')" by fastforce
      have K: "kmalloc sz s = Some (p, s')" using km none(1) g grown(1) t by (simp add: HEAP_BASE_def)
      from take_shape [of xs m "[]" s1 D n p s', OF grown(2) _ _ grown(4) D(4) _ _ _ _ _ A(1,2) grown(3) t] D G grown
      have T: "heap_shape D (xs @ split_blocks n m) s'" "p = HEAP_BASE + span xs + 32" "hmem s' = hmem s"
        "\<exists>k \<ge> n. placed HEAP_BASE (xs @ split_blocks n m) = insert (p, k) (placed HEAP_BASE xs) \<and> (p, k) \<notin> placed HEAP_BASE xs"
        by (auto simp: placed_append)
      have "p mod 16 = 0" "HEAP_BASE < p" using al sp [OF D(3)] T(2) by simp_all
      moreover have "\<exists>k \<ge> sz. placed HEAP_BASE (xs @ split_blocks n m) = insert (p, k) (placed HEAP_BASE xs) \<and> (p, k) \<notin> placed HEAP_BASE xs"
        using T(4) A(3) le_trans by blast
      ultimately show ?thesis using K T(1,3) 
        by - (rule exI [of _ p], rule exI [of _ s'], rule exI [of _ "xs @ split_blocks n m"], intro conjI disjI2)
    qed
  qed
qed

section \<open>kfree\<close>

lemma placed_middle:
  "(p, n) \<in> placed a (pre @ b # post) \<Longrightarrow> p = a + span pre + 32 \<Longrightarrow> \<not> snd b \<and> n = fst b"
  using placed_bounds [of p n a pre] placed_bounds [of p n "a + span pre + 32 + fst b" post]
  by (auto simp: placed_append split: if_splits)

lemma placed_size: "(p, n) \<in> placed a xs \<Longrightarrow> \<exists>b \<in> set xs. n = fst b"
  by (induction xs arbitrary: a) (fastforce split: if_splits)+

lemma allocated_block_cases:
  assumes L: "lay xs s" and pos: "\<forall>b \<in> set xs. 0 < fst b"
  obtains (no) "allocated_block p s = Some 0" "\<And>n. (p, n) \<notin> placed HEAP_BASE xs"
  | (yes) pre n post where "xs = pre @ (n, False) # post" "p = HEAP_BASE + span pre + 32"
      "allocated_block p s = Some (HEAP_BASE + span pre)"
proof -
  have seg: "seg (hblk s) 0 HEAP_BASE xs 0" and first: "heap_first s = (if xs = [] then 0 else HEAP_BASE)"
    and mapped: "heap_mapped_bytes s = span xs" "add64 HEAP_BASE (span xs) = HEAP_BASE + span xs"
    using L small_sums(1) by (simp_all add: lay_def)
  show thesis
  proof (cases "span xs = 0 \<or> p < HEAP_BASE + 32 \<or> p \<ge> HEAP_BASE + span xs")
    case True
    then have "allocated_block p s = Some 0" using mapped by (auto simp: allocated_block_def BLOCK_HEADER_def)
    moreover have "(p, n) \<notin> placed HEAP_BASE xs" for n
    proof
      assume m: "(p, n) \<in> placed HEAP_BASE xs"
      have "0 < n" using placed_size [OF m] pos by auto
      then show False using placed_bounds [OF m] True by auto
    qed
    ultimately show thesis by (rule no)
  next
    case False
    define c where "c = p - 32"
    have c: "0 < c" "p = c + 32" using False by (simp_all add: c_def HEAP_BASE_def)
    have fb: "find_block_from (hblk s) c (heap_first s) = Some (if c \<in> starts HEAP_BASE xs then c else 0)"
      using find_block_from_seg [OF seg _ c(1)] first by (simp add: HEAP_BASE_def)
    have ab: "allocated_block p s = Some (if c \<in> starts HEAP_BASE xs \<and> \<not> hb_free (hblk s c) then c else 0)"
      using False fb mapped c(1) by (auto simp: allocated_block_def BLOCK_HEADER_def c_def)
    show thesis
    proof (cases "c \<in> starts HEAP_BASE xs")
      case False
      then have "(p, n) \<notin> placed HEAP_BASE xs" for n using placed_starts [of p n HEAP_BASE xs] by (auto simp: c_def)
      then show thesis using no ab False by simp
    next
      case True
      then obtain pre b post where x: "xs = pre @ b # post" "c = HEAP_BASE + span pre" using starts_split by blast
      have h: "hb_free (hblk s c) = snd b" using lay_block(1) [OF L [unfolded x(1)]] x(2) by simp
      have p: "p = HEAP_BASE + span pre + 32" using c(2) x(2) by simp
      show thesis
      proof (cases "snd b")
        case True
        then have "(p, n) \<notin> placed HEAP_BASE xs" for n using placed_middle [of p n HEAP_BASE pre b post] p x(1) by blast
        then show thesis using no ab h True by simp
      next
        case f: False
        then show thesis using yes [of pre "fst b" post] x p ab h True by (simp add: prod_eq_iff)
      qed
    qed
  qed
qed

lemma kfree_shape:
  fixes s :: "'a heap_state_scheme"
  assumes I: "heap_shape D xs s"
  shows "\<exists>ok s' ys. kfree p s = Some (ok, s') \<and> heap_shape D ys s' \<and> hmem s' = hmem s
    \<and> (ok \<longleftrightarrow> (\<exists>n. (p, n) \<in> placed HEAP_BASE xs))
    \<and> (if ok then placed HEAP_BASE ys = {(q, m) \<in> placed HEAP_BASE xs. q \<noteq> p} else s' = s)"
proof -
  have D: "lay xs s" "heap_initialized s" "\<forall>b \<in> set xs. fst b mod 16 = 0 \<and> 16 \<le> fst b" "apart_free xs"
    "heap_active s = length (filter (\<lambda>b. \<not> snd b) xs)" "span xs mod 4096 = 0" "backs D {..<span xs div 4096} s"
    using I by (simp_all add: heap_shape_def)
  have unchanged: ?thesis if "kfree p s = Some (False, s)" "\<And>n. (p, n) \<notin> placed HEAP_BASE xs"
    using that I by auto
  have "\<forall>b \<in> set xs. 0 < fst b" using D(3) by auto
  with D(1) show ?thesis
  proof (cases rule: allocated_block_cases [where p = p])
    case no
    then have "kfree p s = Some (False, s)" by (simp add: kfree_def)
    then show ?thesis using no(2) by (rule unchanged)
  next
    case (yes pre n post)
    define a where "a = HEAP_BASE + span pre"
    have act: "heap_active s = length (filter (\<lambda>b. \<not> snd b) pre) + 1 + length (filter (\<lambda>b. \<not> snd b) post)"
      using D(5) yes(1) by simp
    have K: "kfree p s = Some (True, release_block a s)"
      using yes(2,3) D(2) act by (simp add: kfree_def a_def HEAP_BASE_def)
    obtain m rest where mh: "merge_head n post = (m, True) # rest" using merge_head_Cons by blast
    define zs where "zs = merge_tail pre (merge_head n post)"
    note MT = merge_tail_facts [OF mh, where pre = pre, folded zs_def] and MH = merge_head_facts [where n = n and post = post]
    obtain s3 where s3: "release_block a s = reclaim_trailing_block s3" "lay zs s3" "heap_active s3 = heap_active s - 1"
      "heap_initialized s3 = heap_initialized s" "hmem s3 = hmem s" "\<And>D K. backs D K s3 = backs D K s"
      using release_lay [OF D(1) [unfolded yes(1)], folded a_def zs_def] by blast
    have pre: "apart_free pre" "apart_free post" using D(4) yes(1) by (cases post; auto simp: apart_free_append)+
    have zspan: "span zs = span xs" using MT(1) MH(1) yes(1) by simp
    have zapart: "apart_free zs" by (rule MT(4) [OF pre(1) merge_head_apart [OF pre(2)]])
    have zsizes: "\<forall>b \<in> set zs. fst b mod 16 = 0 \<and> 16 \<le> fst b"
    proof
      fix b assume b: "b \<in> set zs"
      have "\<forall>b \<in> set (merge_head n post). fst b mod 16 = 0 \<and> 16 \<le> fst b"
        using merge_head_sizes [of n post] D(3) yes(1) by simp
      then have "\<forall>b \<in> set (pre @ merge_head n post). fst b mod 16 = 0 \<and> 16 \<le> fst b" using D(3) yes(1) by auto
      then show "fst b mod 16 = 0 \<and> 16 \<le> fst b" using b by (rule MT(5))
    qed
    have zact: "heap_active s3 = length (filter (\<lambda>b. \<not> snd b) zs)" using MT(3) MH(3) act s3(3) by simp
    have pz: "placed HEAP_BASE zs = {(q, m) \<in> placed HEAP_BASE xs. q \<noteq> p}"
    proof -
      have "placed HEAP_BASE zs = placed HEAP_BASE pre \<union> placed (a + 32 + n) post"
        using MT(2) MH(2) by (simp add: a_def)
      moreover have "placed HEAP_BASE xs = insert (p, n) (placed HEAP_BASE zs)"
        using calculation yes(1,2) by (auto simp: placed_append a_def add.assoc)
      moreover have "(p, k) \<notin> placed HEAP_BASE zs" for k
        using calculation(1) placed_bounds [of p k HEAP_BASE pre] placed_bounds [of p k "a + 32 + n" post] yes(2) by (auto simp: a_def)
      ultimately show ?thesis by auto
    qed
    let ?r = "reclaim_trailing_block s3"
    obtain ys where ys: "lay ys ?r" "span ys mod 4096 = 0" "backs D {..<span ys div 4096} ?r"
      "ys = zs \<and> \<not> (\<exists>n. zs = [(n, True)]) \<or> (\<exists>n. zs = ys @ [(n, True)])"
      "heap_active ?r = heap_active s3" "heap_initialized ?r = heap_initialized s3" "hmem ?r = hmem s3"
      using reclaim_result [OF s3(2)] zspan D(6,7) s3(6) by metis
    have yfacts: "apart_free ys" "\<forall>b \<in> set ys. fst b mod 16 = 0 \<and> 16 \<le> fst b"
      "filter (\<lambda>b. \<not> snd b) ys = filter (\<lambda>b. \<not> snd b) zs" "placed HEAP_BASE ys = placed HEAP_BASE zs"
      "ys \<noteq> [] \<longrightarrow> (\<exists>b \<in> set ys. \<not> snd b)"
    proof -
      from ys(4) have "set ys \<subseteq> set zs" by auto
      then show "\<forall>b \<in> set ys. fst b mod 16 = 0 \<and> 16 \<le> fst b" using zsizes by blast
      from ys(4) show "apart_free ys" "filter (\<lambda>b. \<not> snd b) ys = filter (\<lambda>b. \<not> snd b) zs"
        "placed HEAP_BASE ys = placed HEAP_BASE zs"
        using zapart by (auto simp: apart_free_append placed_append)
      from ys(4) show "ys \<noteq> [] \<longrightarrow> (\<exists>b \<in> set ys. \<not> snd b)"
      proof
        assume z: "ys = zs \<and> \<not> (\<exists>n. zs = [(n, True)])"
        have "\<exists>b \<in> set zs. \<not> snd b"
        proof (rule ccontr)
          assume nf: "\<not> (\<exists>b \<in> set zs. \<not> snd b)"
          then have "length zs \<le> 1" using apart_all_free [OF zapart] by blast
          then obtain b where "zs = [b]" using MT(6) by (cases zs; cases "tl zs") auto
          with nf z show False by (cases b) auto
        qed
        with z show ?thesis by simp
      next
        assume "\<exists>n. zs = ys @ [(n, True)]"
        then show ?thesis using zapart by (auto simp: apart_free_append intro!: bexI [of _ "last ys"])
      qed
    qed
    have "heap_shape D ys ?r"
      using ys(1-3,5,6) yfacts zact s3(4) D(2) by (simp add: heap_shape_def)
    moreover have "(p, n) \<in> placed HEAP_BASE xs" using yes(1,2) by (simp add: placed_append)
    ultimately show ?thesis
      using K s3(1,5) ys(7) pz yfacts(4) by (intro exI [of _ True] exI [of _ ?r] exI [of _ ys]) auto
  qed
qed

section \<open>The heap is an allocator\<close>

lemma live_shape: "heap_shape D xs s \<Longrightarrow> live s = placed HEAP_BASE xs"
  by (rule live_placed) (simp add: heap_shape_def)

lemma heap_invE:
  assumes "heap_inv D s"
  obtains xs where "heap_shape D xs s" "live s = placed HEAP_BASE xs"
proof -
  from assms obtain xs where "heap_shape D xs s" by (auto simp: heap_inv_def)
  then show thesis using that [of xs] live_shape [of D xs s] by blast
qed

lemma kmalloc_result:
  assumes "heap_inv D s"
  shows "\<exists>p s'. kmalloc n s = Some (p, s') \<and> heap_inv D s' \<and> hmem s' = hmem s
    \<and> (p = 0 \<and> live s' = live s \<or> p mod 16 = 0 \<and> HEAP_BASE < p \<and> (\<exists>m \<ge> n. live s' = insert (p, m) (live s) \<and> (p, m) \<notin> live s))"
proof -
  obtain xs where xs: "heap_shape D xs s" "live s = placed HEAP_BASE xs" using assms by (rule heap_invE)
  obtain p s' ys where K: "kmalloc n s = Some (p, s')" "heap_shape D ys s'" "hmem s' = hmem s"
    "p = 0 \<and> placed HEAP_BASE ys = placed HEAP_BASE xs
       \<or> p mod 16 = 0 \<and> HEAP_BASE < p \<and> (\<exists>m \<ge> n. placed HEAP_BASE ys = insert (p, m) (placed HEAP_BASE xs) \<and> (p, m) \<notin> placed HEAP_BASE xs)"
    using kmalloc_shape [OF xs(1), of n] by (elim exE conjE) (rule that)
  have "heap_inv D s'" using K(2) by (auto simp: heap_inv_def)
  then show ?thesis using K(1,3) K(4) [folded xs(2) live_shape [OF K(2)]] by (intro exI conjI)
qed

lemma kfree_result:
  assumes "heap_inv D s"
  shows "\<exists>ok s'. kfree p s = Some (ok, s') \<and> heap_inv D s' \<and> hmem s' = hmem s
    \<and> (ok \<longleftrightarrow> (\<exists>n. (p, n) \<in> live s)) \<and> (if ok then live s' = {(q, m) \<in> live s. q \<noteq> p} else s' = s)"
proof -
  obtain xs where xs: "heap_shape D xs s" "live s = placed HEAP_BASE xs" using assms by (rule heap_invE)
  obtain ok s' ys where K: "kfree p s = Some (ok, s')" "heap_shape D ys s'" "hmem s' = hmem s"
    "ok \<longleftrightarrow> (\<exists>n. (p, n) \<in> placed HEAP_BASE xs)"
    "if ok then placed HEAP_BASE ys = {(q, m) \<in> placed HEAP_BASE xs. q \<noteq> p} else s' = s"
    using kfree_shape [OF xs(1), of p] by (elim exE conjE) (rule that)
  have "heap_inv D s'" using K(2) by (auto simp: heap_inv_def)
  then show ?thesis using K(1,3) K(4,5) [folded xs(2) live_shape [OF K(2)]] by (intro exI conjI)
qed

lemma live_facts:
  assumes "heap_inv D s" "(p, n) \<in> live s"
  shows "p mod 16 = 0" "HEAP_BASE + 32 \<le> p" "p + n \<le> HEAP_BASE + heap_mapped_bytes s" "16 \<le> n"
    "(q, m) \<in> live s \<Longrightarrow> (p, n) \<noteq> (q, m) \<Longrightarrow> p + n \<le> q \<or> q + m \<le> p"
proof -
  obtain xs where xs: "heap_shape D xs s" "live s = placed HEAP_BASE xs" using assms(1) by (rule heap_invE)
  then have pl: "(p, n) \<in> placed HEAP_BASE xs" and sizes: "\<forall>b \<in> set xs. fst b mod 16 = 0 \<and> 16 \<le> fst b"
    and mapped: "heap_mapped_bytes s = span xs" using assms(2) by (simp_all add: heap_shape_def lay_def)
  show "HEAP_BASE + 32 \<le> p" "p + n \<le> HEAP_BASE + heap_mapped_bytes s" using placed_bounds [OF pl] mapped by simp_all
  show "16 \<le> n" using placed_size [OF pl] sizes by auto
  show "p + n \<le> q \<or> q + m \<le> p" if "(q, m) \<in> live s" "(p, n) \<noteq> (q, m)"
    using placed_disjoint [OF pl, of q m] that xs(2) by auto
  have "q mod 16 = 0" if "(q, k) \<in> placed a xs" "a mod 16 = 0" for q k a
    using that sizes by (induction xs arbitrary: a) (auto split: if_splits simp: mod_add_eq [symmetric])
  then show "p mod 16 = 0" using pl by (simp add: HEAP_BASE_def)
qed

interpretation heap: block_allocator kmalloc kfree "heap_inv D" live hmem for D :: "nat set"
proof unfold_locales
  show "\<exists>p s'. kmalloc n s = Some (p, s') \<and> heap_inv D s' \<and> hmem s' = hmem s
      \<and> (p = 0 \<and> live s' = live s \<or> 0 < p \<and> (\<exists>m \<ge> n. live s' = insert (p, m) (live s) \<and> (p, m) \<notin> live s))"
    if "heap_inv D s" for s :: "'a heap_state_scheme" and n
    using kmalloc_result [OF that, of n] by (metis gr_zeroI not_less0)
  show "p + n \<le> q \<or> q + m \<le> p" if "heap_inv D s" "(p, n) \<in> live s" "(q, m) \<in> live s" "(p, n) \<noteq> (q, m)"
    for s :: "'a heap_state_scheme" and p n q m using live_facts(5) [OF that(1,2,3,4)] .
  show "0 < p \<and> 0 < n" if "heap_inv D s" "(p, n) \<in> live s" for s :: "'a heap_state_scheme" and p n
    using live_facts(2,4) [OF that] by simp
qed (rule kfree_result)

end
