(* ===== verification/KOS_Heap_Safety.thy ===== *)
theory KOS_Heap_Safety
  imports KOS_Heap_Calls
begin

text \<open>
  What the kernel heap (\<open>src/mm/heap.c\<close>) guarantees its callers, over \<open>kmalloc\<close>, \<open>kfree\<close>, \<open>kcalloc\<close> and
  \<open>krealloc\<close> in any order: disjoint aligned memory, every byte of it mapped to a frame that nobody else
  uses, contents that only their owner changes, and nothing kept when nothing is allocated.
\<close>

unbundle bit_operations_syntax

section \<open>Bytes\<close>

lemma shape_hmem [simp]: "heap_shape D xs (s\<lparr>hmem := m\<rparr>) = heap_shape D xs s"
  by (simp add: heap_shape_def lay_def)

lemma inv_hmem [simp]: "heap_inv D (s\<lparr>hmem := m\<rparr>) = heap_inv D s"
  by (simp add: heap_inv_def)

lemma live_hmem: "heap_inv D s \<Longrightarrow> live (s\<lparr>hmem := m\<rparr>) = live s"
proof -
  assume "heap_inv D s"
  then obtain xs where "heap_shape D xs s" "live s = placed HEAP_BASE xs" by (rule heap_invE)
  then show ?thesis using live_shape [of D xs "s\<lparr>hmem := m\<rparr>"] by simp
qed

lemma copy_bytes_up_apart:
  assumes "src + n \<le> dst \<or> dst + n \<le> src"
  shows "copy_bytes_up dst src n m = (\<lambda>x. if dst \<le> x \<and> x < dst + n then m (src + (x - dst)) else m x)"
  using assms
proof (induction n)
  case (Suc n)
  have "copy_bytes_up dst src (Suc n) m = (copy_bytes_up dst src n m)(dst + n := copy_bytes_up dst src n m (src + n))"
    by (simp add: copy_bytes_up_def)
  then show ?case using Suc by (auto simp: fun_eq_iff less_Suc_eq)
qed (auto simp: copy_bytes_up_def fun_eq_iff)

lemma kcalloc_result:
  assumes "heap_inv D s" "num < 2 ^ 64" "sz < 2 ^ 64"
  shows "\<exists>p s'. kcalloc num sz s = Some (p, s') \<and> heap_inv D s'
    \<and> (p = 0 \<and> live s' = live s \<and> hmem s' = hmem s
       \<or> num * sz < 2 ^ 64 \<and> 0 < p \<and> (\<exists>m \<ge> num * sz. live s' = insert (p, m) (live s) \<and> (p, m) \<notin> live s)
         \<and> hmem s' = (\<lambda>a. if p \<le> a \<and> a < p + num * sz then 0 else hmem s a))"
proof (cases "num \<noteq> 0 \<and> sz > (2 ^ 64 - 1) div num")
  case True
  then have "kcalloc num sz s = Some (0, s)" by (simp add: kcalloc_def)
  with assms(1) show ?thesis by simp
next
  case False
  have lt: "num * sz < 2 ^ 64"
  proof (cases "num = 0")
    case nz: False
    then have "sz \<le> (2 ^ 64 - 1) div num" using False by simp
    then have "sz * num \<le> (2 ^ 64 - 1) div num * num" by (rule mult_le_mono1)
    also have "\<dots> \<le> 2 ^ 64 - 1" by (rule div_times_less_eq_dividend)
    finally show ?thesis by (simp add: mult.commute)
  qed simp
  from assms(1) show ?thesis
  proof (cases rule: heap.malloc_cases [where n = "num * sz"])
    case (null s')
    then have "kcalloc num sz s = Some (0, s')" using False lt by (auto simp: kcalloc_def mul64_def)
    then show ?thesis using null by blast
  next
    case (block p m s')
    then have "kcalloc num sz s = Some (p, s'\<lparr>hmem := (\<lambda>a. if p \<le> a \<and> a < p + num * sz then 0 else hmem s' a)\<rparr>)"
      using False lt by (auto simp: kcalloc_def mul64_def)
    then show ?thesis using block lt live_hmem [OF block(2)] by auto
  qed
qed

lemma krealloc_live:
  assumes I: "heap_inv D s" and p: "(p, m) \<in> live s" and n: "0 < n"
  shows "\<exists>q s'. krealloc p n s = Some (q, s') \<and> heap_inv D s'
    \<and> (q = 0 \<and> live s' = live s \<and> hmem s' = hmem s
       \<or> 0 < q \<and> (\<exists>k \<ge> n. live s' = insert (q, k) (live s - {(p, m)}))
         \<and> (\<forall>i < min m n. hmem s' (q + i) = hmem s (p + i))
         \<and> (\<forall>(r, l) \<in> live s - {(p, m)}. \<forall>i < l. hmem s' (r + i) = hmem s (r + i)))"
proof -
  obtain xs where xs: "heap_shape D xs s" "live s = placed HEAP_BASE xs" using I by (rule heap_invE)
  have pos: "\<forall>b \<in> set xs. 0 < fst b" and L: "lay xs s" and init: "heap_initialized s" using xs(1) by (auto simp: heap_shape_def)
  have p0: "p \<noteq> 0" using live_facts(2) [OF I p] by (simp add: HEAP_BASE_def)
  have ab: "allocated_block p s = Some (p - 32) \<and> p - 32 \<noteq> 0 \<and> hb_size (hblk s (p - 32)) = m"
    using L pos
  proof (cases rule: allocated_block_cases [where p = p])
    case no
    then show ?thesis using p xs(2) by simp
  next
    case (yes pre k post)
    then have "k = m" using placed_middle [of p m HEAP_BASE pre "(k, False)" post] p xs(2) by auto
    then show ?thesis using yes lay_block(1) [OF L [unfolded yes(1)]] by (simp add: HEAP_BASE_def)
  qed
  show ?thesis
  proof (cases "n \<le> m")
    case True
    then have "krealloc p n s = Some (p, s)" using ab p0 n init by (simp add: krealloc_def)
    moreover have "live s = insert (p, m) (live s - {(p, m)})" using p by auto
    ultimately show ?thesis using I True p0 by (intro exI [of _ p] exI [of _ s]) auto
  next
    case False
    have kr: "krealloc p n s = (case kmalloc n s of None \<Rightarrow> None | Some (new_ptr, s1) \<Rightarrow>
        if new_ptr = 0 then Some (0, s1)
        else map_option (\<lambda>(_, s3). (new_ptr, s3)) (kfree p (s1\<lparr>hmem := copy_bytes_up new_ptr p (min m n) (hmem s1)\<rparr>)))"
      unfolding krealloc_def Let_def using ab p0 n init False by (auto split: option.splits)
    from I show ?thesis
    proof (cases rule: heap.malloc_cases [where n = n])
      case (null s1)
      then show ?thesis using kr by auto
    next
      case (block q k s1)
      define s2 where "s2 = s1\<lparr>hmem := copy_bytes_up q p (min m n) (hmem s1)\<rparr>"
      have I2: "heap_inv D s2" and l2: "live s2 = insert (q, k) (live s)"
        using block(2,6) live_hmem [OF block(2)] by (simp_all add: s2_def)
      have qp: "(q, k) \<noteq> (p, m)" using block(7) p by auto
      have ap: "q + k \<le> r \<or> r + l \<le> q" if "(r, l) \<in> live s" for r l
        using live_facts(5) [OF I2, of q k r l] l2 that block(7) by auto
      have "q \<noteq> p" using ap [OF p] live_facts(4) [OF I p] block(5) n by auto
      obtain ok s3 where d: "kfree p s2 = Some (ok, s3)" "heap_inv D s3" "hmem s3 = hmem s2"
        "ok \<longleftrightarrow> (\<exists>n. (p, n) \<in> live s2)" "if ok then live s3 = {(q, m) \<in> live s2. q \<noteq> p} else s3 = s2"
        using kfree_result [OF I2, of p] by (elim exE conjE) (rule that)
      have "ok" using d(4) l2 p by blast
      have other: "r \<noteq> p" if "(r, l) \<in> live s" "(r, l) \<noteq> (p, m)" for r l
        using heap.one_size [OF I p, of l] that by auto
      have l3: "live s3 = insert (q, k) (live s - {(p, m)})"
        using d(5) \<open>ok\<close> l2 other \<open>q \<noteq> p\<close> by auto
      have "p + min m n \<le> q \<or> q + min m n \<le> p" using ap [OF p] block(5) by auto
      then have h3: "hmem s3 = (\<lambda>x. if q \<le> x \<and> x < q + min m n then hmem s (p + (x - q)) else hmem s x)"
        using d(3) block(3) copy_bytes_up_apart by (simp add: s2_def)
      have "hmem s3 (r + i) = hmem s (r + i)" if "(r, l) \<in> live s" "i < l" for r l i
        using ap [OF that(1)] that(2) block(5) by (auto simp: h3)
      then have "\<forall>(r, l) \<in> live s - {(p, m)}. \<forall>i < l. hmem s3 (r + i) = hmem s (r + i)" by blast
      moreover have "\<forall>i < min m n. hmem s3 (q + i) = hmem s (p + i)" by (simp add: h3)
      moreover have "krealloc p n s = Some (q, s3)" using kr block(1,4) d(1) by (simp add: s2_def)
      ultimately show ?thesis using d(2) l3 block(4,5) by (intro exI [of _ q] exI [of _ s3]) blast
    qed
  qed
qed

lemma krealloc_other:
  assumes I: "heap_inv D s" and p: "p = 0 \<or> n = 0 \<or> (\<forall>m. (p, m) \<notin> live s)"
  shows "\<exists>q s'. krealloc p n s = Some (q, s') \<and> heap_inv D s'"
proof -
  obtain xs where xs: "heap_shape D xs s" "live s = placed HEAP_BASE xs" using I by (rule heap_invE)
  have pos: "\<forall>b \<in> set xs. 0 < fst b" and L: "lay xs s" and init: "heap_initialized s" using xs(1) by (auto simp: heap_shape_def)
  consider "p = 0" | "p \<noteq> 0" "n = 0" | "p \<noteq> 0" "n \<noteq> 0" "\<forall>m. (p, m) \<notin> live s" using p by blast
  then show ?thesis
  proof cases
    case 1
    then show ?thesis using kmalloc_result [OF I, of n] by (auto simp: krealloc_def)
  next
    case 2
    then show ?thesis using kfree_result [OF I, of p] by (auto simp: krealloc_def)
  next
    case 3
    have "allocated_block p s = Some 0"
      using L pos
    proof (cases rule: allocated_block_cases [where p = p])
      case (yes pre k post)
      then have "(p, k) \<in> live s" using xs(2) by (simp add: placed_append)
      with 3(3) show ?thesis by blast
    qed
    then have "krealloc p n s = Some (0, s)" using 3 init by (simp add: krealloc_def)
    with I show ?thesis by blast
  qed
qed

section \<open>Pages behind the bytes\<close>

lemma found_same_page: "same_page va va' \<Longrightarrow> found m p va = found m p va'"
proof -
  assume "same_page va va'"
  then have sp: "same_path 4 va va'" by (simp add: same_page_path)
  have tabs: "tab m p va d = tab m p va' d" if "d \<le> 3" for d
    using tab_same_path [OF same_path_mono [OF sp]] that by simp
  have "depth m p va = depth m p va'" using tabs [of 1] tabs [of 2] tabs [of 3] by (simp add: depth_def del: tab.simps)
  moreover have "ix (depth m p va') va = ix (depth m p va') va'"
    using sp depth_le [of m p va'] by (simp add: same_path_def)
  ultimately have "last_entry m p va = last_entry m p va'" using tabs [OF depth_le [of m p va']] by (simp add: last_entry_def)
  with \<open>depth m p va = depth m p va'\<close> show ?thesis by (simp add: found_def)
qed

lemma heap_page_number: "HEAP_BASE \<le> x \<Longrightarrow> x div 4096 = 4503599627108352 + (x - HEAP_BASE) div 4096"
proof -
  assume "HEAP_BASE \<le> x"
  then have "x = HEAP_BASE + (x - HEAP_BASE)" by simp
  moreover have "HEAP_BASE = 4503599627108352 * 4096" by (simp add: HEAP_BASE_def)
  ultimately have "x div 4096 = (4503599627108352 * 4096 + (x - HEAP_BASE)) div 4096" by metis
  also have "\<dots> = 4503599627108352 + (x - HEAP_BASE) div 4096" by (rule div_mult_self3) simp
  finally show ?thesis .
qed

lemma heap_byte_translation:
  assumes B: "backs D {..<k} s" and x: "HEAP_BASE \<le> x" "x < HEAP_BASE + k * 4096"
  defines "i \<equiv> (x - HEAP_BASE) div 4096"
  shows "i < k" "translation (kernel_pml4_phys s) (of_nat x) s = Some (of_nat (heap_frame s i) OR (of_nat x AND mask 12))"
    "frame_address (of_nat (heap_frame s i))" "unat (of_nat (heap_frame s i) :: u64) = heap_frame s i"
proof -
  define p where "p = kernel_pml4_phys s"
  note D = backsD [OF B, folded p_def]
  show ik: "i < k" unfolding i_def using x by (simp add: less_mult_imp_div_less)
  have i: "i < 32768" "owned_mapping p (heap_page i) s" using D(2,3) ik by simp_all
  obtain e where e: "found (pt_mem s) p (heap_page i) = Some (3, e)" using i(2) by (auto simp: owned_mapping_def)
  have xl: "x < 2 ^ 64" using x ik i(1) D(2) [of "k - 1"] by (cases k) (simp_all add: HEAP_BASE_def)
  have "unat (of_nat x :: u64) = x" unfolding unat_of_nat using xl by simp
  moreover have "(HEAP_BASE + i * 4096) div 4096 = x div 4096"
    using heap_page_number [OF x(1)] heap_page_number [of "HEAP_BASE + i * 4096"] by (simp add: i_def)
  ultimately have "same_page (heap_page i) (of_nat x)" using unat_heap_page [OF i(1)] by (simp add: same_page_div)
  then have "found (pt_mem s) p (of_nat x) = Some (3, e)" using found_same_page e by metis
  then have tx: "translation p (of_nat x) s = Some ((e AND PAGE_ADDRESS_MASK) OR (of_nat x AND mask 12))"
    by (simp add: translation_found [OF D(1)] page_of_def)
  have "translation p (heap_page i) s = Some (e AND PAGE_ADDRESS_MASK)"
    using e aligned_offset [OF heap_page_aligned [OF i(1)]] by (simp add: translation_found [OF D(1)] page_of_def)
  then have f: "heap_frame s i = unat (e AND PAGE_ADDRESS_MASK)" by (simp add: heap_frame_def p_def)
  then show "translation (kernel_pml4_phys s) (of_nat x) s = Some (of_nat (heap_frame s i) OR (of_nat x AND mask 12))"
    using tx by (simp add: p_def)
  show "frame_address (of_nat (heap_frame s i))" using f frame_address_masked by simp
  show "unat (of_nat (heap_frame s i) :: u64) = heap_frame s i" by (simp add: f)
qed

lemma frame_and_offset:
  fixes f g x y :: u64
  assumes "frame_address f" "frame_address g" "f OR (x AND mask 12) = g OR (y AND mask 12)"
  shows "f = g \<and> x AND mask 12 = y AND mask 12"
proof -
  have low: "h AND mask 12 = 0" if "frame_address h" for h :: u64
    using frame_low_bits [OF that, of "mask 12"] by (simp add: PAGE_ADDRESS_MASK_def mask_eq_exp_minus_1)
  have part: "(h OR (z AND mask 12)) AND mask 12 = z AND mask 12 \<and> (h OR (z AND mask 12)) AND NOT (mask 12) = h"
    if "frame_address h" for h z :: u64
  proof
    show "(h OR (z AND mask 12)) AND mask 12 = z AND mask 12"
      using low [OF that] by (simp add: bit.conj_disj_distrib2 and.assoc)
    have "h = (h AND mask 12) OR (h AND NOT (mask 12))" by (simp add: bit_eq_iff bit_and_iff bit_or_iff bit_not_iff) blast
    then have "h AND NOT (mask 12) = h" using low [OF that] by simp
    then show "(h OR (z AND mask 12)) AND NOT (mask 12) = h" by (simp add: bit.conj_disj_distrib2 and.assoc)
  qed
  show ?thesis using part [OF assms(1), of x] part [OF assms(2), of y] assms(3) by metis
qed

text \<open>The bytes that are handed out, and that no two of them share physical memory.\<close>

definition handed_out :: "'a heap_state_scheme \<Rightarrow> nat set" where
  "handed_out s = {x. \<exists>(p, n) \<in> live s. p \<le> x \<and> x < p + n}"

lemma handed_out_backed:
  assumes I: "heap_inv D s"
  shows "x \<in> handed_out s \<Longrightarrow> \<exists>f \<in> data_frames (kernel_pml4_phys s) s - D.
      translation (kernel_pml4_phys s) (of_nat x) s = Some (of_nat f OR (of_nat x AND mask 12))"
    "inj_on (\<lambda>x. translation (kernel_pml4_phys s) (of_nat x) s) (handed_out s)"
proof -
  obtain xs where xs: "heap_shape D xs s" "live s = placed HEAP_BASE xs" using I by (rule heap_invE)
  define k where "k = span xs div 4096"
  have B: "backs D {..<k} s" and k: "span xs = k * 4096" and m: "heap_mapped_bytes s = span xs"
    using xs(1) by (auto simp: heap_shape_def k_def lay_def)
  have in_heap: "HEAP_BASE \<le> x" "x < HEAP_BASE + k * 4096" if "x \<in> handed_out s" for x
    using that live_facts(2,3) [OF I] m k by (fastforce simp: handed_out_def)+
  define fr where "fr x = heap_frame s ((x - HEAP_BASE) div 4096)" for x
  note T = heap_byte_translation [OF B in_heap, folded fr_def]
  show "\<exists>f \<in> data_frames (kernel_pml4_phys s) s - D. translation (kernel_pml4_phys s) (of_nat x) s = Some (of_nat f OR (of_nat x AND mask 12))"
    if "x \<in> handed_out s"
    using T(1,2) [OF that that] backsD(5,6) [OF B] by (intro bexI [of _ "fr x"]) (auto simp: fr_def)
  show "inj_on (\<lambda>x. translation (kernel_pml4_phys s) (of_nat x) s) (handed_out s)"
  proof (rule inj_onI)
    fix x y assume xy: "x \<in> handed_out s" "y \<in> handed_out s"
      and eq: "translation (kernel_pml4_phys s) (of_nat x) s = translation (kernel_pml4_phys s) (of_nat y) s"
    have "(of_nat (fr x) :: u64) = of_nat (fr y) \<and> (of_nat x AND mask 12 :: u64) = of_nat y AND mask 12"
      using eq T(2) [OF xy(1,1)] T(2) [OF xy(2,2)] frame_and_offset [OF T(3) [OF xy(1,1)] T(3) [OF xy(2,2)]] by simp
    then have f: "fr x = fr y" and o: "unat (of_nat x AND mask 12 :: u64) = unat (of_nat y AND mask 12 :: u64)"
      using T(4) [OF xy(1,1)] T(4) [OF xy(2,2)] by metis+
    have "(x - HEAP_BASE) div 4096 = (y - HEAP_BASE) div 4096"
      using inj_onD [OF backsD(4) [OF B] f [unfolded fr_def]] T(1) [OF xy(1,1)] T(1) [OF xy(2,2)] by simp
    moreover have "unat (of_nat z AND mask 12 :: u64) = z mod 4096" if "z < 2 ^ 64" for z
      using that by (simp add: take_bit_eq_mask [symmetric] take_bit_eq_mod unat_mod unat_of_nat)
    then have "x mod 4096 = y mod 4096" using o in_heap [OF xy(1)] in_heap [OF xy(2)] m xs(1)
      by (simp add: heap_shape_def lay_def k heap_consts)
    ultimately have "x div 4096 = y div 4096" "x mod 4096 = y mod 4096"
      using heap_page_number [OF in_heap(1) [OF xy(1)]] heap_page_number [OF in_heap(1) [OF xy(2)]] by simp_all
    then show "x = y" by (metis div_mult_mod_eq)
  qed
qed

section \<open>Runs\<close>

text \<open>A run of the heap from its initialisation: any calls in any order, and writes of the callers to the
  memory they were given.\<close>

inductive heap_run :: "'a heap_state_scheme \<Rightarrow> 'a heap_state_scheme \<Rightarrow> bool" for s0 where
  start: "heap_initialize s0 = (True, s) \<Longrightarrow> heap_run s0 s"
| malloc: "heap_run s0 s \<Longrightarrow> kmalloc n s = Some (p, s') \<Longrightarrow> heap_run s0 s'"
| free: "heap_run s0 s \<Longrightarrow> kfree p s = Some (ok, s') \<Longrightarrow> heap_run s0 s'"
| calloc: "heap_run s0 s \<Longrightarrow> num < 2 ^ 64 \<Longrightarrow> sz < 2 ^ 64 \<Longrightarrow> kcalloc num sz s = Some (p, s') \<Longrightarrow> heap_run s0 s'"
| realloc: "heap_run s0 s \<Longrightarrow> krealloc p n s = Some (q, s') \<Longrightarrow> heap_run s0 s'"
| store: "heap_run s0 s \<Longrightarrow> x \<in> handed_out s \<Longrightarrow> heap_run s0 (s\<lparr>hmem := (hmem s)(x := v)\<rparr>)"

lemma heap_run_inv:
  assumes "vmm_inv s0 (kernel_pml4_phys s0)" "heap_run s0 s"
  shows "heap_inv (data_frames (kernel_pml4_phys s0) s0) s"
  using assms(2)
proof induction
  case (start s)
  have "backs (data_frames (kernel_pml4_phys s0) s0) {} s0" using assms(1) by (simp add: backs_def)
  moreover have "pt_mem s = pt_mem s0" "frames s = frames s0" "kernel_pml4_phys s = kernel_pml4_phys s0"
    "vmm_initialized s = vmm_initialized s0" using start by (auto simp: heap_initialize_def)
  ultimately have "backs (data_frames (kernel_pml4_phys s0) s0) {} s" using backs_fields by metis
  then have "heap_shape (data_frames (kernel_pml4_phys s0) s0) [] s"
    using start by (auto simp: heap_initialize_def heap_shape_def lay_def apart_free_def)
  then show ?case by (auto simp: heap_inv_def)
next
  case (malloc s n p s')
  then show ?case using kmalloc_result [OF malloc.IH, of n] by auto
next
  case (free s p ok s')
  then show ?case using kfree_result [OF free.IH, of p] by auto
next
  case (calloc s num sz p s')
  then show ?case using kcalloc_result [OF calloc.IH, of num sz] by auto
next
  case (realloc s p n q s')
  show ?case
  proof (cases "p = 0 \<or> n = 0 \<or> (\<forall>m. (p, m) \<notin> live s)")
    case True
    then show ?thesis using krealloc_other [OF realloc.IH, of p n] realloc.hyps(2) by auto
  next
    case False
    then obtain m where "(p, m) \<in> live s" "0 < n" by auto
    then show ?thesis using krealloc_live [OF realloc.IH, of p m n] realloc.hyps(2) by auto
  qed
next
  case (store s x v)
  then show ?case by simp
qed

lemma finite_placed: "finite (placed a xs)"
  by (induction xs arbitrary: a) auto

lemma card_placed: "card (placed a xs) = length (filter (\<lambda>b. \<not> snd b) xs)"
proof (induction xs arbitrary: a)
  case (Cons b xs)
  have "(a + 32, fst b) \<notin> placed (a + 32 + fst b) xs" using placed_bounds [of "a + 32" "fst b" "a + 32 + fst b" xs] by auto
  then show ?case using Cons finite_placed by (cases "snd b") auto
qed simp

lemma empty_shape:
  assumes "heap_inv D s" "live s = {}"
  shows "heap_shape D [] s"
proof -
  obtain xs where xs: "heap_shape D xs s" "live s = placed HEAP_BASE xs" using assms(1) by (rule heap_invE)
  have "filter (\<lambda>b. \<not> snd b) xs = []" using xs(2) assms(2) card_placed [of HEAP_BASE xs] by simp
  then have "xs = []" using xs(1) by (auto simp: heap_shape_def filter_empty_conv)
  then show ?thesis using xs(1) by simp
qed

lemma heap_inv_accounts:
  assumes "heap_inv D s"
  shows "heap_active s = card (live s)" "live s = {} \<Longrightarrow> heap_mapped_bytes s = 0 \<and> data_frames (kernel_pml4_phys s) s = D"
proof -
  obtain xs where xs: "heap_shape D xs s" "live s = placed HEAP_BASE xs" using assms by (rule heap_invE)
  show "heap_active s = card (live s)" using xs card_placed by (simp add: heap_shape_def)
  assume "live s = {}"
  then show "heap_mapped_bytes s = 0 \<and> data_frames (kernel_pml4_phys s) s = D"
    using empty_shape [OF assms] by (auto simp: heap_shape_def lay_def backs_def)
qed

section \<open>Progress\<close>

lemma back_one_page:
  assumes inv: "vmm_inv s (kernel_pml4_phys s)" and k: "k < 32768" and free: "4 \<le> card (pmm_avail (frames s))"
    and none: "translation (kernel_pml4_phys s) (heap_page k) s = None"
  shows "\<exists>s'. back_pages (heap_page k) 1 s = (True, s')"
proof -
  define p where "p = kernel_pml4_phys s"
  note D = vmm_invD [OF inv, folded p_def]
  obtain f s1 where a: "allocate_frame s = (f, s1)" by fastforce
  have ne: "pmm_avail (frames s) \<noteq> {}" using free by auto
  obtain q pm where qp: "pmm_allocate_frame (frames s) = (q, pm)" by (rule prod.exhaust)
  then have q: "pmm_allocate_frame (frames s) = (q, pm)" "q \<in> pmm_avail (frames s)" "pmm_avail pm = pmm_avail (frames s) - {q}"
    using pmm_frames.alloc_some [OF D(4) ne qp] by simp_all
  then have s1: "s1 = s\<lparr>frames := pm\<rparr>" "f = of_nat q" "f \<noteq> 0"
    using a avail_frame_address [OF D(4) q(2)] by (simp_all add: allocate_frame_def)
  have A: "vmm_inv s1 p" "f mod PAGE_SIZE = 0" using alloc_data_frame [OF inv a] s1(3) by (simp_all add: p_def)
  have "card (pmm_avail (frames s1)) \<ge> 3"
    using q(2,3) s1(1) free pmm_frames.finite_avail [OF D(4)] by (simp add: card_Diff_singleton)
  moreover have "translation p (heap_page k) s1 = None"
    using none translation_cong [OF inv A(1) [unfolded p_def]] by (simp add: s1(1) p_def)
  moreover obtain ok s2 where m: "vmm_map_page_in p (heap_page k) f (VMM_PAGE_WRITABLE OR VMM_PAGE_NO_EXECUTE) s1 = (ok, s2)"
    by (rule prod.exhaust)
  ultimately have "ok" using map_result [OF A(1) m] heap_map_arguments [OF k A(2) D(2,3)] by blast
  then show ?thesis using a s1 m by (simp add: back_pages_def heap_page_add [of k 0, simplified] vmm_map_page_def p_def)
qed

lemma kmalloc_progress:
  fixes s :: "'a heap_state_scheme"
  assumes I: "heap_inv D s" and n: "0 < n" "n \<le> 4064" and room: "heap_mapped_bytes s + 4096 \<le> HEAP_MAXIMUM_BYTES"
    and free: "4 \<le> card (pmm_avail (frames s))"
    and none: "translation (kernel_pml4_phys s) (heap_page (heap_mapped_page_count s)) s = None"
  shows "\<exists>p s'. kmalloc n s = Some (p, s') \<and> p \<noteq> 0"
proof -
  obtain xs where xs: "heap_shape D xs s" using I by (rule heap_invE)
  then have L: "lay xs s" and init: "heap_initialized s" and B: "backs D {..<span xs div 4096} s" and pg: "span xs mod 4096 = 0"
    by (simp_all add: heap_shape_def)
  have m: "heap_mapped_bytes s = span xs" using L by (simp add: lay_def)
  obtain n' where n': "heap_align_up n HEAP_ALIGNMENT = Some n'" using n by (simp add: heap_align_up_def HEAP_ALIGNMENT_def)
  have le: "n' \<le> 4064" using n'(1) n by (auto simp: heap_align_up_def HEAP_ALIGNMENT_def)
  have ff: "find_free_block n' s = Some (first_fit n' HEAP_BASE xs)"
    using find_free_from_seg [of "hblk s" 0 HEAP_BASE xs n'] L by (simp add: find_free_block_def lay_def HEAP_BASE_def)
  have take: "fst (take_block b z t) \<noteq> 0" if "HEAP_BASE \<le> b" "b < HEAP_BASE + HEAP_MAXIMUM_BYTES"
    for b z and t :: "'a heap_state_scheme"
    using that by (simp add: take_block_def Let_def add64_def heap_consts)
  have km: "kmalloc n s = Some (if first_fit n' HEAP_BASE xs \<noteq> 0 then take_block (first_fit n' HEAP_BASE xs) n' s
      else let (block, s1) = grow_heap n' s in if block = 0 then (0, s1) else take_block block n' s1)"
    using n n' init ff by (simp add: kmalloc_def)
  have "0 < HEAP_BASE" by (simp add: HEAP_BASE_def)
  then show ?thesis
  proof (cases rule: first_fit_cases [where sz = n' and xs = xs])
    case (fits pre b post)
    have "HEAP_BASE + span pre < HEAP_BASE + HEAP_MAXIMUM_BYTES" using lay_block(7) [OF L [unfolded fits(1)]] by simp
    then have "fst (take_block (HEAP_BASE + span pre) n' s) \<noteq> 0" by (intro take) simp_all
    then show ?thesis using km fits(3) by (cases "take_block (HEAP_BASE + span pre) n' s") (simp add: HEAP_BASE_def)
  next
    case none
    define k where "k = span xs div 4096"
    have k: "k < 32768" "heap_page k = of_nat (HEAP_BASE + span xs)"
      using room m pg of_nat_heap_page [OF pg] by (simp_all add: k_def HEAP_MAXIMUM_BYTES_def)
    obtain s1 where b: "back_pages (heap_page k) 1 s = (True, s1)"
      using back_one_page [OF backsD(1) [OF B] k(1) free] assms(6) m by (auto simp: heap_mapped_page_count_def HEAP_PAGE_SIZE_def k_def)
    have pc: "(n' + BLOCK_HEADER + HEAP_PAGE_SIZE - Suc 0) div HEAP_PAGE_SIZE = Suc 0"
      using le by (intro div_nat_eqI) (simp_all add: BLOCK_HEADER_def HEAP_PAGE_SIZE_def)
    have "\<not> n' > HEAP_MAXIMUM_BYTES - BLOCK_HEADER" "\<not> HEAP_PAGE_SIZE > sub64 HEAP_MAXIMUM_BYTES (heap_mapped_bytes s)"
      using le room by (simp_all add: heap_consts sub64_def)
    moreover have "add64 HEAP_BASE (span xs) = HEAP_BASE + span xs" using room m by (intro small_sums(1)) simp
    ultimately have g: "fst (grow_heap n' s) = HEAP_BASE + span xs"
      using m b k(2) by (simp add: grow_heap_def Let_def pc)
    obtain s2 where s2: "grow_heap n' s = (HEAP_BASE + span xs, s2)" using g by (cases "grow_heap n' s") simp
    have "fst (take_block (HEAP_BASE + span xs) n' s2) \<noteq> 0" using room m by (intro take) simp_all
    then show ?thesis
      using km none(1) s2 by (cases "take_block (HEAP_BASE + span xs) n' s2") (simp add: HEAP_BASE_def)
  qed
qed

text \<open>The first allocation leaves the rest of its pages as one free block, and a free block that is big
  enough is always used.\<close>

lemma kmalloc_first:
  fixes s :: "'a heap_state_scheme"
  assumes I: "heap_shape D [] s" and k: "kmalloc sz s = Some (p, s')" "p \<noteq> 0" and n: "heap_align_up sz HEAP_ALIGNMENT = Some n" "0 < sz"
  shows "\<exists>m. heap_shape D (split_blocks n m) s' \<and> n \<le> m \<and> (32 + m) mod 4096 = 0"
proof -
  note A = heap_align_up_16 [OF n]
  have D: "lay [] s" "heap_initialized s" "heap_active s = 0" "backs D {..<0} s" using I by (simp_all add: heap_shape_def)
  have "heap_first s = 0" using D(1) by (simp add: lay_def)
  then have "find_free_block n s = Some 0" by (simp add: find_free_block_def find_free_from.simps)
  then have km: "kmalloc sz s = Some (let (block, s1) = grow_heap n s in if block = 0 then (0, s1) else take_block block n s1)"
    using n D(2) by (simp add: kmalloc_def)
  obtain r s1 where g: "grow_heap n s = (r, s1)" by (rule prod.exhaust)
  have r: "r \<noteq> 0" using km k g by (cases "r = 0") auto
  have "(r = 0 \<and> lay [] s1 \<and> backs D {..<0} s1
      \<or> (\<exists>m. r = HEAP_BASE \<and> lay [(m, True)] s1 \<and> n \<le> m \<and> m mod 16 = 0 \<and> 16 \<le> m
          \<and> (32 + m) mod 4096 = 0 \<and> backs D {..<(32 + m) div 4096} s1))
    \<and> heap_active s1 = heap_active s \<and> heap_initialized s1 = heap_initialized s"
    using grow_heap_result [of "[]" s D n r s1] D A(1) g by simp
  then obtain m where G: "r = HEAP_BASE" "lay [(m, True)] s1" "n \<le> m" "m mod 16 = 0" "(32 + m) mod 4096 = 0"
    "backs D {..<(32 + m) div 4096} s1" "heap_active s1 = 0" "heap_initialized s1" using r D(2,3) by auto
  have "take_block HEAP_BASE n s1 = (p, s')" using km k(1) g r G(1) by simp
  then have "heap_shape D (split_blocks n m) s'"
    using take_shape [of "[]" m "[]" s1 D n p s'] G A(1,2) by simp
  then show ?thesis using G(3,5) by (intro exI [of _ m] conjI)
qed

lemma kmalloc_fits:
  fixes s :: "'a heap_state_scheme"
  assumes I: "heap_shape D xs s" and n: "heap_align_up sz HEAP_ALIGNMENT = Some n" "0 < sz" and b: "(m, True) \<in> set xs" "n \<le> m"
  shows "\<exists>p s'. kmalloc sz s = Some (p, s') \<and> p \<noteq> 0"
proof -
  have L: "lay xs s" and init: "heap_initialized s" using I by (simp_all add: heap_shape_def)
  have ff: "find_free_block n s = Some (first_fit n HEAP_BASE xs)"
    using find_free_from_seg [of "hblk s" 0 HEAP_BASE xs n] L by (simp add: find_free_block_def lay_def HEAP_BASE_def)
  have "0 < HEAP_BASE" by (simp add: HEAP_BASE_def)
  then show ?thesis
  proof (cases rule: first_fit_cases [where sz = n and xs = xs])
    case (fits pre k post)
    obtain p s' where t: "take_block (HEAP_BASE + span pre) n s = (p, s')" by (rule prod.exhaust)
    have "p = HEAP_BASE + span pre + 32" using take_block_lay(1) [OF L [unfolded fits(1)] fits(2) t] by simp
    moreover have "kmalloc sz s = Some (p, s')" using n init ff fits(3) t by (simp add: kmalloc_def HEAP_BASE_def)
    ultimately show ?thesis by (simp add: HEAP_BASE_def)
  next
    case none
    then show ?thesis using b by force
  qed
qed

section \<open>A concrete machine\<close>

definition pmm_four_frames :: physical_memory_manager where
  "pmm_four_frames = snd (pmm_initialize
     (Some [Some \<lparr>entry_base = 4096, entry_length = 16384, entry_type = LIMINE_MEMMAP_USABLE\<rparr>])
     pmm_reset)"

lemma pmm_four_frames_ready:
  "pmm_inv pmm_four_frames" "pmm_initialized pmm_four_frames" "free_set pmm_four_frames = {1, 2, 3, 4}"
proof -
  let ?e = "\<lparr>entry_base = 4096, entry_length = 16384, entry_type = LIMINE_MEMMAP_USABLE\<rparr>"
  have "entry_frames ?e = {1, 2, 3, 4}" by (auto simp: entry_frames_def kos_consts)
  with pmm_initialize_establishes [of "[?e]" pmm_reset]
  show "pmm_inv pmm_four_frames" "pmm_initialized pmm_four_frames" "free_set pmm_four_frames = {1, 2, 3, 4}"
    by (simp_all add: pmm_four_frames_def split: prod.splits)
qed

definition heap_example :: heap_state where
  "heap_example = \<lparr> hhdm_offset = 0xffff800000000000, vmm_pml4 = 0x5000, kernel_pml4_phys = 0x5000, vmm_initialized = True,
     pt_mem = (\<lambda>_ _. 0), frames = pmm_four_frames, cpu_cr3 = 0x5000, invalidated = [],
     heap_first = 0, heap_last = 0, heap_mapped_bytes = 0, heap_active = 0, heap_initialized = True,
     hblk = (\<lambda>_. \<lparr>hb_size = 0, hb_previous = 0, hb_next = 0, hb_free = False\<rparr>), hmem = (\<lambda>_. 0) \<rparr>"

lemma heap_example_ready: "vmm_inv heap_example (kernel_pml4_phys heap_example)"
  "heap_run heap_example heap_example" "heap_inv (data_frames 0x5000 heap_example) heap_example"
proof -
  show 1: "vmm_inv heap_example (kernel_pml4_phys heap_example)"
    by (auto simp: vmm_inv_def heap_example_def PAGE_SIZE_def nosharing_def tables_out_def owned_out_def root_ok_def tab_zero
        present_def same_path_def sub_def pmm_ready_def pmm_avail_def pmm_four_frames_ready FRAME_SIZE_def split: if_splits)
  show 2: "heap_run heap_example heap_example"
    by (rule heap_run.start) (simp add: heap_initialize_def heap_example_def)
  show "heap_inv (data_frames 0x5000 heap_example) heap_example"
    using heap_run_inv [OF 1 2] by (simp add: heap_example_def)
qed

lemma heap_example_room:
  "4 \<le> card (pmm_avail (frames heap_example))" "heap_mapped_bytes heap_example = 0"
  "translation (kernel_pml4_phys heap_example) (heap_page (heap_mapped_page_count heap_example)) heap_example = None"
proof -
  have "pmm_avail (frames heap_example) = {4096, 8192, 12288, 16384}"
    by (auto simp: heap_example_def pmm_avail_def pmm_four_frames_ready FRAME_SIZE_def)
  then show "4 \<le> card (pmm_avail (frames heap_example))" by simp
  show "heap_mapped_bytes heap_example = 0" by (simp add: heap_example_def)
  have "found (pt_mem heap_example) (kernel_pml4_phys heap_example) va = None" for va
    by (simp add: found_def heap_example_def tab_zero present_def last_entry_def)
  then show "translation (kernel_pml4_phys heap_example) (heap_page (heap_mapped_page_count heap_example)) heap_example = None"
    using heap_example_ready(1) by (simp add: translation_found)
qed

lemma heap_example_live: "live heap_example = {}"
  using heap_inv_accounts(1) [OF heap_example_ready(3)] live_facts(3) [OF heap_example_ready(3)]
  by (fastforce simp: heap_example_def HEAP_BASE_def dest: live_facts(2,4) [OF heap_example_ready(3)])

section \<open>The properties\<close>

text \<open>
  C26. Over any run of the heap on a machine whose page tables and frames are consistent: the memory that
  is out is aligned to 16 bytes and no two allocations overlap; every byte of it is mapped, on a frame
  the heap took for itself, which is no page table and belonged to nobody before; no two bytes share
  physical memory; the counter of allocations is exact; and when nothing is allocated, no page is
  mapped and every frame has been given back.
\<close>

theorem heap_run_safe:
  assumes "vmm_inv s0 (kernel_pml4_phys s0)" and "heap_run s0 s"
  shows "(\<forall>(p, n) \<in> live s. p mod 16 = 0 \<and> (\<forall>(q, m) \<in> live s. (q, m) \<noteq> (p, n) \<longrightarrow> p + n \<le> q \<or> q + m \<le> p))
    \<and> (\<forall>x \<in> handed_out s. \<exists>f \<in> data_frames (kernel_pml4_phys s) s - data_frames (kernel_pml4_phys s0) s0.
         translation (kernel_pml4_phys s) (of_nat x) s = Some (of_nat f OR (of_nat x AND mask 12)))
    \<and> inj_on (\<lambda>x. translation (kernel_pml4_phys s) (of_nat x) s) (handed_out s)
    \<and> heap_active_allocation_count s = card (live s)
    \<and> (live s = {} \<longrightarrow> heap_mapped_page_count s = 0
         \<and> data_frames (kernel_pml4_phys s) s = data_frames (kernel_pml4_phys s0) s0)"
proof -
  note I = heap_run_inv [OF assms]
  have "\<forall>(p, n) \<in> live s. p mod 16 = 0 \<and> (\<forall>(q, m) \<in> live s. (q, m) \<noteq> (p, n) \<longrightarrow> p + n \<le> q \<or> q + m \<le> p)"
    using live_facts(1,5) [OF I] by blast
  then show ?thesis
    using handed_out_backed [OF I] heap_inv_accounts [OF I]
    by (auto simp: heap_active_allocation_count_def heap_mapped_page_count_def)
qed

theorem heap_run_safe_witness:
  "heap_active_allocation_count heap_example = card (live heap_example)
   \<and> inj_on (\<lambda>x. translation (kernel_pml4_phys heap_example) (of_nat x) heap_example) (handed_out heap_example)"
  using heap_run_safe [OF heap_example_ready(1,2)] by blast

text \<open>
  C27. The allocation call always returns. Either it returns null and no allocation has changed, or it
  returns a 16-byte aligned address in the heap, of a block of at least the size asked for that is
  apart from every allocation that was out; the invariant of the heap is kept and no byte is touched.
\<close>

theorem kmalloc_correct:
  assumes "heap_inv D s"
  shows "\<exists>p s'. kmalloc n s = Some (p, s') \<and> heap_inv D s' \<and> hmem s' = hmem s
    \<and> (if p = 0 then live s' = live s
       else p mod 16 = 0 \<and> (\<exists>m \<ge> n. live s' = insert (p, m) (live s) \<and> HEAP_BASE \<le> p \<and> p + m \<le> HEAP_BASE + heap_mapped_bytes s'
         \<and> (\<forall>(q, k) \<in> live s. p + m \<le> q \<or> q + k \<le> p)))"
proof -
  obtain p s' where K: "kmalloc n s = Some (p, s')" "heap_inv D s'" "hmem s' = hmem s"
    "p = 0 \<and> live s' = live s \<or> p mod 16 = 0 \<and> HEAP_BASE < p \<and> (\<exists>m \<ge> n. live s' = insert (p, m) (live s) \<and> (p, m) \<notin> live s)"
    using kmalloc_result [OF assms, of n] by (elim exE conjE) (rule that)
  have "p mod 16 = 0 \<and> (\<exists>m \<ge> n. live s' = insert (p, m) (live s) \<and> HEAP_BASE \<le> p \<and> p + m \<le> HEAP_BASE + heap_mapped_bytes s'
         \<and> (\<forall>(q, k) \<in> live s. p + m \<le> q \<or> q + k \<le> p))" if nz: "p \<noteq> 0"
  proof -
    obtain m where m: "n \<le> m" "live s' = insert (p, m) (live s)" "(p, m) \<notin> live s" and p: "p mod 16 = 0" "HEAP_BASE < p"
      using K(4) nz by auto
    have "p + m \<le> q \<or> q + k \<le> p" if "(q, k) \<in> live s" for q k
      using live_facts(5) [OF K(2), of p m q k] m that by auto
    then show ?thesis using p m live_facts(3) [OF K(2), of p m] by auto
  qed
  then show ?thesis using K by (intro exI [of _ p] exI [of _ s']) auto
qed

theorem kmalloc_correct_witness:
  "\<exists>p s'. kmalloc 100 heap_example = Some (p, s') \<and> hmem s' = hmem heap_example"
  using kmalloc_correct [OF heap_example_ready(3), of 100] by blast

text \<open>
  C28. The call that gives memory back always returns. It succeeds exactly on the address of an
  allocation that is out, which then is out no longer, and on no other; in every other case, a second
  free of the same address included, it changes nothing. No byte is touched.
\<close>

theorem kfree_correct:
  assumes "heap_inv D s"
  shows "\<exists>ok s'. kfree p s = Some (ok, s') \<and> heap_inv D s' \<and> hmem s' = hmem s
    \<and> (ok \<longleftrightarrow> (\<exists>n. (p, n) \<in> live s))
    \<and> (if ok then live s' = {(q, m) \<in> live s. q \<noteq> p} \<and> kfree p s' = Some (False, s') else s' = s)"
proof -
  obtain ok s' where K: "kfree p s = Some (ok, s')" "heap_inv D s'" "hmem s' = hmem s" "ok \<longleftrightarrow> (\<exists>n. (p, n) \<in> live s)"
    "if ok then live s' = {(q, m) \<in> live s. q \<noteq> p} else s' = s"
    using kfree_result [OF assms, of p] by (elim exE conjE) (rule that)
  then show ?thesis using heap.dealloc_once [OF assms, of p s'] by (intro exI [of _ ok] exI [of _ s']) auto
qed

theorem kfree_correct_witness:
  "\<exists>s'. kfree 4096 heap_example = Some (False, s') \<and> s' = heap_example"
  using kfree_correct [OF heap_example_ready(3), of 4096] by (auto simp: heap_example_live)

text \<open>
  C29. Resizing an allocation always returns, for a caller that alone uses it. Either it returns null and
  nothing has changed, the old allocation included, or the old allocation is replaced by one of at least
  the new size whose first bytes are those of the old one, and no byte of any other allocation changes.
\<close>

theorem krealloc_correct:
  assumes "heap_inv D s" and "(p, m) \<in> live s" and "0 < n"
  shows "\<exists>q s'. krealloc p n s = Some (q, s') \<and> heap_inv D s'
    \<and> (q = 0 \<and> live s' = live s \<and> hmem s' = hmem s
       \<or> 0 < q \<and> (\<exists>k \<ge> n. live s' = insert (q, k) (live s - {(p, m)}))
         \<and> (\<forall>i < min m n. hmem s' (q + i) = hmem s (p + i))
         \<and> (\<forall>(r, l) \<in> live s - {(p, m)}. \<forall>i < l. hmem s' (r + i) = hmem s (r + i)))"
  using assms by (rule krealloc_live)

theorem krealloc_correct_witness:
  "\<exists>p m s q s'. kmalloc 100 heap_example = Some (p, s) \<and> p \<noteq> 0 \<and> (p, m) \<in> live s \<and> krealloc p 5000 s = Some (q, s')"
proof -
  have "\<exists>p s. kmalloc 100 heap_example = Some (p, s) \<and> p \<noteq> 0"
    using heap_example_room by (intro kmalloc_progress [OF heap_example_ready(3)]) (simp_all add: HEAP_MAXIMUM_BYTES_def)
  then obtain p s where k: "kmalloc 100 heap_example = Some (p, s)" "p \<noteq> 0" by (elim exE conjE)
  then obtain m where m: "heap_inv (data_frames 0x5000 heap_example) s" "(p, m) \<in> live s"
    using kmalloc_result [OF heap_example_ready(3), of 100] by auto
  have "\<exists>q s'. krealloc p 5000 s = Some (q, s')"
    using krealloc_correct [OF m, of 5000, OF zero_less_numeral] by (elim exE conjE) (intro exI)
  then show ?thesis using k m(2) by (elim exE) (intro exI conjI)
qed

text \<open>
  An allocation of up to a page less its header cannot fail while the heap is below its maximum, the
  next page of its range is free and there are four free frames: one for the page and three for the
  page tables that may be missing on the way to it.
\<close>

theorem kmalloc_succeeds:
  assumes "heap_inv D s" and "0 < n" "n \<le> 4064" and "heap_mapped_bytes s + 4096 \<le> HEAP_MAXIMUM_BYTES"
    and "4 \<le> card (pmm_avail (frames s))"
    and "translation (kernel_pml4_phys s) (heap_page (heap_mapped_page_count s)) s = None"
  shows "\<exists>p s'. kmalloc n s = Some (p, s') \<and> p \<noteq> 0"
  using assms by (rule kmalloc_progress)

theorem kmalloc_succeeds_witness: "\<exists>p s'. kmalloc 4064 heap_example = Some (p, s') \<and> p \<noteq> 0"
  using heap_example_room by (intro kmalloc_succeeds [OF heap_example_ready(3)]) (simp_all add: HEAP_MAXIMUM_BYTES_def)

end
