(* ===== verification/KOS_Block.thy ===== *)
theory KOS_Block
  imports KOS_Heap_Safety "HOL-Library.Monad_Syntax"
begin

text \<open>
  The block layer (\<open>src/drivers/block.c\<close>, \<open>src/include/kos/block.h\<close>) and the RAM disk
  (\<open>src/drivers/ramdisk.c\<close>).

  The table of devices is \<open>bdevs\<close>: the device \<open>&block_devices[i]\<close> is the pointer \<open>i + 1\<close>. The intrusive
  list of registered devices is the sequence of its nodes. The table of operations of a device is a
  value of \<open>block_device_ops\<close>: the RAM disk's, the partition's, or that of a driver of real hardware,
  whose functions act on a state \<open>hw\<close> of their own and may be null. A buffer that a call fills is its
  result (\<open>None\<close> for the failure), a buffer that a call reads is an argument. Reading and writing a
  partition calls the block layer again on the parent, so these are partial functions: \<open>None\<close> is a call
  that never returns. The state extends that of the heap, where a RAM disk has its memory: its
  descriptor is in \<open>rdata\<close>, its bytes are in \<open>hmem\<close>.
\<close>

section \<open>Devices\<close>

definition BLOCK_NAME_MAX :: nat where "BLOCK_NAME_MAX = 32"
definition BLOCK_MAX_DEVICES :: nat where "BLOCK_MAX_DEVICES = 64"
definition BLOCK_DEFAULT_SECTOR_SIZE :: nat where "BLOCK_DEFAULT_SECTOR_SIZE = 512"

datatype block_device_state = BLOCK_DEVICE_OFFLINE | BLOCK_DEVICE_ONLINE | BLOCK_DEVICE_ERROR

datatype block_device_type = BLOCK_TYPE_UNKNOWN | BLOCK_TYPE_RAMDISK | BLOCK_TYPE_AHCI | BLOCK_TYPE_VIRTIO
  | BLOCK_TYPE_PARTITION | BLOCK_TYPE_NVME

record 'hw block_driver =
  drv_read :: "(nat \<Rightarrow> nat \<Rightarrow> nat \<Rightarrow> 'hw \<Rightarrow> u8 list option \<times> 'hw) option"
  drv_write :: "(nat \<Rightarrow> nat \<Rightarrow> nat \<Rightarrow> u8 list \<Rightarrow> 'hw \<Rightarrow> bool \<times> 'hw) option"
  drv_flush :: "(nat \<Rightarrow> 'hw \<Rightarrow> bool \<times> 'hw) option"
  drv_destroy :: "(nat \<Rightarrow> 'hw \<Rightarrow> 'hw) option"

datatype 'hw block_device_ops = Ramdisk_ops | Partition_ops | Driver_ops "'hw block_driver"

record 'hw block_device =
  bd_id :: nat
  bd_name :: string
  bd_type :: block_device_type
  bd_state :: block_device_state
  bd_block_size :: nat
  bd_total_blocks :: nat
  bd_capacity_bytes :: nat
  bd_ops :: "'hw block_device_ops option"
  bd_private_data :: nat
  bd_parent :: nat
  bd_start_lba :: nat
  bd_partition_index :: nat
  bd_partition_type_mbr :: u8
  bd_partition_guid :: "u8 list"
  bd_has_guid :: bool

record ramdisk_data =
  rd_buffer :: nat
  rd_size_bytes :: nat
  rd_buffer_allocated :: bool

record 'hw storage_state = heap_state +
  bdevs :: "nat \<Rightarrow> 'hw block_device"
  bdev_list :: "nat list"
  next_device_id :: nat
  block_initialized :: bool
  rdata :: "nat \<Rightarrow> ramdisk_data"
  hw :: 'hw

definition upd_dev :: "nat \<Rightarrow> ('hw block_device \<Rightarrow> 'hw block_device) \<Rightarrow>
    ('hw, 'a) storage_state_scheme \<Rightarrow> ('hw, 'a) storage_state_scheme" where
  "upd_dev dev f s = s\<lparr>bdevs := (bdevs s)(dev := f (bdevs s dev))\<rparr>"

definition block_slots :: "nat list" where
  "block_slots = [1..<BLOCK_MAX_DEVICES + 1]"

section \<open>Strings\<close>

fun block_streq :: "string \<Rightarrow> string \<Rightarrow> bool" where
  "block_streq (a # as) (b # bs) = (if a \<noteq> b then False else block_streq as bs)"
| "block_streq [] [] = True"
| "block_streq (a # as) [] = False"
| "block_streq [] (b # bs) = False"

definition block_strcpy :: "string \<Rightarrow> nat \<Rightarrow> string" where
  "block_strcpy src max_len = take (max_len - 1) (takeWhile (\<lambda>c. c \<noteq> CHR 0x00) src)"

section \<open>Registration\<close>

definition block_subsystem_init :: "('hw, 'a) storage_state_scheme \<Rightarrow> bool \<times> ('hw, 'a) storage_state_scheme" where
  "block_subsystem_init s =
     (if block_initialized s then (True, s)
      else (True, fold (\<lambda>i. upd_dev i (\<lambda>d. d\<lparr>bd_id := 0, bd_state := BLOCK_DEVICE_OFFLINE, bd_type := BLOCK_TYPE_UNKNOWN\<rparr>))
                    block_slots (s\<lparr>bdev_list := []\<rparr>) \<lparr>block_initialized := True\<rparr>))"

definition ops_can_read :: "'hw block_device_ops \<Rightarrow> bool" where
  "ops_can_read ops = (case ops of Driver_ops d \<Rightarrow> drv_read d \<noteq> None | _ \<Rightarrow> True)"

definition find_free_slot :: "('hw, 'a) storage_state_scheme \<Rightarrow> nat" where
  "find_free_slot s =
     (case find (\<lambda>i. bd_state (bdevs s i) = BLOCK_DEVICE_OFFLINE \<and> bd_id (bdevs s i) = 0) block_slots of
        None \<Rightarrow> 0 | Some i \<Rightarrow> i)"

definition block_device_register :: "string \<Rightarrow> block_device_type \<Rightarrow> nat \<Rightarrow> nat \<Rightarrow> 'hw block_device_ops option \<Rightarrow> nat \<Rightarrow>
    ('hw, 'a) storage_state_scheme \<Rightarrow> nat \<times> ('hw, 'a) storage_state_scheme" where
  "block_device_register name ty block_size total_blocks ops private_data s =
     (if ops = None \<or> \<not> ops_can_read (the ops) \<or> block_size = 0 \<or> total_blocks = 0 then (0, s)
      else let s1 = (if \<not> block_initialized s then snd (block_subsystem_init s) else s);
               dev = find_free_slot s1
           in if dev = 0 then (0, s1)
              else let s2 = upd_dev dev (\<lambda>d. d\<lparr>bd_id := next_device_id s1,
                          bd_name := block_strcpy name BLOCK_NAME_MAX, bd_type := ty, bd_state := BLOCK_DEVICE_ONLINE,
                          bd_block_size := block_size, bd_total_blocks := total_blocks,
                          bd_capacity_bytes := mul64 block_size total_blocks, bd_ops := ops,
                          bd_private_data := private_data, bd_parent := 0, bd_start_lba := 0,
                          bd_partition_index := 0, bd_partition_type_mbr := 0, bd_has_guid := False\<rparr>) s1
                   in (dev, s2\<lparr>next_device_id := add32 (next_device_id s1) 1, bdev_list := bdev_list s2 @ [dev]\<rparr>))"

definition partition_name :: "string \<Rightarrow> nat \<Rightarrow> string" where
  "partition_name parent_name part_index =
     take (BLOCK_NAME_MAX - 8) parent_name @ ''p''
       @ (if part_index \<ge> 10 then [char_of (48 + part_index div 10)] else []) @ [char_of (48 + part_index mod 10)]"

definition block_partition_register :: "nat \<Rightarrow> nat \<Rightarrow> nat \<Rightarrow> nat \<Rightarrow> u8 \<Rightarrow> u8 list option \<Rightarrow>
    ('hw, 'a) storage_state_scheme \<Rightarrow> nat \<times> ('hw, 'a) storage_state_scheme" where
  "block_partition_register parent part_index start_lba block_count part_type_mbr guid s =
     (if parent = 0 \<or> block_count = 0 \<or> add64 start_lba block_count > bd_total_blocks (bdevs s parent) then (0, s)
      else let part_name = partition_name (bd_name (bdevs s parent)) part_index;
               dev = find_free_slot s
           in if dev = 0 then (0, s)
              else let p = bdevs s parent;
                       s1 = upd_dev dev (\<lambda>d. d\<lparr>bd_id := next_device_id s,
                          bd_name := block_strcpy part_name BLOCK_NAME_MAX, bd_type := BLOCK_TYPE_PARTITION,
                          bd_state := BLOCK_DEVICE_ONLINE, bd_block_size := bd_block_size p,
                          bd_total_blocks := block_count, bd_capacity_bytes := mul64 (bd_block_size p) block_count,
                          bd_ops := Some Partition_ops, bd_private_data := 0, bd_parent := parent,
                          bd_start_lba := start_lba, bd_partition_index := part_index,
                          bd_partition_type_mbr := part_type_mbr,
                          bd_partition_guid := (case guid of Some g \<Rightarrow> take 16 g | None \<Rightarrow> replicate 16 0),
                          bd_has_guid := (guid \<noteq> None)\<rparr>) s
                   in (dev, s1\<lparr>next_device_id := add32 (next_device_id s) 1, bdev_list := bdev_list s1 @ [dev]\<rparr>))"

section \<open>Search\<close>

definition or_null :: "nat option \<Rightarrow> nat" where
  "or_null p = (case p of None \<Rightarrow> 0 | Some d \<Rightarrow> d)"

definition block_device_find_by_name :: "string \<Rightarrow> ('hw, 'a) storage_state_scheme \<Rightarrow> nat" where
  "block_device_find_by_name name s =
     or_null (find (\<lambda>dev. bd_state (bdevs s dev) = BLOCK_DEVICE_ONLINE \<and> block_streq (bd_name (bdevs s dev)) name) (bdev_list s))"

definition block_device_find_by_id :: "nat \<Rightarrow> ('hw, 'a) storage_state_scheme \<Rightarrow> nat" where
  "block_device_find_by_id i s =
     (if i = 0 then 0
      else or_null (find (\<lambda>dev. bd_state (bdevs s dev) = BLOCK_DEVICE_ONLINE \<and> bd_id (bdevs s dev) = i) (bdev_list s)))"

definition block_device_count :: "('hw, 'a) storage_state_scheme \<Rightarrow> nat" where
  "block_device_count s = length (bdev_list s)"

definition block_device_get_at :: "nat \<Rightarrow> ('hw, 'a) storage_state_scheme \<Rightarrow> nat" where
  "block_device_get_at index s = (if index < length (bdev_list s) then bdev_list s ! index else 0)"

section \<open>The operations of the RAM disk\<close>

definition load_bytes :: "nat \<Rightarrow> nat \<Rightarrow> (nat \<Rightarrow> u8) \<Rightarrow> u8 list" where
  "load_bytes a n m = map (\<lambda>i. m (a + i)) [0..<n]"

definition store_bytes :: "nat \<Rightarrow> u8 list \<Rightarrow> (nat \<Rightarrow> u8) \<Rightarrow> nat \<Rightarrow> u8" where
  "store_bytes a bs m = (\<lambda>x. if a \<le> x \<and> x < a + length bs then bs ! (x - a) else m x)"

definition ramdisk_read_blocks :: "nat \<Rightarrow> nat \<Rightarrow> nat \<Rightarrow> ('hw, 'a) storage_state_scheme \<Rightarrow> u8 list option" where
  "ramdisk_read_blocks dev lba count s =
     (if dev = 0 \<or> bd_private_data (bdevs s dev) = 0 then None
      else let data = rdata s (bd_private_data (bdevs s dev));
               offset = mul64 lba (bd_block_size (bdevs s dev));
               byte_count = mul64 count (bd_block_size (bdevs s dev))
           in if add64 offset byte_count > rd_size_bytes data then None
              else Some (load_bytes (add64 (rd_buffer data) offset) byte_count (hmem s)))"

definition ramdisk_write_blocks :: "nat \<Rightarrow> nat \<Rightarrow> nat \<Rightarrow> u8 list \<Rightarrow> ('hw, 'a) storage_state_scheme \<Rightarrow>
    bool \<times> ('hw, 'a) storage_state_scheme" where
  "ramdisk_write_blocks dev lba count buffer s =
     (if dev = 0 \<or> bd_private_data (bdevs s dev) = 0 then (False, s)
      else let data = rdata s (bd_private_data (bdevs s dev));
               offset = mul64 lba (bd_block_size (bdevs s dev));
               byte_count = mul64 count (bd_block_size (bdevs s dev))
           in if add64 offset byte_count > rd_size_bytes data then (False, s)
              else (True, s\<lparr>hmem := store_bytes (add64 (rd_buffer data) offset) (take byte_count buffer) (hmem s)\<rparr>))"

definition ramdisk_flush :: "nat \<Rightarrow> bool" where
  "ramdisk_flush dev = True"

definition ramdisk_dev_destroy :: "nat \<Rightarrow> ('hw, 'a) storage_state_scheme \<Rightarrow> ('hw, 'a) storage_state_scheme option" where
  "ramdisk_dev_destroy dev s =
     (if dev = 0 \<or> bd_private_data (bdevs s dev) = 0 then Some s
      else let data = bd_private_data (bdevs s dev) in do {
        s1 \<leftarrow> (if rd_buffer_allocated (rdata s data) \<and> rd_buffer (rdata s data) \<noteq> 0
               then do { (_, s1) \<leftarrow> kfree (rd_buffer (rdata s data)) s;
                         Some (s1\<lparr>rdata := (rdata s1)(data := (rdata s1 data)\<lparr>rd_buffer := 0\<rparr>)\<rparr>) }
               else Some s);
        (_, s2) \<leftarrow> kfree data s1;
        Some (upd_dev dev (\<lambda>d. d\<lparr>bd_private_data := 0\<rparr>) s2) })"

section \<open>Reading and writing\<close>

definition partition_read_blocks ::
    "(nat \<Rightarrow> nat \<Rightarrow> nat \<Rightarrow> ('hw, 'a) storage_state_scheme \<Rightarrow> (u8 list option \<times> ('hw, 'a) storage_state_scheme) option) \<Rightarrow>
     nat \<Rightarrow> nat \<Rightarrow> nat \<Rightarrow> ('hw, 'a) storage_state_scheme \<Rightarrow> (u8 list option \<times> ('hw, 'a) storage_state_scheme) option" where
  "partition_read_blocks read dev lba count s =
     (if dev = 0 \<or> bd_parent (bdevs s dev) = 0 then Some (None, s)
      else if add64 lba count > bd_total_blocks (bdevs s dev) then Some (None, s)
      else read (bd_parent (bdevs s dev)) (add64 (bd_start_lba (bdevs s dev)) lba) count s)"

lemma partition_read_blocks_mono [partial_function_mono]:
  "mono_option (\<lambda>f. partition_read_blocks (\<lambda>a b c d. f (((a, b), c), d)) dev lba count s)"
  unfolding partition_read_blocks_def by (intro partial_function_mono)

partial_function (option) block_read :: "nat \<Rightarrow> nat \<Rightarrow> nat \<Rightarrow> ('hw, 'a) storage_state_scheme \<Rightarrow>
    (u8 list option \<times> ('hw, 'a) storage_state_scheme) option" where
  "block_read dev lba count s =
     (if dev = 0 \<or> count = 0 then Some (None, s)
      else if bd_state (bdevs s dev) \<noteq> BLOCK_DEVICE_ONLINE then Some (None, s)
      else if add64 lba count > bd_total_blocks (bdevs s dev) then Some (None, s)
      else case bd_ops (bdevs s dev) of
        None \<Rightarrow> Some (None, s)
      | Some Ramdisk_ops \<Rightarrow> Some (ramdisk_read_blocks dev lba count s, s)
      | Some Partition_ops \<Rightarrow> partition_read_blocks block_read dev lba count s
      | Some (Driver_ops d) \<Rightarrow> (case drv_read d of None \<Rightarrow> Some (None, s)
          | Some f \<Rightarrow> let (r, h) = f dev lba count (hw s) in Some (r, s\<lparr>hw := h\<rparr>)))"

definition partition_write_blocks ::
    "(nat \<Rightarrow> nat \<Rightarrow> nat \<Rightarrow> u8 list \<Rightarrow> ('hw, 'a) storage_state_scheme \<Rightarrow> (bool \<times> ('hw, 'a) storage_state_scheme) option) \<Rightarrow>
     nat \<Rightarrow> nat \<Rightarrow> nat \<Rightarrow> u8 list \<Rightarrow> ('hw, 'a) storage_state_scheme \<Rightarrow> (bool \<times> ('hw, 'a) storage_state_scheme) option" where
  "partition_write_blocks write dev lba count buffer s =
     (if dev = 0 \<or> bd_parent (bdevs s dev) = 0 then Some (False, s)
      else if add64 lba count > bd_total_blocks (bdevs s dev) then Some (False, s)
      else write (bd_parent (bdevs s dev)) (add64 (bd_start_lba (bdevs s dev)) lba) count buffer s)"

lemma partition_write_blocks_mono [partial_function_mono]:
  "mono_option (\<lambda>f. partition_write_blocks (\<lambda>a b c d e. f ((((a, b), c), d), e)) dev lba count buffer s)"
  unfolding partition_write_blocks_def by (intro partial_function_mono)

partial_function (option) block_write :: "nat \<Rightarrow> nat \<Rightarrow> nat \<Rightarrow> u8 list \<Rightarrow> ('hw, 'a) storage_state_scheme \<Rightarrow>
    (bool \<times> ('hw, 'a) storage_state_scheme) option" where
  "block_write dev lba count buffer s =
     (if dev = 0 \<or> count = 0 then Some (False, s)
      else if bd_state (bdevs s dev) \<noteq> BLOCK_DEVICE_ONLINE then Some (False, s)
      else if add64 lba count > bd_total_blocks (bdevs s dev) then Some (False, s)
      else case bd_ops (bdevs s dev) of
        None \<Rightarrow> Some (False, s)
      | Some Ramdisk_ops \<Rightarrow> Some (ramdisk_write_blocks dev lba count buffer s)
      | Some Partition_ops \<Rightarrow> partition_write_blocks block_write dev lba count buffer s
      | Some (Driver_ops d) \<Rightarrow> (case drv_write d of None \<Rightarrow> Some (False, s)
          | Some f \<Rightarrow> let (r, h) = f dev lba count buffer (hw s) in Some (r, s\<lparr>hw := h\<rparr>)))"

definition partition_flush ::
    "(nat \<Rightarrow> ('hw, 'a) storage_state_scheme \<Rightarrow> (bool \<times> ('hw, 'a) storage_state_scheme) option) \<Rightarrow>
     nat \<Rightarrow> ('hw, 'a) storage_state_scheme \<Rightarrow> (bool \<times> ('hw, 'a) storage_state_scheme) option" where
  "partition_flush flush dev s =
     (if dev = 0 \<or> bd_parent (bdevs s dev) = 0 then Some (False, s) else flush (bd_parent (bdevs s dev)) s)"

lemma partition_flush_mono [partial_function_mono]:
  "mono_option (\<lambda>f. partition_flush (\<lambda>a b. f (a, b)) dev s)"
  unfolding partition_flush_def by (intro partial_function_mono)

partial_function (option) block_flush :: "nat \<Rightarrow> ('hw, 'a) storage_state_scheme \<Rightarrow>
    (bool \<times> ('hw, 'a) storage_state_scheme) option" where
  "block_flush dev s =
     (if dev = 0 then Some (False, s)
      else case bd_ops (bdevs s dev) of
        None \<Rightarrow> Some (True, s)
      | Some Ramdisk_ops \<Rightarrow> Some (ramdisk_flush dev, s)
      | Some Partition_ops \<Rightarrow> partition_flush block_flush dev s
      | Some (Driver_ops d) \<Rightarrow> (case drv_flush d of None \<Rightarrow> Some (True, s)
          | Some f \<Rightarrow> let (r, h) = f dev (hw s) in Some (r, s\<lparr>hw := h\<rparr>)))"

section \<open>Removal\<close>

definition detach_dev :: "nat \<Rightarrow> ('hw, 'a) storage_state_scheme \<Rightarrow> ('hw, 'a) storage_state_scheme" where
  "detach_dev i s =
     upd_dev i (\<lambda>d. d\<lparr>bd_state := BLOCK_DEVICE_OFFLINE, bd_id := 0\<rparr>) (s\<lparr>bdev_list := remove1 i (bdev_list s)\<rparr>)"

definition detach_children :: "nat \<Rightarrow> ('hw, 'a) storage_state_scheme \<Rightarrow> ('hw, 'a) storage_state_scheme" where
  "detach_children dev s =
     fold (\<lambda>i s. if bd_parent (bdevs s i) = dev \<and> bd_state (bdevs s i) \<noteq> BLOCK_DEVICE_OFFLINE then detach_dev i s else s)
       block_slots s"

definition destroy_dev :: "nat \<Rightarrow> ('hw, 'a) storage_state_scheme \<Rightarrow> ('hw, 'a) storage_state_scheme option" where
  "destroy_dev dev s =
     (case bd_ops (bdevs s dev) of
        None \<Rightarrow> Some s
      | Some Ramdisk_ops \<Rightarrow> ramdisk_dev_destroy dev s
      | Some Partition_ops \<Rightarrow> Some s
      | Some (Driver_ops d) \<Rightarrow> (case drv_destroy d of None \<Rightarrow> Some s | Some f \<Rightarrow> Some (s\<lparr>hw := f dev (hw s)\<rparr>)))"

definition block_device_unregister :: "nat \<Rightarrow> ('hw, 'a) storage_state_scheme \<Rightarrow>
    (bool \<times> ('hw, 'a) storage_state_scheme) option" where
  "block_device_unregister dev s =
     (if dev = 0 then Some (False, s)
      else if bd_state (bdevs s dev) = BLOCK_DEVICE_OFFLINE \<and> bd_id (bdevs s dev) = 0 then Some (False, s)
      else do {
        let s1 = detach_children dev s;
        s2 \<leftarrow> destroy_dev dev (s1\<lparr>bdev_list := remove1 dev (bdev_list s1)\<rparr>);
        Some (True, upd_dev dev (\<lambda>d. d\<lparr>bd_state := BLOCK_DEVICE_OFFLINE, bd_id := 0, bd_parent := 0\<rparr>) s2) })"

section \<open>Creating RAM disks\<close>

definition RAMDISK_DATA_BYTES :: nat where "RAMDISK_DATA_BYTES = 24"

text \<open>The end of \<open>ramdisk_create\<close>, once it has its memory; and the part that gets the memory.\<close>

definition ramdisk_attach :: "string \<Rightarrow> nat \<Rightarrow> nat \<Rightarrow> nat \<Rightarrow> nat \<Rightarrow> nat \<Rightarrow> ('hw, 'a) storage_state_scheme \<Rightarrow>
    (nat \<times> ('hw, 'a) storage_state_scheme) option" where
  "ramdisk_attach name block_size total_blocks alloc_size buffer data s =
     (let s1 = s\<lparr>rdata := (rdata s)(data :=
                 \<lparr>rd_buffer = buffer, rd_size_bytes = alloc_size, rd_buffer_allocated = True\<rparr>)\<rparr>;
          (dev, s2) = block_device_register name BLOCK_TYPE_RAMDISK block_size total_blocks (Some Ramdisk_ops) data s1
      in if dev = 0 then do {
           (_, s3) \<leftarrow> kfree buffer s2;
           (_, s4) \<leftarrow> kfree data s3;
           Some (0, s4) }
         else Some (dev, s2))"

definition ramdisk_allocate :: "string \<Rightarrow> nat \<Rightarrow> nat \<Rightarrow> nat \<Rightarrow> ('hw, 'a) storage_state_scheme \<Rightarrow>
    (nat \<times> ('hw, 'a) storage_state_scheme) option" where
  "ramdisk_allocate name block_size total_blocks alloc_size s = do {
     (buffer, s1) \<leftarrow> kmalloc alloc_size s;
     if buffer = 0 then Some (0, s1)
     else do {
       (data, s2) \<leftarrow> kmalloc RAMDISK_DATA_BYTES (s1\<lparr>hmem := store_bytes buffer (replicate alloc_size 0) (hmem s1)\<rparr>);
       if data = 0 then do { (_, s3) \<leftarrow> kfree buffer s2; Some (0, s3) }
       else ramdisk_attach name block_size total_blocks alloc_size buffer data s2 } }"

definition ramdisk_create :: "string \<Rightarrow> nat \<Rightarrow> nat \<Rightarrow> ('hw, 'a) storage_state_scheme \<Rightarrow>
    (nat \<times> ('hw, 'a) storage_state_scheme) option" where
  "ramdisk_create name size_bytes block_size0 s =
     (if size_bytes = 0 then Some (0, s)
      else let block_size = (if block_size0 = 0 then BLOCK_DEFAULT_SECTOR_SIZE else block_size0);
               total_blocks = size_bytes div block_size
           in if total_blocks = 0 then Some (0, s)
              else ramdisk_allocate name block_size total_blocks (mul64 total_blocks block_size) s)"

definition ramdisk_destroy :: "nat \<Rightarrow> ('hw, 'a) storage_state_scheme \<Rightarrow> (bool \<times> ('hw, 'a) storage_state_scheme) option" where
  "ramdisk_destroy dev s =
     (if dev = 0 \<or> bd_type (bdevs s dev) \<noteq> BLOCK_TYPE_RAMDISK then Some (False, s) else block_device_unregister dev s)"

section \<open>Memory for device transfers\<close>

definition block_alloc_dma_pages :: "nat \<Rightarrow> ('hw, 'a) storage_state_scheme \<Rightarrow>
    (u64 \<times> nat) option \<times> ('hw, 'a) storage_state_scheme" where
  "block_alloc_dma_pages count s =
     (if count = 0 then (None, s)
      else let (phys, pm) = pmm_alloc_pages count (frames s); s1 = s\<lparr>frames := pm\<rparr>
           in if phys = 0 then (None, s1)
              else let virt = vmm_physical_to_virtual (of_nat phys) s1
                   in if virt = 0 then (None, s1\<lparr>frames := snd (pmm_free_pages phys count (frames s1))\<rparr>)
                      else (Some (virt, phys),
                            s1\<lparr>hmem := store_bytes (unat virt) (replicate (count * 4096) 0) (hmem s1)\<rparr>))"

definition block_free_dma_pages :: "nat \<Rightarrow> nat \<Rightarrow> ('hw, 'a) storage_state_scheme \<Rightarrow> ('hw, 'a) storage_state_scheme" where
  "block_free_dma_pages phys count s =
     (if phys \<noteq> 0 \<and> count > 0 then s\<lparr>frames := snd (pmm_free_pages phys count (frames s))\<rparr> else s)"

end
