(* ===== verification/KOS_Block_Correct.thy ===== *)
theory KOS_Block_Correct
  imports KOS_Block
begin

text \<open>
  Facts on the block layer: the heap leaves the tables of the storage layer alone, an access to a
  partition is an access to the device underneath at a shifted position, and the blocks of a RAM disk
  are consecutive pieces of an allocation of its own.
\<close>

section \<open>The heap leaves the rest of the state alone\<close>

lemma rest_map_heap_pages: "map_heap_pages va k n s = (r, s') \<Longrightarrow> same_rest s s'"
proof (induction n arbitrary: k s)
  case (Suc n)
  obtain f s1 where a: "allocate_frame s = (f, s1)" by (rule prod.exhaust)
  obtain ok s2 where m: "vmm_map_page (va + of_nat k * PAGE_SIZE) f (VMM_PAGE_WRITABLE OR VMM_PAGE_NO_EXECUTE) s1 = (ok, s2)"
    by (rule prod.exhaust)
  have 1: "same_rest s s1" using rest_frames(1) [of s] a by simp
  have 2: "same_rest s s2" using same_rest_trans [OF 1 rest_map [OF m [unfolded vmm_map_page_def]]] .
  have 3: "same_rest s (snd (free_frame f s2))" using same_rest_trans [OF 2 rest_frames(2)] .
  show ?case
  proof (cases "f = 0")
    case True
    then show ?thesis using Suc.prems a 1 by simp
  next
    case False
    then show ?thesis using Suc.prems a m 2 3 same_rest_trans [OF 2 Suc.IH] by (cases ok) auto
  qed
qed simp

lemma rest_give_back: "same_rest s (give_back_page va i s)"
proof -
  obtain f s1 where u: "vmm_unmap_page (va + of_nat i * PAGE_SIZE) s = (f, s1)" by (rule prod.exhaust)
  have 1: "same_rest s s1" using rest_unmap [OF u [unfolded vmm_unmap_page_def]] .
  have 2: "same_rest s (snd (free_frame f s1))" using same_rest_trans [OF 1 rest_frames(2)] .
  show ?thesis using u 1 2 by (cases "f = 0") (simp_all add: give_back_page_def)
qed

lemma rest_give_back_all: "same_rest s s' \<Longrightarrow> same_rest s (fold (give_back_page va) is s')"
  by (induction "is" arbitrary: s') (simp_all add: same_rest_trans [OF _ rest_give_back])

lemma rest_back_pages: "back_pages va n s = (ok, s') \<Longrightarrow> same_rest s s'"
proof -
  assume b: "back_pages va n s = (ok, s')"
  obtain r s1 where m: "map_heap_pages va 0 n s = (r, s1)" by (rule prod.exhaust)
  note 1 = rest_map_heap_pages [OF m]
  show ?thesis using b m 1 rest_give_back_all [OF 1] by (cases "r = n") (auto simp: back_pages_def)
qed

lemma rest_unback_pages: "unback_pages va k n s = (ok, s') \<Longrightarrow> same_rest s s'"
proof (induction n arbitrary: k s)
  case (Suc n)
  obtain f s1 where u: "vmm_unmap_page (va + of_nat k * PAGE_SIZE) s = (f, s1)" by (rule prod.exhaust)
  obtain ok' s2 where r: "free_frame f s1 = (ok', s2)" by (rule prod.exhaust)
  have 1: "same_rest s s1" using rest_unmap [OF u [unfolded vmm_unmap_page_def]] .
  have 2: "same_rest s s2" using same_rest_trans [OF 1 rest_frames(2) [of s1 f]] r by simp
  show ?case
  proof (cases "f = 0")
    case True
    then show ?thesis using Suc.prems u 1 by simp
  next
    case False
    then show ?thesis using Suc.prems u r 2 same_rest_trans [OF 2 Suc.IH] by (cases ok') auto
  qed
qed simp

lemma same_rest_more: "same_rest s s' \<Longrightarrow> heap_state.more s' = heap_state.more s"
  by (cases s; cases s') (simp add: same_rest_def)

lemma more_upd_block [simp]: "heap_state.more (upd_block b f s) = heap_state.more s"
  by (simp add: upd_block_def)

lemma more_grow: "grow_heap n s = (b, s') \<Longrightarrow> heap_state.more s' = heap_state.more s"
  by (auto simp: grow_heap_def Let_def split: if_splits prod.splits dest!: rest_back_pages same_rest_more)

lemma more_split [simp]: "heap_state.more (split_block b n s) = heap_state.more s"
  by (simp add: split_block_def Let_def)

lemma more_take: "take_block b n s = (p, s') \<Longrightarrow> heap_state.more s' = heap_state.more s"
  by (auto simp: take_block_def Let_def)

lemma more_reclaim: "heap_state.more (reclaim_trailing_block s) = heap_state.more s"
  by (auto simp: reclaim_trailing_block_def Let_def split: if_splits prod.splits dest!: rest_unback_pages same_rest_more)

lemma more_merge [simp]: "heap_state.more (merge_with_next b s) = heap_state.more s"
  by (simp add: merge_with_next_def Let_def)

lemma more_release: "heap_state.more (release_block b s) = heap_state.more s"
  by (simp add: release_block_def Let_def more_reclaim)

lemma more_kmalloc: "kmalloc n s = Some (p, s') \<Longrightarrow> heap_state.more s' = heap_state.more s"
  by (auto simp: kmalloc_def split: if_splits option.splits prod.splits dest!: more_grow more_take)

lemma more_kfree: "kfree p s = Some (ok, s') \<Longrightarrow> heap_state.more s' = heap_state.more s"
  by (auto simp: kfree_def more_release split: if_splits option.splits)

lemma storage_more:
  assumes "heap_state.more s' = heap_state.more s"
  shows "bdevs s' = bdevs s" "bdev_list s' = bdev_list s" "next_device_id s' = next_device_id s"
    "block_initialized s' = block_initialized s" "rdata s' = rdata s" "hw s' = hw s"
    "storage_state.more s' = storage_state.more s"
  using assms by (cases s; cases s'; simp)+

lemmas kmalloc_storage = storage_more [OF more_kmalloc]
lemmas kfree_storage = storage_more [OF more_kfree]

text \<open>The invariant of the heap and what is allocated depend on the fields of the heap only.\<close>

lemma heap_nodes_sub:
  assumes "heap_first s' = heap_first s" "hblk s' = hblk s" "a \<in> heap_nodes s"
  shows "a \<in> heap_nodes s'"
  using assms(3)
proof (induction rule: heap_nodes.induct)
  case first
  then show ?case using heap_nodes.first [of s'] assms by simp
next
  case (onward a)
  then show ?case using heap_nodes.onward [of a s'] assms by simp
qed

lemma live_fields: "heap_first s' = heap_first s \<Longrightarrow> hblk s' = hblk s \<Longrightarrow> live s' = live s"
proof -
  assume eq: "heap_first s' = heap_first s" "hblk s' = hblk s"
  have "heap_nodes s' = heap_nodes s" using heap_nodes_sub [OF eq] heap_nodes_sub [OF eq [symmetric]] by auto
  then show ?thesis by (simp add: live_def eq)
qed

lemma inv_fields:
  assumes "pt_mem s' = pt_mem s" "frames s' = frames s" "kernel_pml4_phys s' = kernel_pml4_phys s"
    "vmm_initialized s' = vmm_initialized s" "heap_first s' = heap_first s" "heap_last s' = heap_last s" "hblk s' = hblk s"
    "heap_mapped_bytes s' = heap_mapped_bytes s" "heap_active s' = heap_active s" "heap_initialized s' = heap_initialized s"
  shows "heap_inv D s' = heap_inv D s"
  using backs_fields [OF assms(1-4)] by (simp add: heap_inv_def heap_shape_def lay_def assms)

lemma heap_storage_fields [simp]:
  "heap_inv D (s\<lparr>bdevs := x1\<rparr>) = heap_inv D s" "live (s\<lparr>bdevs := x1\<rparr>) = live s"
  "heap_inv D (s\<lparr>bdev_list := x2\<rparr>) = heap_inv D s" "live (s\<lparr>bdev_list := x2\<rparr>) = live s"
  "heap_inv D (s\<lparr>next_device_id := x3\<rparr>) = heap_inv D s" "live (s\<lparr>next_device_id := x3\<rparr>) = live s"
  "heap_inv D (s\<lparr>block_initialized := x4\<rparr>) = heap_inv D s" "live (s\<lparr>block_initialized := x4\<rparr>) = live s"
  "heap_inv D (s\<lparr>rdata := x5\<rparr>) = heap_inv D s" "live (s\<lparr>rdata := x5\<rparr>) = live s"
  "heap_inv D (s\<lparr>hw := x6\<rparr>) = heap_inv D s" "live (s\<lparr>hw := x6\<rparr>) = live s"
  "heap_inv D (upd_dev d f s) = heap_inv D s" "live (upd_dev d f s) = live s" "live (s\<lparr>hmem := x7\<rparr>) = live s"
  by (rule inv_fields live_fields; simp add: upd_dev_def)+

section \<open>The table of devices\<close>

definition online :: "('hw, 'a) storage_state_scheme \<Rightarrow> nat \<Rightarrow> bool" where
  "online s d \<longleftrightarrow> d \<in> set block_slots \<and> bd_state (bdevs s d) = BLOCK_DEVICE_ONLINE"

definition is_partition :: "'hw block_device \<Rightarrow> bool" where
  "is_partition b \<longleftrightarrow> bd_ops b = Some Partition_ops"

definition is_ramdisk :: "'hw block_device \<Rightarrow> bool" where
  "is_ramdisk b \<longleftrightarrow> bd_ops b = Some Ramdisk_ops"

text \<open>A registered device has a size, and a partition lies within a registered device that is no partition.\<close>

definition dev_ok :: "('hw, 'a) storage_state_scheme \<Rightarrow> nat \<Rightarrow> bool" where
  "dev_ok s d \<longleftrightarrow> (let b = bdevs s d in bd_ops b \<noteq> None \<and> 0 < bd_block_size b \<and> 0 < bd_total_blocks b \<and> bd_total_blocks b < 2 ^ 64
     \<and> (is_partition b \<longrightarrow> online s (bd_parent b) \<and> \<not> is_partition (bdevs s (bd_parent b))
          \<and> bd_start_lba b + bd_total_blocks b \<le> bd_total_blocks (bdevs s (bd_parent b))
          \<and> bd_block_size b = bd_block_size (bdevs s (bd_parent b)))
     \<and> (\<not> is_partition b \<longrightarrow> bd_parent b = 0))"

definition table_inv :: "('hw, 'a) storage_state_scheme \<Rightarrow> bool" where
  "table_inv s \<longleftrightarrow> distinct (bdev_list s) \<and> set (bdev_list s) = {d. online s d}
     \<and> (\<forall>d \<in> set block_slots. \<not> online s d \<longrightarrow> bd_state (bdevs s d) = BLOCK_DEVICE_OFFLINE \<and> bd_id (bdevs s d) = 0)
     \<and> (\<forall>d. online s d \<longrightarrow> dev_ok s d) \<and> (block_initialized s \<or> bdev_list s = [])"

text \<open>The device an access ends on, and the shift.\<close>

definition root_of :: "('hw, 'a) storage_state_scheme \<Rightarrow> nat \<Rightarrow> nat" where
  "root_of s d = (if is_partition (bdevs s d) then bd_parent (bdevs s d) else d)"

definition base_of :: "('hw, 'a) storage_state_scheme \<Rightarrow> nat \<Rightarrow> nat" where
  "base_of s d = (if is_partition (bdevs s d) then bd_start_lba (bdevs s d) else 0)"

lemma slots_pos: "d \<in> set block_slots \<Longrightarrow> 0 < d"
  by (auto simp: block_slots_def)

lemma root_facts:
  assumes "table_inv s" "online s d"
  shows "online s (root_of s d)" "\<not> is_partition (bdevs s (root_of s d))" "0 < root_of s d"
    "base_of s d + bd_total_blocks (bdevs s d) \<le> bd_total_blocks (bdevs s (root_of s d))"
    "bd_block_size (bdevs s d) = bd_block_size (bdevs s (root_of s d))"
    "bd_total_blocks (bdevs s (root_of s d)) < 2 ^ 64" "0 < bd_block_size (bdevs s d)" "0 < bd_total_blocks (bdevs s d)"
    "bd_ops (bdevs s d) \<noteq> None"
  using assms slots_pos
  by (auto simp: table_inv_def dev_ok_def root_of_def base_of_def Let_def online_def)

text \<open>Accesses within a device end on the device underneath.\<close>

lemma block_read_root:
  assumes "table_inv s" "online s d" "l + n \<le> bd_total_blocks (bdevs s d)" "0 < n"
  shows "block_read d l n s = block_read (root_of s d) (base_of s d + l) n s"
proof (cases "is_partition (bdevs s d)")
  case True
  note R = root_facts [OF assms(1,2)]
  have e: "add64 l n = l + n" "add64 (bd_start_lba (bdevs s d)) l = bd_start_lba (bdevs s d) + l"
    using R(4,6) assms(3) True by (simp_all add: base_of_def add64_exact)
  show ?thesis
    using True assms e R(3) slots_pos
    by (subst block_read.simps) (auto simp: is_partition_def root_of_def base_of_def partition_read_blocks_def online_def)
qed (simp add: root_of_def base_of_def)

lemma block_write_root:
  assumes "table_inv s" "online s d" "l + n \<le> bd_total_blocks (bdevs s d)" "0 < n"
  shows "block_write d l n data s = block_write (root_of s d) (base_of s d + l) n data s"
proof (cases "is_partition (bdevs s d)")
  case True
  note R = root_facts [OF assms(1,2)]
  have e: "add64 l n = l + n" "add64 (bd_start_lba (bdevs s d)) l = bd_start_lba (bdevs s d) + l"
    using R(4,6) assms(3) True by (simp_all add: base_of_def add64_exact)
  show ?thesis
    using True assms e R(3) slots_pos
    by (subst block_write.simps) (auto simp: is_partition_def root_of_def base_of_def partition_write_blocks_def online_def)
qed (simp add: root_of_def base_of_def)

section \<open>Bytes in memory\<close>

lemma length_load_bytes [simp]: "length (load_bytes a n m) = n"
  by (simp add: load_bytes_def)

lemma nth_load_bytes [simp]: "i < n \<Longrightarrow> load_bytes a n m ! i = m (a + i)"
  by (simp add: load_bytes_def)

lemma load_bytes_part: "j + k \<le> n \<Longrightarrow> take k (drop j (load_bytes a n m)) = load_bytes (a + j) k m"
  by (rule nth_equalityI) (simp_all add: add.assoc)

lemma load_store_inside:
  "k + length bs \<le> n \<Longrightarrow> load_bytes a n (store_bytes (a + k) bs m)
     = take k (load_bytes a n m) @ bs @ drop (k + length bs) (load_bytes a n m)"
  by (rule nth_equalityI) (auto simp: store_bytes_def nth_append)

lemma load_store_apart:
  "a + n \<le> b \<or> b + length bs \<le> a \<Longrightarrow> load_bytes a n (store_bytes b bs m) = load_bytes a n m"
  by (rule nth_equalityI) (auto simp: store_bytes_def)

lemma load_bytes_cong: "(\<And>x. a \<le> x \<Longrightarrow> x < a + n \<Longrightarrow> m x = m' x) \<Longrightarrow> load_bytes a n m = load_bytes a n m'"
  by (rule nth_equalityI) auto

section \<open>RAM disks\<close>

definition disk :: "('hw, 'a) storage_state_scheme \<Rightarrow> nat \<Rightarrow> bool" where
  "disk s d \<longleftrightarrow> online s d \<and> is_ramdisk (bdevs s d)"

definition priv :: "('hw, 'a) storage_state_scheme \<Rightarrow> nat \<Rightarrow> nat" where
  "priv s d = bd_private_data (bdevs s d)"

definition buf :: "('hw, 'a) storage_state_scheme \<Rightarrow> nat \<Rightarrow> nat" where
  "buf s d = rd_buffer (rdata s (priv s d))"

definition dev_size :: "('hw, 'a) storage_state_scheme \<Rightarrow> nat \<Rightarrow> nat" where
  "dev_size s d = bd_total_blocks (bdevs s d) * bd_block_size (bdevs s d)"

text \<open>A RAM disk owns two allocations of the heap: its bytes, as many as it has, and its descriptor.\<close>

definition disk_ok :: "('hw, 'a) storage_state_scheme \<Rightarrow> nat \<Rightarrow> bool" where
  "disk_ok s d \<longleftrightarrow> rd_buffer_allocated (rdata s (priv s d)) \<and> rd_size_bytes (rdata s (priv s d)) = dev_size s d
     \<and> (\<exists>m \<ge> dev_size s d. (buf s d, m) \<in> live s) \<and> (\<exists>m. (priv s d, m) \<in> live s)"

definition storage_inv :: "nat set \<Rightarrow> ('hw, 'a) storage_state_scheme \<Rightarrow> bool" where
  "storage_inv D s \<longleftrightarrow> heap_inv D s \<and> table_inv s \<and> (\<forall>d. disk s d \<longrightarrow> disk_ok s d)
     \<and> (\<forall>d d'. disk s d \<longrightarrow> disk s d' \<longrightarrow> buf s d \<noteq> priv s d' \<and> (d \<noteq> d' \<longrightarrow> buf s d \<noteq> buf s d' \<and> priv s d \<noteq> priv s d'))"

lemma storage_invD:
  assumes "storage_inv D s"
  shows "heap_inv D s" "table_inv s" "disk s d \<Longrightarrow> disk_ok s d" "disk s d \<Longrightarrow> disk s d' \<Longrightarrow> buf s d \<noteq> priv s d'"
    "disk s d \<Longrightarrow> disk s d' \<Longrightarrow> d \<noteq> d' \<Longrightarrow> buf s d \<noteq> buf s d'" "disk s d \<Longrightarrow> disk s d' \<Longrightarrow> d \<noteq> d' \<Longrightarrow> priv s d \<noteq> priv s d'"
  using assms by (auto simp: storage_inv_def)

lemma disk_facts:
  assumes "storage_inv D s" "disk s d"
  shows "0 < buf s d" "0 < priv s d" "dev_size s d < 2 ^ 64" "rd_size_bytes (rdata s (priv s d)) = dev_size s d"
    "buf s d + dev_size s d < 2 ^ 64"
    "disk s d' \<Longrightarrow> d \<noteq> d' \<Longrightarrow> buf s d + dev_size s d \<le> buf s d' \<or> buf s d' + dev_size s d' \<le> buf s d"
proof -
  note H = storage_invD(1) [OF assms(1)]
  obtain m k where m: "dev_size s d \<le> m" "(buf s d, m) \<in> live s" "(priv s d, k) \<in> live s" and
    sz: "rd_size_bytes (rdata s (priv s d)) = dev_size s d"
    using storage_invD(3) [OF assms] by (auto simp: disk_ok_def)
  show "0 < buf s d" "0 < priv s d" using heap.positive [OF H m(2)] heap.positive [OF H m(3)] by simp_all
  show "rd_size_bytes (rdata s (priv s d)) = dev_size s d" by (rule sz)
  obtain xs where "lay xs s" using H by (auto simp: heap_inv_def heap_shape_def)
  then have "heap_mapped_bytes s \<le> HEAP_MAXIMUM_BYTES" by (simp add: lay_def)
  then show "buf s d + dev_size s d < 2 ^ 64"
    using live_facts(2,3) [OF H m(2)] m(1) by (simp add: HEAP_BASE_def HEAP_MAXIMUM_BYTES_def)
  then show "dev_size s d < 2 ^ 64" by simp
  assume d': "disk s d'" "d \<noteq> d'"
  obtain m' where m': "dev_size s d' \<le> m'" "(buf s d', m') \<in> live s"
    using storage_invD(3) [OF assms(1) d'(1)] by (auto simp: disk_ok_def)
  have "(buf s d, m) \<noteq> (buf s d', m')" using storage_invD(5) [OF assms d'] by simp
  then show "buf s d + dev_size s d \<le> buf s d' \<or> buf s d' + dev_size s d' \<le> buf s d"
    using heap.separate [OF H m(2) m'(2)] m(1) m'(1) by auto
qed

text \<open>What a device holds: a piece of the bytes of the RAM disk underneath.\<close>

definition dev_addr :: "('hw, 'a) storage_state_scheme \<Rightarrow> nat \<Rightarrow> nat" where
  "dev_addr s d = buf s (root_of s d) + base_of s d * bd_block_size (bdevs s d)"

definition dev_bytes :: "('hw, 'a) storage_state_scheme \<Rightarrow> nat \<Rightarrow> u8 list" where
  "dev_bytes s d = load_bytes (dev_addr s d) (dev_size s d) (hmem s)"

lemma length_dev_bytes [simp]: "length (dev_bytes s d) = dev_size s d"
  by (simp add: dev_bytes_def)

lemma dev_inside_root:
  assumes "table_inv s" "online s d"
  shows "base_of s d * bd_block_size (bdevs s d) + dev_size s d \<le> dev_size s (root_of s d)"
  using mult_right_mono [OF root_facts(4) [OF assms], of "bd_block_size (bdevs s d)"] root_facts(5) [OF assms]
  by (simp add: dev_size_def algebra_simps)

lemma blocks_in_size: "l + n \<le> bd_total_blocks (bdevs s d) \<Longrightarrow>
    l * bd_block_size (bdevs s d) + n * bd_block_size (bdevs s d) \<le> dev_size s d"
  unfolding dev_size_def add_mult_distrib [symmetric] by (rule mult_right_mono) simp_all

lemma ramdisk_arith:
  assumes "storage_inv D s" "disk s r" "k + n \<le> bd_total_blocks (bdevs s r)"
  shows "add64 (rd_buffer (rdata s (bd_private_data (bdevs s r)))) (k * bd_block_size (bdevs s r))
      = buf s r + k * bd_block_size (bdevs s r)"
    "mul64 k (bd_block_size (bdevs s r)) = k * bd_block_size (bdevs s r)"
    "mul64 n (bd_block_size (bdevs s r)) = n * bd_block_size (bdevs s r)"
    "add64 (k * bd_block_size (bdevs s r)) (n * bd_block_size (bdevs s r)) \<le> rd_size_bytes (rdata s (bd_private_data (bdevs s r)))"
proof -
  note F = disk_facts(3-5) [OF assms(1,2)]
  note B = blocks_in_size [OF assms(3)]
  show "add64 (rd_buffer (rdata s (bd_private_data (bdevs s r)))) (k * bd_block_size (bdevs s r))
      = buf s r + k * bd_block_size (bdevs s r)"
    using B F(3) by (simp add: buf_def priv_def add64_exact)
  show "mul64 k (bd_block_size (bdevs s r)) = k * bd_block_size (bdevs s r)"
    "mul64 n (bd_block_size (bdevs s r)) = n * bd_block_size (bdevs s r)"
    "add64 (k * bd_block_size (bdevs s r)) (n * bd_block_size (bdevs s r)) \<le> rd_size_bytes (rdata s (bd_private_data (bdevs s r)))"
    using B F by (simp_all add: mul64_exact add64_exact priv_def)
qed

lemma block_read_disk:
  assumes inv: "storage_inv D s" and d: "online s d" "disk s (root_of s d)"
    and n: "0 < n" "l + n \<le> bd_total_blocks (bdevs s d)"
  shows "block_read d l n s = Some (Some (take (n * bd_block_size (bdevs s d)) (drop (l * bd_block_size (bdevs s d)) (dev_bytes s d))), s)"
proof -
  define r k where "r = root_of s d" and "k = base_of s d + l"
  note T = storage_invD(2) [OF inv]
  note R = root_facts [OF T d(1)]
  have k: "k + n \<le> bd_total_blocks (bdevs s r)" using R(4) n(2) by (simp add: r_def k_def)
  note A = ramdisk_arith [OF inv d(2) [folded r_def] k]
  have "block_read d l n s = block_read r k n s" unfolding r_def k_def by (rule block_read_root [OF T d(1) n(2,1)])
  also have "\<dots> = Some (ramdisk_read_blocks r k n s, s)"
    using d(2) [folded r_def] R(3) n(1) k R(6) by (subst block_read.simps) (auto simp: disk_def online_def is_ramdisk_def r_def add64_exact)
  also have "ramdisk_read_blocks r k n s = Some (load_bytes (buf s r + k * bd_block_size (bdevs s r)) (n * bd_block_size (bdevs s r)) (hmem s))"
    using A disk_facts(2) [OF inv d(2)] R(3) by (simp add: ramdisk_read_blocks_def Let_def r_def buf_def priv_def)
  also have "load_bytes (buf s r + k * bd_block_size (bdevs s r)) (n * bd_block_size (bdevs s r)) (hmem s)
      = take (n * bd_block_size (bdevs s d)) (drop (l * bd_block_size (bdevs s d)) (dev_bytes s d))"
    using blocks_in_size [OF n(2)] R(5)
    by (simp add: dev_bytes_def load_bytes_part dev_addr_def r_def k_def algebra_simps)
  finally show ?thesis .
qed

lemma block_write_disk:
  assumes inv: "storage_inv D s" and d: "online s d" "disk s (root_of s d)"
    and n: "0 < n" "l + n \<le> bd_total_blocks (bdevs s d)" and len: "length data = n * bd_block_size (bdevs s d)"
  shows "block_write d l n data s
    = Some (True, s\<lparr>hmem := store_bytes (dev_addr s d + l * bd_block_size (bdevs s d)) data (hmem s)\<rparr>)"
proof -
  define r k where "r = root_of s d" and "k = base_of s d + l"
  note T = storage_invD(2) [OF inv]
  note R = root_facts [OF T d(1)]
  have k: "k + n \<le> bd_total_blocks (bdevs s r)" using R(4) n(2) by (simp add: r_def k_def)
  note A = ramdisk_arith [OF inv d(2) [folded r_def] k]
  have "block_write d l n data s = block_write r k n data s" unfolding r_def k_def by (rule block_write_root [OF T d(1) n(2,1)])
  also have "\<dots> = Some (ramdisk_write_blocks r k n data s)"
    using d(2) [folded r_def] R(3) n(1) k R(6) by (subst block_write.simps) (auto simp: disk_def online_def is_ramdisk_def r_def add64_exact)
  also have "ramdisk_write_blocks r k n data s = (True, s\<lparr>hmem := store_bytes (buf s r + k * bd_block_size (bdevs s r)) data (hmem s)\<rparr>)"
    using A disk_facts(2) [OF inv d(2)] R(3,5) len by (simp add: ramdisk_write_blocks_def Let_def r_def buf_def priv_def)
  also have "buf s r + k * bd_block_size (bdevs s r) = dev_addr s d + l * bd_block_size (bdevs s d)"
    using R(5) by (simp add: dev_addr_def r_def k_def algebra_simps)
  finally show ?thesis .
qed

text \<open>The end of a request is computed modulo \<open>2 ^ 64\<close>, here and in the calls below: what passes the first
  check passes all of them, also when the request itself lies far beyond the device.\<close>

lemma end_accepted:
  assumes "storage_inv D s" "disk s r" "add64 k n \<le> bd_total_blocks (bdevs s r)"
  shows "add64 (mul64 k (bd_block_size (bdevs s r))) (mul64 n (bd_block_size (bdevs s r)))
    \<le> rd_size_bytes (rdata s (bd_private_data (bdevs s r)))"
proof -
  let ?b = "bd_block_size (bdevs s r)"
  have "add64 (mul64 k ?b) (mul64 n ?b) = add64 k n * ?b mod 2 ^ 64"
    by (simp only: add64_def mul64_def mod_add_eq mod_mult_left_eq add_mult_distrib)
  also have "\<dots> \<le> add64 k n * ?b" by (rule mod_less_eq_dividend)
  also have "\<dots> \<le> dev_size s r" unfolding dev_size_def using assms(3) by (rule mult_right_mono) simp
  finally show ?thesis using disk_facts(4) [OF assms(1,2)] by (simp add: priv_def)
qed

lemma partition_end:
  assumes "table_inv s" "online s d" "add64 l n \<le> bd_total_blocks (bdevs s d)"
  shows "add64 (add64 (base_of s d) l) n \<le> bd_total_blocks (bdevs s (root_of s d))"
proof -
  have "add64 (add64 (base_of s d) l) n = (base_of s d + add64 l n) mod 2 ^ 64"
    by (simp only: add64_def mod_add_left_eq mod_add_right_eq add.assoc)
  also have "\<dots> \<le> base_of s d + add64 l n" by (rule mod_less_eq_dividend)
  finally show ?thesis using root_facts(4) [OF assms(1,2)] assms(3) by simp
qed

lemma wrapped_accepted:
  assumes inv: "storage_inv D s" and d: "online s d" "disk s (root_of s d)"
    and n: "0 < n" "add64 l n \<le> bd_total_blocks (bdevs s d)"
  shows "\<exists>x. block_read d l n s = Some (Some x, s)" "\<exists>s'. block_write d l n data s = Some (True, s')"
proof -
  define r where "r = root_of s d"
  note T = storage_invD(2) [OF inv]
  note R = root_facts [OF T d(1), folded r_def]
  note r = d(2) [folded r_def]
  have flat: "(\<exists>x. block_read r k n s = Some (Some x, s)) \<and> (\<exists>s'. block_write r k n data s = Some (True, s'))"
    if k: "add64 k n \<le> bd_total_blocks (bdevs s r)" for k
  proof -
    note E = end_accepted [OF inv r k]
    have p: "bd_private_data (bdevs s r) \<noteq> 0" using disk_facts(2) [OF inv r] by (simp add: priv_def)
    have "block_read r k n s = Some (ramdisk_read_blocks r k n s, s)" "block_write r k n data s = Some (ramdisk_write_blocks r k n data s)"
      using r R(3) n(1) k by (subst block_read.simps block_write.simps; auto simp: disk_def online_def is_ramdisk_def)+
    with E p R(3) show ?thesis by (simp add: ramdisk_read_blocks_def ramdisk_write_blocks_def Let_def)
  qed
  have "(\<exists>x. block_read d l n s = Some (Some x, s)) \<and> (\<exists>s'. block_write d l n data s = Some (True, s'))"
  proof (cases "is_partition (bdevs s d)")
    case True
    have "0 < d" "bd_state (bdevs s d) = BLOCK_DEVICE_ONLINE" using d(1) slots_pos by (simp_all add: online_def)
    then have "block_read d l n s = block_read r (add64 (base_of s d) l) n s"
        "block_write d l n data s = block_write r (add64 (base_of s d) l) n data s"
      using True n R(3) by (subst block_read.simps block_write.simps;
        auto simp: is_partition_def r_def root_of_def base_of_def partition_read_blocks_def partition_write_blocks_def)+
    with flat [OF partition_end [OF T d(1) n(2), folded r_def]] show ?thesis by simp
  next
    case False
    then have "r = d" by (simp add: r_def root_of_def)
    with flat [of l] n(2) show ?thesis by simp
  qed
  then show "\<exists>x. block_read d l n s = Some (Some x, s)" "\<exists>s'. block_write d l n data s = Some (True, s')" by auto
qed

lemma beyond_refused:
  assumes "bd_total_blocks (bdevs s d) < add64 l n"
  shows "block_read d l n s = Some (None, s)" "block_write d l n data s = Some (False, s)"
  using assms by (subst block_read.simps block_write.simps; simp)+

section \<open>The effect of a write\<close>

lemma hmem_fields [simp]:
  "online (s\<lparr>hmem := m\<rparr>) = online s" "disk (s\<lparr>hmem := m\<rparr>) = disk s" "priv (s\<lparr>hmem := m\<rparr>) = priv s"
  "buf (s\<lparr>hmem := m\<rparr>) = buf s" "dev_size (s\<lparr>hmem := m\<rparr>) = dev_size s" "root_of (s\<lparr>hmem := m\<rparr>) = root_of s"
  "base_of (s\<lparr>hmem := m\<rparr>) = base_of s" "dev_addr (s\<lparr>hmem := m\<rparr>) = dev_addr s"
  by (simp_all add: fun_eq_iff online_def disk_def priv_def buf_def dev_size_def root_of_def base_of_def dev_addr_def)

lemma storage_inv_hmem [simp]: "storage_inv D (s\<lparr>hmem := m\<rparr>) = storage_inv D s"
proof -
  have "dev_ok (s\<lparr>hmem := m\<rparr>) d = dev_ok s d" for d by (simp add: dev_ok_def Let_def)
  then show ?thesis by (simp add: storage_inv_def table_inv_def disk_ok_def)
qed

lemma write_own_bytes:
  assumes "l * bd_block_size (bdevs s d) + length data \<le> dev_size s d"
  shows "dev_bytes (s\<lparr>hmem := store_bytes (dev_addr s d + l * bd_block_size (bdevs s d)) data (hmem s)\<rparr>) d
    = take (l * bd_block_size (bdevs s d)) (dev_bytes s d) @ data @ drop (l * bd_block_size (bdevs s d) + length data) (dev_bytes s d)"
  using assms by (simp add: dev_bytes_def load_store_inside)

definition dev_range :: "('hw, 'a) storage_state_scheme \<Rightarrow> nat \<Rightarrow> nat set" where
  "dev_range s d = {base_of s d ..< base_of s d + bd_total_blocks (bdevs s d)}"

text \<open>Two devices are apart when they lie on different disks or on disjoint ranges of one.\<close>

definition devs_apart :: "('hw, 'a) storage_state_scheme \<Rightarrow> nat \<Rightarrow> nat \<Rightarrow> bool" where
  "devs_apart s d d' \<longleftrightarrow> root_of s d \<noteq> root_of s d' \<or> dev_range s d \<inter> dev_range s d' = {}"

lemma apart_addresses:
  assumes inv: "storage_inv D s" and d: "online s d" "disk s (root_of s d)" "online s d'" "disk s (root_of s d')"
    and ap: "devs_apart s d d'"
  shows "dev_addr s d + dev_size s d \<le> dev_addr s d' \<or> dev_addr s d' + dev_size s d' \<le> dev_addr s d"
proof (cases "root_of s d = root_of s d'")
  case True
  note T = storage_invD(2) [OF inv]
  note R = root_facts [OF T d(1)] and R' = root_facts [OF T d(3)]
  have "dev_range s d \<inter> dev_range s d' = {}" using ap True by (simp add: devs_apart_def)
  moreover have "0 < bd_total_blocks (bdevs s d)" "0 < bd_total_blocks (bdevs s d')" using R(8) R'(8) by simp_all
  ultimately have "base_of s d + bd_total_blocks (bdevs s d) \<le> base_of s d' \<or> base_of s d' + bd_total_blocks (bdevs s d') \<le> base_of s d"
    by (simp add: dev_range_def) linarith
  then have "(base_of s d + bd_total_blocks (bdevs s d)) * bd_block_size (bdevs s d) \<le> base_of s d' * bd_block_size (bdevs s d)
    \<or> (base_of s d' + bd_total_blocks (bdevs s d')) * bd_block_size (bdevs s d) \<le> base_of s d * bd_block_size (bdevs s d)"
    by (metis mult_le_mono1)
  moreover have "bd_block_size (bdevs s d') = bd_block_size (bdevs s d)" using R(5) R'(5) True by simp
  ultimately show ?thesis using True by (simp add: dev_addr_def dev_size_def algebra_simps)
next
  case False
  note T = storage_invD(2) [OF inv]
  show ?thesis
    using disk_facts(6) [OF inv d(2) d(4) False] dev_inside_root [OF T d(1)] dev_inside_root [OF T d(3)]
    by (auto simp: dev_addr_def)
qed

lemma write_other_bytes:
  assumes "storage_inv D s" "online s d" "disk s (root_of s d)" "online s d'" "disk s (root_of s d')" "devs_apart s d d'"
    and "l * bd_block_size (bdevs s d) + length data \<le> dev_size s d"
  shows "dev_bytes (s\<lparr>hmem := store_bytes (dev_addr s d + l * bd_block_size (bdevs s d)) data (hmem s)\<rparr>) d' = dev_bytes s d'"
  using apart_addresses [OF assms(1-6)] assms(7) by (auto simp: dev_bytes_def intro!: load_store_apart)

section \<open>Registration\<close>

text \<open>The calls that only change the table of devices.\<close>

definition table_step :: "('hw, 'a) storage_state_scheme \<Rightarrow> ('hw, 'a) storage_state_scheme \<Rightarrow> bool" where
  "table_step s s' \<longleftrightarrow> s'\<lparr>bdevs := bdevs s, bdev_list := bdev_list s, next_device_id := next_device_id s,
     block_initialized := block_initialized s\<rparr> = s"

lemma table_step_refl [simp]: "table_step s s"
  by (simp add: table_step_def)

lemma table_step_trans: "table_step s s1 \<Longrightarrow> table_step s1 s2 \<Longrightarrow> table_step s s2"
  by (cases s; cases s1; cases s2) (simp add: table_step_def)

lemma table_step_keeps:
  assumes "table_step s s'"
  shows "heap_inv D s' = heap_inv D s" "live s' = live s" "hmem s' = hmem s" "rdata s' = rdata s" "hw s' = hw s"
proof -
  let ?t = "s'\<lparr>bdevs := bdevs s, bdev_list := bdev_list s, next_device_id := next_device_id s, block_initialized := block_initialized s\<rparr>"
  have eq: "?t = s" using assms by (simp add: table_step_def)
  have "heap_inv D ?t = heap_inv D s'" "live ?t = live s'" "hmem ?t = hmem s'" "rdata ?t = rdata s'" "hw ?t = hw s'" by simp_all
  then show "heap_inv D s' = heap_inv D s" "live s' = live s" "hmem s' = hmem s" "rdata s' = rdata s" "hw s' = hw s"
    unfolding eq by simp_all
qed

lemma table_step_upd [simp]: "table_step s (upd_dev d f s') \<longleftrightarrow> table_step s s'" "table_step s (s'\<lparr>bdev_list := L\<rparr>) \<longleftrightarrow> table_step s s'"
  "table_step s (s'\<lparr>block_initialized := b\<rparr>) \<longleftrightarrow> table_step s s'" "table_step s (s'\<lparr>next_device_id := i\<rparr>) \<longleftrightarrow> table_step s s'"
  by (simp_all add: table_step_def upd_dev_def)

lemma upd_dev_fields [simp]: "bdev_list (upd_dev d f s) = bdev_list s" "next_device_id (upd_dev d f s) = next_device_id s"
  "block_initialized (upd_dev d f s) = block_initialized s" "rdata (upd_dev d f s) = rdata s" "hw (upd_dev d f s) = hw s"
  "hmem (upd_dev d f s) = hmem s" "bdevs (upd_dev d f s) = (bdevs s)(d := f (bdevs s d))"
  by (simp_all add: upd_dev_def)

lemma fold_upd_dev: "distinct is \<Longrightarrow> fold (\<lambda>i. upd_dev i f) is s = s\<lparr>bdevs := (\<lambda>i. if i \<in> set is then f (bdevs s i) else bdevs s i)\<rparr>"
  by (induction "is" arbitrary: s) (auto simp: upd_dev_def fun_eq_iff)

lemma distinct_slots: "distinct block_slots"
  by (simp add: block_slots_def)

lemma init_result:
  assumes inv: "table_inv s" and r: "block_subsystem_init s = (ok, s')"
  shows "table_inv s' \<and> block_initialized s' \<and> online s' = online s \<and> table_step s s' \<and> (\<forall>d. online s d \<longrightarrow> bdevs s' d = bdevs s d)"
proof (cases "block_initialized s")
  case True
  then show ?thesis using r inv by (auto simp: block_subsystem_init_def)
next
  case False
  let ?f = "\<lambda>d. d\<lparr>bd_id := 0, bd_state := BLOCK_DEVICE_OFFLINE, bd_type := BLOCK_TYPE_UNKNOWN\<rparr>"
  have off: "\<not> online s d" for d using inv False by (auto simp: table_inv_def)
  have s': "s' = s\<lparr>bdev_list := [], bdevs := (\<lambda>i. if i \<in> set block_slots then ?f (bdevs s i) else bdevs s i), block_initialized := True\<rparr>"
    using r False by (simp add: block_subsystem_init_def fold_upd_dev [OF distinct_slots] cong: if_cong)
  have on': "\<not> online s' d" for d by (auto simp: s' online_def)
  have "table_inv s'" using on' by (simp add: table_inv_def) (auto simp: s')
  moreover have "table_step s s'" by (simp add: s' table_step_def)
  ultimately show ?thesis using off on' by (simp add: fun_eq_iff s')
qed

lemma free_slot:
  assumes "table_inv s"
  shows "find_free_slot s = 0 \<and> (\<forall>d \<in> set block_slots. online s d)
    \<or> find_free_slot s \<in> set block_slots \<and> \<not> online s (find_free_slot s)"
proof (cases "find (\<lambda>i. bd_state (bdevs s i) = BLOCK_DEVICE_OFFLINE \<and> bd_id (bdevs s i) = 0) block_slots")
  case None
  then have "\<forall>d \<in> set block_slots. \<not> (bd_state (bdevs s d) = BLOCK_DEVICE_OFFLINE \<and> bd_id (bdevs s d) = 0)"
    by (simp add: find_None_iff)
  then have "\<forall>d \<in> set block_slots. online s d" using assms unfolding table_inv_def by blast
  then show ?thesis using None by (simp add: find_free_slot_def)
next
  case (Some i)
  then have "i \<in> set block_slots" "bd_state (bdevs s i) = BLOCK_DEVICE_OFFLINE" by (auto simp: find_Some_iff)
  then show ?thesis using Some by (simp add: find_free_slot_def online_def)
qed

text \<open>Putting a device into a free slot.\<close>

lemma add_device:
  assumes inv: "table_inv s" and d: "d \<in> set block_slots" "\<not> online s d" and init: "block_initialized s"
    and s': "s' = (upd_dev d f s)\<lparr>next_device_id := i, bdev_list := bdev_list s @ [d]\<rparr>"
    and on: "bd_state (f (bdevs s d)) = BLOCK_DEVICE_ONLINE" and ok: "dev_ok s' d"
  shows "table_inv s' \<and> online s' = (\<lambda>x. x = d \<or> online s x) \<and> (\<forall>x. x \<noteq> d \<longrightarrow> bdevs s' x = bdevs s x)
    \<and> bdevs s' d = f (bdevs s d) \<and> table_step s s' \<and> block_initialized s'"
proof -
  have T: "bdevs s' = (bdevs s)(d := f (bdevs s d))" "bdev_list s' = bdev_list s @ [d]" "block_initialized s'"
    using init by (simp_all add: s' upd_dev_def)
  have O: "online s' = (\<lambda>x. x = d \<or> online s x)" using d on by (auto simp: fun_eq_iff online_def T)
  have ne: "bdevs s' x = bdevs s x" if "online s x" for x using that d(2) by (auto simp: T(1))
  have old: "dev_ok s' x" if x: "online s x" for x
  proof -
    have "dev_ok s x" using inv x by (simp add: table_inv_def)
    then show ?thesis using ne [OF x] ne [of "bd_parent (bdevs s x)"] by (simp add: dev_ok_def Let_def O)
  qed
  have I: "distinct (bdev_list s)" "set (bdev_list s) = {x. online s x}"
    "\<forall>x \<in> set block_slots. \<not> online s x \<longrightarrow> bd_state (bdevs s x) = BLOCK_DEVICE_OFFLINE \<and> bd_id (bdevs s x) = 0"
    using inv by (simp_all add: table_inv_def)
  have "distinct (bdev_list s')" "set (bdev_list s') = {x. online s' x}" using I(1,2) d(2) by (auto simp: T(2) O)
  moreover have "\<forall>x \<in> set block_slots. \<not> online s' x \<longrightarrow> bd_state (bdevs s' x) = BLOCK_DEVICE_OFFLINE \<and> bd_id (bdevs s' x) = 0"
    using I(3) by (simp add: T(1) O)
  moreover have "\<forall>x. online s' x \<longrightarrow> dev_ok s' x" using old ok by (simp add: O)
  ultimately have "table_inv s'" using T(3) by (simp add: table_inv_def)
  then show ?thesis using O T by (simp add: s')
qed

lemma register_result:
  fixes s :: "('hw, 'a) storage_state_scheme"
  assumes inv: "table_inv s" and r: "block_device_register name ty bs n (Some ops) p s = (d, s')"
    and ops: "ops \<noteq> Partition_ops" and n: "n < 2 ^ 64"
  shows "table_inv s' \<and> table_step s s' \<and> (\<forall>x. online s x \<longrightarrow> bdevs s' x = bdevs s x)
    \<and> online s' = (\<lambda>x. d \<noteq> 0 \<and> x = d \<or> online s x)
    \<and> (d \<noteq> 0 \<longrightarrow> d \<in> set block_slots \<and> \<not> online s d \<and> bd_ops (bdevs s' d) = Some ops \<and> bd_private_data (bdevs s' d) = p
         \<and> bd_type (bdevs s' d) = ty \<and> bd_block_size (bdevs s' d) = bs \<and> bd_total_blocks (bdevs s' d) = n
         \<and> bd_name (bdevs s' d) = block_strcpy name BLOCK_NAME_MAX)"
proof (cases "\<not> ops_can_read ops \<or> bs = 0 \<or> n = 0")
  case True
  then show ?thesis using r inv by (auto simp: block_device_register_def)
next
  case False
  define s1 where "s1 = (if \<not> block_initialized s then snd (block_subsystem_init s) else s)"
  have 1: "table_inv s1" "block_initialized s1" "online s1 = online s" "table_step s s1" "\<forall>d. online s d \<longrightarrow> bdevs s1 d = bdevs s d"
    using init_result [OF inv, of "fst (block_subsystem_init s)" "snd (block_subsystem_init s)"] inv
    by (simp_all add: s1_def)
  define e where "e = find_free_slot s1"
  define f where "f = (\<lambda>b :: 'hw block_device. b\<lparr>bd_id := next_device_id s1,
                          bd_name := block_strcpy name BLOCK_NAME_MAX, bd_type := ty, bd_state := BLOCK_DEVICE_ONLINE,
                          bd_block_size := bs, bd_total_blocks := n,
                          bd_capacity_bytes := mul64 bs n, bd_ops := Some ops,
                          bd_private_data := p, bd_parent := 0, bd_start_lba := 0,
                          bd_partition_index := 0, bd_partition_type_mbr := 0, bd_has_guid := False\<rparr>)"
  have F: "bd_state (f b) = BLOCK_DEVICE_ONLINE" "bd_ops (f b) = Some ops" "bd_private_data (f b) = p" "bd_type (f b) = ty"
    "bd_block_size (f b) = bs" "bd_total_blocks (f b) = n" "bd_name (f b) = block_strcpy name BLOCK_NAME_MAX" "bd_parent (f b) = 0" for b
    by (simp_all add: f_def)
  have r': "(d, s') = (if e = 0 then (0, s1) else (e, (upd_dev e f s1)\<lparr>next_device_id := add32 (next_device_id s1) 1,
      bdev_list := bdev_list s1 @ [e]\<rparr>))"
    unfolding r [symmetric] block_device_register_def Let_def s1_def [symmetric] e_def [symmetric] f_def [symmetric]
    using False by simp
  show ?thesis
  proof (cases "e = 0")
    case True
    then show ?thesis using r' 1 by simp
  next
    case False
    then have d: "d = e" "s' = (upd_dev e f s1)\<lparr>next_device_id := add32 (next_device_id s1) 1, bdev_list := bdev_list s1 @ [e]\<rparr>"
      using r' by simp_all
    have e: "e \<in> set block_slots" "\<not> online s1 e" using free_slot [OF 1(1)] False by (auto simp: e_def)
    have "dev_ok s' e"
      using F ops n \<open>\<not> (\<not> ops_can_read ops \<or> bs = 0 \<or> n = 0)\<close> by (simp add: d dev_ok_def upd_dev_def is_partition_def)
    from add_device [OF 1(1) e 1(2) d(2) F(1) this]
    have A: "table_inv s'" "online s' = (\<lambda>x. x = e \<or> online s1 x)" "\<forall>x. x \<noteq> e \<longrightarrow> bdevs s' x = bdevs s1 x"
      "bdevs s' e = f (bdevs s1 e)" "table_step s1 s'" by simp_all
    have "bdevs s' x = bdevs s x" if "online s x" for x using A(3) 1(3,5) e(2) that by auto
    then show ?thesis using A(1,2,4) table_step_trans [OF 1(4) A(5)] 1(3) e d(1) False F by simp
  qed
qed

lemma partition_register_result:
  fixes s :: "('hw, 'a) storage_state_scheme"
  assumes inv: "table_inv s" and r: "block_partition_register p i a n ty guid s = (d, s')"
    and p: "online s p" "\<not> is_partition (bdevs s p)" and nw: "a + n < 2 ^ 64"
  shows "table_inv s' \<and> table_step s s' \<and> (\<forall>x. online s x \<longrightarrow> bdevs s' x = bdevs s x)
    \<and> online s' = (\<lambda>x. d \<noteq> 0 \<and> x = d \<or> online s x)
    \<and> (d \<noteq> 0 \<longrightarrow> d \<in> set block_slots \<and> \<not> online s d \<and> is_partition (bdevs s' d) \<and> bd_parent (bdevs s' d) = p
         \<and> bd_start_lba (bdevs s' d) = a \<and> bd_total_blocks (bdevs s' d) = n \<and> bd_block_size (bdevs s' d) = bd_block_size (bdevs s p)
         \<and> a + n \<le> bd_total_blocks (bdevs s p))"
proof (cases "n = 0 \<or> a + n > bd_total_blocks (bdevs s p)")
  case True
  then show ?thesis using r inv nw by (auto simp: block_partition_register_def add64_exact)
next
  case False
  define e where "e = find_free_slot s"
  define q where "q = bdevs s p"
  define f where "f = (\<lambda>d :: 'hw block_device. d\<lparr>bd_id := next_device_id s,
                          bd_name := block_strcpy (partition_name (bd_name q) i) BLOCK_NAME_MAX, bd_type := BLOCK_TYPE_PARTITION,
                          bd_state := BLOCK_DEVICE_ONLINE, bd_block_size := bd_block_size q,
                          bd_total_blocks := n, bd_capacity_bytes := mul64 (bd_block_size q) n,
                          bd_ops := Some Partition_ops, bd_private_data := 0, bd_parent := p,
                          bd_start_lba := a, bd_partition_index := i,
                          bd_partition_type_mbr := ty,
                          bd_partition_guid := (case guid of Some g \<Rightarrow> take 16 g | None \<Rightarrow> replicate 16 0),
                          bd_has_guid := (guid \<noteq> None)\<rparr>)"
  have F: "bd_state (f b) = BLOCK_DEVICE_ONLINE" "bd_ops (f b) = Some Partition_ops" "bd_parent (f b) = p"
    "bd_block_size (f b) = bd_block_size q" "bd_total_blocks (f b) = n" "bd_start_lba (f b) = a" for b
    by (simp_all add: f_def)
  have p0: "p \<noteq> 0" using p(1) slots_pos by (auto simp: online_def)
  have r': "(d, s') = (if e = 0 then (0, s) else (e, (upd_dev e f s)\<lparr>next_device_id := add32 (next_device_id s) 1,
      bdev_list := bdev_list s @ [e]\<rparr>))"
    unfolding r [symmetric] block_partition_register_def Let_def e_def [symmetric] q_def [symmetric] f_def [symmetric]
    using False p0 nw by (simp add: add64_exact q_def)
  show ?thesis
  proof (cases "e = 0")
    case True
    then show ?thesis using r' inv by simp
  next
    case False
    then have d: "d = e" "s' = (upd_dev e f s)\<lparr>next_device_id := add32 (next_device_id s) 1, bdev_list := bdev_list s @ [e]\<rparr>"
      using r' by simp_all
    have e: "e \<in> set block_slots" "\<not> online s e" using free_slot [OF inv] False by (auto simp: e_def)
    have pe: "p \<noteq> e" using p(1) e(2) by auto
    have init: "block_initialized s" using inv p(1) by (auto simp: table_inv_def)
    have "dev_ok s p" using inv p(1) by (simp add: table_inv_def)
    then have "dev_ok s' e"
      using p pe \<open>\<not> (n = 0 \<or> _)\<close> by (simp add: d dev_ok_def Let_def upd_dev_def F is_partition_def online_def q_def)
    from add_device [OF inv e init d(2) F(1) this]
    have A: "table_inv s'" "online s' = (\<lambda>x. x = e \<or> online s x)" "\<forall>x. x \<noteq> e \<longrightarrow> bdevs s' x = bdevs s x"
      "bdevs s' e = f (bdevs s e)" "table_step s s'" by simp_all
    have "bdevs s' x = bdevs s x" if "online s x" for x using A(3) e(2) that by auto
    then show ?thesis using A(1,2,4,5) e d(1) False \<open>\<not> (n = 0 \<or> _)\<close> by (simp add: F is_partition_def q_def)
  qed
qed

end
