(* ===== verification/KOS_Block_Safety.thy ===== *)
theory KOS_Block_Safety
  imports KOS_Block_Correct
begin

text \<open>
  The storage layer as a whole: registering, removing, creating and destroying devices keeps the table
  of devices consistent with the heap, and the properties of the block layer.
\<close>

section \<open>Removal\<close>

definition child_of :: "('hw, 'a) storage_state_scheme \<Rightarrow> nat \<Rightarrow> nat \<Rightarrow> bool" where
  "child_of s dev i \<longleftrightarrow> bd_parent (bdevs s i) = dev \<and> bd_state (bdevs s i) \<noteq> BLOCK_DEVICE_OFFLINE"

lemma detach_dev_fields:
  assumes "distinct (bdev_list s)"
  shows "bdevs (detach_dev i s) = (bdevs s)(i := (bdevs s i)\<lparr>bd_state := BLOCK_DEVICE_OFFLINE, bd_id := 0\<rparr>)"
    "bdev_list (detach_dev i s) = filter (\<lambda>x. x \<noteq> i) (bdev_list s)" "distinct (bdev_list (detach_dev i s))"
    "table_step s (detach_dev i s)" "block_initialized (detach_dev i s) = block_initialized s"
  using assms by (simp_all add: detach_dev_def distinct_remove1_removeAll removeAll_filter_not_eq eq_commute)

lemma detach_fold:
  assumes "distinct is" "distinct (bdev_list s)"
    and "s' = fold (\<lambda>i s. if child_of s dev i then detach_dev i s else s) is s"
  shows "table_step s s' \<and> (\<forall>i. bdevs s' i = (if i \<in> set is \<and> child_of s dev i
            then (bdevs s i)\<lparr>bd_state := BLOCK_DEVICE_OFFLINE, bd_id := 0\<rparr> else bdevs s i))
    \<and> bdev_list s' = filter (\<lambda>i. \<not> (i \<in> set is \<and> child_of s dev i)) (bdev_list s) \<and> block_initialized s' = block_initialized s"
  using assms
proof (induction "is" arbitrary: s)
  case (Cons i "is")
  show ?case
  proof (cases "child_of s dev i")
    case True
    note F = detach_dev_fields [OF Cons.prems(2), of i]
    have c: "child_of (detach_dev i s) dev j \<longleftrightarrow> j \<noteq> i \<and> child_of s dev j" for j
      by (simp add: child_of_def F(1))
    have IH: "table_step (detach_dev i s) s'" "\<forall>j. bdevs s' j = (if j \<in> set is \<and> child_of (detach_dev i s) dev j
         then (bdevs (detach_dev i s) j)\<lparr>bd_state := BLOCK_DEVICE_OFFLINE, bd_id := 0\<rparr> else bdevs (detach_dev i s) j)"
      "bdev_list s' = filter (\<lambda>j. \<not> (j \<in> set is \<and> child_of (detach_dev i s) dev j)) (bdev_list (detach_dev i s))"
      "block_initialized s' = block_initialized (detach_dev i s)"
      using Cons.IH [of "detach_dev i s"] Cons.prems True F(3) by simp_all
    have "bdev_list s' = filter (\<lambda>j. \<not> (j \<in> set (i # is) \<and> child_of s dev j)) (bdev_list s)"
      unfolding IH(3) F(2) filter_filter using True by (intro filter_cong) (auto simp: c)
    moreover have "bdevs s' j = (if j \<in> set (i # is) \<and> child_of s dev j
         then (bdevs s j)\<lparr>bd_state := BLOCK_DEVICE_OFFLINE, bd_id := 0\<rparr> else bdevs s j)" for j
      using True Cons.prems(1) by (cases "j = i") (auto simp: IH(2) c F(1))
    ultimately show ?thesis using table_step_trans [OF F(4) IH(1)] IH(4) F(5) by simp
  next
    case False
    then have IH: "table_step s s'" "\<forall>j. bdevs s' j = (if j \<in> set is \<and> child_of s dev j
         then (bdevs s j)\<lparr>bd_state := BLOCK_DEVICE_OFFLINE, bd_id := 0\<rparr> else bdevs s j)"
      "bdev_list s' = filter (\<lambda>j. \<not> (j \<in> set is \<and> child_of s dev j)) (bdev_list s)"
      "block_initialized s' = block_initialized s"
      using Cons.IH [of s] Cons.prems by simp_all
    have "bdev_list s' = filter (\<lambda>j. \<not> (j \<in> set (i # is) \<and> child_of s dev j)) (bdev_list s)"
      unfolding IH(3) using False by (intro filter_cong) auto
    then show ?thesis using IH False by auto
  qed
qed simp

lemma detach_children_result:
  assumes inv: "table_inv s" and s': "s' = detach_children dev s" and dev: "online s dev"
  shows "table_inv s' \<and> table_step s s' \<and> (\<forall>x. online s' x \<longleftrightarrow> online s x \<and> bd_parent (bdevs s x) \<noteq> dev)
    \<and> (\<forall>x. online s' x \<longrightarrow> bdevs s' x = bdevs s x) \<and> block_initialized s'"
proof -
  have I: "distinct (bdev_list s)" "set (bdev_list s) = {x. online s x}" "block_initialized s"
    "\<forall>x \<in> set block_slots. \<not> online s x \<longrightarrow> bd_state (bdevs s x) = BLOCK_DEVICE_OFFLINE \<and> bd_id (bdevs s x) = 0"
    using inv dev by (auto simp: table_inv_def)
  have D: "table_step s s'" "\<And>i. bdevs s' i = (if i \<in> set block_slots \<and> child_of s dev i
            then (bdevs s i)\<lparr>bd_state := BLOCK_DEVICE_OFFLINE, bd_id := 0\<rparr> else bdevs s i)"
    "bdev_list s' = filter (\<lambda>i. \<not> (i \<in> set block_slots \<and> child_of s dev i)) (bdev_list s)" "block_initialized s'"
    using detach_fold [OF distinct_slots I(1) s' [unfolded detach_children_def, folded child_of_def]] I(3) by simp_all
  have O: "online s' x \<longleftrightarrow> online s x \<and> bd_parent (bdevs s x) \<noteq> dev" for x
    by (auto simp: online_def D(2) child_of_def)
  have same: "bdevs s' x = bdevs s x" if "online s' x" for x
    using that [unfolded O] by (simp add: D(2) child_of_def)
  have ok: "dev_ok s' x" if x: "online s' x" for x
  proof -
    have x': "online s x" "dev_ok s x" using x inv by (auto simp: O table_inv_def)
    show ?thesis
    proof (cases "is_partition (bdevs s x)")
      case True
      let ?p = "bd_parent (bdevs s x)"
      have p: "online s ?p" "\<not> is_partition (bdevs s ?p)" using x'(2) True by (simp_all add: dev_ok_def Let_def)
      have "dev_ok s ?p" using inv p(1) by (simp add: table_inv_def)
      then have "bd_parent (bdevs s ?p) = 0" using p(2) by (simp add: dev_ok_def Let_def)
      moreover have "dev \<noteq> 0" using dev slots_pos by (auto simp: online_def)
      ultimately have "online s' ?p" using p(1) O by simp
      then show ?thesis using x'(2) same [OF x] same [of ?p] by (simp add: dev_ok_def Let_def)
    next
      case False
      then show ?thesis using x'(2) same [OF x] by (simp add: dev_ok_def Let_def)
    qed
  qed
  have c: "x \<in> set block_slots" "child_of s dev x \<longleftrightarrow> bd_parent (bdevs s x) = dev" if "online s x" for x
    using that by (simp_all add: child_of_def online_def)
  have "x \<in> set (bdev_list s') \<longleftrightarrow> online s' x" for x
    using I(2) by (cases "online s x") (simp_all add: D(3) O c)
  then have "set (bdev_list s') = {x. online s' x}" by blast
  moreover have "bd_state (bdevs s' x) = BLOCK_DEVICE_OFFLINE \<and> bd_id (bdevs s' x) = 0"
    if "x \<in> set block_slots" "\<not> online s' x" for x
    using I(4) that by (cases "online s x") (simp_all add: O D(2) c)
  ultimately have "table_inv s'" using ok I(1) D(3,4) by (simp add: table_inv_def)
  then show ?thesis using D(1,4) O same by simp
qed

lemma remove_device:
  assumes inv: "table_inv s" and d: "online s d" "\<And>x. online s x \<Longrightarrow> bd_parent (bdevs s x) \<noteq> d"
    and T: "\<And>x. x \<noteq> d \<Longrightarrow> bdevs s' x = bdevs s x" "bd_state (bdevs s' d) = BLOCK_DEVICE_OFFLINE" "bd_id (bdevs s' d) = 0"
      "bdev_list s' = remove1 d (bdev_list s)" "block_initialized s' = block_initialized s"
  shows "table_inv s'" "online s' x \<longleftrightarrow> online s x \<and> x \<noteq> d"
proof -
  have O: "online s' x \<longleftrightarrow> online s x \<and> x \<noteq> d" for x by (cases "x = d") (simp_all add: online_def T)
  show "online s' x \<longleftrightarrow> online s x \<and> x \<noteq> d" by (rule O)
  have I: "distinct (bdev_list s)" "set (bdev_list s) = {x. online s x}" "block_initialized s"
    "\<And>x. x \<in> set block_slots \<Longrightarrow> \<not> online s x \<Longrightarrow> bd_state (bdevs s x) = BLOCK_DEVICE_OFFLINE \<and> bd_id (bdevs s x) = 0"
    "\<And>x. online s x \<Longrightarrow> dev_ok s x"
    using inv d(1) by (auto simp: table_inv_def)
  have "dev_ok s' x" if "online s' x" for x
  proof -
    have x: "online s x" "x \<noteq> d" "bd_parent (bdevs s x) \<noteq> d" using that d(2) [of x] by (simp_all add: O)
    show ?thesis using I(5) [OF x(1)] x(2,3) by (simp add: dev_ok_def Let_def T(1) O)
  qed
  moreover have "bd_state (bdevs s' x) = BLOCK_DEVICE_OFFLINE \<and> bd_id (bdevs s' x) = 0"
    if "x \<in> set block_slots" "\<not> online s' x" for x
    using that I(4) [of x] by (cases "x = d") (simp_all add: O T)
  moreover have "set (bdev_list s') = {x. online s' x}" using I(1,2) by (auto simp: T(4) O)
  ultimately show "table_inv s'" using I(1,3) T(4,5) by (simp add: table_inv_def)
qed

text \<open>The invariant of the storage layer survives whatever keeps the memory of the devices that remain.\<close>

lemma storage_inv_mono:
  assumes inv: "storage_inv D s" and H: "heap_inv D s'" and T: "table_inv s'"
    and O: "\<And>d. online s' d \<Longrightarrow> online s d \<and> bdevs s' d = bdevs s d"
    and R: "\<And>d. disk s' d \<Longrightarrow> rdata s' (priv s d) = rdata s (priv s d)"
    and L: "\<And>d m. disk s' d \<Longrightarrow> (buf s d, m) \<in> live s \<Longrightarrow> (buf s d, m) \<in> live s'"
      "\<And>d m. disk s' d \<Longrightarrow> (priv s d, m) \<in> live s \<Longrightarrow> (priv s d, m) \<in> live s'"
  shows "storage_inv D s'" "disk s' d \<Longrightarrow> disk s d \<and> buf s' d = buf s d \<and> priv s' d = priv s d"
proof -
  have S: "disk s d \<and> buf s' d = buf s d \<and> priv s' d = priv s d" if "disk s' d" for d
    using that O [of d] R [OF that] by (auto simp: disk_def priv_def buf_def)
  then show "disk s' d \<Longrightarrow> disk s d \<and> buf s' d = buf s d \<and> priv s' d = priv s d" by blast
  have "disk_ok s' d" if d: "disk s' d" for d
  proof -
    have e: "dev_size s' d = dev_size s d" using O [of d] d by (simp add: disk_def dev_size_def)
    have "disk_ok s d" using storage_invD(3) [OF inv] S [OF d] by blast
    then show ?thesis using L [OF d] S [OF d] R [OF d] by (auto simp: disk_ok_def e)
  qed
  moreover have "buf s' d \<noteq> priv s' d'" "d \<noteq> d' \<Longrightarrow> buf s' d \<noteq> buf s' d' \<and> priv s' d \<noteq> priv s' d'" if "disk s' d" "disk s' d'" for d d'
    using S [OF that(1)] S [OF that(2)] storage_invD(4,5,6) [OF inv, of d d'] by simp_all
  ultimately show "storage_inv D s'" using H T by (simp add: storage_inv_def)
qed

lemma destroy_result:
  assumes H: "heap_inv D t" and own: "is_ramdisk (bdevs t d) \<longrightarrow> disk_ok t d \<and> buf t d \<noteq> priv t d" and d: "0 < d"
  shows "\<exists>t'. destroy_dev d t = Some t' \<and> heap_inv D t' \<and> hmem t' = hmem t
    \<and> live t' = {(q, m) \<in> live t. \<not> (is_ramdisk (bdevs t d) \<and> (q = buf t d \<or> q = priv t d))}
    \<and> (\<forall>x. x \<noteq> d \<longrightarrow> bdevs t' x = bdevs t x) \<and> bdev_list t' = bdev_list t \<and> block_initialized t' = block_initialized t
    \<and> (\<forall>p. is_ramdisk (bdevs t d) \<and> p = priv t d \<or> rdata t' p = rdata t p)"
proof (cases "is_ramdisk (bdevs t d)")
  case True
  let ?b = "buf t d" and ?p = "priv t d"
  obtain mb mp where m: "(?b, mb) \<in> live t" "(?p, mp) \<in> live t" and al: "rd_buffer_allocated (rdata t ?p)" and ne: "?b \<noteq> ?p"
    using own True by (auto simp: disk_ok_def)
  have pos: "0 < ?b" "0 < ?p" using heap.positive [OF H m(1)] heap.positive [OF H m(2)] by simp_all
  obtain t1 where k1: "kfree ?b t = Some (True, t1)" "heap_inv D t1" "hmem t1 = hmem t" "live t1 = {(q, m) \<in> live t. q \<noteq> ?b}"
    using heap.dealloc_out [OF H m(1)] by (elim exE conjE) (rule that)
  define t2 where "t2 = t1\<lparr>rdata := (rdata t1)(?p := (rdata t1 ?p)\<lparr>rd_buffer := 0\<rparr>)\<rparr>"
  have k2: "heap_inv D t2" "hmem t2 = hmem t" "live t2 = {(q, m) \<in> live t. q \<noteq> ?b}" using k1 by (simp_all add: t2_def)
  have mp: "(?p, mp) \<in> live t2" using m(2) ne k2(3) by auto
  obtain t3 where k3: "kfree ?p t2 = Some (True, t3)" "heap_inv D t3" "hmem t3 = hmem t2" "live t3 = {(q, m) \<in> live t2. q \<noteq> ?p}"
    using heap.dealloc_out [OF k2(1) mp] by (elim exE conjE) (rule that)
  have "destroy_dev d t = Some (upd_dev d (\<lambda>d. d\<lparr>bd_private_data := 0\<rparr>) t3)"
    using True al pos d k1(1) k3(1)
    by (simp add: destroy_dev_def is_ramdisk_def ramdisk_dev_destroy_def buf_def [symmetric] priv_def [symmetric] t2_def Let_def)
  moreover have "rdata t3 p = rdata t p" if "p \<noteq> ?p" for p
    using kfree_storage(5) [OF k3(1)] kfree_storage(5) [OF k1(1)] that by (simp add: t2_def)
  moreover have "bdevs t3 = bdevs t" "bdev_list t3 = bdev_list t" "block_initialized t3 = block_initialized t"
    using kfree_storage [OF k3(1)] kfree_storage [OF k1(1)] by (simp_all add: t2_def)
  moreover have "live t3 = {(q, m) \<in> live t. \<not> (q = ?b \<or> q = ?p)}" using k3(4) k2(3) by auto
  ultimately show ?thesis using k2 k3 True by auto
next
  case False
  then show ?thesis using H by (auto simp: destroy_dev_def is_ramdisk_def split: option.splits block_device_ops.splits)
qed

lemma dev_addr_same:
  assumes "bdevs s' d = bdevs s d" "buf s' (root_of s d) = buf s (root_of s d)"
  shows "dev_addr s' d = dev_addr s d" "dev_size s' d = dev_size s d" "root_of s' d = root_of s d" "base_of s' d = base_of s d"
  using assms by (simp_all add: dev_addr_def dev_size_def root_of_def base_of_def split: if_splits)

lemma no_parent_of_itself:
  assumes "table_inv s" "online s d"
  shows "bd_parent (bdevs s d) \<noteq> d"
proof -
  have "dev_ok s d" using assms by (simp add: table_inv_def)
  then have "is_partition (bdevs s d) \<and> \<not> is_partition (bdevs s (bd_parent (bdevs s d))) \<or> bd_parent (bdevs s d) = 0"
    by (cases "is_partition (bdevs s d)") (simp_all add: dev_ok_def Let_def)
  moreover have "0 < d" using slots_pos [of d] assms(2) by (simp add: online_def)
  ultimately show ?thesis by (elim disjE) (metis, simp)
qed

lemma parent_online:
  assumes "table_inv s" "online s x"
  shows "bd_parent (bdevs s x) = 0 \<or> online s (bd_parent (bdevs s x))"
proof -
  have "dev_ok s x" using assms by (simp add: table_inv_def)
  then show ?thesis by (cases "is_partition (bdevs s x)") (simp_all add: dev_ok_def Let_def)
qed

lemma unregister_result:
  assumes inv: "storage_inv D s" and d: "online s d"
  shows "\<exists>s'. block_device_unregister d s = Some (True, s') \<and> storage_inv D s' \<and> hmem s' = hmem s
    \<and> (\<forall>x. online s' x \<longleftrightarrow> online s x \<and> x \<noteq> d \<and> bd_parent (bdevs s x) \<noteq> d) \<and> (\<forall>x. online s' x \<longrightarrow> bdevs s' x = bdevs s x)
    \<and> live s' = {(q, m) \<in> live s. \<not> (disk s d \<and> (q = buf s d \<or> q = priv s d))}
    \<and> (\<forall>x. disk s' x \<longrightarrow> disk s x \<and> buf s' x = buf s x \<and> priv s' x = priv s x)"
proof -
  note I = storage_invD [OF inv]
  define s1 where "s1 = detach_children d s"
  have S1: "table_inv s1" "table_step s s1" "\<And>x. online s1 x \<longleftrightarrow> online s x \<and> bd_parent (bdevs s x) \<noteq> d"
    "\<And>x. online s1 x \<Longrightarrow> bdevs s1 x = bdevs s x" "block_initialized s1"
    using detach_children_result [OF I(2) s1_def d] by simp_all
  note K = table_step_keeps [OF S1(2)]
  have d1: "online s1 d" "bdevs s1 d = bdevs s d" using S1(3,4) no_parent_of_itself [OF I(2) d] d by simp_all
  have d0: "0 < d" using d slots_pos by (simp add: online_def)
  define t where "t = s1\<lparr>bdev_list := remove1 d (bdev_list s1)\<rparr>"
  have T: "heap_inv D t" "live t = live s" "hmem t = hmem s" "rdata t = rdata s" "bdevs t = bdevs s1"
    "bdev_list t = remove1 d (bdev_list s1)" "block_initialized t = block_initialized s1"
    using K I(1) by (simp_all add: t_def)
  have bp: "buf t d = buf s d" "priv t d = priv s d" "dev_size t d = dev_size s d" "is_ramdisk (bdevs t d) \<longleftrightarrow> disk s d"
    using T(4,5) d1(2) d by (simp_all add: buf_def priv_def dev_size_def disk_def)
  have own: "is_ramdisk (bdevs t d) \<longrightarrow> disk_ok t d \<and> buf t d \<noteq> priv t d"
    using I(3,4) [of d] unfolding bp by (auto simp: disk_ok_def bp T(2,4))
  obtain t' where t': "destroy_dev d t = Some t'" "heap_inv D t'" "hmem t' = hmem t"
    "live t' = {(q, m) \<in> live t. \<not> (is_ramdisk (bdevs t d) \<and> (q = buf t d \<or> q = priv t d))}"
    "\<forall>x. x \<noteq> d \<longrightarrow> bdevs t' x = bdevs t x" "bdev_list t' = bdev_list t" "block_initialized t' = block_initialized t"
    "\<forall>p. is_ramdisk (bdevs t d) \<and> p = priv t d \<or> rdata t' p = rdata t p"
    using destroy_result [OF T(1) own d0] by (elim exE conjE) (rule that)
  define s' where "s' = upd_dev d (\<lambda>b. b\<lparr>bd_state := BLOCK_DEVICE_OFFLINE, bd_id := 0, bd_parent := 0\<rparr>) t'"
  have u: "block_device_unregister d s = Some (True, s')"
    using d d0 t'(1) by (simp add: block_device_unregister_def online_def Let_def s'_def t_def s1_def)
  have F: "\<And>x. x \<noteq> d \<Longrightarrow> bdevs s' x = bdevs s1 x" "bd_state (bdevs s' d) = BLOCK_DEVICE_OFFLINE" "bd_id (bdevs s' d) = 0"
    "bdev_list s' = remove1 d (bdev_list s1)" "block_initialized s' = block_initialized s1" "heap_inv D s'" "hmem s' = hmem s"
    "live s' = {(q, m) \<in> live s. \<not> (disk s d \<and> (q = buf s d \<or> q = priv s d))}"
    "\<And>p. disk s d \<and> p = priv s d \<or> rdata s' p = rdata s p"
    using t' T bp by (simp_all add: s'_def)
  have np: "bd_parent (bdevs s1 x) \<noteq> d" if "online s1 x" for x using that S1(3,4) by simp
  note RM = remove_device [OF S1(1) d1(1) np F(1-5)]
  have O: "online s' x \<longleftrightarrow> online s x \<and> x \<noteq> d \<and> bd_parent (bdevs s x) \<noteq> d" for x using RM(2) S1(3) by auto
  have same: "bdevs s' x = bdevs s x" if "online s' x" for x
    using that [unfolded O] F(1) [of x] S1(3,4) [of x] by simp
  have keep: "\<not> (disk s d \<and> (buf s x = buf s d \<or> buf s x = priv s d))" "\<not> (disk s d \<and> (priv s x = buf s d \<or> priv s x = priv s d))"
    if x: "disk s' x" for x
  proof -
    have x': "x \<noteq> d" "disk s x" using x same [of x] O by (auto simp: disk_def)
    show "\<not> (disk s d \<and> (buf s x = buf s d \<or> buf s x = priv s d))" "\<not> (disk s d \<and> (priv s x = buf s d \<or> priv s x = priv s d))"
      using I(4) [of x d] I(4) [of d x] I(5,6) [of x d] x' by auto
  qed
  have A: "online s x \<and> bdevs s' x = bdevs s x" if "online s' x" for x using that same O by simp
  have B: "rdata s' (priv s x) = rdata s (priv s x)" if "disk s' x" for x
    using keep(2) [OF that] F(9) [of "priv s x"] by blast
  have C: "(buf s x, m) \<in> live s'" if "disk s' x" "(buf s x, m) \<in> live s" for x m
    using keep(1) [OF that(1)] that(2) by (simp add: F(8))
  have C': "(priv s x, m) \<in> live s'" if "disk s' x" "(priv s x, m) \<in> live s" for x m
    using keep(2) [OF that(1)] that(2) by (simp add: F(8))
  note M = storage_inv_mono [OF inv F(6) RM(1) A B C C']
  show ?thesis by (rule exI [of _ s']) (use u F(7,8) O same M in simp)
qed

section \<open>Creating a RAM disk\<close>

lemma table_fields:
  assumes "bdevs s' = bdevs s" "bdev_list s' = bdev_list s" "block_initialized s' = block_initialized s"
  shows "table_inv s' = table_inv s" "online s' = online s"
proof -
  show O: "online s' = online s" by (simp add: fun_eq_iff online_def assms)
  have "dev_ok s' = dev_ok s" by (simp add: fun_eq_iff dev_ok_def Let_def O assms)
  then show "table_inv s' = table_inv s" by (simp add: table_inv_def O assms)
qed

text \<open>Memory that no device owns.\<close>

definition unowned :: "('hw, 'a) storage_state_scheme \<Rightarrow> nat \<Rightarrow> bool" where
  "unowned s p \<longleftrightarrow> (\<forall>d. disk s d \<longrightarrow> buf s d \<noteq> p \<and> priv s d \<noteq> p)"

lemma fresh_unowned:
  assumes "storage_inv D s" "\<And>n. (p, n) \<notin> live s"
  shows "unowned s p"
  using storage_invD(3) [OF assms(1)] assms(2) by (fastforce simp: unowned_def disk_ok_def)

text \<open>A call that leaves the devices and their memory as they were.\<close>

lemma storage_same:
  assumes inv: "storage_inv D s" and H: "heap_inv D s'" and T: "table_inv s'" and O: "online s' = online s"
    and B: "\<And>x. online s x \<Longrightarrow> bdevs s' x = bdevs s x" and R: "\<And>q. \<not> unowned s q \<Longrightarrow> rdata s' q = rdata s q"
    and L: "\<And>q m. \<not> unowned s q \<Longrightarrow> (q, m) \<in> live s \<Longrightarrow> (q, m) \<in> live s'"
  shows "storage_inv D s' \<and> disk s' = disk s \<and> (\<forall>x. disk s x \<longrightarrow> buf s' x = buf s x \<and> priv s' x = priv s x)"
proof -
  have Dk: "disk s' = disk s" using O B by (auto simp: fun_eq_iff disk_def)
  have own: "\<not> unowned s (buf s x)" "\<not> unowned s (priv s x)" if "disk s x" for x using that by (auto simp: unowned_def)
  have "online s x \<and> bdevs s' x = bdevs s x" if "online s' x" for x using that O B by simp
  note M = storage_inv_mono [OF inv H T this, unfolded Dk, OF _ R [OF own(2)] L [OF own(1)] L [OF own(2)]]
  show ?thesis using M Dk by simp
qed

lemma storage_add:
  assumes inv: "storage_inv D s" and H: "heap_inv D s'" and T: "table_inv s'" and O: "online s' = (\<lambda>x. x = d \<or> online s x)"
    and d: "\<not> online s d" "is_ramdisk (bdevs s' d)" "disk_ok s' d" "buf s' d \<noteq> priv s' d" "unowned s (buf s' d)" "unowned s (priv s' d)"
    and B: "\<And>x. online s x \<Longrightarrow> bdevs s' x = bdevs s x" and R: "\<And>q. \<not> unowned s q \<Longrightarrow> rdata s' q = rdata s q"
    and L: "\<And>q m. (q, m) \<in> live s \<Longrightarrow> (q, m) \<in> live s'"
  shows "storage_inv D s' \<and> disk s' = (\<lambda>x. x = d \<or> disk s x) \<and> (\<forall>x. disk s x \<longrightarrow> buf s' x = buf s x \<and> priv s' x = priv s x)"
proof -
  note I = storage_invD [OF inv]
  have Dk: "disk s' = (\<lambda>x. x = d \<or> disk s x)" using O B d(2) by (auto simp: fun_eq_iff disk_def)
  have own: "\<not> unowned s (priv s x)" if "disk s x" for x using that by (auto simp: unowned_def)
  have S: "buf s' x = buf s x \<and> priv s' x = priv s x \<and> disk_ok s' x \<and> x \<noteq> d" if x: "disk s x" for x
  proof -
    have o: "online s x" using x by (simp add: disk_def)
    have p: "priv s' x = priv s x" "rdata s' (priv s x) = rdata s (priv s x)" "dev_size s' x = dev_size s x"
      using R [OF own [OF x]] B [OF o] by (simp_all add: priv_def dev_size_def)
    then have "buf s' x = buf s x" by (simp add: buf_def)
    moreover have "disk_ok s' x" using I(3) [OF x] p L \<open>buf s' x = buf s x\<close> by (auto simp: disk_ok_def)
    ultimately show ?thesis using p o d(1) by auto
  qed
  have U: "buf s x \<noteq> buf s' d" "buf s x \<noteq> priv s' d" "priv s x \<noteq> buf s' d" "priv s x \<noteq> priv s' d" if "disk s x" for x
    using d(5,6) that by (auto simp: unowned_def)
  have ok: "disk_ok s' x" if "disk s' x" for x
    using that S d(3) by (cases "x = d") (simp_all add: Dk)
  have ap: "buf s' x \<noteq> priv s' y \<and> (x \<noteq> y \<longrightarrow> buf s' x \<noteq> buf s' y \<and> priv s' x \<noteq> priv s' y)" if "disk s' x" "disk s' y" for x y
  proof (cases "x = d"; cases "y = d")
    assume "x = d" "y = d" then show ?thesis using d(4) by simp
  next
    assume xy: "x = d" "y \<noteq> d" then show ?thesis using that(2) S [of y] U [of y] by (simp add: Dk eq_commute)
  next
    assume xy: "x \<noteq> d" "y = d" then show ?thesis using that(1) S [of x] U [of x] by (simp add: Dk)
  next
    assume xy: "x \<noteq> d" "y \<noteq> d" then show ?thesis using that S [of x] S [of y] I(4,5,6) [of x y] by (simp add: Dk)
  qed
  have "storage_inv D s'" unfolding storage_inv_def using H T ok ap by blast
  then show ?thesis using Dk S by simp
qed

text \<open>Memory outside every allocation may change without any device noticing.\<close>

definition allocations_kept :: "('hw, 'a) storage_state_scheme \<Rightarrow> ('hw, 'a) storage_state_scheme \<Rightarrow> bool" where
  "allocations_kept s s' \<longleftrightarrow> (\<forall>(q, k) \<in> live s. \<forall>y. q \<le> y \<and> y < q + k \<longrightarrow> hmem s' y = hmem s y)"

lemma kept_bytes:
  assumes inv: "storage_inv D s" and d: "online s x" "disk s (root_of s x)" and k: "allocations_kept s s'"
    and same: "bdevs s' x = bdevs s x" "buf s' (root_of s x) = buf s (root_of s x)"
  shows "dev_bytes s' x = dev_bytes s x"
proof -
  note A = dev_addr_same [OF same]
  obtain m where m: "dev_size s (root_of s x) \<le> m" "(buf s (root_of s x), m) \<in> live s"
    using storage_invD(3) [OF inv d(2)] by (auto simp: disk_ok_def)
  have in_root: "base_of s x * bd_block_size (bdevs s x) + dev_size s x \<le> dev_size s (root_of s x)"
    using dev_inside_root [OF storage_invD(2) [OF inv] d(1)] .
  have "hmem s' y = hmem s y" if "dev_addr s x \<le> y" "y < dev_addr s x + dev_size s x" for y
    using k m that in_root by (fastforce simp: allocations_kept_def dev_addr_def)
  then show ?thesis unfolding dev_bytes_def A by (intro load_bytes_cong) simp
qed

lemma fresh_pointer:
  assumes "heap_inv D s'" "live s' = insert (p, m) (live s)" "(p, m) \<notin> live s"
  shows "(p, n) \<notin> live s"
  using heap.one_size [OF assms(1), of p m n] assms(2,3) by auto

lemma drop_fresh: "(\<And>j. (b, j) \<notin> L) \<Longrightarrow> {(q, j) \<in> insert (b, m) L. q \<noteq> b} = L"
  by auto

lemma drop_fresh_in: "(\<And>j. (b, j) \<notin> L) \<Longrightarrow> p \<noteq> b \<Longrightarrow> {(q, j) \<in> insert (b, m) (insert (p, k) L). q \<noteq> b} = insert (p, k) L"
  by auto

lemma store_fresh_kept:
  assumes "heap_inv D s'" "live s' = insert (p, m) (live s)" "(p, m) \<notin> live s" "length bs \<le> m" "hmem t = store_bytes p bs (hmem s)"
  shows "allocations_kept s t"
proof -
  have "hmem t y = hmem s y" if "(q, k) \<in> live s" "q \<le> y" "y < q + k" for q k y
  proof -
    have "(p, m) \<noteq> (q, k)" using assms(3) that(1) by auto
    then have "p + m \<le> q \<or> q + k \<le> p" using heap.separate [OF assms(1), of p m q k] assms(2) that(1) by auto
    then show ?thesis using that assms(4) by (auto simp: assms(5) store_bytes_def)
  qed
  then show ?thesis by (auto simp: allocations_kept_def)
qed

text \<open>What a successful creation leaves behind, and what a failed one does.\<close>

definition created :: "nat \<Rightarrow> nat \<Rightarrow> nat \<Rightarrow> nat \<Rightarrow> ('hw, 'a) storage_state_scheme \<Rightarrow> ('hw, 'a) storage_state_scheme \<Rightarrow> bool" where
  "created D_size n bs d s s' \<longleftrightarrow> disk s' d \<and> \<not> online s d \<and> online s' = (\<lambda>x. x = d \<or> online s x)
     \<and> bd_total_blocks (bdevs s' d) = n \<and> bd_block_size (bdevs s' d) = bs \<and> bd_type (bdevs s' d) = BLOCK_TYPE_RAMDISK
     \<and> dev_bytes s' d = replicate D_size 0 \<and> (\<exists>m k. live s' = insert (buf s' d, m) (insert (priv s' d, k) (live s)))
     \<and> (\<forall>j. (buf s' d, j) \<notin> live s \<and> (priv s' d, j) \<notin> live s)"

definition create_outcome :: "nat set \<Rightarrow> nat \<Rightarrow> nat \<Rightarrow> nat \<Rightarrow> ('hw, 'a) storage_state_scheme \<Rightarrow> ('hw, 'a) storage_state_scheme \<Rightarrow> bool" where
  "create_outcome D n bs d s s' \<longleftrightarrow> storage_inv D s' \<and> allocations_kept s s'
    \<and> (if d = 0 then live s' = live s \<and> online s' = online s else created (n * bs) n bs d s s')
    \<and> (\<forall>x. online s x \<longrightarrow> bdevs s' x = bdevs s x) \<and> (\<forall>x. disk s x \<longrightarrow> buf s' x = buf s x \<and> priv s' x = priv s x)"

text \<open>Every exit without a device: the table of devices and their memory are as they were.\<close>

lemma create_nothing:
  assumes "storage_inv D s" "heap_inv D s'" "table_inv s'" "online s' = online s" "\<And>x. online s x \<Longrightarrow> bdevs s' x = bdevs s x"
    "\<And>q. \<not> unowned s q \<Longrightarrow> rdata s' q = rdata s q" "live s' = live s" "allocations_kept s s'"
  shows "create_outcome D n bs 0 s s'"
  using storage_same [OF assms(1-6)] assms(4,5,7,8) by (simp add: create_outcome_def)

lemma ramdisk_attach_result:
  fixes s s3 :: "('hw, 'a) storage_state_scheme"
  assumes inv: "storage_inv D s" and H: "heap_inv D s3" and L: "live s3 = insert (p, k) (insert (b, m) (live s))"
    and fresh: "\<And>j. (b, j) \<notin> live s" "\<And>j. (p, j) \<notin> live s" "p \<noteq> b" and m: "n * bs \<le> m"
    and zero: "load_bytes b (n * bs) (hmem s3) = replicate (n * bs) 0" and kept: "allocations_kept s s3"
    and T: "bdevs s3 = bdevs s" "bdev_list s3 = bdev_list s" "block_initialized s3 = block_initialized s" "rdata s3 = rdata s"
    and n: "n < 2 ^ 64"
  shows "\<exists>d s'. ramdisk_attach name bs n (n * bs) b p s3 = Some (d, s') \<and> create_outcome D n bs d s s'"
proof -
  note I = storage_invD [OF inv]
  note ub = fresh_unowned [OF inv fresh(1)] and up = fresh_unowned [OF inv fresh(2)]
  define s4 where "s4 = s3\<lparr>rdata := (rdata s3)(p := \<lparr>rd_buffer = b, rd_size_bytes = n * bs, rd_buffer_allocated = True\<rparr>)\<rparr>"
  have S4: "heap_inv D s4" "live s4 = insert (p, k) (insert (b, m) (live s))" "hmem s4 = hmem s3" "bdevs s4 = bdevs s"
    "bdev_list s4 = bdev_list s" "block_initialized s4 = block_initialized s"
    "rdata s4 = (rdata s)(p := \<lparr>rd_buffer = b, rd_size_bytes = n * bs, rd_buffer_allocated = True\<rparr>)"
    using H L T by (simp_all add: s4_def)
  note F4 = table_fields [OF S4(4-6)]
  obtain d s5 where r: "block_device_register name BLOCK_TYPE_RAMDISK bs n (Some Ramdisk_ops) p s4 = (d, s5)"
    by (rule prod.exhaust)
  have G: "table_inv s5" "table_step s4 s5" "\<And>x. online s x \<Longrightarrow> bdevs s5 x = bdevs s x"
    "online s5 = (\<lambda>x. d \<noteq> 0 \<and> x = d \<or> online s x)"
    "d \<noteq> 0 \<Longrightarrow> \<not> online s d \<and> is_ramdisk (bdevs s5 d) \<and> bd_private_data (bdevs s5 d) = p \<and> bd_type (bdevs s5 d) = BLOCK_TYPE_RAMDISK
       \<and> bd_block_size (bdevs s5 d) = bs \<and> bd_total_blocks (bdevs s5 d) = n"
    using register_result [OF _ r _ n] F4 I(2) S4(4) by (simp_all add: is_ramdisk_def)
  note S5 = table_step_keeps [OF G(2), unfolded S4]
  have R: "rdata s5 q = rdata s q" if "\<not> unowned s q" for q using that up S5(4) by auto
  have kept5: "allocations_kept s s'" if "hmem s' = hmem s3" for s' :: "('hw, 'a) storage_state_scheme"
    using kept that by (simp add: allocations_kept_def)
  show ?thesis
  proof (cases "d = 0")
    case True
    have "(b, m) \<in> live s5" using S5(2) by simp
    then obtain s6 where f6: "kfree b s5 = Some (True, s6)" "heap_inv D s6" "hmem s6 = hmem s5" "live s6 = {(q, j) \<in> live s5. q \<noteq> b}"
      using heap.dealloc_out [of D s5 b m] S5(1) S4(1) by auto
    have "(p, k) \<in> live s6" using f6(4) S5(2) fresh(3) by simp
    then obtain s7 where f7: "kfree p s6 = Some (True, s7)" "heap_inv D s7" "hmem s7 = hmem s6" "live s7 = {(q, j) \<in> live s6. q \<noteq> p}"
      using heap.dealloc_out [OF f6(2)] by blast
    have K: "bdevs s7 = bdevs s5" "bdev_list s7 = bdev_list s5" "block_initialized s7 = block_initialized s5" "rdata s7 = rdata s5"
      using kfree_storage [OF f6(1)] kfree_storage [OF f7(1)] by simp_all
    note F7 = table_fields [OF K(1-3)]
    have "create_outcome D n bs 0 s s7"
    proof (rule create_nothing [OF inv f7(2)])
      show "live s7 = live s" unfolding f7(4) f6(4) S5(2) insert_commute [of "(p, k)"]
        by (simp only: drop_fresh [OF fresh(1)] drop_fresh_in [OF fresh(1) fresh(3)] drop_fresh [OF fresh(2)])
      show "allocations_kept s s7" by (rule kept5) (simp add: f7(3) f6(3) S5(3) S4(3))
    qed (simp_all add: F7 K G True R)
    moreover have "ramdisk_attach name bs n (n * bs) b p s3 = Some (0, s7)"
      using r True f6(1) f7(1) by (simp add: ramdisk_attach_def Let_def s4_def)
    ultimately show ?thesis by blast
  next
    case False
    note E = G(5) [OF False]
    have bp: "priv s5 d = p" "buf s5 d = b" "dev_size s5 d = n * bs" using E S5(4) by (simp_all add: priv_def buf_def dev_size_def)
    have ok: "disk_ok s5 d" using m S5(2,4) by (auto simp: disk_ok_def bp)
    have O5: "online s5 = (\<lambda>x. x = d \<or> online s x)" using G(4) False by simp
    have "storage_inv D s5 \<and> disk s5 = (\<lambda>x. x = d \<or> disk s x) \<and> (\<forall>x. disk s x \<longrightarrow> buf s5 x = buf s x \<and> priv s5 x = priv s x)"
      by (rule storage_add [OF inv _ G(1) O5 _ _ ok _ _ _ G(3) R])
         (simp_all add: S5(1,2) S4(1) E bp ub up fresh(3) [symmetric])
    then have A: "storage_inv D s5" "disk s5 = (\<lambda>x. x = d \<or> disk s x)" "\<forall>x. disk s x \<longrightarrow> buf s5 x = buf s x \<and> priv s5 x = priv s x"
      by simp_all
    have "root_of s5 d = d" "base_of s5 d = 0" using E by (simp_all add: root_of_def base_of_def is_ramdisk_def is_partition_def)
    then have "dev_bytes s5 d = replicate (n * bs) 0" using zero S5(3) S4(3) bp by (simp add: dev_bytes_def dev_addr_def)
    moreover have "\<exists>m k. live s5 = insert (buf s5 d, m) (insert (priv s5 d, k) (live s))" using S5(2) bp by (metis insert_commute)
    ultimately have "create_outcome D n bs d s s5"
      using A G(3) E O5 kept5 [of s5] S5(3) S4(3) False fresh(1,2) bp by (simp add: create_outcome_def created_def)
    moreover have "ramdisk_attach name bs n (n * bs) b p s3 = Some (d, s5)"
      using r False by (simp add: ramdisk_attach_def Let_def s4_def)
    ultimately show ?thesis by blast
  qed
qed

lemma ramdisk_allocate_result:
  fixes s :: "('hw, 'a) storage_state_scheme"
  assumes inv: "storage_inv D s" and n: "n < 2 ^ 64"
  shows "\<exists>d s'. ramdisk_allocate name bs n (n * bs) s = Some (d, s') \<and> create_outcome D n bs d s s'"
proof -
  note I = storage_invD [OF inv]
  from I(1) show ?thesis
  proof (cases rule: heap.malloc_cases [where n = "n * bs"])
    case (null s1)
    note K = kmalloc_storage [OF null(1)]
    have "ramdisk_allocate name bs n (n * bs) s = Some (0, s1)" using null(1) by (simp add: ramdisk_allocate_def)
    moreover have "create_outcome D n bs 0 s s1"
      by (rule create_nothing [OF inv null(2)]) (simp_all add: table_fields [OF K(1,2,4)] K null I(2) allocations_kept_def)
    ultimately show ?thesis by blast
  next
    case (block b m s1)
    note K = kmalloc_storage [OF block(1)]
    define s2 where "s2 = s1\<lparr>hmem := store_bytes b (replicate (n * bs) 0) (hmem s1)\<rparr>"
    have H2: "heap_inv D s2" "live s2 = insert (b, m) (live s)" using block(2,6) by (simp_all add: s2_def)
    have b: "(b, j) \<notin> live s" for j using fresh_pointer [OF block(2,6,7)] .
    have kept: "allocations_kept s s'" if "hmem s' = hmem s2" for s' :: "('hw, 'a) storage_state_scheme"
      using store_fresh_kept [OF block(2,6,7), of "replicate (n * bs) 0" s'] block(3,5) that by (simp add: s2_def)
    have zero: "load_bytes b (n * bs) (hmem s2) = replicate (n * bs) 0"
      by (rule nth_equalityI) (simp_all add: s2_def store_bytes_def)
    have al: "ramdisk_allocate name bs n (n * bs) s = do { (p, s3) \<leftarrow> kmalloc RAMDISK_DATA_BYTES s2;
        if p = 0 then do { (_, s4) \<leftarrow> kfree b s3; Some (0, s4) } else ramdisk_attach name bs n (n * bs) b p s3 }"
      using block(1,4) by (simp add: ramdisk_allocate_def s2_def)
    from H2(1) show ?thesis
    proof (cases rule: heap.malloc_cases [where n = RAMDISK_DATA_BYTES])
      case (null s3)
      note K3 = kmalloc_storage [OF null(1)]
      have "(b, m) \<in> live s3" using null(4) H2(2) by simp
      then obtain s4 where f: "kfree b s3 = Some (True, s4)" "heap_inv D s4" "hmem s4 = hmem s3" "live s4 = {(q, k) \<in> live s3. q \<noteq> b}"
        using heap.dealloc_out [OF null(2)] by blast
      have T4: "bdevs s4 = bdevs s" "bdev_list s4 = bdev_list s" "block_initialized s4 = block_initialized s" "rdata s4 = rdata s"
        using K K3 kfree_storage [OF f(1)] by (simp_all add: s2_def)
      have "create_outcome D n bs 0 s s4"
      proof (rule create_nothing [OF inv f(2)])
        show "live s4 = live s" unfolding f(4) null(4) H2(2) by (rule drop_fresh [OF b])
        show "allocations_kept s s4" by (rule kept) (simp add: f(3) null(3))
      qed (simp_all add: table_fields [OF T4(1-3)] T4 I(2))
      moreover have "ramdisk_allocate name bs n (n * bs) s = Some (0, s4)" using al null(1) f(1) by simp
      ultimately show ?thesis by blast
    next
      case (block p k s3)
      note K3 = kmalloc_storage [OF block(1)]
      have p: "(p, j) \<notin> live s2" for j using fresh_pointer [OF block(2,6,7)] .
      have al': "ramdisk_allocate name bs n (n * bs) s = ramdisk_attach name bs n (n * bs) b p s3" using al block(1,4) by simp
      have p': "p \<noteq> b" "(p, j) \<notin> live s" for j using p [of m] p [of j] H2(2) by auto
      have T3: "bdevs s3 = bdevs s" "bdev_list s3 = bdev_list s" "block_initialized s3 = block_initialized s" "rdata s3 = rdata s"
        using K K3 by (simp_all add: s2_def)
      show ?thesis unfolding al'
        using block(3,6) H2(2) \<open>n * bs \<le> m\<close> zero
        by (intro ramdisk_attach_result [OF inv block(2) _ b p'(2,1) _ _ kept T3 n]) simp_all
    qed
  qed
qed

lemma ramdisk_create_result:
  assumes inv: "storage_inv D s" and sz: "sz < 2 ^ 64" and bs: "bs = (if bs0 = 0 then 512 else bs0)"
  shows "\<exists>d s'. ramdisk_create name sz bs0 s = Some (d, s') \<and> create_outcome D (sz div bs) bs d s s'"
proof (cases "sz div bs = 0")
  case True
  then have "ramdisk_create name sz bs0 s = Some (0, s)"
    unfolding ramdisk_create_def Let_def BLOCK_DEFAULT_SECTOR_SIZE_def bs [symmetric] by simp
  moreover have "create_outcome D (sz div bs) bs 0 s s" using inv by (simp add: create_outcome_def allocations_kept_def)
  ultimately show ?thesis by blast
next
  case False
  then have "sz \<noteq> 0" by (metis div_0)
  have "mul64 (sz div bs) bs = sz div bs * bs" by (rule mul64_exact [OF le_less_trans [OF div_times_less_eq_dividend sz]])
  then have "ramdisk_create name sz bs0 s = ramdisk_allocate name bs (sz div bs) (sz div bs * bs) s"
    using False \<open>sz \<noteq> 0\<close> unfolding ramdisk_create_def Let_def BLOCK_DEFAULT_SECTOR_SIZE_def bs [symmetric] by simp
  then show ?thesis using ramdisk_allocate_result [OF inv le_less_trans [OF div_le_dividend sz]] by metis
qed

section \<open>Runs of the storage layer\<close>

lemma block_read_frame:
  assumes "block_read d l n s = Some y"
  shows "\<exists>h. snd y = s\<lparr>hw := h\<rparr>"
proof (rule block_read.raw_induct [OF _ assms])
  fix read :: "nat \<Rightarrow> nat \<Rightarrow> nat \<Rightarrow> ('a, 'b) storage_state_scheme \<Rightarrow> (u8 list option \<times> ('a, 'b) storage_state_scheme) option"
  fix d l n s y
  assume IH: "\<And>d l n s y. read d l n s = Some y \<Longrightarrow> \<exists>h. snd y = s\<lparr>hw := h\<rparr>"
  assume b: "(if d = 0 \<or> n = 0 then Some (None, s)
      else if bd_state (bdevs s d) \<noteq> BLOCK_DEVICE_ONLINE then Some (None, s)
      else if add64 l n > bd_total_blocks (bdevs s d) then Some (None, s)
      else case bd_ops (bdevs s d) of
        None \<Rightarrow> Some (None, s)
      | Some Ramdisk_ops \<Rightarrow> Some (ramdisk_read_blocks d l n s, s)
      | Some Partition_ops \<Rightarrow> partition_read_blocks read d l n s
      | Some (Driver_ops dr) \<Rightarrow> (case drv_read dr of None \<Rightarrow> Some (None, s)
          | Some f \<Rightarrow> let (r, h) = f d l n (hw s) in Some (r, s\<lparr>hw := h\<rparr>))) = Some y"
  have same: "\<exists>h. s = s\<lparr>hw := h\<rparr>" by (rule exI [of _ "hw s"]) simp
  show "\<exists>h. snd y = s\<lparr>hw := h\<rparr>"
    using b same IH
    by (auto simp: partition_read_blocks_def Let_def split: if_splits option.splits block_device_ops.splits prod.splits)
qed

lemma block_write_frame:
  assumes "block_write d l n data s = Some y"
  shows "\<exists>h m. snd y = s\<lparr>hw := h, hmem := m\<rparr>"
proof (rule block_write.raw_induct [OF _ assms])
  fix "write" :: "nat \<Rightarrow> nat \<Rightarrow> nat \<Rightarrow> u8 list \<Rightarrow> ('a, 'b) storage_state_scheme \<Rightarrow> (bool \<times> ('a, 'b) storage_state_scheme) option"
  fix d l n data s y
  assume IH: "\<And>d l n data s y. write d l n data s = Some y \<Longrightarrow> \<exists>h m. snd y = s\<lparr>hw := h, hmem := m\<rparr>"
  assume b: "(if d = 0 \<or> n = 0 then Some (False, s)
      else if bd_state (bdevs s d) \<noteq> BLOCK_DEVICE_ONLINE then Some (False, s)
      else if add64 l n > bd_total_blocks (bdevs s d) then Some (False, s)
      else case bd_ops (bdevs s d) of
        None \<Rightarrow> Some (False, s)
      | Some Ramdisk_ops \<Rightarrow> Some (ramdisk_write_blocks d l n data s)
      | Some Partition_ops \<Rightarrow> partition_write_blocks write d l n data s
      | Some (Driver_ops dr) \<Rightarrow> (case drv_write dr of None \<Rightarrow> Some (False, s)
          | Some f \<Rightarrow> let (r, h) = f d l n data (hw s) in Some (r, s\<lparr>hw := h\<rparr>))) = Some y"
  define P where "P t \<longleftrightarrow> (\<exists>h m. t = s\<lparr>hw := h, hmem := m\<rparr>)" for t
  have mem: "P (s\<lparr>hmem := m\<rparr>)" for m unfolding P_def by (rule exI [of _ "hw s"], rule exI [of _ m]) simp
  have drv: "P (s\<lparr>hw := h\<rparr>)" for h unfolding P_def by (rule exI [of _ h], rule exI [of _ "hmem s"]) simp
  have same: "P s" using mem [of "hmem s"] by simp
  have ram: "P (snd (ramdisk_write_blocks d l n data s))" using same mem by (simp add: ramdisk_write_blocks_def Let_def)
  have IH': "write d' l' n data s = Some z \<Longrightarrow> P (snd z)" for d' l' z unfolding P_def by (rule IH)
  have "P (snd y)"
    using b same IH' ram drv
    by (auto simp: partition_write_blocks_def Let_def split: if_splits option.splits block_device_ops.splits prod.splits)
  then show "\<exists>h m. snd y = s\<lparr>hw := h, hmem := m\<rparr>" by (simp add: P_def)
qed

lemma storage_inv_hw [simp]: "storage_inv D (s\<lparr>hw := h\<rparr>) = storage_inv D s"
proof -
  have "online (s\<lparr>hw := h\<rparr>) = online s" by (simp add: fun_eq_iff online_def)
  moreover from this have "dev_ok (s\<lparr>hw := h\<rparr>) d = dev_ok s d" for d by (simp add: dev_ok_def Let_def)
  ultimately show ?thesis
    by (simp add: storage_inv_def table_inv_def disk_def disk_ok_def buf_def priv_def dev_size_def)
qed

lemma register_driver_inv:
  assumes inv: "storage_inv D s" and n: "n < 2 ^ 64"
  shows "storage_inv D (snd (block_device_register name ty bs n (Some (Driver_ops drv)) p s))"
proof -
  note I = storage_invD [OF inv]
  obtain d s' where r: "block_device_register name ty bs n (Some (Driver_ops drv)) p s = (d, s')" by (rule prod.exhaust)
  have R: "table_inv s'" "table_step s s'" "\<And>x. online s x \<Longrightarrow> bdevs s' x = bdevs s x"
    "\<And>x. online s' x \<longleftrightarrow> d \<noteq> 0 \<and> x = d \<or> online s x" "d \<noteq> 0 \<Longrightarrow> \<not> is_ramdisk (bdevs s' d)"
    using register_result [OF I(2) r _ n] by (simp_all add: is_ramdisk_def)
  note K = table_step_keeps [OF R(2)]
  have "disk s' x \<longleftrightarrow> disk s x" for x using R(3,4,5) by (auto simp: disk_def)
  moreover have "buf s' x = buf s x" "priv s' x = priv s x" "dev_size s' x = dev_size s x" if "disk s x" for x
    using that R(3) K(4) by (simp_all add: disk_def buf_def priv_def dev_size_def)
  ultimately have "storage_inv D s'" using I R(1) K by (simp add: storage_inv_def disk_ok_def)
  then show ?thesis using r by simp
qed

lemma register_partition_inv:
  assumes inv: "storage_inv D s" and p: "online s p" "\<not> is_partition (bdevs s p)" and n: "a + n < 2 ^ 64"
  shows "storage_inv D (snd (block_partition_register p i a n ty guid s))"
proof -
  note I = storage_invD [OF inv]
  obtain d s' where r: "block_partition_register p i a n ty guid s = (d, s')" by (rule prod.exhaust)
  have R: "table_inv s'" "table_step s s'" "\<And>x. online s x \<Longrightarrow> bdevs s' x = bdevs s x"
    "\<And>x. online s' x \<longleftrightarrow> d \<noteq> 0 \<and> x = d \<or> online s x" "d \<noteq> 0 \<Longrightarrow> \<not> is_ramdisk (bdevs s' d)"
    using partition_register_result [OF I(2) r p n] by (simp_all add: is_ramdisk_def is_partition_def)
  note K = table_step_keeps [OF R(2)]
  have "disk s' x \<longleftrightarrow> disk s x" for x using R(3,4,5) by (auto simp: disk_def)
  moreover have "buf s' x = buf s x" "priv s' x = priv s x" "dev_size s' x = dev_size s x" if "disk s x" for x
    using that R(3) K(4) by (simp_all add: disk_def buf_def priv_def dev_size_def)
  ultimately have "storage_inv D s'" using I R(1) K by (simp add: storage_inv_def disk_ok_def)
  then show ?thesis using r by simp
qed

text \<open>
  The calls other code makes: drivers register devices, the partition scanner registers partitions,
  disks are created and removed, devices are read, written and flushed. Two conditions are on the
  caller, as the code does not check them: a partition is registered on a device that is registered and
  is no partition itself, at a position that does not wrap around, and a write does not wrap around
  either (a write that does may reach memory outside the disk).
\<close>

inductive storage_run :: "('hw, 'a) storage_state_scheme \<Rightarrow> ('hw, 'a) storage_state_scheme \<Rightarrow> bool" for s0 where
  start: "storage_run s0 s0"
| driver: "storage_run s0 s \<Longrightarrow> n < 2 ^ 64 \<Longrightarrow>
    storage_run s0 (snd (block_device_register name ty bs n (Some (Driver_ops drv)) p s))"
| partition: "storage_run s0 s \<Longrightarrow> online s p \<Longrightarrow> \<not> is_partition (bdevs s p) \<Longrightarrow> a + n < 2 ^ 64 \<Longrightarrow>
    storage_run s0 (snd (block_partition_register p i a n pt guid s))"
| create: "storage_run s0 s \<Longrightarrow> sz < 2 ^ 64 \<Longrightarrow> ramdisk_create name sz bs s = Some (d, s') \<Longrightarrow> storage_run s0 s'"
| destroy: "storage_run s0 s \<Longrightarrow> d = 0 \<or> d \<in> set block_slots \<Longrightarrow> ramdisk_destroy d s = Some (ok, s') \<Longrightarrow> storage_run s0 s'"
| remove: "storage_run s0 s \<Longrightarrow> d = 0 \<or> d \<in> set block_slots \<Longrightarrow> block_device_unregister d s = Some (ok, s')
    \<Longrightarrow> storage_run s0 s'"
| fetch: "storage_run s0 s \<Longrightarrow> block_read d l n s = Some (r, s') \<Longrightarrow> storage_run s0 s'"
| store: "storage_run s0 s \<Longrightarrow> l + n < 2 ^ 64 \<Longrightarrow> block_write d l n data s = Some (ok, s') \<Longrightarrow> storage_run s0 s'"
| flush: "storage_run s0 s \<Longrightarrow> block_flush d s = Some (ok, s') \<Longrightarrow> storage_run s0 s'"

lemma block_flush_frame:
  assumes "block_flush d s = Some y"
  shows "\<exists>h. snd y = s\<lparr>hw := h\<rparr>"
proof (rule block_flush.raw_induct [OF _ assms])
  fix flush :: "nat \<Rightarrow> ('a, 'b) storage_state_scheme \<Rightarrow> (bool \<times> ('a, 'b) storage_state_scheme) option"
  fix d s y
  assume IH: "\<And>d s y. flush d s = Some y \<Longrightarrow> \<exists>h. snd y = s\<lparr>hw := h\<rparr>"
  assume b: "(if d = 0 then Some (False, s)
      else case bd_ops (bdevs s d) of
        None \<Rightarrow> Some (True, s)
      | Some Ramdisk_ops \<Rightarrow> Some (ramdisk_flush d, s)
      | Some Partition_ops \<Rightarrow> partition_flush flush d s
      | Some (Driver_ops dr) \<Rightarrow> (case drv_flush dr of None \<Rightarrow> Some (True, s)
          | Some f \<Rightarrow> let (r, h) = f d (hw s) in Some (r, s\<lparr>hw := h\<rparr>))) = Some y"
  have same: "\<exists>h. s = s\<lparr>hw := h\<rparr>" by (rule exI [of _ "hw s"]) simp
  show "\<exists>h. snd y = s\<lparr>hw := h\<rparr>"
    using b same IH
    by (auto simp: partition_flush_def Let_def split: if_splits option.splits block_device_ops.splits prod.splits)
qed

lemma unregister_inv:
  assumes "storage_inv D s" and "d = 0 \<or> d \<in> set block_slots" and "block_device_unregister d s = Some (ok, s')"
  shows "storage_inv D s'"
proof (cases "online s d")
  case True
  with unregister_result [OF assms(1) True] assms(3) show ?thesis by auto
next
  case False
  with storage_invD(2) [OF assms(1)] assms(2)
  have "d = 0 \<or> bd_state (bdevs s d) = BLOCK_DEVICE_OFFLINE \<and> bd_id (bdevs s d) = 0" by (auto simp: table_inv_def)
  with assms(1,3) show ?thesis by (auto simp: block_device_unregister_def split: if_splits)
qed

lemma storage_run_inv: "storage_run s0 s \<Longrightarrow> storage_inv D s0 \<Longrightarrow> storage_inv D s"
proof (induction rule: storage_run.induct)
  case (create s sz name bs d s')
  then show ?case using ramdisk_create_result [of D s sz _ bs name] by (auto simp: create_outcome_def)
next
  case (destroy s d ok s')
  then show ?case using unregister_inv [of D s d ok s'] by (auto simp: ramdisk_destroy_def split: if_splits)
next
  case (remove s d ok s')
  then show ?case using unregister_inv by blast
next
  case (fetch s d l n r s')
  then show ?case using block_read_frame [of d l n s "(r, s')"] by auto
next
  case (flush s d ok s')
  then show ?case using block_flush_frame [of d s "(ok, s')"] by auto
next
  case (store s l n d data ok s')
  then show ?case using block_write_frame [of d l n data s "(ok, s')"] by auto
qed (simp_all add: register_driver_inv register_partition_inv)

section \<open>Returning\<close>

lemma read_returns_flat: "\<not> is_partition (bdevs s d) \<Longrightarrow> \<exists>y. block_read d l n s = Some y"
  by (subst block_read.simps) (auto simp: is_partition_def Let_def split: option.splits block_device_ops.splits prod.splits)

lemma write_returns_flat: "\<not> is_partition (bdevs s d) \<Longrightarrow> \<exists>y. block_write d l n data s = Some y"
  by (subst block_write.simps) (auto simp: is_partition_def Let_def split: option.splits block_device_ops.splits prod.splits)

lemma flush_returns_flat: "\<not> is_partition (bdevs s d) \<Longrightarrow> \<exists>y. block_flush d s = Some y"
  by (subst block_flush.simps) (auto simp: is_partition_def Let_def split: option.splits block_device_ops.splits prod.splits)

lemma calls_return:
  assumes inv: "table_inv s" and d: "d \<in> set block_slots"
  shows "\<exists>y. block_read d l n s = Some y" "\<exists>y. block_write d l n data s = Some y" "online s d \<Longrightarrow> \<exists>y. block_flush d s = Some y"
proof -
  have flat: "\<not> is_partition (bdevs s (bd_parent (bdevs s d)))" if "online s d" "is_partition (bdevs s d)"
    using root_facts(2) [OF inv that(1)] that(2) by (simp add: root_of_def)
  have off: "bd_state (bdevs s d) \<noteq> BLOCK_DEVICE_ONLINE" if "\<not> online s d" using that d by (simp add: online_def)
  show "\<exists>y. block_read d l n s = Some y"
  proof (cases "is_partition (bdevs s d) \<and> online s d")
    case True
    then have part: "\<exists>y. block_read (bd_parent (bdevs s d)) l' n s = Some y" for l' using flat by (intro read_returns_flat) simp
    have "bd_ops (bdevs s d) = Some Partition_ops" using True by (simp add: is_partition_def)
    then show ?thesis using part by (subst block_read.simps) (auto simp: partition_read_blocks_def)
  next
    case False
    then show ?thesis using off read_returns_flat [of s d l n] by (cases "online s d") (auto simp: block_read.simps)
  qed
  show "\<exists>y. block_write d l n data s = Some y"
  proof (cases "is_partition (bdevs s d) \<and> online s d")
    case True
    then have part: "\<exists>y. block_write (bd_parent (bdevs s d)) l' n data s = Some y" for l' using flat by (intro write_returns_flat) simp
    have "bd_ops (bdevs s d) = Some Partition_ops" using True by (simp add: is_partition_def)
    then show ?thesis using part by (subst block_write.simps) (auto simp: partition_write_blocks_def)
  next
    case False
    then show ?thesis using off write_returns_flat [of s d l n data] by (cases "online s d") (auto simp: block_write.simps)
  qed
  show "\<exists>y. block_flush d s = Some y" if o: "online s d"
  proof (cases "is_partition (bdevs s d)")
    case True
    have "\<exists>y. block_flush (bd_parent (bdevs s d)) s = Some y" using flat [OF o True] by (rule flush_returns_flat)
    moreover have "bd_ops (bdevs s d) = Some Partition_ops" using True by (simp add: is_partition_def)
    ultimately show ?thesis by (subst block_flush.simps) (auto simp: partition_flush_def)
  qed (rule flush_returns_flat)
qed

section \<open>A concrete disk\<close>

definition empty_slot :: "unit block_device" where
  "empty_slot = \<lparr>bd_id = 0, bd_name = [], bd_type = BLOCK_TYPE_UNKNOWN, bd_state = BLOCK_DEVICE_OFFLINE, bd_block_size = 0,
     bd_total_blocks = 0, bd_capacity_bytes = 0, bd_ops = None, bd_private_data = 0, bd_parent = 0, bd_start_lba = 0,
     bd_partition_index = 0, bd_partition_type_mbr = 0, bd_partition_guid = replicate 16 0, bd_has_guid = False\<rparr>"

definition storage_example :: "unit storage_state" where
  "storage_example = heap_state.extend heap_example (storage_state.fields (\<lambda>_. empty_slot) [] 1 True
     (\<lambda>_. \<lparr>rd_buffer = 0, rd_size_bytes = 0, rd_buffer_allocated = False\<rparr>) ())"

lemma storage_example_fields:
  "bdevs storage_example = (\<lambda>_. empty_slot)" "bdev_list storage_example = []" "block_initialized storage_example"
  "heap_inv D storage_example = heap_inv D heap_example" "live storage_example = live heap_example"
  "frames storage_example = frames heap_example" "heap_mapped_bytes storage_example = heap_mapped_bytes heap_example"
  "pt_mem storage_example = pt_mem heap_example" "kernel_pml4_phys storage_example = kernel_pml4_phys heap_example"
  "vmm_initialized storage_example = vmm_initialized heap_example"
proof -
  note defs = storage_example_def heap_state.defs storage_state.defs heap_example_def
  show "bdevs storage_example = (\<lambda>_. empty_slot)" "bdev_list storage_example = []" "block_initialized storage_example"
    "frames storage_example = frames heap_example" "heap_mapped_bytes storage_example = heap_mapped_bytes heap_example"
    "pt_mem storage_example = pt_mem heap_example" "kernel_pml4_phys storage_example = kernel_pml4_phys heap_example"
    "vmm_initialized storage_example = vmm_initialized heap_example"
    by (simp_all add: defs)
  show "heap_inv D storage_example = heap_inv D heap_example" by (rule inv_fields) (simp_all add: defs)
  show "live storage_example = live heap_example" by (rule live_fields) (simp_all add: defs)
qed

lemma storage_example_inv: "storage_inv (data_frames 0x5000 heap_example) storage_example"
proof -
  have "\<not> online storage_example d" for d by (simp add: online_def storage_example_fields empty_slot_def)
  then show ?thesis
    using heap_example_ready(3)
    by (simp add: storage_inv_def table_inv_def disk_def storage_example_fields) (simp add: empty_slot_def)
qed

text \<open>A disk of two sectors can be created on this machine.\<close>

lemma example_alloc:
  "\<exists>p s. kmalloc 1024 storage_example = Some (p, s) \<and> p \<noteq> 0"
proof (rule kmalloc_progress)
  show "heap_inv (data_frames 0x5000 heap_example) storage_example" using heap_example_ready(3) by (simp add: storage_example_fields)
  have "translation p va storage_example = translation p va heap_example" for p va
    by (simp add: translation_def vmm_query_page_in_def Let_def storage_example_fields)
  then show "translation (kernel_pml4_phys storage_example) (heap_page (heap_mapped_page_count storage_example)) storage_example = None"
    using heap_example_room(3) by (simp add: heap_mapped_page_count_def storage_example_fields)
qed (use heap_example_room in \<open>simp_all add: storage_example_fields HEAP_MAXIMUM_BYTES_def\<close>)

lemma disk_example:
  "\<exists>d s. ramdisk_create ''rd0'' 1024 512 storage_example = Some (d, s) \<and> d \<noteq> 0"
proof -
  let ?D = "data_frames 0x5000 heap_example"
  have n: "heap_align_up 1024 HEAP_ALIGNMENT = Some 1024" "heap_align_up RAMDISK_DATA_BYTES HEAP_ALIGNMENT = Some 32" "0 < RAMDISK_DATA_BYTES"
    by (simp_all add: heap_align_up_def HEAP_ALIGNMENT_def RAMDISK_DATA_BYTES_def)
  have H: "heap_inv ?D storage_example" using storage_example_inv by (rule storage_invD)
  have "live storage_example = {}" using heap_example_live by (simp add: storage_example_fields)
  note sh = empty_shape [OF H this]
  obtain b s1 where k: "kmalloc 1024 storage_example = Some (b, s1)" "b \<noteq> 0" using example_alloc by (elim exE conjE)
  obtain m where m: "heap_shape ?D (split_blocks 1024 m) s1" "1024 \<le> m" "(32 + m) mod 4096 = 0"
    using kmalloc_first [OF sh k n(1) zero_less_numeral] by (elim exE conjE) (rule that)
  have "4096 \<le> 32 + m" using m(3) by (intro dvd_imp_le) (simp_all add: dvd_eq_mod_eq_0)
  then have free: "(m - 1056, True) \<in> set (split_blocks 1024 m)" "32 \<le> m - 1056" by (simp_all add: split_blocks_def)
  define s2 where "s2 = s1\<lparr>hmem := store_bytes b (replicate 1024 0) (hmem s1)\<rparr>"
  have "heap_shape ?D (split_blocks 1024 m) s2" using m(1) by (simp add: s2_def)
  then obtain p s3 where k3: "kmalloc RAMDISK_DATA_BYTES s2 = Some (p, s3)" "p \<noteq> 0"
    using kmalloc_fits [OF _ n(2,3) free] by blast
  have T: "bdevs s3 = (\<lambda>_. empty_slot)" "block_initialized s3"
    using kmalloc_storage [OF k(1)] kmalloc_storage [OF k3(1)] by (simp_all add: s2_def storage_example_fields)
  have sl: "block_slots = 1 # [2..<65]" by (simp add: block_slots_def BLOCK_MAX_DEVICES_def upt_rec)
  then have "find_free_slot (s3\<lparr>rdata := R\<rparr>) = 1" for R by (simp add: find_free_slot_def T empty_slot_def sl del: upt_rec_numeral)
  then have "\<exists>s. ramdisk_attach ''rd0'' 512 2 1024 b p s3 = Some (1, s)"
    using T(2) by (simp add: ramdisk_attach_def Let_def block_device_register_def ops_can_read_def)
  moreover have "ramdisk_create ''rd0'' 1024 512 storage_example = ramdisk_attach ''rd0'' 512 2 1024 b p s3"
    using k k3 by (simp add: ramdisk_create_def ramdisk_allocate_def mul64_def s2_def)
  ultimately show ?thesis by auto
qed

section \<open>What the conditions on the callers exclude\<close>

text \<open>A partition whose position wraps around is accepted, and then reaches beyond its parent.\<close>

lemma partition_position_wraps:
  assumes "online s p" and "find_free_slot s \<noteq> 0" and "0 < n" and "a + n = 2 ^ 64 + e"
    and "e \<le> bd_total_blocks (bdevs s p)" and "bd_total_blocks (bdevs s p) < 2 ^ 64"
    and "block_partition_register p i a n pt guid s = (d, s')"
  shows "d \<noteq> 0 \<and> bd_parent (bdevs s' d) = p
    \<and> bd_total_blocks (bdevs s p) < bd_start_lba (bdevs s' d) + bd_total_blocks (bdevs s' d)"
proof -
  have "p \<noteq> 0" using assms(1) slots_pos by (auto simp: online_def)
  have "add64 a n \<le> bd_total_blocks (bdevs s p)"
    using assms(4,5) by (simp add: add64_def)
  with assms \<open>p \<noteq> 0\<close> show ?thesis
    by (auto simp: block_partition_register_def Let_def upd_dev_def)
qed

text \<open>Removing a device unregisters its partitions but not the partitions of those: they stay registered
  with a parent that is not.\<close>

lemma detach_children_state:
  "bdevs (fold (\<lambda>i s. if bd_parent (bdevs s i) = d \<and> bd_state (bdevs s i) \<noteq> BLOCK_DEVICE_OFFLINE then detach_dev i s else s) is s) x
    = (if x \<in> set is \<and> bd_parent (bdevs s x) = d \<and> bd_state (bdevs s x) \<noteq> BLOCK_DEVICE_OFFLINE
       then (bdevs s x)\<lparr>bd_state := BLOCK_DEVICE_OFFLINE, bd_id := 0\<rparr> else bdevs s x)"
  by (induction "is" arbitrary: s) (auto simp: detach_dev_def upd_dev_def)

lemma nested_partition_dangles:
  assumes "online s c" and "online s p" and "g \<noteq> 0" and "p \<noteq> g" and "c \<noteq> g"
    and "bd_parent (bdevs s c) = p" and "bd_parent (bdevs s p) = g"
    and "\<not> is_ramdisk (bdevs s g)" and "block_device_unregister g s = Some (True, s')"
  shows "online s' c \<and> bd_parent (bdevs s' c) = p \<and> \<not> online s' p"
proof -
  define s1 where "s1 = detach_children g s"
  have b: "bdevs s1 x = (if x \<in> set block_slots \<and> bd_parent (bdevs s x) = g \<and> bd_state (bdevs s x) \<noteq> BLOCK_DEVICE_OFFLINE
      then (bdevs s x)\<lparr>bd_state := BLOCK_DEVICE_OFFLINE, bd_id := 0\<rparr> else bdevs s x)" for x
    unfolding s1_def detach_children_def by (rule detach_children_state)
  from assms(9) obtain s2 where d: "destroy_dev g (s1\<lparr>bdev_list := remove1 g (bdev_list s1)\<rparr>) = Some s2"
    and s': "s' = upd_dev g (\<lambda>d. d\<lparr>bd_state := BLOCK_DEVICE_OFFLINE, bd_id := 0, bd_parent := 0\<rparr>) s2"
    by (auto simp: block_device_unregister_def s1_def Let_def split: if_splits bind_splits)
  have "bd_ops (bdevs s1 g) \<noteq> Some Ramdisk_ops" using assms(8) by (simp add: b is_ramdisk_def)
  with d have "bdevs s2 = bdevs s1"
    by (auto simp: destroy_dev_def split: option.splits block_device_ops.splits)
  with s' b assms(1-7) show ?thesis by (auto simp: online_def upd_dev_def)
qed

section \<open>The properties\<close>

text \<open>
  C30. The storage layer keeps its tables well formed. After any sequence of registering, creating,
  removing, reading, writing and flushing devices in which partitions are only registered on registered
  devices that are no partitions, at positions that do not wrap around, and no write wraps around: the
  list of devices holds each registered device once; a registered device has blocks; a partition lies
  within a registered device that is no partition and has its block size; and a RAM disk owns an
  allocation of the heap that holds all its blocks, which no other RAM disk owns.
\<close>

theorem storage_well_formed:
  assumes "storage_inv D s0" and "storage_run s0 s"
  shows "distinct (bdev_list s) \<and> set (bdev_list s) = {d. online s d}
    \<and> (\<forall>d. online s d \<longrightarrow> 0 < bd_block_size (bdevs s d) \<and> 0 < bd_total_blocks (bdevs s d)
         \<and> (is_partition (bdevs s d) \<longrightarrow> online s (bd_parent (bdevs s d)) \<and> \<not> is_partition (bdevs s (bd_parent (bdevs s d)))
              \<and> bd_start_lba (bdevs s d) + bd_total_blocks (bdevs s d) \<le> bd_total_blocks (bdevs s (bd_parent (bdevs s d)))
              \<and> bd_block_size (bdevs s d) = bd_block_size (bdevs s (bd_parent (bdevs s d))))
         \<and> (is_ramdisk (bdevs s d) \<longrightarrow> (\<exists>m \<ge> dev_size s d. (buf s d, m) \<in> live s)
              \<and> (\<forall>d'. online s d' \<and> is_ramdisk (bdevs s d') \<and> d' \<noteq> d \<longrightarrow>
                   buf s d + dev_size s d \<le> buf s d' \<or> buf s d' + dev_size s d' \<le> buf s d)))"
proof -
  note I = storage_run_inv [OF assms(2,1)]
  note T = storage_invD(2) [OF I]
  have "dev_ok s d" if "online s d" for d using that T by (simp add: table_inv_def)
  moreover have "(\<exists>m \<ge> dev_size s d. (buf s d, m) \<in> live s) \<and> (\<forall>d'. online s d' \<and> is_ramdisk (bdevs s d') \<and> d' \<noteq> d \<longrightarrow>
      buf s d + dev_size s d \<le> buf s d' \<or> buf s d' + dev_size s d' \<le> buf s d)" if "online s d" "is_ramdisk (bdevs s d)" for d
    using that storage_invD(3) [OF I, of d] disk_facts(6) [OF I, of d] by (auto simp: disk_def disk_ok_def)
  ultimately show ?thesis using T by (simp add: table_inv_def dev_ok_def Let_def)
qed

theorem storage_well_formed_witness:
  "\<exists>d s. d \<noteq> 0 \<and> storage_run storage_example s \<and> ramdisk_create ''rd0'' 1024 512 storage_example = Some (d, s) \<and> distinct (bdev_list s)"
proof -
  obtain d s where c: "ramdisk_create ''rd0'' 1024 512 storage_example = Some (d, s)" "d \<noteq> 0" using disk_example by (elim exE conjE)
  have "storage_run storage_example s" by (rule storage_run.create [OF storage_run.start _ c(1)]) simp
  then show ?thesis using c storage_well_formed [OF storage_example_inv] by blast
qed

text \<open>
  C31. Reading and writing a device whose blocks are on a RAM disk, directly or through a partition, for
  every position and number of blocks. Within the device, a read returns the bytes of the blocks asked
  for and a write replaces exactly those bytes, and no device on another disk or on other blocks of the
  same disk sees a change. For no blocks, and beyond the end, both calls are refused and change nothing,
  with one exception: the end of the request is computed modulo \<open>2 ^ 64\<close>, and a request that passes
  \<open>2 ^ 64\<close> with an end that wraps around into the device is carried out.
\<close>

theorem block_io_correct:
  assumes "storage_inv D s" and "online s d" and "disk s (root_of s d)"
    and "bs = bd_block_size (bdevs s d)" and "length data = n * bs"
  shows "if 0 < n \<and> l + n \<le> bd_total_blocks (bdevs s d)
    then block_read d l n s = Some (Some (take (n * bs) (drop (l * bs) (dev_bytes s d))), s)
      \<and> (\<exists>s'. block_write d l n data s = Some (True, s') \<and> storage_inv D s'
           \<and> dev_bytes s' d = take (l * bs) (dev_bytes s d) @ data @ drop ((l + n) * bs) (dev_bytes s d)
           \<and> (\<forall>d'. online s d' \<and> disk s (root_of s d') \<and> devs_apart s d d' \<longrightarrow> dev_bytes s' d' = dev_bytes s d'))
    else if 0 < n \<and> 2 ^ 64 \<le> l + n \<and> (l + n) mod 2 ^ 64 \<le> bd_total_blocks (bdevs s d)
    then (\<exists>x. block_read d l n s = Some (Some x, s)) \<and> (\<exists>s'. block_write d l n data s = Some (True, s'))
    else block_read d l n s = Some (None, s) \<and> block_write d l n data s = Some (False, s)"
proof -
  consider (inside) "0 < n \<and> l + n \<le> bd_total_blocks (bdevs s d)" | (nothing) "n = 0"
    | (beyond) "0 < n" "\<not> l + n \<le> bd_total_blocks (bdevs s d)" by auto
  then show ?thesis
  proof cases
    case inside
    have len: "length data = n * bd_block_size (bdevs s d)" using assms(4,5) by simp
    have fit: "l * bd_block_size (bdevs s d) + length data \<le> dev_size s d" using blocks_in_size [of l n s d] inside len by simp
    show ?thesis
      using inside assms(1) block_read_disk [OF assms(1-3)] block_write_disk [OF assms(1-3) _ _ len] write_own_bytes [OF fit]
        write_other_bytes [OF assms(1-3) _ _ _ fit] len unfolding assms(4) by (simp add: add_mult_distrib)
  next
    case nothing
    then show ?thesis by (simp add: block_read.simps [of d] block_write.simps [of d])
  next
    case beyond
    have "add64 l n \<le> bd_total_blocks (bdevs s d) \<longleftrightarrow> 2 ^ 64 \<le> l + n \<and> (l + n) mod 2 ^ 64 \<le> bd_total_blocks (bdevs s d)"
      using beyond(2) add64_exact [of l n] by (cases "l + n < 2 ^ 64") (simp_all add: add64_def)
    with beyond wrapped_accepted [OF assms(1-3) beyond(1)] beyond_refused [of s d l n] show ?thesis
      by (auto simp: not_le)
  qed
qed

theorem block_io_correct_witness:
  "\<exists>d s. ramdisk_create ''rd0'' 1024 512 storage_example = Some (d, s)
     \<and> block_read d 1 1 s = Some (Some (replicate 512 0), s) \<and> block_read d 1 2 s = Some (None, s)"
proof -
  obtain d s where c: "ramdisk_create ''rd0'' 1024 512 storage_example = Some (d, s)" "d \<noteq> 0" using disk_example by (elim exE conjE)
  have O: "create_outcome (data_frames 0x5000 heap_example) 2 512 d storage_example s"
    using ramdisk_create_result [OF storage_example_inv, of 1024 512 512 "''rd0''"] c(1) by simp
  then have I: "storage_inv (data_frames 0x5000 heap_example) s" and C: "created 1024 2 512 d storage_example s"
    using c(2) by (simp_all add: create_outcome_def)
  have B: "online s d" "disk s (root_of s d)" "bd_total_blocks (bdevs s d) = 2" "bd_block_size (bdevs s d) = 512" "dev_bytes s d = replicate 1024 0"
    using C by (auto simp: created_def disk_def root_of_def is_ramdisk_def is_partition_def)
  show ?thesis
    using c block_io_correct [OF I B(1,2), of 512 "replicate 512 0" 1 1] block_io_correct [OF I B(1,2), of 512 "replicate 1024 0" 2 1] B(3-5)
    by auto
qed

text \<open>
  C32. Every read and write of a device of the table returns, registered or not, and so does flushing a
  registered device: the chain of parents that the calls follow ends, whatever has been registered and
  removed before, as long as partitions were only registered on registered devices that are no
  partitions, at positions that do not wrap around, and no write wrapped around.
\<close>

theorem block_calls_return:
  assumes "storage_inv D s0" and "storage_run s0 s" and "d \<in> set block_slots"
  shows "(\<exists>r. block_read d l n s = Some r) \<and> (\<exists>r. block_write d l n data s = Some r)
    \<and> (online s d \<longrightarrow> (\<exists>r. block_flush d s = Some r))"
  using calls_return [OF storage_invD(2) [OF storage_run_inv [OF assms(2,1)]] assms(3)] by blast

theorem block_calls_return_witness: "\<exists>r. block_read 1 0 1 storage_example = Some r"
  using block_calls_return [OF storage_example_inv storage_run.start, of 1] by (simp add: block_slots_def BLOCK_MAX_DEVICES_def)

text \<open>
  C33. Creating a RAM disk always returns. Either there is no device and all memory is given back, or
  there is a new device of the size asked for, rounded down to whole blocks, with every byte zero, and
  destroying it removes the device and gives back exactly its memory. The contents of the other devices
  survive both.
\<close>

theorem ramdisk_create_destroy:
  assumes inv: "storage_inv D s" and "sz < 2 ^ 64" and bs: "bs = (if bs0 = 0 then 512 else bs0)"
  shows "\<exists>d s1. ramdisk_create name sz bs0 s = Some (d, s1) \<and> storage_inv D s1
    \<and> (d = 0 \<longrightarrow> live s1 = live s \<and> online s1 = online s)
    \<and> (d \<noteq> 0 \<longrightarrow> online s1 = (\<lambda>x. x = d \<or> online s x) \<and> dev_bytes s1 d = replicate (sz div bs * bs) 0
         \<and> (\<exists>s2. ramdisk_destroy d s1 = Some (True, s2) \<and> storage_inv D s2 \<and> live s2 = live s \<and> online s2 = online s))
    \<and> (\<forall>x. online s x \<and> disk s (root_of s x) \<longrightarrow> dev_bytes s1 x = dev_bytes s x)"
proof -
  obtain d s1 where c: "ramdisk_create name sz bs0 s = Some (d, s1)" and O: "create_outcome D (sz div bs) bs d s s1"
    using ramdisk_create_result [OF assms, of name] by (elim exE conjE)
  then have I1: "storage_inv D s1" and K: "allocations_kept s s1" "\<forall>x. online s x \<longrightarrow> bdevs s1 x = bdevs s x"
    "\<forall>x. disk s x \<longrightarrow> buf s1 x = buf s x \<and> priv s1 x = priv s x"
    by (simp_all add: create_outcome_def)
  have kept: "dev_bytes s1 x = dev_bytes s x" if "online s x \<and> disk s (root_of s x)" for x
    using kept_bytes [OF inv _ _ K(1)] K(2,3) that by simp
  have made: "online s1 = (\<lambda>x. x = d \<or> online s x) \<and> dev_bytes s1 d = replicate (sz div bs * bs) 0
      \<and> (\<exists>s2. ramdisk_destroy d s1 = Some (True, s2) \<and> storage_inv D s2 \<and> live s2 = live s \<and> online s2 = online s)" if d: "d \<noteq> 0"
  proof -
    have "created (sz div bs * bs) (sz div bs) bs d s s1" using O d by (simp add: create_outcome_def)
    then obtain m k where C: "disk s1 d" "\<not> online s d" "online s1 = (\<lambda>x. x = d \<or> online s x)" "bd_type (bdevs s1 d) = BLOCK_TYPE_RAMDISK"
      "dev_bytes s1 d = replicate (sz div bs * bs) 0" "live s1 = insert (buf s1 d, m) (insert (priv s1 d, k) (live s))"
      "\<forall>j. (buf s1 d, j) \<notin> live s \<and> (priv s1 d, j) \<notin> live s" unfolding created_def by (elim exE conjE)
    have o: "online s1 d" using C(3) by simp
    obtain s2 where u: "block_device_unregister d s1 = Some (True, s2)" "storage_inv D s2"
      "\<forall>x. online s2 x \<longleftrightarrow> online s1 x \<and> x \<noteq> d \<and> bd_parent (bdevs s1 x) \<noteq> d"
      "live s2 = {(q, m) \<in> live s1. \<not> (disk s1 d \<and> (q = buf s1 d \<or> q = priv s1 d))}"
      using unregister_result [OF I1 o] by (elim exE conjE) (rule that)
    have "live s2 = live s" using u(4) C(1,6,7) by auto
    moreover have "bd_parent (bdevs s1 x) \<noteq> d" if "online s x" for x
      using parent_online [OF storage_invD(2) [OF inv] that] K(2) that C(2) d by auto
    then have "online s2 = online s" using u(3) C(2,3) by (auto simp: fun_eq_iff)
    ultimately show ?thesis using u(1,2) C(3,4,5) d by (simp add: ramdisk_destroy_def)
  qed
  show ?thesis
    using c I1 kept made O by (intro exI [of _ d] exI [of _ s1]) (simp add: create_outcome_def)
qed

theorem ramdisk_create_destroy_witness:
  "\<exists>d s1. ramdisk_create ''rd0'' 1024 512 storage_example = Some (d, s1) \<and> d \<noteq> 0 \<and> dev_bytes s1 d = replicate 1024 0"
proof -
  obtain d s where c: "ramdisk_create ''rd0'' 1024 512 storage_example = Some (d, s)" "d \<noteq> 0" using disk_example by (elim exE conjE)
  then show ?thesis using ramdisk_create_destroy [OF storage_example_inv, of 1024 512 512 "''rd0''"] by auto
qed

end
