(* ===== verification/KOS_Cache.thy ===== *)
theory KOS_Cache
  imports KOS_Block_Safety
begin

text \<open>
  The block cache (\<open>src/fs/block_cache.c\<close>, \<open>src/include/kos/block_cache.h\<close>): 512 sectors with a list in
  order of use, a hash table for the search, and writing back on eviction and on request.

  The entries are numbered; the intrusive lists are the sequences of the numbers of their entries, the
  most recently used first. Unlinking an entry from the hash table takes it out of the chain it is in.
  The lock around each call makes it one transformer of the state, which extends that of the block
  layer. The tick counter that stamps an access is a field the timer advances.
\<close>

unbundle bit_operations_syntax

definition BLOCK_CACHE_CAPACITY :: nat where "BLOCK_CACHE_CAPACITY = 512"
definition BLOCK_CACHE_HASH_SIZE :: nat where "BLOCK_CACHE_HASH_SIZE = 128"

record block_cache_stats =
  st_hits :: nat
  st_misses :: nat
  st_reads :: nat
  st_writes :: nat
  st_flushes :: nat
  st_evictions :: nat

record cache_entry =
  ce_dev :: nat
  ce_lba :: nat
  ce_data :: "u8 list"
  ce_valid :: bool
  ce_dirty :: bool
  ce_last_access :: nat

record 'hw block_cache_state = "'hw storage_state" +
  cents :: "nat \<Rightarrow> cache_entry"
  lru_list :: "nat list"
  hash_table :: "nat \<Rightarrow> nat list"
  cstats :: block_cache_stats
  cache_initialized :: bool
  timer_ticks :: nat

definition cache_hash :: "nat \<Rightarrow> nat \<Rightarrow> nat" where
  "cache_hash dev_id lba =
     (let key = push_bit 48 (of_nat dev_id :: u64) XOR of_nat lba;
          key = NOT key + push_bit 18 key;
          key = key XOR drop_bit 31 key;
          key = key * 21;
          key = key XOR drop_bit 11 key;
          key = key + push_bit 6 key;
          key = key XOR drop_bit 22 key
      in unat (key mod of_nat BLOCK_CACHE_HASH_SIZE))"

definition upd_entry :: "nat \<Rightarrow> (cache_entry \<Rightarrow> cache_entry) \<Rightarrow>
    ('hw, 'a) block_cache_state_scheme \<Rightarrow> ('hw, 'a) block_cache_state_scheme" where
  "upd_entry i f s = s\<lparr>cents := (cents s)(i := f (cents s i))\<rparr>"

definition hash_unlink :: "nat \<Rightarrow> ('hw, 'a) block_cache_state_scheme \<Rightarrow> ('hw, 'a) block_cache_state_scheme" where
  "hash_unlink i s = s\<lparr>hash_table := (\<lambda>b. remove1 i (hash_table s b))\<rparr>"

definition lru_to_front :: "nat \<Rightarrow> ('hw, 'a) block_cache_state_scheme \<Rightarrow> ('hw, 'a) block_cache_state_scheme" where
  "lru_to_front i s = s\<lparr>lru_list := i # remove1 i (lru_list s)\<rparr>"

definition block_cache_init :: "('hw, 'a) block_cache_state_scheme \<Rightarrow> bool \<times> ('hw, 'a) block_cache_state_scheme" where
  "block_cache_init s = (True, s\<lparr>lru_list := [0..<BLOCK_CACHE_CAPACITY], hash_table := (\<lambda>_. []),
     cstats := \<lparr>st_hits = 0, st_misses = 0, st_reads = 0, st_writes = 0, st_flushes = 0, st_evictions = 0\<rparr>,
     cents := (\<lambda>i. if i < BLOCK_CACHE_CAPACITY
                   then (cents s i)\<lparr>ce_dev := 0, ce_lba := 0, ce_valid := False, ce_dirty := False, ce_last_access := 0\<rparr>
                   else cents s i),
     cache_initialized := True\<rparr>)"

definition cache_lookup_locked :: "nat \<Rightarrow> nat \<Rightarrow> ('hw, 'a) block_cache_state_scheme \<Rightarrow> nat option" where
  "cache_lookup_locked dev lba s =
     find (\<lambda>i. ce_valid (cents s i) \<and> ce_dev (cents s i) = dev \<and> ce_lba (cents s i) = lba)
       (hash_table s (cache_hash (bd_id (bdevs s dev)) lba))"

definition count_stat :: "(block_cache_stats \<Rightarrow> block_cache_stats) \<Rightarrow>
    ('hw, 'a) block_cache_state_scheme \<Rightarrow> ('hw, 'a) block_cache_state_scheme" where
  "count_stat f s = s\<lparr>cstats := f (cstats s)\<rparr>"

definition cache_flush_entry_locked :: "nat \<Rightarrow> ('hw, 'a) block_cache_state_scheme \<Rightarrow>
    (bool \<times> ('hw, 'a) block_cache_state_scheme) option" where
  "cache_flush_entry_locked i s =
     (if \<not> ce_valid (cents s i) \<or> \<not> ce_dirty (cents s i) \<or> ce_dev (cents s i) = 0 then Some (True, s)
      else do {
        (ok, s1) \<leftarrow> block_write (ce_dev (cents s i)) (ce_lba (cents s i)) 1 (ce_data (cents s i)) s;
        Some (ok, if ok then count_stat (\<lambda>t. t\<lparr>st_flushes := add64 (st_flushes t) 1\<rparr>)
                               (upd_entry i (\<lambda>e. e\<lparr>ce_dirty := False\<rparr>) s1)
                  else s1) })"

definition cache_evict :: "nat \<Rightarrow> ('hw, 'a) block_cache_state_scheme \<Rightarrow> ('hw, 'a) block_cache_state_scheme option" where
  "cache_evict i s = do {
     s1 \<leftarrow> (if ce_dirty (cents s i) then do { (_, s1) \<leftarrow> cache_flush_entry_locked i s; Some s1 } else Some s);
     Some (count_stat (\<lambda>t. t\<lparr>st_evictions := add64 (st_evictions t) 1\<rparr>)
             (upd_entry i (\<lambda>e. e\<lparr>ce_valid := False\<rparr>) (hash_unlink i s1))) }"

definition cache_assign :: "nat \<Rightarrow> nat \<Rightarrow> nat \<Rightarrow> ('hw, 'a) block_cache_state_scheme \<Rightarrow> ('hw, 'a) block_cache_state_scheme" where
  "cache_assign i dev lba s =
     (let s1 = upd_entry i (\<lambda>e. e\<lparr>ce_dev := dev, ce_lba := lba, ce_dirty := False, ce_valid := False,
                                   ce_last_access := timer_ticks s\<rparr>) s;
          bucket = cache_hash (bd_id (bdevs s1 dev)) lba;
          s2 = s1\<lparr>hash_table := (hash_table s1)(bucket := i # hash_table s1 bucket)\<rparr>
      in lru_to_front i s2)"

definition cache_allocate_slot_locked :: "nat \<Rightarrow> nat \<Rightarrow> ('hw, 'a) block_cache_state_scheme \<Rightarrow>
    (nat option \<times> ('hw, 'a) block_cache_state_scheme) option" where
  "cache_allocate_slot_locked dev lba s =
     (case find (\<lambda>i. \<not> ce_valid (cents s i)) (rev (lru_list s)) of
        Some i \<Rightarrow> Some (Some i, cache_assign i dev lba s)
      | None \<Rightarrow>
          (if lru_list s = [] then Some (None, s)
           else do {
             let i = last (lru_list s);
             s1 \<leftarrow> cache_evict i s;
             Some (Some i, cache_assign i dev lba s1) }))"

definition cache_touch_locked :: "nat \<Rightarrow> ('hw, 'a) block_cache_state_scheme \<Rightarrow> ('hw, 'a) block_cache_state_scheme" where
  "cache_touch_locked i s = lru_to_front i (upd_entry i (\<lambda>e. e\<lparr>ce_last_access := timer_ticks s\<rparr>) s)"

section \<open>Reading and writing\<close>

definition cache_read_miss :: "nat \<Rightarrow> nat \<Rightarrow> ('hw, 'a) block_cache_state_scheme \<Rightarrow>
    (u8 list option \<times> ('hw, 'a) block_cache_state_scheme) option" where
  "cache_read_miss dev cur_lba s = do {
     (slot, s1) \<leftarrow> cache_allocate_slot_locked dev cur_lba s;
     (case slot of
        None \<Rightarrow> block_read dev cur_lba 1 s1
      | Some i \<Rightarrow> do {
          (r, s2) \<leftarrow> block_read dev cur_lba 1 s1;
          (case r of
             None \<Rightarrow> Some (None, hash_unlink i (upd_entry i (\<lambda>e. e\<lparr>ce_valid := False\<rparr>) s2))
           | Some data \<Rightarrow> Some (Some (take BLOCK_DEFAULT_SECTOR_SIZE data),
               upd_entry i (\<lambda>e. e\<lparr>ce_data := data, ce_valid := True, ce_dirty := False\<rparr>) s2)) }) }"

definition cache_read_sector :: "nat \<Rightarrow> nat \<Rightarrow> ('hw, 'a) block_cache_state_scheme \<Rightarrow>
    (u8 list option \<times> ('hw, 'a) block_cache_state_scheme) option" where
  "cache_read_sector dev cur_lba s0 =
     (let s = count_stat (\<lambda>t. t\<lparr>st_reads := add64 (st_reads t) 1\<rparr>) s0 in
      case cache_lookup_locked dev cur_lba s of
        Some i \<Rightarrow>
          (let s1 = count_stat (\<lambda>t. t\<lparr>st_hits := add64 (st_hits t) 1\<rparr>) s
           in Some (Some (take BLOCK_DEFAULT_SECTOR_SIZE (ce_data (cents s1 i))), cache_touch_locked i s1))
      | None \<Rightarrow> cache_read_miss dev cur_lba (count_stat (\<lambda>t. t\<lparr>st_misses := add64 (st_misses t) 1\<rparr>) s))"

fun cache_read_loop :: "nat \<Rightarrow> nat \<Rightarrow> nat \<Rightarrow> nat \<Rightarrow> ('hw, 'a) block_cache_state_scheme \<Rightarrow>
    (u8 list option \<times> ('hw, 'a) block_cache_state_scheme) option" where
  "cache_read_loop dev lba i 0 s = Some (Some [], s)"
| "cache_read_loop dev lba i (Suc n) s = do {
     (r, s1) \<leftarrow> cache_read_sector dev (add64 lba i) s;
     (case r of None \<Rightarrow> Some (None, s1)
      | Some data \<Rightarrow> do {
          (rest, s2) \<leftarrow> cache_read_loop dev lba (Suc i) n s1;
          Some (map_option (\<lambda>bytes. data @ bytes) rest, s2) }) }"

definition block_cache_read :: "nat \<Rightarrow> nat \<Rightarrow> nat \<Rightarrow> ('hw, 'a) block_cache_state_scheme \<Rightarrow>
    (u8 list option \<times> ('hw, 'a) block_cache_state_scheme) option" where
  "block_cache_read dev lba count s =
     (if \<not> cache_initialized s \<or> dev = 0 \<or> count = 0 then Some (None, s) else cache_read_loop dev lba 0 count s)"

definition cache_fill :: "nat \<Rightarrow> u8 list \<Rightarrow> ('hw, 'a) block_cache_state_scheme \<Rightarrow> ('hw, 'a) block_cache_state_scheme" where
  "cache_fill i src s =
     cache_touch_locked i (upd_entry i (\<lambda>e. e\<lparr>ce_data := take BLOCK_DEFAULT_SECTOR_SIZE src, ce_dirty := True\<rparr>) s)"

definition cache_write_sector :: "nat \<Rightarrow> nat \<Rightarrow> u8 list \<Rightarrow> ('hw, 'a) block_cache_state_scheme \<Rightarrow>
    (bool \<times> ('hw, 'a) block_cache_state_scheme) option" where
  "cache_write_sector dev cur_lba src s0 =
     (let s = count_stat (\<lambda>t. t\<lparr>st_writes := add64 (st_writes t) 1\<rparr>) s0 in
      case cache_lookup_locked dev cur_lba s of
        Some i \<Rightarrow> Some (True, cache_fill i src s)
      | None \<Rightarrow> do {
          (slot, s1) \<leftarrow> cache_allocate_slot_locked dev cur_lba s;
          (case slot of
             None \<Rightarrow> block_write dev cur_lba 1 src s1
           | Some i \<Rightarrow> Some (True, cache_fill i src (upd_entry i (\<lambda>e. e\<lparr>ce_valid := True\<rparr>) s1))) })"

fun cache_write_loop :: "nat \<Rightarrow> nat \<Rightarrow> nat \<Rightarrow> nat \<Rightarrow> u8 list \<Rightarrow> ('hw, 'a) block_cache_state_scheme \<Rightarrow>
    (bool \<times> ('hw, 'a) block_cache_state_scheme) option" where
  "cache_write_loop dev lba i 0 src s = Some (True, s)"
| "cache_write_loop dev lba i (Suc n) src s = do {
     (ok, s1) \<leftarrow> cache_write_sector dev (add64 lba i) src s;
     if ok then cache_write_loop dev lba (Suc i) n (drop BLOCK_DEFAULT_SECTOR_SIZE src) s1 else Some (False, s1) }"

definition block_cache_write :: "nat \<Rightarrow> nat \<Rightarrow> nat \<Rightarrow> u8 list \<Rightarrow> ('hw, 'a) block_cache_state_scheme \<Rightarrow>
    (bool \<times> ('hw, 'a) block_cache_state_scheme) option" where
  "block_cache_write dev lba count buffer s =
     (if \<not> cache_initialized s \<or> dev = 0 \<or> count = 0 then Some (False, s) else cache_write_loop dev lba 0 count buffer s)"

section \<open>Writing back\<close>

fun flush_entries :: "nat \<Rightarrow> nat list \<Rightarrow> bool \<Rightarrow> ('hw, 'a) block_cache_state_scheme \<Rightarrow>
    (bool \<times> ('hw, 'a) block_cache_state_scheme) option" where
  "flush_entries dev [] all_ok s = Some (all_ok, s)"
| "flush_entries dev (i # is) all_ok s =
     (if ce_valid (cents s i) \<and> ce_dirty (cents s i) \<and> (dev = 0 \<or> ce_dev (cents s i) = dev)
      then do { (ok, s1) \<leftarrow> cache_flush_entry_locked i s; flush_entries dev is (all_ok \<and> ok) s1 }
      else flush_entries dev is all_ok s)"

definition block_cache_flush_device :: "nat \<Rightarrow> ('hw, 'a) block_cache_state_scheme \<Rightarrow>
    (bool \<times> ('hw, 'a) block_cache_state_scheme) option" where
  "block_cache_flush_device dev s =
     (if \<not> cache_initialized s then Some (False, s)
      else do {
        (all_ok, s1) \<leftarrow> flush_entries dev [0..<BLOCK_CACHE_CAPACITY] True s;
        if dev \<noteq> 0 then do { (_, s2) \<leftarrow> block_flush dev s1; Some (all_ok, s2) } else Some (all_ok, s1) })"

definition block_cache_sync :: "('hw, 'a) block_cache_state_scheme \<Rightarrow> (bool \<times> ('hw, 'a) block_cache_state_scheme) option" where
  "block_cache_sync s = block_cache_flush_device 0 s"

definition drop_entry :: "nat \<Rightarrow> ('hw, 'a) block_cache_state_scheme \<Rightarrow> ('hw, 'a) block_cache_state_scheme option" where
  "drop_entry i s = do {
     s1 \<leftarrow> (if ce_dirty (cents s i) then do { (_, s1) \<leftarrow> cache_flush_entry_locked i s; Some s1 } else Some s);
     Some (upd_entry i (\<lambda>e. e\<lparr>ce_valid := False, ce_dirty := False, ce_dev := 0\<rparr>) (hash_unlink i s1)) }"

fun drop_entries :: "nat \<Rightarrow> nat list \<Rightarrow> ('hw, 'a) block_cache_state_scheme \<Rightarrow> ('hw, 'a) block_cache_state_scheme option" where
  "drop_entries dev [] s = Some s"
| "drop_entries dev (i # is) s =
     (if ce_valid (cents s i) \<and> ce_dev (cents s i) = dev
      then do { s1 \<leftarrow> drop_entry i s; drop_entries dev is s1 }
      else drop_entries dev is s)"

definition block_cache_invalidate_device :: "nat \<Rightarrow> ('hw, 'a) block_cache_state_scheme \<Rightarrow>
    ('hw, 'a) block_cache_state_scheme option" where
  "block_cache_invalidate_device dev s =
     (if \<not> cache_initialized s \<or> dev = 0 then Some s else drop_entries dev [0..<BLOCK_CACHE_CAPACITY] s)"

definition block_cache_get_stats :: "('hw, 'a) block_cache_state_scheme \<Rightarrow> block_cache_stats" where
  "block_cache_get_stats s = cstats s"

end
