(* ===== verification/KOS_Cache_Correct.thy ===== *)
theory KOS_Cache_Correct
  imports KOS_Cache
begin

text \<open>
  The cache in front of a family of devices: its representation invariant, the contents it shows, and
  what each step of the cache does to them.
\<close>

section \<open>The storage below the cache\<close>

lemma storage_cong:
  assumes "pt_mem s' = pt_mem s" "frames s' = frames s" "kernel_pml4_phys s' = kernel_pml4_phys s"
    "vmm_initialized s' = vmm_initialized s" "heap_first s' = heap_first s" "heap_last s' = heap_last s" "hblk s' = hblk s"
    "heap_mapped_bytes s' = heap_mapped_bytes s" "heap_active s' = heap_active s" "heap_initialized s' = heap_initialized s"
    "bdevs s' = bdevs s" "bdev_list s' = bdev_list s" "block_initialized s' = block_initialized s" "rdata s' = rdata s"
  shows "storage_inv D s' = storage_inv D s" "online s' = online s" "disk s' = disk s" "root_of s' = root_of s"
    "dev_range s' = dev_range s" "devs_apart s' = devs_apart s" "hmem s' = hmem s \<Longrightarrow> dev_bytes s' = dev_bytes s"
proof -
  note T = table_fields [OF assms(11-13)]
  have H: "heap_inv D s' = heap_inv D s" "live s' = live s" using inv_fields [of s' s D] live_fields [of s' s] assms by simp_all
  show O: "online s' = online s" "disk s' = disk s" "root_of s' = root_of s" using T by (simp_all add: fun_eq_iff disk_def root_of_def assms)
  have B: "priv s' = priv s" "buf s' = buf s" "dev_size s' = dev_size s" "base_of s' = base_of s"
    by (simp_all add: fun_eq_iff priv_def buf_def dev_size_def base_of_def assms)
  show R: "dev_range s' = dev_range s" by (simp add: fun_eq_iff dev_range_def B assms)
  show "devs_apart s' = devs_apart s" by (simp add: fun_eq_iff devs_apart_def R O)
  show "storage_inv D s' = storage_inv D s" by (simp add: storage_inv_def H T O B disk_ok_def assms)
  show "hmem s' = hmem s \<Longrightarrow> dev_bytes s' = dev_bytes s" by (rule ext) (simp add: dev_bytes_def dev_addr_def B O assms)
qed

definition sector :: "('hw, 'a) storage_state_scheme \<Rightarrow> nat \<Rightarrow> nat \<Rightarrow> u8 list" where
  "sector s d l = take 512 (drop (l * 512) (dev_bytes s d))"

text \<open>A family of devices with sectors of 512 bytes on RAM disks, no two of which share a block.\<close>

definition family :: "nat set \<Rightarrow> ('hw, 'a) storage_state_scheme \<Rightarrow> bool" where
  "family K s \<longleftrightarrow> (\<forall>d \<in> K. online s d \<and> disk s (root_of s d) \<and> bd_block_size (bdevs s d) = 512)
     \<and> (\<forall>d \<in> K. \<forall>d' \<in> K. d \<noteq> d' \<longrightarrow> devs_apart s d d')"

abbreviation blocks_of :: "('hw, 'a) storage_state_scheme \<Rightarrow> nat \<Rightarrow> nat" where
  "blocks_of s d \<equiv> bd_total_blocks (bdevs s d)"

lemma familyD:
  assumes "family K s" "d \<in> K"
  shows "online s d" "disk s (root_of s d)" "bd_block_size (bdevs s d) = 512" "d' \<in> K \<Longrightarrow> d \<noteq> d' \<Longrightarrow> devs_apart s d d'" "0 < d"
  using assms slots_pos by (auto simp: family_def online_def)

lemma sector_length: "bd_block_size (bdevs s d) = 512 \<Longrightarrow> l < blocks_of s d \<Longrightarrow> length (sector s d l) = 512"
  by (auto simp: sector_def dev_size_def)

lemma read_sector:
  assumes "storage_inv D s" "family K s" "d \<in> K" "l < blocks_of s d"
  shows "block_read d l 1 s = Some (Some (sector s d l), s)"
  using block_read_disk [OF assms(1) familyD(1,2) [OF assms(2,3)], of 1 l] familyD(3) [OF assms(2,3)] assms(4)
  by (simp add: sector_def)

lemma splice_sector:
  assumes "length xs = n * 512" "l < n" "l' < n" "length b = 512"
  shows "take 512 (drop (l' * 512) (take (l * 512) xs @ b @ drop (l * 512 + 512) xs)) = (if l' = l then b else take 512 (drop (l' * 512) xs))"
proof -
  have len: "l * 512 + 512 \<le> length xs" "l' * 512 + 512 \<le> length xs" using assms by simp_all
  consider "l' < l" | "l' = l" | "l < l'" by linarith
  then show ?thesis
  proof cases
    assume "l' < l"
    then have "l' * 512 + 512 \<le> l * 512" by simp
    then show ?thesis using \<open>l' < l\<close> len assms(4) by (simp add: take_drop min_def)
  next
    assume "l < l'"
    then obtain j where "l' = Suc (l + j)" using less_imp_Suc_add by blast
    then have "l' * 512 = l * 512 + 512 + j * 512" by simp
    then show ?thesis using \<open>l < l'\<close> len assms(4) by (simp add: min_def ac_simps)
  qed (use len assms(4) in \<open>simp add: min_def\<close>)
qed

lemma write_sector:
  assumes inv: "storage_inv D s" and K: "family K s" "d \<in> K" and l: "l < blocks_of s d" and len: "length b = 512"
  shows "\<exists>m. block_write d l 1 b s = Some (True, s\<lparr>hmem := m\<rparr>)
    \<and> (\<forall>d' \<in> K. \<forall>l' < blocks_of s d'. sector (s\<lparr>hmem := m\<rparr>) d' l' = (if d' = d \<and> l' = l then b else sector s d' l'))"
proof -
  note F = familyD [OF K]
  define m where "m = store_bytes (dev_addr s d + l * 512) b (hmem s)"
  have w: "block_write d l 1 b s = Some (True, s\<lparr>hmem := m\<rparr>)"
    using block_write_disk [OF inv F(1,2), of 1 l b] l len F(3) by (simp add: m_def)
  have fit: "l * bd_block_size (bdevs s d) + length b \<le> dev_size s d" using l len F(3) by (simp add: dev_size_def)
  have own: "dev_bytes (s\<lparr>hmem := m\<rparr>) d = take (l * 512) (dev_bytes s d) @ b @ drop (l * 512 + 512) (dev_bytes s d)"
    using write_own_bytes [OF fit] F(3) len by (simp add: m_def)
  have "sector (s\<lparr>hmem := m\<rparr>) d' l' = (if d' = d \<and> l' = l then b else sector s d' l')" if d': "d' \<in> K" "l' < blocks_of s d'" for d' l'
  proof (cases "d' = d")
    case True
    have "length (dev_bytes s d) = blocks_of s d * 512" using F(3) by (simp add: dev_size_def)
    from splice_sector [OF this l _ len, of l'] show ?thesis using True d'(2) by (simp add: sector_def own)
  next
    case False
    note F' = familyD [OF K(1) d'(1)]
    show ?thesis
      using write_other_bytes [OF inv F(1,2) F'(1,2) F(4) [OF d'(1) False [symmetric]] fit] F(3) False by (simp add: sector_def m_def)
  qed
  then show ?thesis using w by blast
qed

section \<open>The invariant of the cache\<close>

definition holds :: "('hw, 'a) block_cache_state_scheme \<Rightarrow> nat \<Rightarrow> nat \<Rightarrow> nat \<Rightarrow> bool" where
  "holds s i d l \<longleftrightarrow> i < BLOCK_CACHE_CAPACITY \<and> ce_valid (cents s i) \<and> ce_dev (cents s i) = d \<and> ce_lba (cents s i) = l"

definition bucket_of :: "('hw, 'a) block_cache_state_scheme \<Rightarrow> nat \<Rightarrow> nat" where
  "bucket_of s i = cache_hash (bd_id (bdevs s (ce_dev (cents s i)))) (ce_lba (cents s i))"

definition valids :: "('hw, 'a) block_cache_state_scheme \<Rightarrow> nat set" where
  "valids s = {i. i < BLOCK_CACHE_CAPACITY \<and> ce_valid (cents s i)}"

text \<open>The list in order of use holds every entry, the hash table exactly the entries in use.\<close>

definition lists_ok :: "('hw, 'a) block_cache_state_scheme \<Rightarrow> bool" where
  "lists_ok s \<longleftrightarrow> distinct (lru_list s) \<and> set (lru_list s) = {..<BLOCK_CACHE_CAPACITY}
     \<and> (\<forall>b. distinct (hash_table s b) \<and> set (hash_table s b) = {i \<in> valids s. bucket_of s i = b})"

text \<open>An entry in use is for a sector of the family, of which there is only one, and it differs from the
  disk only when it is marked.\<close>

definition entry_ok :: "nat set \<Rightarrow> ('hw, 'a) block_cache_state_scheme \<Rightarrow> nat \<Rightarrow> bool" where
  "entry_ok K s i \<longleftrightarrow> (let e = cents s i in ce_dev e \<in> K \<and> ce_lba e < blocks_of s (ce_dev e) \<and> length (ce_data e) = 512
     \<and> (ce_dirty e \<or> ce_data e = sector s (ce_dev e) (ce_lba e)))"

definition cache_inv :: "nat set \<Rightarrow> nat set \<Rightarrow> ('hw, 'a) block_cache_state_scheme \<Rightarrow> bool" where
  "cache_inv D K s \<longleftrightarrow> cache_initialized s \<and> storage_inv D s \<and> family K s \<and> lists_ok s \<and> (\<forall>i \<in> valids s. entry_ok K s i)
     \<and> (\<forall>i j d l. holds s i d l \<longrightarrow> holds s j d l \<longrightarrow> i = j)"

lemma cache_invD:
  assumes "cache_inv D K s"
  shows "cache_initialized s" "storage_inv D s" "family K s" "lists_ok s" "\<And>i. i \<in> valids s \<Longrightarrow> entry_ok K s i"
    "\<And>i j d l. holds s i d l \<Longrightarrow> holds s j d l \<Longrightarrow> i = j"
  using assms by (auto simp: cache_inv_def)

text \<open>What the cache shows: the entry for a sector if there is one, the disk otherwise.\<close>

definition cview :: "('hw, 'a) block_cache_state_scheme \<Rightarrow> nat \<Rightarrow> nat \<Rightarrow> u8 list" where
  "cview s d l = (case find (\<lambda>i. holds s i d l) [0..<BLOCK_CACHE_CAPACITY] of
     Some i \<Rightarrow> ce_data (cents s i) | None \<Rightarrow> sector s d l)"

lemma cview_hit:
  assumes "cache_inv D K s" "holds s i d l"
  shows "cview s d l = ce_data (cents s i)"
proof (cases "find (\<lambda>i. holds s i d l) [0..<BLOCK_CACHE_CAPACITY]")
  case None
  then show ?thesis using assms(2) by (auto simp: find_None_iff holds_def)
next
  case (Some j)
  then have "holds s j d l" by (auto simp: find_Some_iff)
  then show ?thesis using Some cache_invD(6) [OF assms] by (auto simp: cview_def)
qed

lemma cview_miss: "(\<And>i. \<not> holds s i d l) \<Longrightarrow> cview s d l = sector s d l"
  by (simp add: cview_def find_None_iff [THEN iffD2])

lemma holds_valids: "i \<in> valids s \<longleftrightarrow> holds s i (ce_dev (cents s i)) (ce_lba (cents s i))"
  by (auto simp: valids_def holds_def)

lemma lookup_iff:
  assumes inv: "cache_inv D K s"
  shows "cache_lookup_locked d l s = Some i \<longleftrightarrow> holds s i d l" "cache_lookup_locked d l s = None \<longleftrightarrow> (\<forall>i. \<not> holds s i d l)"
proof -
  let ?b = "cache_hash (bd_id (bdevs s d)) l"
  have set: "set (hash_table s ?b) = {i \<in> valids s. bucket_of s i = ?b}" using cache_invD(4) [OF inv] by (simp add: lists_ok_def)
  have h: "holds s i d l \<longleftrightarrow> i \<in> set (hash_table s ?b) \<and> ce_valid (cents s i) \<and> ce_dev (cents s i) = d \<and> ce_lba (cents s i) = l" for i
    unfolding set by (auto simp: holds_def valids_def bucket_of_def)
  have sound: "holds s i d l" if "cache_lookup_locked d l s = Some i" for i
    using that by (auto simp: cache_lookup_locked_def find_Some_iff h)
  show none: "cache_lookup_locked d l s = None \<longleftrightarrow> (\<forall>i. \<not> holds s i d l)"
    by (auto simp: cache_lookup_locked_def find_None_iff h)
  show "cache_lookup_locked d l s = Some i \<longleftrightarrow> holds s i d l"
  proof
    assume hi: "holds s i d l"
    then obtain j where j: "cache_lookup_locked d l s = Some j" using none by fastforce
    then show "cache_lookup_locked d l s = Some i" using sound [OF j] cache_invD(6) [OF inv hi] by simp
  qed (rule sound)
qed

section \<open>Updates of the fields of the cache\<close>

lemma cache_fields [simp]:
  "storage_inv D (s\<lparr>cents := x\<rparr>) = storage_inv D s" "storage_inv D (s\<lparr>lru_list := y\<rparr>) = storage_inv D s"
  "storage_inv D (s\<lparr>hash_table := z\<rparr>) = storage_inv D s" "storage_inv D (s\<lparr>cstats := w\<rparr>) = storage_inv D s"
  "family K (s\<lparr>cents := x\<rparr>) = family K s" "family K (s\<lparr>lru_list := y\<rparr>) = family K s"
  "family K (s\<lparr>hash_table := z\<rparr>) = family K s" "family K (s\<lparr>cstats := w\<rparr>) = family K s" "family K (s\<lparr>hmem := m\<rparr>) = family K s"
  "sector (s\<lparr>cents := x\<rparr>) = sector s" "sector (s\<lparr>lru_list := y\<rparr>) = sector s"
  "sector (s\<lparr>hash_table := z\<rparr>) = sector s" "sector (s\<lparr>cstats := w\<rparr>) = sector s"
proof -
  note c = storage_cong
  show "storage_inv D (s\<lparr>cents := x\<rparr>) = storage_inv D s" "storage_inv D (s\<lparr>lru_list := y\<rparr>) = storage_inv D s"
    "storage_inv D (s\<lparr>hash_table := z\<rparr>) = storage_inv D s" "storage_inv D (s\<lparr>cstats := w\<rparr>) = storage_inv D s"
    by (rule c; simp)+
  have "online (s\<lparr>cents := x\<rparr>) = online s" "disk (s\<lparr>cents := x\<rparr>) = disk s" "root_of (s\<lparr>cents := x\<rparr>) = root_of s"
     "devs_apart (s\<lparr>cents := x\<rparr>) = devs_apart s" "dev_bytes (s\<lparr>cents := x\<rparr>) = dev_bytes s" by (rule c; simp)+
  then show "family K (s\<lparr>cents := x\<rparr>) = family K s" "sector (s\<lparr>cents := x\<rparr>) = sector s" by (simp_all add: family_def sector_def fun_eq_iff)
  have "online (s\<lparr>lru_list := y\<rparr>) = online s" "disk (s\<lparr>lru_list := y\<rparr>) = disk s" "root_of (s\<lparr>lru_list := y\<rparr>) = root_of s"
     "devs_apart (s\<lparr>lru_list := y\<rparr>) = devs_apart s" "dev_bytes (s\<lparr>lru_list := y\<rparr>) = dev_bytes s" by (rule c; simp)+
  then show "family K (s\<lparr>lru_list := y\<rparr>) = family K s" "sector (s\<lparr>lru_list := y\<rparr>) = sector s" by (simp_all add: family_def sector_def fun_eq_iff)
  have "online (s\<lparr>hash_table := z\<rparr>) = online s" "disk (s\<lparr>hash_table := z\<rparr>) = disk s" "root_of (s\<lparr>hash_table := z\<rparr>) = root_of s"
     "devs_apart (s\<lparr>hash_table := z\<rparr>) = devs_apart s" "dev_bytes (s\<lparr>hash_table := z\<rparr>) = dev_bytes s" by (rule c; simp)+
  then show "family K (s\<lparr>hash_table := z\<rparr>) = family K s" "sector (s\<lparr>hash_table := z\<rparr>) = sector s" by (simp_all add: family_def sector_def fun_eq_iff)
  have "online (s\<lparr>cstats := w\<rparr>) = online s" "disk (s\<lparr>cstats := w\<rparr>) = disk s" "root_of (s\<lparr>cstats := w\<rparr>) = root_of s"
     "devs_apart (s\<lparr>cstats := w\<rparr>) = devs_apart s" "dev_bytes (s\<lparr>cstats := w\<rparr>) = dev_bytes s" by (rule c; simp)+
  then show "family K (s\<lparr>cstats := w\<rparr>) = family K s" "sector (s\<lparr>cstats := w\<rparr>) = sector s" by (simp_all add: family_def sector_def fun_eq_iff)
  show "family K (s\<lparr>hmem := m\<rparr>) = family K s" by (simp add: family_def devs_apart_def dev_range_def)
qed

lemma cache_initialized_field [simp]:
  "storage_inv D (s\<lparr>cache_initialized := x\<rparr>) = storage_inv D s" "family K (s\<lparr>cache_initialized := x\<rparr>) = family K s"
  "sector (s\<lparr>cache_initialized := x\<rparr>) = sector s"
proof -
  note c = storage_cong
  show "storage_inv D (s\<lparr>cache_initialized := x\<rparr>) = storage_inv D s" by (rule c; simp)
  have "online (s\<lparr>cache_initialized := x\<rparr>) = online s" "disk (s\<lparr>cache_initialized := x\<rparr>) = disk s"
    "root_of (s\<lparr>cache_initialized := x\<rparr>) = root_of s" "devs_apart (s\<lparr>cache_initialized := x\<rparr>) = devs_apart s"
    "dev_bytes (s\<lparr>cache_initialized := x\<rparr>) = dev_bytes s" by (rule c; simp)+
  then show "family K (s\<lparr>cache_initialized := x\<rparr>) = family K s" "sector (s\<lparr>cache_initialized := x\<rparr>) = sector s"
    by (simp_all add: family_def sector_def fun_eq_iff)
qed

section \<open>The steps of the cache\<close>

lemma count_stat_same [simp]: "cache_inv D K (count_stat f s) = cache_inv D K s" "cview (count_stat f s) = cview s"
  "cents (count_stat f s) = cents s" "bdevs (count_stat f s) = bdevs s" "holds (count_stat f s) = holds s"
  "lru_list (count_stat f s) = lru_list s" "sector (count_stat f s) = sector s" "hash_table (count_stat f s) = hash_table s"
  "valids (count_stat f s) = valids s" "cache_initialized (count_stat f s) = cache_initialized s" "timer_ticks (count_stat f s) = timer_ticks s"
proof -
  have H: "holds (count_stat f s) = holds s" by (simp add: fun_eq_iff holds_def count_stat_def)
  have V: "valids (count_stat f s) = valids s" "bucket_of (count_stat f s) = bucket_of s" "entry_ok K (count_stat f s) = entry_ok K s"
    "lists_ok (count_stat f s) = lists_ok s"
    by (simp_all add: valids_def bucket_of_def entry_ok_def lists_ok_def count_stat_def fun_eq_iff)
  show "cache_inv D K (count_stat f s) = cache_inv D K s" unfolding cache_inv_def H V by (simp add: count_stat_def)
  show "cview (count_stat f s) = cview s" by (simp add: fun_eq_iff cview_def H) (simp add: count_stat_def split: option.split)
  show "holds (count_stat f s) = holds s" "valids (count_stat f s) = valids s" by (rule H V)+
qed (simp_all add: count_stat_def)

text \<open>Changing an entry without changing what it stands for.\<close>

lemma upd_entry_same:
  assumes "\<And>e. ce_valid (f e) = ce_valid e \<and> ce_dev (f e) = ce_dev e \<and> ce_lba (f e) = ce_lba e"
  shows "holds (upd_entry i f s) = holds s" "valids (upd_entry i f s) = valids s" "bucket_of (upd_entry i f s) = bucket_of s"
    "lists_ok (upd_entry i f s) = lists_ok s"
proof -
  show H: "holds (upd_entry i f s) = holds s" "bucket_of (upd_entry i f s) = bucket_of s" "valids (upd_entry i f s) = valids s"
    using assms by (auto simp: fun_eq_iff holds_def bucket_of_def valids_def upd_entry_def)
  then show "lists_ok (upd_entry i f s) = lists_ok s" unfolding lists_ok_def H by (simp add: upd_entry_def)
qed

lemma upd_entry_fields [simp]:
  "cents (upd_entry i f s) = (cents s)(i := f (cents s i))" "lru_list (upd_entry i f s) = lru_list s"
  "hash_table (upd_entry i f s) = hash_table s" "cache_initialized (upd_entry i f s) = cache_initialized s"
  "storage_inv D (upd_entry i f s) = storage_inv D s" "family K (upd_entry i f s) = family K s" "sector (upd_entry i f s) = sector s"
  "bdevs (upd_entry i f s) = bdevs s" "timer_ticks (upd_entry i f s) = timer_ticks s"
  by (simp_all add: upd_entry_def)

lemma touch_result:
  assumes inv: "cache_inv D K s" and i: "i < BLOCK_CACHE_CAPACITY"
  shows "cache_inv D K (cache_touch_locked i s) \<and> cview (cache_touch_locked i s) = cview s"
proof -
  define t where "t = upd_entry i (\<lambda>e. e\<lparr>ce_last_access := timer_ticks s\<rparr>) s"
  have e: "cents t j = (if j = i then (cents s i)\<lparr>ce_last_access := timer_ticks s\<rparr> else cents s j)" for j by (simp add: t_def)
  have T: "holds t = holds s" "valids t = valids s" "bucket_of t = bucket_of s" "lists_ok t = lists_ok s"
    unfolding t_def by (rule upd_entry_same; simp)+
  define u where "u = cache_touch_locked i s"
  have U: "u = t\<lparr>lru_list := i # remove1 i (lru_list s)\<rparr>" by (simp add: u_def cache_touch_locked_def lru_to_front_def t_def)
  have H: "holds u = holds s" "valids u = valids s" "bucket_of u = bucket_of s"
    unfolding T [symmetric] by (simp_all add: U fun_eq_iff holds_def valids_def bucket_of_def)
  have L: "lists_ok s" using cache_invD(4) [OF inv] .
  then have "lists_ok u" using i unfolding lists_ok_def H by (auto simp: U t_def)
  moreover have "entry_ok K u j = entry_ok K s j" for j by (simp add: entry_ok_def Let_def U e) (simp add: t_def)
  ultimately have "cache_inv D K u" using inv unfolding cache_inv_def H by (simp add: U t_def)
  moreover have "cview u d l = cview s d l" for d l
    unfolding cview_def H by (auto simp: U t_def split: option.splits)
  ultimately show ?thesis by (simp add: u_def fun_eq_iff)
qed

lemma flush_entry_result:
  assumes inv: "cache_inv D K s" and i: "i \<in> valids s"
  shows "\<exists>s'. cache_flush_entry_locked i s = Some (True, s') \<and> cache_inv D K s' \<and> (\<forall>d \<in> K. \<forall>l < blocks_of s d. cview s' d l = cview s d l)
    \<and> bdevs s' = bdevs s \<and> lru_list s' = lru_list s \<and> valids s' = valids s \<and> holds s' = holds s
    \<and> cents s' = (cents s)(i := (cents s i)\<lparr>ce_dirty := False\<rparr>)"
proof -
  note I = cache_invD [OF inv]
  let ?e = "cents s i"
  have E: "ce_dev ?e \<in> K" "ce_lba ?e < blocks_of s (ce_dev ?e)" "length (ce_data ?e) = 512" "ce_valid ?e"
    using I(5) [OF i] i by (simp_all add: entry_ok_def Let_def valids_def)
  show ?thesis
  proof (cases "ce_dirty ?e")
    case False
    then have "cache_flush_entry_locked i s = Some (True, s)" "(cents s)(i := ?e\<lparr>ce_dirty := False\<rparr>) = cents s"
      by (simp_all add: cache_flush_entry_locked_def fun_eq_iff)
    then show ?thesis using inv by auto
  next
    case True
    obtain m where w: "block_write (ce_dev ?e) (ce_lba ?e) 1 (ce_data ?e) s = Some (True, s\<lparr>hmem := m\<rparr>)"
      "\<forall>d' \<in> K. \<forall>l' < blocks_of s d'. sector (s\<lparr>hmem := m\<rparr>) d' l'
         = (if d' = ce_dev ?e \<and> l' = ce_lba ?e then ce_data ?e else sector s d' l')"
      using write_sector [OF I(2,3) E(1-3)] by blast
    define t where "t = upd_entry i (\<lambda>e. e\<lparr>ce_dirty := False\<rparr>) (s\<lparr>hmem := m\<rparr>)"
    define s' where "s' = count_stat (\<lambda>t. t\<lparr>st_flushes := add64 (st_flushes t) 1\<rparr>) t"
    have f: "cache_flush_entry_locked i s = Some (True, s')"
      using True E(4) w(1) familyD(5) [OF I(3) E(1)] by (simp add: cache_flush_entry_locked_def s'_def t_def)
    have C: "cents t = (cents s)(i := ?e\<lparr>ce_dirty := False\<rparr>)" "bdevs t = bdevs s" "lru_list t = lru_list s" "hash_table t = hash_table s"
      "storage_inv D t" "family K t" "cache_initialized t"
      using I(1-3) by (simp_all add: t_def)
    have H: "holds t = holds s" "valids t = valids s" "bucket_of t = bucket_of s"
      by (auto simp: fun_eq_iff holds_def valids_def bucket_of_def C)
    have sec: "sector t d' l' = (if d' = ce_dev ?e \<and> l' = ce_lba ?e then ce_data ?e else sector s d' l')"
      if "d' \<in> K" "l' < blocks_of s d'" for d' l' using w(2) that by (simp add: t_def)
    have "lists_ok t" using I(4) unfolding lists_ok_def H C .
    moreover have "entry_ok K t j" if j: "j \<in> valids s" for j
      using I(5) [OF j] I(6) [of i "ce_dev ?e" "ce_lba ?e" j] i j E
      by (cases "j = i") (auto simp: entry_ok_def Let_def C sec holds_valids)
    ultimately have t: "cache_inv D K t" using C(5-7) I(6) unfolding cache_inv_def H by blast
    have "cview t d l = cview s d l" if dl: "d \<in> K" "l < blocks_of s d" for d l
    proof (cases "\<exists>j. holds s j d l")
      case True
      then obtain j where j: "holds s j d l" ..
      then show ?thesis using cview_hit [OF inv j] cview_hit [OF t, of j d l] by (simp add: H C)
    next
      case False
      then have "\<not> (d = ce_dev ?e \<and> l = ce_lba ?e)" using i by (auto simp: holds_valids)
      then show ?thesis using False cview_miss [of s d l] cview_miss [of t d l] sec [OF dl] by (auto simp: H)
    qed
    then show ?thesis using f t by (intro exI [of _ s']) (simp add: s'_def C H)
  qed
qed

text \<open>Taking an entry that agrees with the disk out of the cache.\<close>

lemma unlink_result:
  assumes inv: "cache_inv D K s" and i: "i \<in> valids s" "\<not> ce_dirty (cents s i)" and f: "\<And>e. \<not> ce_valid (f e)"
    and s': "s' = upd_entry i f (hash_unlink i s)"
  shows "cache_inv D K s' \<and> (\<forall>d l. cview s' d l = cview s d l) \<and> valids s' = valids s - {i} \<and> (\<forall>j d l. holds s' j d l \<longleftrightarrow> j \<noteq> i \<and> holds s j d l)"
proof -
  note I = cache_invD [OF inv]
  have C: "cents s' = (cents s)(i := f (cents s i))" "bdevs s' = bdevs s" "lru_list s' = lru_list s" "cache_initialized s'"
    "hash_table s' = (\<lambda>b. remove1 i (hash_table s b))" "storage_inv D s'" "family K s'" "sector s' = sector s"
    using I(1-3) by (simp_all add: s' hash_unlink_def)
  have H: "holds s' j d l \<longleftrightarrow> j \<noteq> i \<and> holds s j d l" for j d l using f by (auto simp: holds_def C(1))
  have V: "valids s' = valids s - {i}" using f by (auto simp: valids_def C(1))
  have "lists_ok s'" using I(4) by (auto simp: lists_ok_def V C bucket_of_def)
  moreover have "entry_ok K s' j" if "j \<in> valids s'" for j
    using I(5) [of j] that by (auto simp: V entry_ok_def Let_def C)
  ultimately have inv': "cache_inv D K s'" using C(4,6,7) I(6) unfolding cache_inv_def H by blast
  have "cview s' d l = cview s d l" for d l
  proof (cases "\<exists>j. holds s j d l")
    case True
    then obtain j where j: "holds s j d l" ..
    show ?thesis
    proof (cases "j = i")
      case True
      then have none: "\<not> holds s' k d l" for k using I(6) [OF j, of k] by (auto simp: H)
      have "entry_ok K s i" using I(5) [OF i(1)] .
      then have "ce_data (cents s i) = sector s d l" using j True i(2) by (auto simp: entry_ok_def Let_def holds_def)
      then show ?thesis using cview_miss [OF none] cview_hit [OF inv j] True C(8) by simp
    next
      case False
      then show ?thesis using cview_hit [OF inv j] cview_hit [OF inv', of j d l] j by (simp add: H C)
    qed
  next
    case False
    then show ?thesis using cview_miss [of s d l] cview_miss [of s' d l] C(8) by (simp add: H)
  qed
  then show ?thesis using inv' V H by simp
qed

lemma evict_result:
  assumes inv: "cache_inv D K s" and i: "i \<in> valids s"
  shows "\<exists>s'. cache_evict i s = Some s' \<and> cache_inv D K s' \<and> (\<forall>d \<in> K. \<forall>l < blocks_of s d. cview s' d l = cview s d l)
    \<and> bdevs s' = bdevs s \<and> valids s' = valids s - {i} \<and> (\<forall>j d l. holds s' j d l \<longrightarrow> holds s j d l)"
proof -
  obtain s1 where f: "cache_flush_entry_locked i s = Some (True, s1)" "cache_inv D K s1" "\<forall>d \<in> K. \<forall>l < blocks_of s d. cview s1 d l = cview s d l"
    "bdevs s1 = bdevs s" "valids s1 = valids s" "holds s1 = holds s" "cents s1 = (cents s)(i := (cents s i)\<lparr>ce_dirty := False\<rparr>)"
    using flush_entry_result [OF inv i] by (elim exE conjE) (rule that)
  define t where "t = (if ce_dirty (cents s i) then s1 else s)"
  have t: "cache_inv D K t" "\<forall>d \<in> K. \<forall>l < blocks_of s d. cview t d l = cview s d l" "bdevs t = bdevs s" "valids t = valids s" "holds t = holds s"
    "\<not> ce_dirty (cents t i)" using f inv by (simp_all add: t_def)
  define u where "u = upd_entry i (\<lambda>e. e\<lparr>ce_valid := False\<rparr>) (hash_unlink i t)"
  note U = unlink_result [OF t(1) _ t(6) _ u_def, unfolded t(4), OF i, simplified]
  have "cache_evict i s = Some (count_stat (\<lambda>t. t\<lparr>st_evictions := add64 (st_evictions t) 1\<rparr>) u)"
    using f(1) by (simp add: cache_evict_def u_def t_def)
  moreover have "bdevs u = bdevs s" by (simp add: u_def hash_unlink_def t(3))
  ultimately show ?thesis using U t(2,5) by auto
qed

text \<open>Giving a free entry a sector: the steps of a miss, once the data is there.\<close>

lemma assign_fill_result:
  assumes inv: "cache_inv D K s" and i: "i < BLOCK_CACHE_CAPACITY" "i \<notin> valids s" and d: "d \<in> K" "l < blocks_of s d"
    and none: "\<And>j. \<not> holds s j d l" and g: "\<And>e. ce_valid (g e) \<and> ce_dev (g e) = ce_dev e \<and> ce_lba (g e) = ce_lba e \<and> ce_data (g e) = b"
    and clean: "\<And>e. ce_dirty (g e) \<or> b = sector s d l" and len: "length b = 512"
    and s': "s' = upd_entry i g (cache_assign i d l s)"
  shows "cache_inv D K s' \<and> (\<forall>d' l'. cview s' d' l' = (if d' = d \<and> l' = l then b else cview s d' l')) \<and> bdevs s' = bdevs s"
proof -
  note I = cache_invD [OF inv]
  let ?b = "cache_hash (bd_id (bdevs s d)) l"
  define e where "e = cents s' i"
  have C: "cents s' = (cents s)(i := e)" "ce_valid e" "ce_dev e = d" "ce_lba e = l" "ce_data e = b" "ce_dirty e \<or> b = sector s d l"
    "bdevs s' = bdevs s" "lru_list s' = i # remove1 i (lru_list s)" "cache_initialized s'"
    "hash_table s' = (hash_table s)(?b := i # hash_table s ?b)" "storage_inv D s'" "family K s'" "sector s' = sector s"
    using I(1-3) g clean by (simp_all add: s' e_def cache_assign_def Let_def lru_to_front_def)
  have H: "holds s' j d' l' \<longleftrightarrow> (if j = i then d' = d \<and> l' = l else holds s j d' l')" for j d' l'
    using i(1) C(2-4) by (auto simp: holds_def C(1))
  have V: "valids s' = insert i (valids s)" using i(1) C(2) by (auto simp: valids_def C(1))
  have B: "bucket_of s' j = (if j = i then ?b else bucket_of s j)" for j
    using C(3,4) by (simp add: bucket_of_def C(1,7))
  have "lists_ok s'"
    using I(4) i unfolding lists_ok_def V B C(8,10) by (auto split: if_splits)
  moreover have "entry_ok K s' j" if "j \<in> valids s'" for j
    using that I(5) [of j] d len C by (cases "j = i") (auto simp: V entry_ok_def Let_def)
  moreover have "j = k" if "holds s' j d' l'" "holds s' k d' l'" for j k d' l'
    using that I(6) [of j d' l' k] none by (auto simp: H split: if_splits)
  ultimately have inv': "cache_inv D K s'" using C(9,11,12) unfolding cache_inv_def by blast
  have "cview s' d' l' = (if d' = d \<and> l' = l then b else cview s d' l')" for d' l'
  proof (cases "\<exists>j. holds s' j d' l'")
    case True
    then obtain j where j: "holds s' j d' l'" ..
    show ?thesis
    proof (cases "j = i")
      case True
      then show ?thesis using cview_hit [OF inv' j] j C(1,5) by (simp add: H)
    next
      case False
      then have "holds s j d' l'" using j by (simp add: H)
      then show ?thesis using cview_hit [OF inv' j] cview_hit [OF inv, of j d' l'] C(1) False none by auto
    qed
  next
    case False
    have ni: "j \<noteq> i" if "holds s j d' l'" for j using that i(2) by (auto simp: holds_def valids_def)
    have n: "\<not> holds s j d' l'" "\<not> (d' = d \<and> l' = l)" for j using False ni [of j] H [of j d' l'] H [of i d' l'] by auto
    show ?thesis using cview_miss [of s' d' l'] cview_miss [of s d' l'] False n C(13) by auto
  qed
  then show ?thesis using inv' C(7) by simp
qed

section \<open>Sectors\<close>

definition same_contents :: "nat set \<Rightarrow> ('hw, 'a) block_cache_state_scheme \<Rightarrow> ('hw, 'a) block_cache_state_scheme \<Rightarrow> bool" where
  "same_contents K s s' \<longleftrightarrow> bdevs s' = bdevs s \<and> (\<forall>d \<in> K. \<forall>l < blocks_of s d. cview s' d l = cview s d l)"

lemma same_contents_trans: "same_contents K s s1 \<Longrightarrow> same_contents K s1 s2 \<Longrightarrow> same_contents K s s2"
  by (simp add: same_contents_def)

lemma find_found: "find P xs = Some x \<Longrightarrow> x \<in> set xs \<and> P x"
  by (induction xs) (auto split: if_splits)

lemma allocate_result:
  assumes inv: "cache_inv D K s"
  shows "\<exists>i s1. cache_allocate_slot_locked d l s = Some (Some i, cache_assign i d l s1) \<and> cache_inv D K s1 \<and> i < BLOCK_CACHE_CAPACITY
    \<and> i \<notin> valids s1 \<and> same_contents K s s1 \<and> (\<forall>j d l. holds s1 j d l \<longrightarrow> holds s j d l)"
proof -
  have L: "set (lru_list s) = {..<BLOCK_CACHE_CAPACITY}" using cache_invD(4) [OF inv] by (simp add: lists_ok_def)
  show ?thesis
  proof (cases "find (\<lambda>i. \<not> ce_valid (cents s i)) (rev (lru_list s))")
    case (Some i)
    have "i \<in> set (lru_list s)" "\<not> ce_valid (cents s i)" using find_found [OF Some] by simp_all
    then have i: "i < BLOCK_CACHE_CAPACITY" "i \<notin> valids s" using L by (simp_all add: valids_def)
    have "cache_allocate_slot_locked d l s = Some (Some i, cache_assign i d l s)" using Some by (simp add: cache_allocate_slot_locked_def)
    moreover have "same_contents K s s" by (simp add: same_contents_def)
    ultimately show ?thesis using i inv by (intro exI [of _ i] exI [of _ s] conjI allI impI)
  next
    case None
    define i where "i = last (lru_list s)"
    have "(0::nat) \<in> {..<BLOCK_CACHE_CAPACITY}" by (simp only: BLOCK_CACHE_CAPACITY_def lessThan_iff)
    then have ne: "lru_list s \<noteq> []" using L by (metis empty_iff list.set(1))
    then have "i \<in> set (lru_list s)" by (simp add: i_def)
    then have i: "i \<in> valids s" "i < BLOCK_CACHE_CAPACITY" using None L by (auto simp: find_None_iff valids_def)
    obtain s1 where e: "cache_evict i s = Some s1" "cache_inv D K s1" "\<forall>d \<in> K. \<forall>l < blocks_of s d. cview s1 d l = cview s d l"
      "bdevs s1 = bdevs s" "valids s1 = valids s - {i}" "\<forall>j d l. holds s1 j d l \<longrightarrow> holds s j d l"
      using evict_result [OF inv i(1)] by (elim exE conjE) (rule that)
    have "cache_allocate_slot_locked d l s = Some (Some i, cache_assign i d l s1)"
      using None ne e(1) by (simp add: cache_allocate_slot_locked_def i_def Let_def)
    moreover have "same_contents K s s1" "i \<notin> valids s1" using e(3,4,5) by (simp_all add: same_contents_def)
    ultimately show ?thesis using e(2,6) i(2) by (intro exI [of _ i] exI [of _ s1] conjI)
  qed
qed

lemma assign_fields [simp]: "storage_inv D (cache_assign i d l s) = storage_inv D s" "family K (cache_assign i d l s) = family K s"
  "sector (cache_assign i d l s) = sector s" "bdevs (cache_assign i d l s) = bdevs s"
  by (simp_all add: cache_assign_def Let_def lru_to_front_def)

lemma read_sector_result:
  assumes inv: "cache_inv D K s" and d: "d \<in> K" "l < blocks_of s d"
  shows "\<exists>s'. cache_read_sector d l s = Some (Some (cview s d l), s') \<and> cache_inv D K s' \<and> same_contents K s s'"
proof -
  define s0 where "s0 = count_stat (\<lambda>t. t\<lparr>st_reads := add64 (st_reads t) 1\<rparr>) s"
  have S0: "cache_inv D K s0" "cview s0 = cview s" "bdevs s0 = bdevs s" "holds s0 = holds s" "cents s0 = cents s" using inv by (simp_all add: s0_def)
  show ?thesis
  proof (cases "cache_lookup_locked d l s0")
    case (Some i)
    then have h: "holds s i d l" using lookup_iff(1) [OF S0(1)] S0(4) by simp
    then have i: "i < BLOCK_CACHE_CAPACITY" "i \<in> valids s" by (auto simp: holds_def valids_def)
    define s1 where "s1 = count_stat (\<lambda>t. t\<lparr>st_hits := add64 (st_hits t) 1\<rparr>) s0"
    have S1: "cache_inv D K s1" "cview s1 = cview s" "bdevs s1 = bdevs s" using S0 by (simp_all add: s1_def)
    have "length (ce_data (cents s i)) = 512" using cache_invD(5) [OF inv i(2)] by (simp add: entry_ok_def Let_def)
    then have r: "cache_read_sector d l s = Some (Some (cview s d l), cache_touch_locked i s1)"
      using Some S0(5) cview_hit [OF inv h]
      unfolding cache_read_sector_def Let_def s0_def [symmetric] by (simp add: s1_def BLOCK_DEFAULT_SECTOR_SIZE_def)
    have "bdevs (cache_touch_locked i s1) = bdevs s" by (simp add: cache_touch_locked_def lru_to_front_def S1(3))
    then show ?thesis using r touch_result [OF S1(1) i(1)] S1(2) by (simp add: same_contents_def)
  next
    case None
    then have none: "\<not> holds s j d l" for j using lookup_iff(2) [OF S0(1)] S0(4) by simp
    define s1 where "s1 = count_stat (\<lambda>t. t\<lparr>st_misses := add64 (st_misses t) 1\<rparr>) s0"
    have S1: "cache_inv D K s1" "cview s1 = cview s" "bdevs s1 = bdevs s" "holds s1 = holds s" using S0 by (simp_all add: s1_def)
    obtain i s2 where a: "cache_allocate_slot_locked d l s1 = Some (Some i, cache_assign i d l s2)" "cache_inv D K s2"
      "i < BLOCK_CACHE_CAPACITY" "i \<notin> valids s2" "same_contents K s1 s2" "\<forall>j d l. holds s2 j d l \<longrightarrow> holds s1 j d l"
      using allocate_result [OF S1(1), of d l] by (elim exE conjE) (rule that)
    note I2 = cache_invD [OF a(2)]
    have B: "bdevs s2 = bdevs s" using a(5) S1(3) by (simp add: same_contents_def)
    have none2: "\<not> holds s2 j d l" for j using a(6) S1(4) none by auto
    have sec: "sector s2 d l = cview s d l" using cview_miss [OF none2] a(5) S1(2,3) d by (simp add: same_contents_def)
    let ?g = "\<lambda>e. e\<lparr>ce_data := sector s2 d l, ce_valid := True, ce_dirty := False\<rparr>"
    have rd: "block_read d l 1 (cache_assign i d l s2) = Some (Some (sector s2 d l), cache_assign i d l s2)"
      using read_sector [of D "cache_assign i d l s2" K d l] I2(2,3) d B by simp
    have len: "length (sector s2 d l) = 512" using sector_length [of s2 d l] familyD(3) [OF I2(3) d(1)] d(2) B by simp
    have "cache_read_sector d l s = Some (Some (cview s d l), upd_entry i ?g (cache_assign i d l s2))"
      using None rd a(1) len sec
      unfolding cache_read_sector_def Let_def s0_def [symmetric] s1_def [symmetric] cache_read_miss_def
      by (simp add: BLOCK_DEFAULT_SECTOR_SIZE_def)
    moreover have "cache_inv D K (upd_entry i ?g (cache_assign i d l s2))
        \<and> (\<forall>d' l'. cview (upd_entry i ?g (cache_assign i d l s2)) d' l' = (if d' = d \<and> l' = l then sector s2 d l else cview s2 d' l'))
        \<and> bdevs (upd_entry i ?g (cache_assign i d l s2)) = bdevs s2"
      by (rule assign_fill_result [OF a(2,3,4) d(1) _ none2 _ _ len refl]) (use d B in simp_all)
    ultimately show ?thesis
      using a(5) S1(2,3) sec B by (auto simp: same_contents_def)
  qed
qed

text \<open>A write changes what the cache shows at one place.\<close>

definition contents_upd :: "nat set \<Rightarrow> ('hw, 'a) block_cache_state_scheme \<Rightarrow> nat \<Rightarrow> nat \<Rightarrow> u8 list \<Rightarrow> ('hw, 'a) block_cache_state_scheme \<Rightarrow> bool" where
  "contents_upd K s d l b s' \<longleftrightarrow> bdevs s' = bdevs s
     \<and> (\<forall>d' \<in> K. \<forall>l' < blocks_of s d'. cview s' d' l' = (if d' = d \<and> l' = l then b else cview s d' l'))"

lemma fill_hit_result:
  assumes inv: "cache_inv D K s" and h: "holds s i d l" and len: "length b = 512"
  shows "cache_inv D K (cache_fill i b s) \<and> contents_upd K s d l b (cache_fill i b s)"
proof -
  note I = cache_invD [OF inv]
  define t where "t = upd_entry i (\<lambda>e. e\<lparr>ce_data := b, ce_dirty := True\<rparr>) s"
  have T: "holds t = holds s" "valids t = valids s" "bucket_of t = bucket_of s" "lists_ok t = lists_ok s"
    unfolding t_def by (rule upd_entry_same; simp)+
  have "entry_ok K t j" if "j \<in> valids t" for j
    using I(5) [of j] that [unfolded T] len by (cases "j = i") (simp_all add: entry_ok_def Let_def t_def)
  then have inv_t: "cache_inv D K t" using I unfolding cache_inv_def T by (simp add: t_def)
  have i: "i < BLOCK_CACHE_CAPACITY" using h by (simp add: holds_def)
  have "cview t d' l' = (if d' = d \<and> l' = l then b else cview s d' l')" for d' l'
  proof (cases "\<exists>j. holds s j d' l'")
    case True
    then obtain j where j: "holds s j d' l'" ..
    then show ?thesis
      using cview_hit [OF inv j] cview_hit [OF inv_t, of j d' l'] h I(6) [OF h, of j] T(1)
      by (cases "j = i") (auto simp: t_def holds_def)
  next
    case False
    then show ?thesis using cview_miss [of t d' l'] cview_miss [of s d' l'] h T(1) by (auto simp: t_def)
  qed
  moreover have "cache_fill i b s = cache_touch_locked i t" using len by (simp add: cache_fill_def t_def BLOCK_DEFAULT_SECTOR_SIZE_def)
  moreover have "bdevs (cache_touch_locked i t) = bdevs s" by (simp add: cache_touch_locked_def lru_to_front_def t_def)
  ultimately show ?thesis using touch_result [OF inv_t i] by (simp add: contents_upd_def)
qed

lemma write_sector_result:
  assumes inv: "cache_inv D K s" and d: "d \<in> K" "l < blocks_of s d" and len: "512 \<le> length src"
  shows "\<exists>s'. cache_write_sector d l src s = Some (True, s') \<and> cache_inv D K s' \<and> contents_upd K s d l (take 512 src) s'"
proof -
  define b where "b = take 512 src"
  have b: "length b = 512" using len by (simp add: b_def)
  have fill: "cache_fill i src = cache_fill i b" for i by (intro ext) (simp add: cache_fill_def b_def BLOCK_DEFAULT_SECTOR_SIZE_def)
  define s0 where "s0 = count_stat (\<lambda>t. t\<lparr>st_writes := add64 (st_writes t) 1\<rparr>) s"
  have S0: "cache_inv D K s0" "cview s0 = cview s" "bdevs s0 = bdevs s" "holds s0 = holds s" using inv by (simp_all add: s0_def)
  show ?thesis
  proof (cases "cache_lookup_locked d l s0")
    case (Some i)
    then have "holds s0 i d l" using lookup_iff(1) [OF S0(1)] by simp
    note F = fill_hit_result [OF S0(1) this b]
    have "cache_write_sector d l src s = Some (True, cache_fill i b s0)"
      unfolding cache_write_sector_def Let_def s0_def [symmetric] fill using Some by simp
    moreover have "contents_upd K s d l b (cache_fill i b s0)" using F S0(2,3) by (simp add: contents_upd_def)
    ultimately show ?thesis using F unfolding b_def by (intro exI conjI) simp_all
  next
    case None
    then have none: "\<not> holds s0 j d l" for j using lookup_iff(2) [OF S0(1)] by simp
    obtain i s2 where a: "cache_allocate_slot_locked d l s0 = Some (Some i, cache_assign i d l s2)" "cache_inv D K s2"
      "i < BLOCK_CACHE_CAPACITY" "i \<notin> valids s2" "same_contents K s0 s2" "\<forall>j d l. holds s2 j d l \<longrightarrow> holds s0 j d l"
      using allocate_result [OF S0(1), of d l] by (elim exE conjE) (rule that)
    have B: "bdevs s2 = bdevs s" using a(5) S0(3) by (simp add: same_contents_def)
    have none2: "\<not> holds s2 j d l" for j using a(6) none by auto
    let ?g = "\<lambda>e. e\<lparr>ce_valid := True, ce_data := b, ce_dirty := True\<rparr>"
    define t where "t = upd_entry i ?g (cache_assign i d l s2)"
    have T: "cache_inv D K t \<and> (\<forall>d' l'. cview t d' l' = (if d' = d \<and> l' = l then b else cview s2 d' l')) \<and> bdevs t = bdevs s2"
      by (rule assign_fill_result [OF a(2,3,4) d(1) _ none2 _ _ b t_def]) (use d B in simp_all)
    have "upd_entry i (\<lambda>e. e\<lparr>ce_data := b, ce_dirty := True\<rparr>) (upd_entry i (\<lambda>e. e\<lparr>ce_valid := True\<rparr>) (cache_assign i d l s2)) = t"
      by (simp add: t_def upd_entry_def)
    then have "cache_write_sector d l src s = Some (True, cache_touch_locked i t)"
      unfolding cache_write_sector_def Let_def s0_def [symmetric] fill cache_fill_def using None a(1) b
      by (simp add: BLOCK_DEFAULT_SECTOR_SIZE_def)
    moreover have "bdevs (cache_touch_locked i t) = bdevs s" using T B by (simp add: cache_touch_locked_def lru_to_front_def)
    moreover have "cview s2 d' l' = cview s d' l'" if "d' \<in> K" "l' < blocks_of s d'" for d' l'
      using a(5) that S0(2,3) by (simp add: same_contents_def)
    ultimately show ?thesis
      using touch_result [of D K t i] T a(3) b_def by (simp add: contents_upd_def)
  qed
qed

section \<open>Runs of sectors\<close>

lemma disk_blocks: "storage_inv D s \<Longrightarrow> online s d \<Longrightarrow> l < blocks_of s d \<Longrightarrow> l < 2 ^ 64"
  using storage_invD(2) [of D s] by (auto simp: table_inv_def dev_ok_def Let_def)

lemma read_loop_result:
  assumes "cache_inv D K s" "d \<in> K" "lba + i + n \<le> blocks_of s d"
  shows "\<exists>s'. cache_read_loop d lba i n s = Some (Some (concat (map (cview s d) [lba + i..<lba + i + n])), s') \<and> cache_inv D K s' \<and> same_contents K s s'"
  using assms
proof (induction n arbitrary: i s)
  case 0
  then show ?case by (simp add: same_contents_def)
next
  case (Suc n)
  note I = cache_invD [OF Suc.prems(1)]
  have w: "add64 lba i = lba + i"
    using disk_blocks [OF I(2) familyD(1) [OF I(3) Suc.prems(2)], of "lba + i"] Suc.prems(3) by (simp add: add64_exact)
  obtain s1 where r1: "cache_read_sector d (lba + i) s = Some (Some (cview s d (lba + i)), s1)" "cache_inv D K s1" "same_contents K s s1"
    using read_sector_result [OF Suc.prems(1,2), of "lba + i"] Suc.prems(3) by auto
  have B: "blocks_of s1 d = blocks_of s d" using r1(3) by (simp add: same_contents_def)
  obtain s2 where r2: "cache_read_loop d lba (Suc i) n s1 = Some (Some (concat (map (cview s1 d) [lba + Suc i..<lba + Suc i + n])), s2)"
      "cache_inv D K s2" "same_contents K s1 s2"
    using Suc.IH [OF r1(2) Suc.prems(2), of "Suc i"] Suc.prems(3) B by auto
  have m: "map (cview s1 d) [lba + Suc i..<lba + Suc i + n] = map (cview s d) [Suc (lba + i)..<lba + i + Suc n]"
    using r1(3) Suc.prems(2,3) by (auto simp: same_contents_def)
  have c: "[lba + i..<lba + i + Suc n] = (lba + i) # [Suc (lba + i)..<lba + i + Suc n]" by (rule upt_conv_Cons) simp
  have "cache_read_loop d lba i (Suc n) s = Some (Some (concat (map (cview s d) [lba + i..<lba + i + Suc n])), s2)"
    using r1(1) r2(1) w unfolding c m by simp
  then show ?case using r2(2) same_contents_trans [OF r1(3) r2(3)] by (intro exI conjI)
qed

definition contents_written :: "nat set \<Rightarrow> ('hw, 'a) block_cache_state_scheme \<Rightarrow> nat \<Rightarrow> nat \<Rightarrow> nat \<Rightarrow> u8 list \<Rightarrow>
    ('hw, 'a) block_cache_state_scheme \<Rightarrow> bool" where
  "contents_written K s d l n src s' \<longleftrightarrow> bdevs s' = bdevs s
     \<and> (\<forall>d' \<in> K. \<forall>l' < blocks_of s d'. cview s' d' l' =
          (if d' = d \<and> l \<le> l' \<and> l' < l + n then take 512 (drop ((l' - l) * 512) src) else cview s d' l'))"

lemma written_Suc:
  assumes "contents_upd K s d l (take 512 src) s1" "contents_written K s1 d (Suc l) n (drop 512 src) s2"
  shows "contents_written K s d l (Suc n) src s2"
  unfolding contents_written_def
proof (intro conjI ballI allI impI)
  show "bdevs s2 = bdevs s" using assms by (simp add: contents_upd_def contents_written_def)
  fix d' l' assume d': "d' \<in> K" "l' < blocks_of s d'"
  have 1: "cview s1 d' l' = (if d' = d \<and> l' = l then take 512 src else cview s d' l')" "blocks_of s1 d' = blocks_of s d'"
    using assms(1) d' by (simp_all add: contents_upd_def)
  have 2: "cview s2 d' l' = (if d' = d \<and> Suc l \<le> l' \<and> l' < Suc l + n then take 512 (drop ((l' - Suc l) * 512) (drop 512 src)) else cview s1 d' l')"
    using assms(2) d' 1(2) by (simp add: contents_written_def)
  have 3: "(l' - Suc l) * 512 + 512 = (l' - l) * 512" if "Suc l \<le> l'" using that by (simp add: diff_mult_distrib)
  consider "d' \<noteq> d \<or> l' < l \<or> l + n < l'" | "d' = d" "l' = l" | "d' = d" "Suc l \<le> l'" "l' \<le> l + n" by linarith
  then show "cview s2 d' l' = (if d' = d \<and> l \<le> l' \<and> l' < l + Suc n then take 512 (drop ((l' - l) * 512) src) else cview s d' l')"
    by cases (use 1(1) 2 3 in auto)
qed

lemma write_loop_result:
  assumes "cache_inv D K s" "d \<in> K" "lba + i + n \<le> blocks_of s d" "n * 512 \<le> length src"
  shows "\<exists>s'. cache_write_loop d lba i n src s = Some (True, s') \<and> cache_inv D K s' \<and> contents_written K s d (lba + i) n src s'"
  using assms
proof (induction n arbitrary: i src s)
  case 0
  then show ?case by (auto simp: contents_written_def)
next
  case (Suc n)
  note I = cache_invD [OF Suc.prems(1)]
  have w: "add64 lba i = lba + i"
    using disk_blocks [OF I(2) familyD(1) [OF I(3) Suc.prems(2)], of "lba + i"] Suc.prems(3) by (simp add: add64_exact)
  obtain s1 where r1: "cache_write_sector d (lba + i) src s = Some (True, s1)" "cache_inv D K s1" "contents_upd K s d (lba + i) (take 512 src) s1"
    using write_sector_result [OF Suc.prems(1,2), of "lba + i" src] Suc.prems(3,4) by auto
  have B: "blocks_of s1 d = blocks_of s d" using r1(3) by (simp add: contents_upd_def)
  have L: "n * 512 \<le> length src - 512" using Suc.prems(4) by simp
  obtain s2 where r2: "cache_write_loop d lba (Suc i) n (drop 512 src) s1 = Some (True, s2)" "cache_inv D K s2"
      "contents_written K s1 d (lba + Suc i) n (drop 512 src) s2"
    using Suc.IH [OF r1(2) Suc.prems(2), of "Suc i" "drop 512 src"] Suc.prems(3) L B by auto
  show ?case using r1(1) r2 w written_Suc [OF r1(3)] by (simp add: BLOCK_DEFAULT_SECTOR_SIZE_def)
qed

section \<open>Writing back\<close>

text \<open>What writing back keeps: which entries are in use and for what; a clean entry stays clean.\<close>

definition flushed :: "nat set \<Rightarrow> ('hw, 'a) block_cache_state_scheme \<Rightarrow> ('hw, 'a) block_cache_state_scheme \<Rightarrow> bool" where
  "flushed K s s' \<longleftrightarrow> same_contents K s s' \<and> holds s' = holds s \<and> valids s' = valids s
     \<and> (\<forall>i. ce_dev (cents s' i) = ce_dev (cents s i) \<and> (ce_dirty (cents s' i) \<longrightarrow> ce_dirty (cents s i)))"

lemma flushed_trans: "flushed K s s1 \<Longrightarrow> flushed K s1 s2 \<Longrightarrow> flushed K s s2"
  using same_contents_trans [of K s s1 s2] by (simp add: flushed_def)

lemma flush_entries_result:
  assumes "cache_inv D K s" "set is \<subseteq> {..<BLOCK_CACHE_CAPACITY}"
  shows "\<exists>s'. flush_entries d is ok s = Some (ok, s') \<and> cache_inv D K s' \<and> flushed K s s'
    \<and> (\<forall>i \<in> set is \<inter> valids s. d = 0 \<or> ce_dev (cents s i) = d \<longrightarrow> \<not> ce_dirty (cents s' i))"
  using assms
proof (induction "is" arbitrary: s)
  case Nil
  then show ?case by (simp add: flushed_def same_contents_def)
next
  case (Cons i "is")
  show ?case
  proof (cases "ce_valid (cents s i) \<and> ce_dirty (cents s i) \<and> (d = 0 \<or> ce_dev (cents s i) = d)")
    case True
    then have i: "i \<in> valids s" using Cons.prems(2) by (simp add: valids_def)
    obtain s1 where f: "cache_flush_entry_locked i s = Some (True, s1)" "cache_inv D K s1" "\<forall>d \<in> K. \<forall>l < blocks_of s d. cview s1 d l = cview s d l"
      "bdevs s1 = bdevs s" "valids s1 = valids s" "holds s1 = holds s" "cents s1 = (cents s)(i := (cents s i)\<lparr>ce_dirty := False\<rparr>)"
      using flush_entry_result [OF Cons.prems(1) i] by (elim exE conjE) (rule that)
    have F: "flushed K s s1" "\<not> ce_dirty (cents s1 i)" using f by (simp_all add: flushed_def same_contents_def)
    obtain s2 where r: "flush_entries d is ok s1 = Some (ok, s2)" "cache_inv D K s2" "flushed K s1 s2"
      "\<forall>i \<in> set is \<inter> valids s1. d = 0 \<or> ce_dev (cents s1 i) = d \<longrightarrow> \<not> ce_dirty (cents s2 i)"
      using Cons.IH [OF f(2)] Cons.prems(2) by auto
    have "flush_entries d (i # is) ok s = Some (ok, s2)" using True f(1) r(1) by simp
    moreover have "\<not> ce_dirty (cents s2 i)" using F(2) r(3) by (auto simp: flushed_def)
    ultimately show ?thesis
      using r(2,4) flushed_trans [OF F(1) r(3)] F(1) by (intro exI [of _ s2]) (auto simp: flushed_def)
  next
    case False
    obtain s2 where r: "flush_entries d is ok s = Some (ok, s2)" "cache_inv D K s2" "flushed K s s2"
      "\<forall>i \<in> set is \<inter> valids s. d = 0 \<or> ce_dev (cents s i) = d \<longrightarrow> \<not> ce_dirty (cents s2 i)"
      using Cons.IH [OF Cons.prems(1)] Cons.prems(2) by auto
    have "flush_entries d (i # is) ok s = Some (ok, s2)" using False r(1) by auto
    moreover have "\<not> ce_dirty (cents s2 i)" if "i \<in> valids s" "d = 0 \<or> ce_dev (cents s i) = d"
      using False that r(3) by (auto simp: flushed_def valids_def)
    ultimately show ?thesis using r(2,3,4) by (intro exI [of _ s2]) auto
  qed
qed

lemma clean_view:
  assumes inv: "cache_inv D K s" and clean: "\<And>i. holds s i d l \<Longrightarrow> \<not> ce_dirty (cents s i)"
  shows "cview s d l = sector s d l"
proof (cases "\<exists>i. holds s i d l")
  case True
  then obtain i where h: "holds s i d l" ..
  then have "i \<in> valids s" by (simp add: holds_def valids_def)
  then show ?thesis using cache_invD(5) [OF inv] clean [OF h] cview_hit [OF inv h] h by (auto simp: entry_ok_def Let_def holds_def)
qed (simp add: cview_miss)

lemma block_flush_family:
  assumes "storage_inv D s" "family K s" "d \<in> K"
  shows "\<exists>r. block_flush d s = Some (r, s)"
proof -
  note f = familyD [OF assms(2,3)]
  have R: "\<exists>r. block_flush x s = Some (r, s)" if "bd_ops (bdevs s x) = Some Ramdisk_ops" "x \<noteq> 0" for x
    using that by (simp add: block_flush.simps)
  show ?thesis
  proof (cases "is_partition (bdevs s d)")
    case True
    then have "bd_ops (bdevs s d) = Some Partition_ops" "root_of s d = bd_parent (bdevs s d)" by (simp_all add: is_partition_def root_of_def)
    moreover have "bd_ops (bdevs s (bd_parent (bdevs s d))) = Some Ramdisk_ops" "bd_parent (bdevs s d) \<noteq> 0"
      using f(2) calculation(2) by (auto simp: disk_def is_ramdisk_def online_def block_slots_def)
    ultimately show ?thesis using R f(5) by (subst block_flush.simps) (auto simp: partition_flush_def)
  next
    case False
    then show ?thesis using R [of d] f(2,5) by (simp add: root_of_def disk_def is_ramdisk_def)
  qed
qed

lemma flush_device_result:
  assumes inv: "cache_inv D K s" and d: "d = 0 \<or> d \<in> K"
  shows "\<exists>s'. block_cache_flush_device d s = Some (True, s') \<and> cache_inv D K s' \<and> same_contents K s s'
    \<and> (\<forall>d' \<in> K. \<forall>l < blocks_of s d'. d = 0 \<or> d' = d \<longrightarrow> sector s' d' l = cview s d' l)"
proof -
  obtain s1 where f: "flush_entries d [0..<BLOCK_CACHE_CAPACITY] True s = Some (True, s1)" "cache_inv D K s1" "flushed K s s1"
    "\<forall>i \<in> set [0..<BLOCK_CACHE_CAPACITY] \<inter> valids s. d = 0 \<or> ce_dev (cents s i) = d \<longrightarrow> \<not> ce_dirty (cents s1 i)"
    using flush_entries_result [OF inv, of "[0..<BLOCK_CACHE_CAPACITY]" d True] by (auto simp: subset_iff)
  note I = cache_invD [OF f(2)]
  have "block_cache_flush_device d s = Some (True, s1)"
    using f(1) d cache_invD(1) [OF inv] block_flush_family [OF I(2,3), of d] by (auto simp: block_cache_flush_device_def)
  moreover have "sector s1 d' l = cview s d' l" if d': "d' \<in> K" "l < blocks_of s d'" "d = 0 \<or> d' = d" for d' l
  proof -
    have "\<not> ce_dirty (cents s1 i)" if "holds s1 i d' l" for i
      using that f(3,4) d'(3) by (auto simp: flushed_def holds_def valids_def)
    then show ?thesis using clean_view [OF f(2), of d' l] f(3) d' by (simp add: flushed_def same_contents_def)
  qed
  ultimately show ?thesis using f(2,3) by (intro exI [of _ s1]) (simp add: flushed_def)
qed

section \<open>Invalidation\<close>

lemma drop_entry_result:
  assumes inv: "cache_inv D K s" and i: "i \<in> valids s"
  shows "\<exists>s'. drop_entry i s = Some s' \<and> cache_inv D K s' \<and> same_contents K s s' \<and> (\<forall>j d l. holds s' j d l \<longleftrightarrow> j \<noteq> i \<and> holds s j d l)"
proof -
  obtain s1 where f: "cache_flush_entry_locked i s = Some (True, s1)" "cache_inv D K s1" "\<forall>d \<in> K. \<forall>l < blocks_of s d. cview s1 d l = cview s d l"
    "bdevs s1 = bdevs s" "valids s1 = valids s" "holds s1 = holds s" "cents s1 = (cents s)(i := (cents s i)\<lparr>ce_dirty := False\<rparr>)"
    using flush_entry_result [OF inv i] by (elim exE conjE) (rule that)
  define t where "t = (if ce_dirty (cents s i) then s1 else s)"
  have t: "cache_inv D K t" "\<forall>d \<in> K. \<forall>l < blocks_of s d. cview t d l = cview s d l" "bdevs t = bdevs s" "valids t = valids s" "holds t = holds s"
    "\<not> ce_dirty (cents t i)" using f inv by (simp_all add: t_def)
  define u where "u = upd_entry i (\<lambda>e. e\<lparr>ce_valid := False, ce_dirty := False, ce_dev := 0\<rparr>) (hash_unlink i t)"
  note U = unlink_result [OF t(1) _ t(6) _ u_def, unfolded t(4), OF i, simplified]
  have "drop_entry i s = Some u" using f(1) by (simp add: drop_entry_def u_def t_def)
  moreover have "bdevs u = bdevs s" by (simp add: u_def hash_unlink_def t(3))
  ultimately show ?thesis using U t(2,5) by (simp add: same_contents_def)
qed

lemma drop_entries_result:
  assumes "cache_inv D K s" "set is \<subseteq> {..<BLOCK_CACHE_CAPACITY}"
  shows "\<exists>s'. drop_entries d is s = Some s' \<and> cache_inv D K s' \<and> same_contents K s s'
    \<and> (\<forall>j d' l. holds s' j d' l \<longleftrightarrow> holds s j d' l \<and> (j \<in> set is \<longrightarrow> d' \<noteq> d))"
  using assms
proof (induction "is" arbitrary: s)
  case Nil
  then show ?case by (simp add: same_contents_def)
next
  case (Cons i "is")
  show ?case
  proof (cases "ce_valid (cents s i) \<and> ce_dev (cents s i) = d")
    case True
    then have i: "i \<in> valids s" using Cons.prems(2) by (simp add: valids_def)
    obtain s1 where f: "drop_entry i s = Some s1" "cache_inv D K s1" "same_contents K s s1" "\<forall>j d l. holds s1 j d l \<longleftrightarrow> j \<noteq> i \<and> holds s j d l"
      using drop_entry_result [OF Cons.prems(1) i] by (elim exE conjE) (rule that)
    obtain s2 where r: "drop_entries d is s1 = Some s2" "cache_inv D K s2" "same_contents K s1 s2"
      "\<forall>j d' l. holds s2 j d' l \<longleftrightarrow> holds s1 j d' l \<and> (j \<in> set is \<longrightarrow> d' \<noteq> d)"
      using Cons.IH [OF f(2)] Cons.prems(2) by auto
    have "holds s i d' l \<Longrightarrow> d' = d" for d' l using True by (auto simp: holds_def)
    then have "holds s2 j d' l \<longleftrightarrow> holds s j d' l \<and> (j \<in> set (i # is) \<longrightarrow> d' \<noteq> d)" for j d' l
      using r(4) f(4) by (cases "j = i") auto
    moreover have "drop_entries d (i # is) s = Some s2" using True f(1) r(1) by simp
    ultimately show ?thesis using r(2) same_contents_trans [OF f(3) r(3)] by (intro exI [of _ s2] conjI allI)
  next
    case False
    obtain s2 where r: "drop_entries d is s = Some s2" "cache_inv D K s2" "same_contents K s s2"
      "\<forall>j d' l. holds s2 j d' l \<longleftrightarrow> holds s j d' l \<and> (j \<in> set is \<longrightarrow> d' \<noteq> d)"
      using Cons.IH [OF Cons.prems(1)] Cons.prems(2) by auto
    have "\<not> holds s i d l" for l using False by (auto simp: holds_def)
    then have "holds s2 j d' l \<longleftrightarrow> holds s j d' l \<and> (j \<in> set (i # is) \<longrightarrow> d' \<noteq> d)" for j d' l
      using r(4) by (cases "j = i") auto
    moreover have "drop_entries d (i # is) s = Some s2" using False r(1) by auto
    ultimately show ?thesis using r(2,3) by (intro exI [of _ s2] conjI allI)
  qed
qed

lemma invalidate_result:
  assumes inv: "cache_inv D K s" and d: "d \<in> K"
  shows "\<exists>s'. block_cache_invalidate_device d s = Some s' \<and> cache_inv D K s' \<and> same_contents K s s'
    \<and> (\<forall>j l. \<not> holds s' j d l) \<and> (\<forall>l < blocks_of s d. sector s' d l = cview s d l)"
proof -
  obtain s1 where r: "drop_entries d [0..<BLOCK_CACHE_CAPACITY] s = Some s1" "cache_inv D K s1" "same_contents K s s1"
    "\<forall>j d' l. holds s1 j d' l \<longleftrightarrow> holds s j d' l \<and> (j \<in> set [0..<BLOCK_CACHE_CAPACITY] \<longrightarrow> d' \<noteq> d)"
    using drop_entries_result [OF inv, of "[0..<BLOCK_CACHE_CAPACITY]" d] by (auto simp: subset_iff)
  have none: "\<not> holds s1 j d l" for j l using r(4) by (auto simp: holds_def)
  have "d \<noteq> 0" using familyD(5) [OF cache_invD(3) [OF inv] d] by simp
  then have "block_cache_invalidate_device d s = Some s1"
    using r(1) cache_invD(1) [OF inv] by (simp add: block_cache_invalidate_device_def)
  moreover have "sector s1 d l = cview s d l" if "l < blocks_of s d" for l
    using cview_miss [OF none, of l] r(3) d that by (simp add: same_contents_def)
  ultimately show ?thesis using r(2,3) none by (intro exI [of _ s1] conjI allI impI)
qed

section \<open>Initialisation\<close>

lemma cache_init_result:
  assumes "storage_inv D s" "family K s" "block_cache_init s = (ok, s')"
  shows "ok \<and> cache_inv D K s' \<and> bdevs s' = bdevs s \<and> cview s' = sector s"
proof -
  have s': "s' = snd (block_cache_init s)" "ok" using assms(3) by (simp_all add: block_cache_init_def)
  have F: "storage_inv D s' = storage_inv D s" "family K s' = family K s" "sector s' = sector s" "bdevs s' = bdevs s"
    "cache_initialized s'" "lru_list s' = [0..<BLOCK_CACHE_CAPACITY]" "hash_table s' = (\<lambda>_. [])"
    unfolding s' block_cache_init_def by simp_all
  have V: "\<not> ce_valid (cents s' i)" if "i < BLOCK_CACHE_CAPACITY" for i using that by (simp add: s' block_cache_init_def)
  then have "valids s' = {}" and H: "\<not> holds s' i d l" for i d l by (auto simp: valids_def holds_def)
  moreover have "set [0..<BLOCK_CACHE_CAPACITY] = {..<BLOCK_CACHE_CAPACITY}" by (simp add: lessThan_atLeast0)
  ultimately have "cache_inv D K s'" using assms(1,2) F unfolding cache_inv_def lists_ok_def by simp
  moreover have "cview s' = sector s" by (intro ext) (simp add: cview_miss [OF H] F)
  ultimately show ?thesis using F s' by simp
qed

end
