(* ===== verification/KOS_Sector_Store.thy ===== *)
theory KOS_Sector_Store
  imports KOS_Prelude "HOL-Library.Monad_Syntax"
begin

text \<open>
  The contract between a file system and what stores its sectors: a family of devices, each an array of
  sectors of 512 bytes, that can be read and written in runs of sectors. The block layer promises it for
  the devices themselves, the block cache promises it for the devices behind it. The section on calls
  says what a client sees of a store: the replies to a sequence of calls, and what is stored at the end.
\<close>

section \<open>Sequences of calls\<close>

datatype store_call = Load nat nat nat | Store nat nat nat "u8 list"

datatype store_reply = Bytes "u8 list option" | Done bool

definition run_call :: "(nat \<Rightarrow> nat \<Rightarrow> nat \<Rightarrow> 's \<Rightarrow> (u8 list option \<times> 's) option) \<Rightarrow>
    (nat \<Rightarrow> nat \<Rightarrow> nat \<Rightarrow> u8 list \<Rightarrow> 's \<Rightarrow> (bool \<times> 's) option) \<Rightarrow> store_call \<Rightarrow> 's \<Rightarrow> (store_reply \<times> 's) option" where
  "run_call rd wr c s = (case c of
       Load d l n \<Rightarrow> do { (r, s') \<leftarrow> rd d l n s; Some (Bytes r, s') }
     | Store d l n b \<Rightarrow> do { (r, s') \<leftarrow> wr d l n b s; Some (Done r, s') })"

fun run_calls :: "(nat \<Rightarrow> nat \<Rightarrow> nat \<Rightarrow> 's \<Rightarrow> (u8 list option \<times> 's) option) \<Rightarrow>
    (nat \<Rightarrow> nat \<Rightarrow> nat \<Rightarrow> u8 list \<Rightarrow> 's \<Rightarrow> (bool \<times> 's) option) \<Rightarrow> store_call list \<Rightarrow> 's \<Rightarrow> (store_reply list \<times> 's) option" where
  "run_calls rd wr [] s = Some ([], s)"
| "run_calls rd wr (c # cs) s = do {
     (r, s1) \<leftarrow> run_call rd wr c s;
     (rs, s2) \<leftarrow> run_calls rd wr cs s1;
     Some (r # rs, s2) }"

text \<open>The same calls on a plain array of sectors.\<close>

definition put_sectors :: "nat \<Rightarrow> nat \<Rightarrow> nat \<Rightarrow> u8 list \<Rightarrow> (nat \<Rightarrow> nat \<Rightarrow> u8 list) \<Rightarrow> nat \<Rightarrow> nat \<Rightarrow> u8 list" where
  "put_sectors d l n b v e k = (if e = d \<and> l \<le> k \<and> k < l + n then take 512 (drop ((k - l) * 512) b) else v e k)"

definition get_sectors :: "nat \<Rightarrow> nat \<Rightarrow> nat \<Rightarrow> (nat \<Rightarrow> nat \<Rightarrow> u8 list) \<Rightarrow> u8 list" where
  "get_sectors d l n v = concat (map (v d) [l..<l + n])"

fun array_calls :: "store_call list \<Rightarrow> (nat \<Rightarrow> nat \<Rightarrow> u8 list) \<Rightarrow> store_reply list \<times> (nat \<Rightarrow> nat \<Rightarrow> u8 list)" where
  "array_calls [] v = ([], v)"
| "array_calls (Load d l n # cs) v = (let (rs, v') = array_calls cs v in (Bytes (Some (get_sectors d l n v)) # rs, v'))"
| "array_calls (Store d l n b # cs) v = (let (rs, v') = array_calls cs (put_sectors d l n b v) in (Done True # rs, v'))"

text \<open>A call that stays within a device of the family.\<close>

definition call_ok :: "nat set \<Rightarrow> (nat \<Rightarrow> nat) \<Rightarrow> store_call \<Rightarrow> bool" where
  "call_ok devs extent c = (case c of
       Load d l n \<Rightarrow> d \<in> devs \<and> 0 < n \<and> l + n \<le> extent d
     | Store d l n b \<Rightarrow> d \<in> devs \<and> 0 < n \<and> l + n \<le> extent d \<and> length b = n * 512)"

definition agree :: "nat set \<Rightarrow> (nat \<Rightarrow> nat) \<Rightarrow> (nat \<Rightarrow> nat \<Rightarrow> u8 list) \<Rightarrow> (nat \<Rightarrow> nat \<Rightarrow> u8 list) \<Rightarrow> bool" where
  "agree devs extent v w \<longleftrightarrow> (\<forall>d \<in> devs. \<forall>l < extent d. v d l = w d l)"

lemma agree_trans: "agree devs extent u v \<Longrightarrow> agree devs extent v w \<Longrightarrow> agree devs extent u w"
  by (simp add: agree_def)

lemma agree_sym: "agree devs extent u v \<Longrightarrow> agree devs extent v u"
  by (simp add: agree_def)

lemma agree_put: "agree devs extent v w \<Longrightarrow> agree devs extent (put_sectors d l n b v) (put_sectors d l n b w)"
  by (simp add: agree_def put_sectors_def)

lemma agree_get: "agree devs extent v w \<Longrightarrow> d \<in> devs \<Longrightarrow> l + n \<le> extent d \<Longrightarrow> get_sectors d l n v = get_sectors d l n w"
  unfolding get_sectors_def by (rule arg_cong [where f = concat]) (auto simp: agree_def)

lemma sectors_of_bytes: "length b = n * 512 \<Longrightarrow> concat (map (\<lambda>k. take 512 (drop (k * 512) b)) [0..<n]) = b"
proof (induction n arbitrary: b)
  case (Suc n)
  have "map (\<lambda>k. take 512 (drop (k * 512) b)) [0..<Suc n] = take 512 b # map (\<lambda>k. take 512 (drop (k * 512) (drop 512 b))) [0..<n]"
    by (simp add: upt_conv_Cons map_Suc_upt [symmetric] comp_def add.commute del: upt_Suc)
  then show ?case using Suc.IH [of "drop 512 b"] Suc.prems by simp
qed simp

lemma get_put: "length b = n * 512 \<Longrightarrow> get_sectors d l n (put_sectors d l n b v) = b"
proof -
  assume len: "length b = n * 512"
  have "map (put_sectors d l n b v d) [l..<l + n] = map (\<lambda>k. take 512 (drop (k * 512) b)) [0..<n]"
    by (rule nth_equalityI) (auto simp: put_sectors_def)
  then show ?thesis using sectors_of_bytes [OF len] by (simp add: get_sectors_def)
qed

section \<open>The contract\<close>

locale sector_store =
  fixes rd :: "nat \<Rightarrow> nat \<Rightarrow> nat \<Rightarrow> 's \<Rightarrow> (u8 list option \<times> 's) option"
    and wr :: "nat \<Rightarrow> nat \<Rightarrow> nat \<Rightarrow> u8 list \<Rightarrow> 's \<Rightarrow> (bool \<times> 's) option"
    and valid :: "'s \<Rightarrow> bool" and devs :: "nat set"
    and extent :: "'s \<Rightarrow> nat \<Rightarrow> nat" and view :: "'s \<Rightarrow> nat \<Rightarrow> nat \<Rightarrow> u8 list"
  assumes rd_law: "valid s \<Longrightarrow> call_ok devs (extent s) (Load d l n) \<Longrightarrow>
      \<exists>s'. rd d l n s = Some (Some (get_sectors d l n (view s)), s') \<and> valid s' \<and> extent s' = extent s \<and> agree devs (extent s) (view s') (view s)"
    and wr_law: "valid s \<Longrightarrow> call_ok devs (extent s) (Store d l n b) \<Longrightarrow>
      \<exists>s'. wr d l n b s = Some (True, s') \<and> valid s' \<and> extent s' = extent s \<and> agree devs (extent s) (view s') (put_sectors d l n b (view s))"
begin

text \<open>A client cannot tell the store from an array.\<close>

lemma calls_as_array:
  assumes "valid s" "\<forall>c \<in> set cs. call_ok devs (extent s) c" "agree devs (extent s) (view s) v" "array_calls cs v = (rs, v')"
  shows "\<exists>s'. run_calls rd wr cs s = Some (rs, s') \<and> valid s' \<and> extent s' = extent s \<and> agree devs (extent s) (view s') v'"
  using assms
proof (induction cs arbitrary: s v rs)
  case Nil
  then show ?case by simp
next
  case (Cons c cs)
  show ?case
  proof (cases c)
    case (Load d l n)
    obtain rs' where a: "array_calls cs v = (rs', v')" "rs = Bytes (Some (get_sectors d l n v)) # rs'"
      using Cons.prems(4) Load by (cases "array_calls cs v") simp
    obtain s1 where r: "rd d l n s = Some (Some (get_sectors d l n (view s)), s1)" "valid s1" "extent s1 = extent s" "agree devs (extent s) (view s1) (view s)"
      using rd_law [of s d l n] Cons.prems(1,2) Load by auto
    obtain s2 where i: "run_calls rd wr cs s1 = Some (rs', s2)" "valid s2" "extent s2 = extent s1" "agree devs (extent s1) (view s2) v'"
      using Cons.IH [OF r(2) _ _ a(1)] Cons.prems(2) r(3) agree_trans [OF r(4) Cons.prems(3)] by auto
    have "get_sectors d l n (view s) = get_sectors d l n v"
      using agree_get [OF Cons.prems(3)] Cons.prems(2) Load by (simp add: call_ok_def)
    then show ?thesis using i r(1,3) a(2) Load by (simp add: run_call_def)
  next
    case (Store d l n b)
    obtain rs' where a: "array_calls cs (put_sectors d l n b v) = (rs', v')" "rs = Done True # rs'"
      using Cons.prems(4) Store by (cases "array_calls cs (put_sectors d l n b v)") simp
    obtain s1 where r: "wr d l n b s = Some (True, s1)" "valid s1" "extent s1 = extent s" "agree devs (extent s) (view s1) (put_sectors d l n b (view s))"
      using wr_law [of s d l n b] Cons.prems(1,2) Store by auto
    obtain s2 where i: "run_calls rd wr cs s1 = Some (rs', s2)" "valid s2" "extent s2 = extent s1" "agree devs (extent s1) (view s2) v'"
      using Cons.IH [OF r(2) _ _ a(1)] Cons.prems(2) r(3) agree_trans [OF r(4) agree_put [OF Cons.prems(3)]] by auto
    then show ?thesis using r(1,3) a(2) Store by (simp add: run_call_def)
  qed
qed

text \<open>Reading back what was written.\<close>

lemma store_then_load:
  assumes "valid s" "call_ok devs (extent s) (Store d l n b)"
  shows "\<exists>s1 s2. wr d l n b s = Some (True, s1) \<and> rd d l n s1 = Some (Some b, s2)"
proof -
  obtain s1 where r: "wr d l n b s = Some (True, s1)" "valid s1" "extent s1 = extent s" "agree devs (extent s) (view s1) (put_sectors d l n b (view s))"
    using wr_law [OF assms] by (elim exE conjE)
  have c: "call_ok devs (extent s1) (Load d l n)" "d \<in> devs" "l + n \<le> extent s d" using assms(2) r(3) by (simp_all add: call_ok_def)
  have "get_sectors d l n (view s1) = b" using agree_get [OF r(4) c(2,3)] get_put assms(2) by (simp add: call_ok_def)
  then show ?thesis using r(1) rd_law [OF r(2) c(1)] by auto
qed

end

end
