(* ===== verification/KOS_Cache_Safety.thy ===== *)
theory KOS_Cache_Safety
  imports KOS_Cache_Correct KOS_Sector_Store
begin

text \<open>
  The block layer and the block cache as stores of sectors: both keep the contract of
  \<open>sector_store\<close>, so a client that uses only devices of one family cannot tell them apart.
\<close>

section \<open>The devices themselves\<close>

lemma splice_left: "a + m \<le> c \<Longrightarrow> c \<le> length xs \<Longrightarrow> take m (drop a (take c xs @ ys)) = take m (drop a xs)"
  by (simp add: drop_take)

lemma splice_inside: "c \<le> length xs \<Longrightarrow> c \<le> a \<Longrightarrow> a + m \<le> c + length b \<Longrightarrow>
    take m (drop a (take c xs @ b @ zs)) = take m (drop (a - c) b)"
  by simp

lemma splice_right: "c \<le> length xs \<Longrightarrow> e = c + length b \<Longrightarrow> e \<le> a \<Longrightarrow> drop a (take c xs @ b @ drop e xs) = drop a xs"
  by simp

lemma splice_sectors:
  assumes "length xs = N * 512" "l + n \<le> N" "length b = n * 512"
  shows "take 512 (drop (k * 512) (take (l * 512) xs @ b @ drop (l * 512 + n * 512) xs))
    = (if l \<le> k \<and> k < l + n then take 512 (drop ((k - l) * 512) b) else take 512 (drop (k * 512) xs))"
proof -
  have l: "l * 512 \<le> length xs" using assms by simp
  consider "Suc k \<le> l" | "l \<le> k" "Suc k \<le> l + n" | "l + n \<le> k" by linarith
  then show ?thesis
  proof cases
    case 1
    then have "k * 512 + 512 \<le> l * 512" by linarith
    with 1 show ?thesis by (simp only: splice_left [OF _ l] if_False) simp
  next
    case 2
    have "k * 512 + 512 \<le> l * 512 + length b" using 2(2) assms(3) by linarith
    moreover have "l * 512 \<le> k * 512" "k * 512 - l * 512 = (k - l) * 512" using 2(1) by (simp_all add: diff_mult_distrib)
    ultimately show ?thesis using 2 by (simp only: splice_inside [OF l]) simp
  next
    case 3
    then have "l * 512 + n * 512 \<le> k * 512" by linarith
    with 3 assms(3) show ?thesis by (simp only: splice_right [OF l]) simp
  qed
qed

lemma sectors_of_device:
  assumes "bd_block_size (bdevs s d) = 512" "l + n \<le> blocks_of s d"
  shows "get_sectors d l n (sector s) = take (n * 512) (drop (l * 512) (dev_bytes s d))"
proof -
  let ?b = "take (n * 512) (drop (l * 512) (dev_bytes s d))"
  have "(l + n) * 512 \<le> dev_size s d" using mult_le_mono1 [OF assms(2), of 512] assms(1) by (simp add: dev_size_def)
  then have len: "length ?b = n * 512" by (simp add: algebra_simps)
  have "take 512 (drop (k * 512) ?b) = sector s d (l + k)" if "k < n" for k
  proof -
    have "k * 512 + 512 \<le> n * 512" using that mult_le_mono1 [of "Suc k" n 512] by simp
    then show ?thesis by (simp add: sector_def drop_take min_def algebra_simps)
  qed
  then have "map (\<lambda>k. take 512 (drop (k * 512) ?b)) [0..<n] = map (sector s d) [l..<l + n]"
    by (intro nth_equalityI) auto
  then show ?thesis using sectors_of_bytes [OF len] by (simp add: get_sectors_def)
qed

lemma write_sectors:
  assumes inv: "storage_inv D s" and K: "family K s" "d \<in> K" and n: "0 < n" "l + n \<le> blocks_of s d" and len: "length b = n * 512"
  shows "\<exists>m. block_write d l n b s = Some (True, s\<lparr>hmem := m\<rparr>)
    \<and> agree K (blocks_of s) (sector (s\<lparr>hmem := m\<rparr>)) (put_sectors d l n b (sector s))"
proof -
  note F = familyD [OF K]
  define m where "m = store_bytes (dev_addr s d + l * 512) b (hmem s)"
  have w: "block_write d l n b s = Some (True, s\<lparr>hmem := m\<rparr>)"
    using block_write_disk [OF inv F(1,2) n] len F(3) by (simp add: m_def)
  have fit: "l * bd_block_size (bdevs s d) + length b \<le> dev_size s d" using blocks_in_size [OF n(2)] len F(3) by simp
  have own: "dev_bytes (s\<lparr>hmem := m\<rparr>) d = take (l * 512) (dev_bytes s d) @ b @ drop (l * 512 + n * 512) (dev_bytes s d)"
    using write_own_bytes [OF fit] F(3) len by (simp add: m_def)
  have "sector (s\<lparr>hmem := m\<rparr>) e k = put_sectors d l n b (sector s) e k" if e: "e \<in> K" "k < blocks_of s e" for e k
  proof (cases "e = d")
    case True
    have "length (dev_bytes s d) = blocks_of s d * 512" using F(3) by (simp add: dev_size_def)
    from splice_sectors [OF this n(2) len, of k] show ?thesis using True e(2) by (simp add: sector_def own put_sectors_def)
  next
    case False
    note F' = familyD [OF K(1) e(1)]
    show ?thesis
      using write_other_bytes [OF inv F(1,2) F'(1,2) F(4) [OF e(1) False [symmetric]] fit] F(3) False
      by (simp add: sector_def m_def put_sectors_def)
  qed
  then show ?thesis using w by (auto simp: agree_def)
qed

lemma family_hmem: "family K (s\<lparr>hmem := m\<rparr>) = family K s"
  by (simp add: family_def devs_apart_def dev_range_def)

interpretation direct: sector_store block_read block_write "\<lambda>s. storage_inv D s \<and> family K s" K blocks_of sector for D K
proof
  fix d l n and s :: "('a, 'b) storage_state_scheme"
  assume s: "storage_inv D s \<and> family K s" and c: "call_ok K (blocks_of s) (Load d l n)"
  then have F: "d \<in> K" "0 < n" "l + n \<le> blocks_of s d" by (simp_all add: call_ok_def)
  note f = familyD [OF conjunct2 [OF s] F(1)]
  show "\<exists>s'. block_read d l n s = Some (Some (get_sectors d l n (sector s)), s') \<and> (storage_inv D s' \<and> family K s')
      \<and> blocks_of s' = blocks_of s \<and> agree K (blocks_of s) (sector s') (sector s)"
    using block_read_disk [OF conjunct1 [OF s] f(1,2) F(2,3)] sectors_of_device [OF f(3) F(3)] f(3) s by (simp add: agree_def)
next
  fix d l n b and s :: "('a, 'b) storage_state_scheme"
  assume s: "storage_inv D s \<and> family K s" and c: "call_ok K (blocks_of s) (Store d l n b)"
  then obtain m where "block_write d l n b s = Some (True, s\<lparr>hmem := m\<rparr>)" "agree K (blocks_of s) (sector (s\<lparr>hmem := m\<rparr>)) (put_sectors d l n b (sector s))"
    using write_sectors [of D s K d n l b] by (auto simp: call_ok_def)
  then show "\<exists>s'. block_write d l n b s = Some (True, s') \<and> (storage_inv D s' \<and> family K s')
      \<and> blocks_of s' = blocks_of s \<and> agree K (blocks_of s) (sector s') (put_sectors d l n b (sector s))"
    using s by (auto simp: family_hmem)
qed

section \<open>The cache\<close>

interpretation cached: sector_store block_cache_read block_cache_write "cache_inv D K" K blocks_of cview for D K
proof
  fix d l n and s :: "('a, 'b) block_cache_state_scheme"
  assume s: "cache_inv D K s" and c: "call_ok K (blocks_of s) (Load d l n)"
  note I = cache_invD [OF s]
  have F: "d \<in> K" "0 < n" "l + n \<le> blocks_of s d" using c by (simp_all add: call_ok_def)
  then show "\<exists>s'. block_cache_read d l n s = Some (Some (get_sectors d l n (cview s)), s') \<and> cache_inv D K s'
      \<and> blocks_of s' = blocks_of s \<and> agree K (blocks_of s) (cview s') (cview s)"
    using read_loop_result [OF s F(1), of l 0 n] I(1) familyD(5) [OF I(3) F(1)]
    by (auto simp: block_cache_read_def get_sectors_def same_contents_def agree_def)
next
  fix d l n b and s :: "('a, 'b) block_cache_state_scheme"
  assume s: "cache_inv D K s" and c: "call_ok K (blocks_of s) (Store d l n b)"
  note I = cache_invD [OF s]
  have F: "d \<in> K" "0 < n" "l + n \<le> blocks_of s d" "length b = n * 512" using c by (simp_all add: call_ok_def)
  obtain s' where "cache_write_loop d l 0 n b s = Some (True, s')" "cache_inv D K s'" "contents_written K s d l n b s'"
    using write_loop_result [OF s F(1), of l 0 n b] F(3,4) by auto
  then show "\<exists>s'. block_cache_write d l n b s = Some (True, s') \<and> cache_inv D K s'
      \<and> blocks_of s' = blocks_of s \<and> agree K (blocks_of s) (cview s') (put_sectors d l n b (cview s))"
    using I(1) familyD(5) [OF I(3) F(1)] F(2)
    by (intro exI [of _ s'] conjI) (simp_all add: block_cache_write_def contents_written_def agree_def put_sectors_def)
qed

section \<open>A concrete cache\<close>

definition with_cache :: "'hw storage_state \<Rightarrow> 'hw block_cache_state" where
  "with_cache s = storage_state.extend s (block_cache_state.fields
     (\<lambda>_. \<lparr>ce_dev = 0, ce_lba = 0, ce_data = replicate 512 0, ce_valid = False, ce_dirty = False, ce_last_access = 0\<rparr>)
     [] (\<lambda>_. []) \<lparr>st_hits = 0, st_misses = 0, st_reads = 0, st_writes = 0, st_flushes = 0, st_evictions = 0\<rparr> False 0)"

lemma with_cache_same:
  "storage_inv D (with_cache s) = storage_inv D s" "online (with_cache s) = online s" "disk (with_cache s) = disk s"
  "root_of (with_cache s) = root_of s" "bdevs (with_cache s) = bdevs s" "dev_bytes (with_cache s) = dev_bytes s"
proof -
  note d = with_cache_def storage_state.defs block_cache_state.defs
  show "storage_inv D (with_cache s) = storage_inv D s" by (rule storage_cong) (simp_all add: d)
  show "online (with_cache s) = online s" by (rule storage_cong) (simp_all add: d)
  show "disk (with_cache s) = disk s" by (rule storage_cong) (simp_all add: d)
  show "root_of (with_cache s) = root_of s" by (rule storage_cong) (simp_all add: d)
  show "bdevs (with_cache s) = bdevs s" by (simp add: d)
  show "dev_bytes (with_cache s) = dev_bytes s" by (rule storage_cong) (simp_all add: d)
qed

lemma cache_example:
  "\<exists>d (s :: unit block_cache_state). storage_inv (data_frames 0x5000 heap_example) s \<and> family {d} s \<and> blocks_of s d = 2
     \<and> dev_bytes s d = replicate 1024 0"
proof -
  obtain d s where c: "ramdisk_create ''rd0'' 1024 512 storage_example = Some (d, s)" "d \<noteq> 0" using disk_example by (elim exE conjE)
  have O: "create_outcome (data_frames 0x5000 heap_example) 2 512 d storage_example s"
    using ramdisk_create_result [OF storage_example_inv, of 1024 512 512 "''rd0''"] c(1) by simp
  then have I: "storage_inv (data_frames 0x5000 heap_example) s" and C: "created 1024 2 512 d storage_example s"
    using c(2) by (simp_all add: create_outcome_def)
  have B: "online s d" "disk s (root_of s d)" "bd_total_blocks (bdevs s d) = 2" "bd_block_size (bdevs s d) = 512" "dev_bytes s d = replicate 1024 0"
    using C by (auto simp: created_def disk_def root_of_def is_ramdisk_def is_partition_def)
  show ?thesis
    using I B by (intro exI [of _ d] exI [of _ "with_cache s"]) (simp add: family_def with_cache_same)
qed

section \<open>The properties\<close>

lemma bytes_of_sectors:
  assumes "family K s" "d \<in> K"
  shows "dev_bytes s d = get_sectors d 0 (blocks_of s d) (sector s)"
  using sectors_of_device [of s d 0 "blocks_of s d"] familyD(3) [OF assms] by (simp add: dev_size_def)

lemma same_bytes:
  assumes "family K s" "family K t" "d \<in> K" "blocks_of t = blocks_of s" "agree K (blocks_of s) (sector s) (sector t)"
  shows "dev_bytes s d = dev_bytes t d"
  using agree_get [OF assms(5,3), of 0] bytes_of_sectors [OF assms(1,3)] bytes_of_sectors [OF assms(2,3)] fun_cong [OF assms(4), of d]
  by simp

text \<open>
  C34. The block cache is transparent for accesses within RAM disks with 512-byte blocks. Take a family of
  such devices (disks or partitions of disks) that do not overlap, start the cache, and make any
  sequence of reads and writes of at least one sector within them, once through the cache and once on
  the devices directly: every call returns and all replies are the same, whatever is evicted on the way.
  When the cache is then synced, the devices hold the same bytes. Other accesses are not covered: the
  cache accepts writes past the end of a device, which the device refuses, and it ignores a failed
  write-back, which a RAM disk does not have.
\<close>

theorem cache_transparent:
  assumes "storage_inv D s" and "family K s" and "block_cache_init s = (ok, s0)" and "\<forall>c \<in> set cs. call_ok K (blocks_of s) c"
  shows "\<exists>rs s1 s2 t. run_calls block_cache_read block_cache_write cs s0 = Some (rs, s1) \<and> block_cache_sync s1 = Some (True, s2)
    \<and> run_calls block_read block_write cs s = Some (rs, t) \<and> (\<forall>d \<in> K. dev_bytes s2 d = dev_bytes t d)"
proof -
  have 0: "cache_inv D K s0" "bdevs s0 = bdevs s" "cview s0 = sector s" using cache_init_result [OF assms(1-3)] by simp_all
  obtain rs v where a: "array_calls cs (sector s) = (rs, v)" by (rule prod.exhaust)
  obtain s1 where c: "run_calls block_cache_read block_cache_write cs s0 = Some (rs, s1)" "cache_inv D K s1"
      "blocks_of s1 = blocks_of s0" "agree K (blocks_of s0) (cview s1) v"
    using cached.calls_as_array [of D K s0 cs "sector s" rs v] 0 assms(4) a by (auto simp: agree_def)
  obtain t where t: "run_calls block_read block_write cs s = Some (rs, t)" "storage_inv D t \<and> family K t" "blocks_of t = blocks_of s"
      "agree K (blocks_of s) (sector t) v"
    using direct.calls_as_array [of D s K cs "sector s" rs v] assms(1,2,4) a by (auto simp: agree_def)
  obtain s2 where f: "block_cache_sync s1 = Some (True, s2)" "cache_inv D K s2" "same_contents K s1 s2"
      "\<forall>d \<in> K. \<forall>l < blocks_of s1 d. sector s2 d l = cview s1 d l"
    using flush_device_result [OF c(2), of 0] unfolding block_cache_sync_def by auto
  have b: "blocks_of s2 = blocks_of s" using f(3) c(3) 0(2) by (simp add: same_contents_def)
  have "agree K (blocks_of s2) (sector s2) (sector t)"
    using f(4) c(3,4) t(4) 0(2) unfolding b by (simp add: agree_def fun_eq_iff)
  then have "dev_bytes s2 d = dev_bytes t d" if "d \<in> K" for d
    using same_bytes [OF cache_invD(3) [OF f(2)] conjunct2 [OF t(2)] that] b t(3) by simp
  then show ?thesis using c(1) f(1) t(1) by (intro exI conjI ballI)
qed

theorem cache_transparent_witness:
  "\<exists>d (s :: unit block_cache_state) rs s1 t. run_calls block_cache_read block_cache_write
       [Store d 1 1 (replicate 512 7), Load d 0 2] (snd (block_cache_init s)) = Some (rs, s1)
     \<and> run_calls block_read block_write [Store d 1 1 (replicate 512 7), Load d 0 2] s = Some (rs, t)"
proof -
  obtain d and s :: "unit block_cache_state" where e: "storage_inv (data_frames 0x5000 heap_example) s" "family {d} s" "blocks_of s d = 2"
    using cache_example by (elim exE conjE)
  obtain ok s0 where i: "block_cache_init s = (ok, s0)" by (rule prod.exhaust)
  have "\<forall>c \<in> set [Store d 1 1 (replicate 512 7), Load d 0 2]. call_ok {d} (blocks_of s) c" using e(3) by (simp add: call_ok_def)
  from cache_transparent [OF e(1,2) i this] obtain rs s1 t where
    "run_calls block_cache_read block_cache_write [Store d 1 1 (replicate 512 7), Load d 0 2] (snd (block_cache_init s)) = Some (rs, s1)"
    "run_calls block_read block_write [Store d 1 1 (replicate 512 7), Load d 0 2] s = Some (rs, t)"
    unfolding i snd_conv by (elim exE conjE)
  then show ?thesis by (intro exI conjI)
qed

text \<open>
  C35. Nothing written through the cache is lost when it is flushed or invalidated, as long as its entries
  belong to RAM disks with 512-byte blocks (or partitions of them) that do not overlap, and lie within
  them, so that no write-back can fail. Flushing a device succeeds, and reading any of its sectors from
  the device itself then gives what the cache showed before. Invalidating a device does the same and
  leaves no entry for it. In both cases the cache still shows the same contents of every device.
\<close>

theorem cache_writeback:
  assumes inv: "cache_inv D K s" and d: "d \<in> K"
  shows "(\<exists>s'. block_cache_flush_device d s = Some (True, s') \<and> same_contents K s s'
      \<and> (\<forall>l < blocks_of s d. block_read d l 1 s' = Some (Some (cview s d l), s')))
    \<and> (\<exists>s'. block_cache_invalidate_device d s = Some s' \<and> same_contents K s s' \<and> (\<forall>i l. \<not> holds s' i d l)
      \<and> (\<forall>l < blocks_of s d. block_read d l 1 s' = Some (Some (cview s d l), s')))"
proof -
  have R: "block_read d l 1 s' = Some (Some (sector s' d l), s')" if "cache_inv D K s'" "same_contents K s s'" "l < blocks_of s d" for s' l
    using read_sector [OF cache_invD(2,3) [OF that(1)] d, of l] that(2,3) by (simp add: same_contents_def)
  obtain s1 where 1: "block_cache_flush_device d s = Some (True, s1)" "cache_inv D K s1" "same_contents K s s1"
      "\<forall>l < blocks_of s d. sector s1 d l = cview s d l"
    using flush_device_result [OF inv, of d] d by auto
  obtain s2 where 2: "block_cache_invalidate_device d s = Some s2" "cache_inv D K s2" "same_contents K s s2" "\<forall>j l. \<not> holds s2 j d l"
      "\<forall>l < blocks_of s d. sector s2 d l = cview s d l"
    using invalidate_result [OF inv d] by (elim exE conjE) (rule that)
  show ?thesis using R [OF 1(2,3)] 1 R [OF 2(2,3)] 2 by auto
qed

theorem cache_writeback_witness:
  "\<exists>d (s :: unit block_cache_state) s'. block_cache_flush_device d s = Some (True, s') \<and> block_read d 1 1 s' = Some (Some (replicate 512 0), s')"
proof -
  obtain d and s :: "unit block_cache_state" where e: "storage_inv (data_frames 0x5000 heap_example) s" "family {d} s" "blocks_of s d = 2"
    "dev_bytes s d = replicate 1024 0"
    using cache_example by (elim exE conjE)
  obtain ok s0 where i: "block_cache_init s = (ok, s0)" by (rule prod.exhaust)
  have 0: "cache_inv (data_frames 0x5000 heap_example) {d} s0" "bdevs s0 = bdevs s" "cview s0 d 1 = replicate 512 0"
    using cache_init_result [OF e(1,2) i] e(4) by (simp_all add: sector_def)
  obtain s' where "block_cache_flush_device d s0 = Some (True, s')" "block_read d 1 1 s' = Some (Some (cview s0 d 1), s')"
    using cache_writeback [OF 0(1), of d] 0(2) e(3) by auto
  then show ?thesis unfolding 0(3) by (intro exI conjI)
qed

end
