(* ===== verification/KOS_Aes.thy ===== *)
theory KOS_Aes
  imports KOS_Prelude
begin

text \<open>
  AES-128 and AES-256 in Galois/counter mode, from section 6 of \<open>src/lib/crypto.c\<close>. Arrays are lists, a
  buffer with its size is a list of that length. A pointer that the code tests for null is an option.
  The two key lengths have the same text with a different key expansion and number of rounds (10 and
  14), so what they share is one definition with the round keys and the number of rounds as arguments.
\<close>

section \<open>The block cipher\<close>

fun aes_gf_mul_bits :: "nat \<Rightarrow> u8 \<Rightarrow> u8 \<Rightarrow> u8 \<Rightarrow> u8" where
  "aes_gf_mul_bits 0 a b result = result"
| "aes_gf_mul_bits (Suc n) a b result =
     (let result = (if b AND 1 \<noteq> 0 then result XOR a else result);
          high = (a AND 0x80 \<noteq> 0);
          a = push_bit 1 a
      in aes_gf_mul_bits n (if high then a XOR 0x1b else a) (drop_bit 1 b) result)"

definition aes_gf_mul :: "u8 \<Rightarrow> u8 \<Rightarrow> u8" where
  "aes_gf_mul a b = aes_gf_mul_bits 8 a b 0"

definition aes_sbox :: "u8 \<Rightarrow> u8" where
  "aes_sbox v =
     (if v = 0 then 0x63
      else let inverse = ((\<lambda>x. aes_gf_mul x v) ^^ 254) 1
           in inverse XOR (push_bit 1 inverse OR drop_bit 7 inverse) XOR (push_bit 2 inverse OR drop_bit 6 inverse)
              XOR (push_bit 3 inverse OR drop_bit 5 inverse) XOR (push_bit 4 inverse OR drop_bit 4 inverse) XOR 0x63)"

text \<open>The round keys are generated four bytes at a time; \<open>klen\<close> is the length of the key.\<close>

definition rotate_word :: "u8 \<Rightarrow> u8 list \<Rightarrow> u8 list" where
  "rotate_word rcon w = [aes_sbox (w ! 1) XOR rcon, aes_sbox (w ! 2), aes_sbox (w ! 3), aes_sbox (w ! 0)]"

definition append_word :: "nat \<Rightarrow> u8 list \<Rightarrow> u8 list \<Rightarrow> u8 list" where
  "append_word klen w keys = fold (\<lambda>i ks. ks @ [ks ! (length ks - klen) XOR w ! i]) [0..<4] keys"

fun expand128_words :: "nat \<Rightarrow> u8 \<Rightarrow> u8 list \<Rightarrow> u8 list" where
  "expand128_words 0 rcon keys = keys"
| "expand128_words (Suc n) rcon keys =
     (let w = drop (length keys - 4) keys
      in if length keys mod 16 = 0
         then expand128_words n (aes_gf_mul rcon 2) (append_word 16 (rotate_word rcon w) keys)
         else expand128_words n rcon (append_word 16 w keys))"

definition aes128_expand_key :: "u8 list \<Rightarrow> u8 list" where
  "aes128_expand_key key = expand128_words 40 1 key"

fun expand256_words :: "nat \<Rightarrow> u8 \<Rightarrow> u8 list \<Rightarrow> u8 list" where
  "expand256_words 0 rcon keys = keys"
| "expand256_words (Suc n) rcon keys =
     (let w = drop (length keys - 4) keys
      in if length keys mod 32 = 0
         then expand256_words n (aes_gf_mul rcon 2) (append_word 32 (rotate_word rcon w) keys)
         else if length keys mod 32 = 16 then expand256_words n rcon (append_word 32 (map aes_sbox w) keys)
         else expand256_words n rcon (append_word 32 w keys))"

definition aes256_expand_key :: "u8 list \<Rightarrow> u8 list" where
  "aes256_expand_key key = expand256_words 52 1 key"

definition shift_rows :: "u8 list \<Rightarrow> u8 list" where
  "shift_rows s = map (\<lambda>i. let row = i mod 4; column = i div 4 in s ! (row + 4 * ((column + row) mod 4))) [0..<16]"

definition mix_column :: "u8 \<Rightarrow> u8 \<Rightarrow> u8 \<Rightarrow> u8 \<Rightarrow> u8 list" where
  "mix_column a b c d =
     [aes_gf_mul a 2 XOR aes_gf_mul b 3 XOR c XOR d, a XOR aes_gf_mul b 2 XOR aes_gf_mul c 3 XOR d,
      a XOR b XOR aes_gf_mul c 2 XOR aes_gf_mul d 3, aes_gf_mul a 3 XOR b XOR c XOR aes_gf_mul d 2]"

definition mix_columns :: "u8 list \<Rightarrow> u8 list" where
  "mix_columns s = concat (map (\<lambda>c. mix_column (s ! (4 * c)) (s ! (4 * c + 1)) (s ! (4 * c + 2)) (s ! (4 * c + 3))) [0..<4])"

definition aes_round :: "u8 list \<Rightarrow> nat \<Rightarrow> nat \<Rightarrow> u8 list \<Rightarrow> u8 list" where
  "aes_round round_keys rounds r s =
     (let shifted = shift_rows (map aes_sbox s);
          mixed = (if r \<noteq> rounds then mix_columns shifted else shifted)
      in map2 (XOR) mixed (take 16 (drop (r * 16) round_keys)))"

definition aes_encrypt_block_rounds :: "u8 list \<Rightarrow> nat \<Rightarrow> u8 list \<Rightarrow> u8 list" where
  "aes_encrypt_block_rounds round_keys rounds input =
     fold (aes_round round_keys rounds) [1..<Suc rounds] (map2 (XOR) input (take 16 round_keys))"

section \<open>Galois/counter mode\<close>

definition gcm_xor :: "u8 list \<Rightarrow> u8 list \<Rightarrow> u8 list" where
  "gcm_xor target source = map2 (XOR) target source"

definition gcm_shift :: "u8 list \<Rightarrow> u8 list" where
  "gcm_shift v =
     (let lsb = (v ! 15 AND 1 \<noteq> 0);
          w = map (\<lambda>i. if i = 0 then drop_bit 1 (v ! 0) else drop_bit 1 (v ! i) OR push_bit 7 (v ! (i - 1))) [0..<16]
      in if lsb then w[0 := w ! 0 XOR 0xe1] else w)"

fun gcm_multiply_bits :: "nat list \<Rightarrow> u8 list \<Rightarrow> u8 list \<Rightarrow> u8 list \<Rightarrow> u8 list" where
  "gcm_multiply_bits [] x z v = z"
| "gcm_multiply_bits (b # bs) x z v =
     gcm_multiply_bits bs x (if x ! (b div 8) AND drop_bit (b mod 8) 0x80 \<noteq> 0 then gcm_xor z v else z) (gcm_shift v)"

definition gcm_multiply :: "u8 list \<Rightarrow> u8 list \<Rightarrow> u8 list" where
  "gcm_multiply x y = gcm_multiply_bits [0..<128] x (replicate 16 0) y"

definition gcm_ghash_block :: "u8 list \<Rightarrow> u8 list \<Rightarrow> u8 list \<Rightarrow> u8 list" where
  "gcm_ghash_block hash_key block accumulator = gcm_multiply (gcm_xor accumulator block) hash_key"

text \<open>One of the two loops over the data: 16 bytes at a time, the last block filled with zeros.\<close>

function ghash_data :: "u8 list \<Rightarrow> u8 list \<Rightarrow> u8 list \<Rightarrow> u8 list" where
  "ghash_data hash_key data acc =
     (if data = [] then acc
      else let block = take 16 data
           in ghash_data hash_key (drop 16 data)
                (gcm_ghash_block hash_key (block @ replicate (16 - length block) 0) acc))"
  by pat_completeness auto
termination
  by (relation "measure (\<lambda>(k, d, a). length d)") (auto simp: Let_def)

definition length_bytes :: "nat \<Rightarrow> u8 list" where
  "length_bytes n = (let bits = (of_nat n :: u64) * 8 in map (\<lambda>i. ucast (drop_bit ((7 - i) * 8) bits)) [0..<8])"

definition gcm_ghash :: "u8 list \<Rightarrow> u8 list \<Rightarrow> u8 list \<Rightarrow> u8 list" where
  "gcm_ghash hash_key aad ciphertext =
     gcm_ghash_block hash_key (length_bytes (length aad) @ length_bytes (length ciphertext))
       (ghash_data hash_key ciphertext (ghash_data hash_key aad (replicate 16 0)))"

fun increment_from :: "nat \<Rightarrow> nat \<Rightarrow> u8 list \<Rightarrow> u8 list" where
  "increment_from i 0 counter = counter"
| "increment_from i (Suc n) counter =
     (let counter = counter[i := counter ! i + 1]
      in if counter ! i \<noteq> 0 then counter else increment_from (i - 1) n counter)"

definition gcm_increment_counter :: "u8 list \<Rightarrow> u8 list" where
  "gcm_increment_counter counter = increment_from 15 4 counter"

function gcm_crypt :: "u8 list \<Rightarrow> nat \<Rightarrow> u8 list \<Rightarrow> u8 list \<Rightarrow> u8 list" where
  "gcm_crypt round_keys rounds counter input =
     (if input = [] then []
      else let counter = gcm_increment_counter counter;
               stream = aes_encrypt_block_rounds round_keys rounds counter
           in map2 (XOR) (take 16 input) stream @ gcm_crypt round_keys rounds counter (drop 16 input))"
  by pat_completeness auto
termination
  by (relation "measure (\<lambda>(k, r, c, d). length d)") (auto simp: Let_def)

definition gcm_j0 :: "u8 list \<Rightarrow> u8 list" where
  "gcm_j0 nonce = take 12 nonce @ [0, 0, 0, 1]"

definition gcm_tag :: "u8 list \<Rightarrow> nat \<Rightarrow> u8 list \<Rightarrow> u8 list \<Rightarrow> u8 list \<Rightarrow> u8 list" where
  "gcm_tag round_keys rounds nonce aad ciphertext =
     (let hash_key = aes_encrypt_block_rounds round_keys rounds (replicate 16 0);
          accumulator = gcm_ghash hash_key aad ciphertext
      in gcm_xor (aes_encrypt_block_rounds round_keys rounds (gcm_j0 nonce)) accumulator)"

definition tag_mismatch :: "u8 list \<Rightarrow> u8 list \<Rightarrow> u8" where
  "tag_mismatch expected tag = fold (\<lambda>i mismatch. mismatch OR (expected ! i XOR tag ! i)) [0..<16] 0"

definition gcm_encrypt :: "u8 list \<Rightarrow> nat \<Rightarrow> u8 list \<Rightarrow> u8 list \<Rightarrow> u8 list \<Rightarrow> u8 list \<times> u8 list" where
  "gcm_encrypt round_keys rounds nonce aad plaintext =
     (let ciphertext = gcm_crypt round_keys rounds (gcm_j0 nonce) plaintext
      in (ciphertext, gcm_tag round_keys rounds nonce aad ciphertext))"

definition gcm_decrypt :: "u8 list \<Rightarrow> nat \<Rightarrow> u8 list \<Rightarrow> u8 list \<Rightarrow> u8 list \<Rightarrow> u8 list \<Rightarrow> u8 list option" where
  "gcm_decrypt round_keys rounds nonce aad ciphertext tag =
     (if tag_mismatch (gcm_tag round_keys rounds nonce aad ciphertext) tag \<noteq> 0 then None
      else Some (gcm_crypt round_keys rounds (gcm_j0 nonce) ciphertext))"

text \<open>The result of encryption is the ciphertext and the tag, of decryption the plaintext; \<^const>\<open>None\<close> stands
  for the result false. The tag of the encryption is an output: only whether its pointer is null matters.\<close>

definition kos_aes128_gcm_encrypt :: "u8 list option \<Rightarrow> u8 list option \<Rightarrow> u8 list \<Rightarrow> u8 list \<Rightarrow> bool \<Rightarrow> (u8 list \<times> u8 list) option" where
  "kos_aes128_gcm_encrypt key nonce aad plaintext has_tag =
     (case (key, nonce) of
        (Some k, Some n) \<Rightarrow> if has_tag then Some (gcm_encrypt (aes128_expand_key k) 10 n aad plaintext) else None
      | _ \<Rightarrow> None)"

definition kos_aes128_gcm_decrypt :: "u8 list option \<Rightarrow> u8 list option \<Rightarrow> u8 list \<Rightarrow> u8 list \<Rightarrow> u8 list option \<Rightarrow> u8 list option" where
  "kos_aes128_gcm_decrypt key nonce aad ciphertext tag =
     (case (key, nonce, tag) of
        (Some k, Some n, Some t) \<Rightarrow> gcm_decrypt (aes128_expand_key k) 10 n aad ciphertext t
      | _ \<Rightarrow> None)"

definition kos_aes256_gcm_encrypt :: "u8 list option \<Rightarrow> u8 list option \<Rightarrow> u8 list \<Rightarrow> u8 list \<Rightarrow> bool \<Rightarrow> (u8 list \<times> u8 list) option" where
  "kos_aes256_gcm_encrypt key nonce aad plaintext has_tag =
     (case (key, nonce) of
        (Some k, Some n) \<Rightarrow> if has_tag then Some (gcm_encrypt (aes256_expand_key k) 14 n aad plaintext) else None
      | _ \<Rightarrow> None)"

definition kos_aes256_gcm_decrypt :: "u8 list option \<Rightarrow> u8 list option \<Rightarrow> u8 list \<Rightarrow> u8 list \<Rightarrow> u8 list option \<Rightarrow> u8 list option" where
  "kos_aes256_gcm_decrypt key nonce aad ciphertext tag =
     (case (key, nonce, tag) of
        (Some k, Some n, Some t) \<Rightarrow> gcm_decrypt (aes256_expand_key k) 14 n aad ciphertext t
      | _ \<Rightarrow> None)"

declare ghash_data.simps [simp del] gcm_crypt.simps [simp del]

section \<open>Lengths\<close>

lemma append_word_length [simp]: "length (append_word klen w keys) = length keys + 4"
  by (simp add: append_word_def upt_rec)

lemma expand128_length: "length (expand128_words n rcon keys) = length keys + 4 * n"
  by (induction n rcon keys rule: expand128_words.induct) (simp_all add: Let_def)

lemma expand256_length: "length (expand256_words n rcon keys) = length keys + 4 * n"
  by (induction n rcon keys rule: expand256_words.induct) (simp_all add: Let_def)

lemma aes_round_length:
  assumes "length s = 16" "(r + 1) * 16 \<le> length round_keys"
  shows "length (aes_round round_keys rounds r s) = 16"
  using assms by (simp add: aes_round_def Let_def shift_rows_def mix_columns_def mix_column_def length_concat comp_def sum_list_triv)

lemma aes_rounds_length:
  assumes "length s = 16" "\<forall>r \<in> set rs. (r + 1) * 16 \<le> length round_keys"
  shows "length (fold (aes_round round_keys rounds) rs s) = 16"
  using assms by (induction rs arbitrary: s) (simp_all add: aes_round_length)

lemma aes_block_length:
  assumes "length input = 16" "length round_keys = (rounds + 1) * 16"
  shows "length (aes_encrypt_block_rounds round_keys rounds input) = 16"
  unfolding aes_encrypt_block_rounds_def using assms by (intro aes_rounds_length) auto

lemma increment_length [simp]: "length (increment_from i n c) = length c"
  by (induction i n c rule: increment_from.induct) (simp_all add: Let_def)

lemma gcm_increment_length [simp]: "length (gcm_increment_counter c) = length c"
  by (simp add: gcm_increment_counter_def)

lemma gcm_shift_length [simp]: "length (gcm_shift v) = 16"
  by (simp add: gcm_shift_def Let_def)

lemma gcm_multiply_length: "length y = 16 \<Longrightarrow> length (gcm_multiply x y) = 16"
proof -
  have "length z = 16 \<Longrightarrow> length v = 16 \<Longrightarrow> length (gcm_multiply_bits bs x z v) = 16" for bs z v
    by (induction bs x z v rule: gcm_multiply_bits.induct) (simp_all add: gcm_xor_def)
  then show "length y = 16 \<Longrightarrow> length (gcm_multiply x y) = 16" by (simp add: gcm_multiply_def)
qed

section \<open>Encryption and decryption\<close>

lemma xor_twice: "length xs \<le> length ys \<Longrightarrow> map2 (XOR) (map2 (XOR) xs ys) ys = (xs :: u8 list)"
proof (induction xs arbitrary: ys)
  case (Cons x xs)
  then show ?case by (cases ys) (simp_all add: xor.assoc)
qed simp

lemma map2_length_le: "length xs \<le> length ys \<Longrightarrow> length (map2 f xs ys) = length xs"
  by simp

lemma crypt_twice:
  assumes "length round_keys = (rounds + 1) * 16" "length counter = 16"
  shows "gcm_crypt round_keys rounds counter (gcm_crypt round_keys rounds counter input) = input
    \<and> length (gcm_crypt round_keys rounds counter input) = length input"
  using assms
proof (induction round_keys rounds counter input rule: gcm_crypt.induct)
  case (1 round_keys rounds counter input)
  show ?case
  proof (cases "input = []")
    case True
    then show ?thesis by (simp add: gcm_crypt.simps)
  next
    case False
    define c where "c = gcm_increment_counter counter"
    define stream where "stream = aes_encrypt_block_rounds round_keys rounds c"
    define rest where "rest = gcm_crypt round_keys rounds c (drop 16 input)"
    have IH: "gcm_crypt round_keys rounds c rest = drop 16 input" "length rest = length input - 16"
      using "1.IH" [OF False refl refl] "1.prems" False by (simp_all add: c_def rest_def)
    have s: "length stream = 16" using "1.prems" by (simp add: stream_def c_def aes_block_length)
    define x where "x = map2 (XOR) (take 16 input) stream"
    have out: "gcm_crypt round_keys rounds counter input = x @ rest"
      using False by (subst gcm_crypt.simps) (simp add: c_def [symmetric] stream_def [symmetric] rest_def [symmetric] x_def [symmetric] Let_def)
    have x: "length x = min 16 (length input)" "x \<noteq> []" using s False by (auto simp: x_def)
    have t: "take 16 (x @ rest) = x" "drop 16 (x @ rest) = rest" using x(1) IH(2) by (cases "length input \<le> 16"; simp)+
    have "gcm_crypt round_keys rounds counter (x @ rest) = map2 (XOR) x stream @ drop 16 input"
      using x(2) IH(1) by (subst gcm_crypt.simps) (simp add: c_def [symmetric] stream_def [symmetric] Let_def t del: take_append drop_append)
    also have "map2 (XOR) x stream = take 16 input" unfolding x_def by (rule xor_twice) (simp add: s)
    finally show ?thesis using out x(1) IH(2) by auto
  qed
qed

lemma or_zero_iff: "(a :: u8) OR b = 0 \<longleftrightarrow> a = 0 \<and> b = 0"
  by (auto simp: bit_eq_iff bit_simps)

lemma xor_zero_iff: "(a :: u8) XOR b = 0 \<longleftrightarrow> a = b"
  by (metis xor.assoc xor.left_neutral xor_self_eq)

lemma mismatch_fold: "fold (\<lambda>i m. m OR (e ! i XOR t ! i)) is m = (0 :: u8) \<longleftrightarrow> m = 0 \<and> (\<forall>i \<in> set is. e ! i = t ! i)"
  by (induction "is" arbitrary: m) (auto simp: or_zero_iff xor_zero_iff)

lemma tag_mismatch_iff:
  assumes "length e = 16" "length t = 16"
  shows "tag_mismatch e t = 0 \<longleftrightarrow> e = t"
  unfolding tag_mismatch_def mismatch_fold using assms by (auto intro: nth_equalityI)

lemma gcm_tag_length:
  assumes "length round_keys = (rounds + 1) * 16" "length nonce = 12"
  shows "length (gcm_tag round_keys rounds nonce aad ct) = 16"
  using assms aes_block_length [of _ round_keys rounds]
  by (simp add: gcm_tag_def Let_def gcm_xor_def gcm_j0_def gcm_ghash_def gcm_ghash_block_def gcm_multiply_length)

lemma gcm_round_trip_keys:
  assumes k: "length round_keys = (rounds + 1) * 16" and n: "length nonce = 12" and e: "gcm_encrypt round_keys rounds nonce aad pt = (ct, tag)"
  shows "length ct = length pt \<and> length tag = 16
    \<and> (\<forall>t. length t = 16 \<longrightarrow> gcm_decrypt round_keys rounds nonce aad ct t = (if t = tag then Some pt else None))"
proof -
  have j: "length (gcm_j0 nonce) = 16" using n by (simp add: gcm_j0_def)
  note c = crypt_twice [OF k j, of pt]
  have e': "ct = gcm_crypt round_keys rounds (gcm_j0 nonce) pt" "tag = gcm_tag round_keys rounds nonce aad ct"
    using e by (auto simp: gcm_encrypt_def Let_def)
  have t: "length tag = 16" using gcm_tag_length [OF k n] e'(2) by simp
  have "gcm_decrypt round_keys rounds nonce aad ct u = (if u = tag then Some pt else None)" if "length u = 16" for u
    using tag_mismatch_iff [OF t that] c e'(1) unfolding gcm_decrypt_def e'(2) [symmetric] by simp
  then show ?thesis using t c e'(1) by blast
qed

section \<open>The counter\<close>

definition counter_value :: "u8 list \<Rightarrow> nat" where
  "counter_value c = ((unat (c ! 12) * 256 + unat (c ! 13)) * 256 + unat (c ! 14)) * 256 + unat (c ! 15)"

lemma byte_increment: "unat (b + 1 :: u8) = (if unat b = 255 then 0 else unat b + 1)" "b + 1 = 0 \<longleftrightarrow> unat (b :: u8) = 255"
proof -
  have u: "unat (b + 1 :: u8) = (if b + 1 = 0 then 0 else unat b + 1)" using unatSuc [of b] by (simp add: add.commute)
  have "b + 1 = 0 \<longleftrightarrow> b = - 1" by (simp add: eq_neg_iff_add_eq_0)
  also have "(- 1 :: u8) = 255" by simp
  also have "b = 255 \<longleftrightarrow> unat b = 255" by (simp add: word_unat_eq_iff)
  finally show iff: "b + 1 = 0 \<longleftrightarrow> unat b = 255" .
  show "unat (b + 1 :: u8) = (if unat b = 255 then 0 else unat b + 1)" using u unfolding iff by simp
qed

lemma carry_arith:
  assumes "a < 256" "b < 256" "c < 256" "d < (256 :: nat)"
  shows "(((a * 256 + b) * 256 + c) * 256 + d + 1) mod 2 ^ 32 =
    (if d \<noteq> 255 then ((a * 256 + b) * 256 + c) * 256 + (d + 1) else if c \<noteq> 255 then ((a * 256 + b) * 256 + (c + 1)) * 256
     else if b \<noteq> 255 then ((a * 256 + (b + 1)) * 256) * 256 else if a \<noteq> 255 then (a + 1) * 256 * 256 * 256 else 0)"
proof (cases "a = 255 \<and> b = 255 \<and> c = 255 \<and> d = 255")
  case False
  have "((a * 256 + b) * 256 + c) * 256 + d + 1 < 2 ^ 32"
  proof (rule ccontr)
    assume n: "\<not> ?thesis"
    then have "255 \<le> a" using assms by simp
    moreover from n this have "255 \<le> b" using assms by simp
    moreover from n calculation have "255 \<le> c" using assms by simp
    moreover from n calculation have "255 \<le> d" using assms by simp
    ultimately show False using False assms by simp
  qed
  then show ?thesis using False by auto
qed simp

lemma counter_step:
  assumes "length c = 16"
  shows "counter_value (gcm_increment_counter c) = (counter_value c + 1) mod 2 ^ 32"
    "take 12 (gcm_increment_counter c) = take 12 c"
proof -
  have b: "unat (c ! i) < 256" for i using unsigned_less [of "c ! i"] by simp
  note inc = byte_increment [of "c ! 15"] byte_increment [of "c ! 14"] byte_increment [of "c ! 13"] byte_increment [of "c ! 12"]
  have d: "gcm_increment_counter c =
      (let c1 = c[15 := c ! 15 + 1] in if c ! 15 + 1 \<noteq> 0 then c1
       else let c2 = c1[14 := c ! 14 + 1] in if c ! 14 + 1 \<noteq> 0 then c2
       else let c3 = c2[13 := c ! 13 + 1] in if c ! 13 + 1 \<noteq> 0 then c3 else c3[12 := c ! 12 + 1])"
    using assms by (simp add: gcm_increment_counter_def numeral_eq_Suc Let_def)
  show "take 12 (gcm_increment_counter c) = take 12 c" unfolding d using assms by (simp add: Let_def)
  show "counter_value (gcm_increment_counter c) = (counter_value c + 1) mod 2 ^ 32"
    unfolding d counter_value_def carry_arith [OF b b b b] using assms inc by (simp add: Let_def)
qed

lemma counter_iterate:
  assumes "length c = 16"
  shows "length ((gcm_increment_counter ^^ n) c) = 16 \<and> counter_value ((gcm_increment_counter ^^ n) c) = (counter_value c + n) mod 2 ^ 32
    \<and> take 12 ((gcm_increment_counter ^^ n) c) = take 12 c"
proof (induction n)
  case 0
  have "unat (c ! i) < 256" for i using unsigned_less [of "c ! i"] by simp
  from this [of 12] this [of 13] this [of 14] this [of 15] have "counter_value c < 2 ^ 32" by (simp add: counter_value_def)
  then show ?case using assms by simp
next
  case (Suc n)
  then show ?case using counter_step [of "(gcm_increment_counter ^^ n) c"] by (simp add: mod_simps)
qed

text \<open>Each 16 bytes of the message are masked with the cipher of a counter block of their own.\<close>

lemma crypt_block:
  assumes "length round_keys = (rounds + 1) * 16" "length counter = 16" "i < length input"
  shows "gcm_crypt round_keys rounds counter input ! i
    = input ! i XOR aes_encrypt_block_rounds round_keys rounds ((gcm_increment_counter ^^ Suc (i div 16)) counter) ! (i mod 16)"
  using assms
proof (induction round_keys rounds counter input arbitrary: i rule: gcm_crypt.induct)
  case (1 round_keys rounds counter input)
  define c where "c = gcm_increment_counter counter"
  define stream where "stream = aes_encrypt_block_rounds round_keys rounds c"
  have ne: "input \<noteq> []" using "1.prems"(3) by auto
  have s: "length stream = 16" "length c = 16" using "1.prems" by (simp_all add: stream_def c_def aes_block_length)
  have out: "gcm_crypt round_keys rounds counter input = map2 (XOR) (take 16 input) stream @ gcm_crypt round_keys rounds c (drop 16 input)"
    using ne by (subst gcm_crypt.simps) (simp add: c_def stream_def Let_def)
  have x: "length (map2 (XOR) (take 16 input) stream) = min 16 (length input)" using s by simp
  show ?case
  proof (cases "i < 16")
    case True
    then show ?thesis using out x s "1.prems"(3) by (simp add: nth_append stream_def c_def)
  next
    case False
    then obtain j where j: "i = 16 + j" using le_Suc_ex [of 16 i] by auto
    have "gcm_crypt round_keys rounds counter input ! i = gcm_crypt round_keys rounds c (drop 16 input) ! j"
      using out x "1.prems"(3) j by (simp add: nth_append)
    also have "\<dots> = drop 16 input ! j XOR aes_encrypt_block_rounds round_keys rounds ((gcm_increment_counter ^^ Suc (j div 16)) c) ! (j mod 16)"
      using "1.IH" [OF ne refl refl, of j] "1.prems"(1,3) s j unfolding c_def by simp
    also have "(gcm_increment_counter ^^ Suc (j div 16)) c = (gcm_increment_counter ^^ Suc (i div 16)) counter"
      by (simp add: j c_def funpow_swap1 div_add_self1)
    finally show ?thesis using j "1.prems"(3) by simp
  qed
qed

section \<open>The properties\<close>

lemma key_lengths:
  "length key = 16 \<Longrightarrow> length (aes128_expand_key key) = (10 + 1) * 16" "length key = 32 \<Longrightarrow> length (aes256_expand_key key) = (14 + 1) * 16"
  by (simp_all add: aes128_expand_key_def aes256_expand_key_def expand128_length expand256_length)

text \<open>
  C36. AES-GCM with a 128 or 256 bit key and a 12-byte nonce: encryption gives a ciphertext of the length of the plaintext and
  a tag of 16 bytes. Decryption under the same key, nonce and additional data gives the plaintext back
  for exactly this tag, and for every other tag gives no plaintext. (The property is about the mode of
  operation and holds for the cipher and the hash as the code has them.)
\<close>

theorem aes_gcm_round_trip:
  assumes "length nonce = 12"
  shows "(length key = 16 \<longrightarrow> (\<exists>ct tag. kos_aes128_gcm_encrypt (Some key) (Some nonce) aad pt True = Some (ct, tag) \<and> length ct = length pt
      \<and> length tag = 16 \<and> (\<forall>t. length t = 16 \<longrightarrow>
          kos_aes128_gcm_decrypt (Some key) (Some nonce) aad ct (Some t) = (if t = tag then Some pt else None))))
    \<and> (length key = 32 \<longrightarrow> (\<exists>ct tag. kos_aes256_gcm_encrypt (Some key) (Some nonce) aad pt True = Some (ct, tag) \<and> length ct = length pt
      \<and> length tag = 16 \<and> (\<forall>t. length t = 16 \<longrightarrow>
          kos_aes256_gcm_decrypt (Some key) (Some nonce) aad ct (Some t) = (if t = tag then Some pt else None))))"
proof -
  have R: "\<exists>ct tag. gcm_encrypt rk rounds nonce aad pt = (ct, tag) \<and> length ct = length pt \<and> length tag = 16
      \<and> (\<forall>t. length t = 16 \<longrightarrow> gcm_decrypt rk rounds nonce aad ct t = (if t = tag then Some pt else None))"
    if "length rk = (rounds + 1) * 16" for rk rounds
  proof -
    obtain ct tag where e: "gcm_encrypt rk rounds nonce aad pt = (ct, tag)" by (rule prod.exhaust)
    from gcm_round_trip_keys [OF that assms e] e show ?thesis by blast
  qed
  show ?thesis
    using R [OF key_lengths(1)] R [OF key_lengths(2)]
    by (simp add: kos_aes128_gcm_encrypt_def kos_aes128_gcm_decrypt_def kos_aes256_gcm_encrypt_def kos_aes256_gcm_decrypt_def)
qed

theorem aes_gcm_round_trip_witness:
  "\<exists>ct tag. kos_aes128_gcm_encrypt (Some (replicate 16 0)) (Some (replicate 12 0)) [1] [2, 3] True = Some (ct, tag)
     \<and> kos_aes128_gcm_decrypt (Some (replicate 16 0)) (Some (replicate 12 0)) [1] ct (Some tag) = Some [2, 3]"
  using aes_gcm_round_trip [of "replicate 12 0" "replicate 16 0" "[1]" "[2, 3]"] by auto

text \<open>What a message is masked with, for any key schedule.\<close>

lemma gcm_key_stream:
  assumes k: "length rk = (rounds + 1) * 16" and n: "length nonce = 12" and len: "length pt \<le> 16 * (2 ^ 32 - 2)"
    and e: "gcm_encrypt rk rounds nonce aad pt = (ct, tag)" and ctr: "ctr = (\<lambda>n. (gcm_increment_counter ^^ n) (gcm_j0 nonce))"
  shows "(\<forall>i < length pt. ct ! i = pt ! i XOR aes_encrypt_block_rounds rk rounds (ctr (Suc (i div 16))) ! (i mod 16))
    \<and> tag = gcm_xor (aes_encrypt_block_rounds rk rounds (ctr 0)) (gcm_ghash (aes_encrypt_block_rounds rk rounds (replicate 16 0)) aad ct)
    \<and> (\<forall>i < length pt. \<forall>j < length pt. i div 16 \<noteq> j div 16 \<longrightarrow> ctr (Suc (i div 16)) \<noteq> ctr (Suc (j div 16)))
    \<and> (\<forall>i < length pt. ctr (Suc (i div 16)) \<noteq> ctr 0)"
proof -
  have j: "length (gcm_j0 nonce) = 16" "counter_value (gcm_j0 nonce) = 1" using n by (simp_all add: gcm_j0_def counter_value_def nth_append)
  have c: "ct = gcm_crypt rk rounds (gcm_j0 nonce) pt" "tag = gcm_tag rk rounds nonce aad ct"
    using e by (auto simp: gcm_encrypt_def Let_def)
  have v: "counter_value (ctr n) = (1 + n) mod 2 ^ 32" for n using counter_iterate [OF j(1), of n] j(2) by (simp add: ctr)
  have small: "Suc (i div 16) < 2 ^ 32 - 1" if "i < length pt" for i using that len by (simp add: div_less_iff_less_mult)
  have D: "ctr (Suc m) \<noteq> ctr n" if "Suc m < 2 ^ 32 - 1" "n < 2 ^ 32 - 1" "Suc m \<noteq> n" for m n
    using v [of "Suc m"] v [of n] that by auto
  have B: "ct ! i = pt ! i XOR aes_encrypt_block_rounds rk rounds (ctr (Suc (i div 16))) ! (i mod 16)" if "i < length pt" for i
    unfolding c(1) ctr by (rule crypt_block [OF k j(1) that])
  show ?thesis
  proof (intro conjI allI impI)
    show "tag = gcm_xor (aes_encrypt_block_rounds rk rounds (ctr 0)) (gcm_ghash (aes_encrypt_block_rounds rk rounds (replicate 16 0)) aad ct)"
      using c(2) by (simp add: gcm_tag_def Let_def ctr)
    show "ctr (Suc (i div 16)) \<noteq> ctr 0" if "i < length pt" for i by (rule D) (use small [OF that] in simp_all)
    show "ctr (Suc (i div 16)) \<noteq> ctr (Suc (j div 16))" if "i < length pt" "j < length pt" "i div 16 \<noteq> j div 16" for i j
      by (rule D) (use small [OF that(1)] small [OF that(2)] that(3) in simp_all)
  qed (rule B)
qed

text \<open>
  C37. In AES-GCM with a 128 or 256 bit key and a 12-byte nonce, a message of less than \<open>2 ^ 32 - 1\<close> blocks is masked with
  the cipher of counter blocks that are all different, and different from the block that masks the tag: no part of the
  key stream is used twice.
\<close>

theorem aes_gcm_key_stream:
  assumes "length nonce = 12" and "length pt \<le> 16 * (2 ^ 32 - 2)"
    and "length key = 16 \<and> kos_aes128_gcm_encrypt (Some key) (Some nonce) aad pt True = Some (ct, tag) \<and> cipher = aes_encrypt_block_rounds (aes128_expand_key key) 10
      \<or> length key = 32 \<and> kos_aes256_gcm_encrypt (Some key) (Some nonce) aad pt True = Some (ct, tag) \<and> cipher = aes_encrypt_block_rounds (aes256_expand_key key) 14"
    and "ctr = (\<lambda>n. (gcm_increment_counter ^^ n) (gcm_j0 nonce))"
  shows "(\<forall>i < length pt. ct ! i = pt ! i XOR cipher (ctr (Suc (i div 16))) ! (i mod 16))
    \<and> tag = gcm_xor (cipher (ctr 0)) (gcm_ghash (cipher (replicate 16 0)) aad ct)
    \<and> (\<forall>i < length pt. \<forall>j < length pt. i div 16 \<noteq> j div 16 \<longrightarrow> ctr (Suc (i div 16)) \<noteq> ctr (Suc (j div 16)))
    \<and> (\<forall>i < length pt. ctr (Suc (i div 16)) \<noteq> ctr 0)"
  using assms(3)
proof (elim disjE conjE)
  assume "length key = 16" "kos_aes128_gcm_encrypt (Some key) (Some nonce) aad pt True = Some (ct, tag)"
    and c: "cipher = aes_encrypt_block_rounds (aes128_expand_key key) 10"
  then have "gcm_encrypt (aes128_expand_key key) 10 nonce aad pt = (ct, tag)" by (simp add: kos_aes128_gcm_encrypt_def)
  then show ?thesis unfolding c by (rule gcm_key_stream [OF key_lengths(1) [OF \<open>length key = 16\<close>] assms(1,2) _ assms(4)])
next
  assume "length key = 32" "kos_aes256_gcm_encrypt (Some key) (Some nonce) aad pt True = Some (ct, tag)"
    and c: "cipher = aes_encrypt_block_rounds (aes256_expand_key key) 14"
  then have "gcm_encrypt (aes256_expand_key key) 14 nonce aad pt = (ct, tag)" by (simp add: kos_aes256_gcm_encrypt_def)
  then show ?thesis unfolding c by (rule gcm_key_stream [OF key_lengths(2) [OF \<open>length key = 32\<close>] assms(1,2) _ assms(4)])
qed

theorem aes_gcm_key_stream_witness:
  "gcm_increment_counter (gcm_j0 (replicate 12 0)) \<noteq> gcm_j0 (replicate 12 0)"
proof -
  obtain ct tag where e: "kos_aes128_gcm_encrypt (Some (replicate 16 0)) (Some (replicate 12 0)) [1] [2, 3] True = Some (ct, tag)"
    by (simp add: kos_aes128_gcm_encrypt_def gcm_encrypt_def Let_def)
  have "\<forall>i < length [2 :: u8, 3]. (gcm_increment_counter ^^ Suc (i div 16)) (gcm_j0 (replicate 12 0)) \<noteq> (gcm_increment_counter ^^ 0) (gcm_j0 (replicate 12 0))"
    using aes_gcm_key_stream [of "replicate 12 0" "[2, 3]" "replicate 16 0" "[1]" ct tag _ "\<lambda>n. (gcm_increment_counter ^^ n) (gcm_j0 (replicate 12 0))"] e
    by simp
  from this [rule_format, of 0] show ?thesis by simp
qed

end
