(* ===== verification/KOS_Poly1305.thy ===== *)
theory KOS_Poly1305
  imports KOS_Sha2
begin

text \<open>
  The one-time authenticator Poly1305 of section 7 of \<open>src/lib/crypto.c\<close>. The numbers of the code are kept
  as natural numbers with the wrap-around of 32 and 64 bits written out (\<open>w32\<close>, \<open>w64\<close>); the accumulator
  and the key are five limbs of 26 bits. The reference is RFC 8439: the message in blocks of 16 bytes,
  each followed by a bit 1, as the coefficients of a polynomial modulo \<open>2 ^ 130 - 5\<close>.
\<close>

section \<open>Arithmetic of the code\<close>

definition w32 :: "nat \<Rightarrow> nat" where
  "w32 x = x mod 2 ^ 32"

definition w64 :: "nat \<Rightarrow> nat" where
  "w64 x = x mod 2 ^ 64"

abbreviation low26 :: "nat \<Rightarrow> nat" where
  "low26 x \<equiv> x AND 0x3ffffff"

definition le32 :: "u8 list \<Rightarrow> nat \<Rightarrow> nat" where
  "le32 m i = unat (m ! i) OR push_bit 8 (unat (m ! (i + 1))) OR push_bit 16 (unat (m ! (i + 2))) OR push_bit 24 (unat (m ! (i + 3)))"

section \<open>The state\<close>

type_synonym limbs = "nat \<times> nat \<times> nat \<times> nat \<times> nat"

record poly1305_ctx =
  poly_r :: limbs
  poly_h :: limbs
  poly_pad :: "nat list"
  poly_leftover :: nat
  poly_buffer :: "u8 list"

definition poly1305_init :: "u8 list \<Rightarrow> u8 list \<Rightarrow> poly1305_ctx" where
  "poly1305_init buffer key =
     (let k = (\<lambda>i. unat (key ! i)) in
      \<lparr>poly_r = (le32 key 0 AND 0x3ffffff,
         (drop_bit 2 (k 3) OR push_bit 6 (k 4) OR push_bit 14 (k 5) OR push_bit 22 (k 6)) AND 0x3ffff03,
         (drop_bit 4 (k 6) OR push_bit 4 (k 7) OR push_bit 12 (k 8) OR push_bit 20 (k 9)) AND 0x3ffc0ff,
         (drop_bit 6 (k 9) OR push_bit 2 (k 10) OR push_bit 10 (k 11) OR push_bit 18 (k 12)) AND 0x3f03fff,
         (drop_bit 8 (k 12) OR push_bit 0 (k 13) OR push_bit 8 (k 14) OR push_bit 16 (k 15)) AND 0x00fffff),
       poly_h = (0, 0, 0, 0, 0),
       poly_pad = map (\<lambda>i. le32 key (16 + i * 4)) [0..<4],
       poly_leftover = 0, poly_buffer = buffer\<rparr>)"

section \<open>Blocks\<close>

text \<open>Adding a block to the accumulator; \<open>hibit\<close> is the bit after the 16 bytes.\<close>

definition add_block :: "nat \<Rightarrow> u8 list \<Rightarrow> limbs \<Rightarrow> limbs" where
  "add_block hibit m h = (case h of (h0, h1, h2, h3, h4) \<Rightarrow>
     let t0 = le32 m 0; t1 = le32 m 4; t2 = le32 m 8; t3 = le32 m 12
     in (w32 (h0 + low26 t0), w32 (h1 + low26 (drop_bit 26 t0 OR w32 (push_bit 6 t1))),
         w32 (h2 + low26 (drop_bit 20 t1 OR w32 (push_bit 12 t2))),
         w32 (h3 + low26 (drop_bit 14 t2 OR w32 (push_bit 18 t3))), w32 (h4 + (drop_bit 8 t3 OR hibit))))"

definition mul_limbs :: "limbs \<Rightarrow> limbs \<Rightarrow> limbs" where
  "mul_limbs h r = (case (h, r) of ((h0, h1, h2, h3, h4), (r0, r1, r2, r3, r4)) \<Rightarrow>
     (w64 (h0 * r0 + h1 * w32 (5 * r4) + h2 * w32 (5 * r3) + h3 * w32 (5 * r2) + h4 * w32 (5 * r1)),
      w64 (h0 * r1 + h1 * r0 + h2 * w32 (5 * r4) + h3 * w32 (5 * r3) + h4 * w32 (5 * r2)),
      w64 (h0 * r2 + h1 * r1 + h2 * r0 + h3 * w32 (5 * r4) + h4 * w32 (5 * r3)),
      w64 (h0 * r3 + h1 * r2 + h2 * r1 + h3 * r0 + h4 * w32 (5 * r4)),
      w64 (h0 * r4 + h1 * r3 + h2 * r2 + h3 * r1 + h4 * r0)))"

definition carry_limbs :: "limbs \<Rightarrow> limbs" where
  "carry_limbs d = (case d of (d0, d1, d2, d3, d4) \<Rightarrow>
     let c = w32 (drop_bit 26 d0); h0 = low26 (w32 d0); d1 = w64 (d1 + c);
         c = w32 (drop_bit 26 d1); h1 = low26 (w32 d1); d2 = w64 (d2 + c);
         c = w32 (drop_bit 26 d2); h2 = low26 (w32 d2); d3 = w64 (d3 + c);
         c = w32 (drop_bit 26 d3); h3 = low26 (w32 d3); d4 = w64 (d4 + c);
         c = w32 (drop_bit 26 d4); h4 = low26 (w32 d4); h0 = w32 (h0 + w32 (c * 5));
         c = drop_bit 26 h0; h0 = low26 h0; h1 = w32 (h1 + c)
     in (h0, h1, h2, h3, h4))"

definition poly1305_step :: "limbs \<Rightarrow> nat \<Rightarrow> limbs \<Rightarrow> u8 list \<Rightarrow> limbs" where
  "poly1305_step r hibit h m = carry_limbs (mul_limbs (add_block hibit m h) r)"

function blocks_loop :: "limbs \<Rightarrow> nat \<Rightarrow> limbs \<Rightarrow> u8 list \<Rightarrow> limbs" where
  "blocks_loop r hibit h m =
     (if 16 \<le> length m then blocks_loop r hibit (poly1305_step r hibit h (take 16 m)) (drop 16 m) else h)"
  by pat_completeness auto
termination
  by (relation "measure (\<lambda>(r, b, h, m). length m)") auto

declare blocks_loop.simps [simp del]

definition poly1305_blocks :: "u8 list \<Rightarrow> bool \<Rightarrow> poly1305_ctx \<Rightarrow> poly1305_ctx" where
  "poly1305_blocks m is_final ctx =
     ctx\<lparr>poly_h := blocks_loop (poly_r ctx) (if is_final then 0 else 2 ^ 24) (poly_h ctx) m\<rparr>"

section \<open>Streaming\<close>

definition update_leftover :: "u8 list \<Rightarrow> poly1305_ctx \<Rightarrow> u8 list \<times> poly1305_ctx" where
  "update_leftover m ctx =
     (let want = min (16 - poly_leftover ctx) (length m);
          ctx1 = ctx\<lparr>poly_buffer := buffer_copy (poly_leftover ctx) want m (poly_buffer ctx), poly_leftover := poly_leftover ctx + want\<rparr>
      in (drop want m, if poly_leftover ctx1 = 16 then (poly1305_blocks (poly_buffer ctx1) False ctx1)\<lparr>poly_leftover := 0\<rparr> else ctx1))"

definition poly1305_update :: "u8 list \<Rightarrow> poly1305_ctx \<Rightarrow> poly1305_ctx" where
  "poly1305_update m0 ctx0 =
     (let (m1, ctx1) = (if 0 < poly_leftover ctx0 then update_leftover m0 ctx0 else (m0, ctx0));
          n = length m1 div 16 * 16;
          (m2, ctx2) = (if 16 \<le> length m1 then (drop n m1, poly1305_blocks (take n m1) False ctx1) else (m1, ctx1))
      in ctx2\<lparr>poly_buffer := buffer_copy (poly_leftover ctx2) (length m2) m2 (poly_buffer ctx2),
              poly_leftover := poly_leftover ctx2 + length m2\<rparr>)"

section \<open>The tag\<close>

definition finish_leftover :: "poly1305_ctx \<Rightarrow> poly1305_ctx" where
  "finish_leftover ctx =
     (if 0 < poly_leftover ctx
      then let b = (poly_buffer ctx)[poly_leftover ctx := 1];
               b = fold (\<lambda>i b. b[i := 0]) [poly_leftover ctx + 1..<16] b
           in poly1305_blocks b True (ctx\<lparr>poly_buffer := b\<rparr>)
      else ctx)"

definition finish_carry :: "limbs \<Rightarrow> limbs" where
  "finish_carry h = (case h of (h0, h1, h2, h3, h4) \<Rightarrow>
     let c = drop_bit 26 h1; h1 = low26 h1; h2 = w32 (h2 + c);
         c = drop_bit 26 h2; h2 = low26 h2; h3 = w32 (h3 + c);
         c = drop_bit 26 h3; h3 = low26 h3; h4 = w32 (h4 + c);
         c = drop_bit 26 h4; h4 = low26 h4; h0 = w32 (h0 + w32 (c * 5));
         c = drop_bit 26 h0; h0 = low26 h0; h1 = w32 (h1 + c)
     in (h0, h1, h2, h3, h4))"

definition finish_reduce :: "limbs \<Rightarrow> limbs" where
  "finish_reduce h = (case h of (h0, h1, h2, h3, h4) \<Rightarrow>
     let g0 = w32 (h0 + 5); c = drop_bit 26 g0; g0 = low26 g0;
         g1 = w32 (h1 + c); c = drop_bit 26 g1; g1 = low26 g1;
         g2 = w32 (h2 + c); c = drop_bit 26 g2; g2 = low26 g2;
         g3 = w32 (h3 + c); c = drop_bit 26 g3; g3 = low26 g3;
         g4 = w32 (h4 + c + 2 ^ 32 - 2 ^ 26);
         mask = w32 (drop_bit 31 g4 + 2 ^ 32 - 1);
         unmask = 2 ^ 32 - 1 - mask
     in ((h0 AND unmask) OR (g0 AND mask), (h1 AND unmask) OR (g1 AND mask), (h2 AND unmask) OR (g2 AND mask),
         (h3 AND unmask) OR (g3 AND mask), (h4 AND unmask) OR (g4 AND mask)))"

definition le64_bytes :: "nat \<Rightarrow> u8 list" where
  "le64_bytes f = map (\<lambda>i. of_nat (drop_bit (i * 8) f)) [0..<8]"

definition finish_tag :: "limbs \<Rightarrow> nat list \<Rightarrow> u8 list" where
  "finish_tag h pad = (case h of (h0, h1, h2, h3, h4) \<Rightarrow>
     let f0 = w64 ((h0 OR w64 (push_bit 26 h1)) + pad ! 0 + w64 (push_bit 32 (pad ! 1)));
         f1 = w64 ((drop_bit 12 h2 OR w64 (push_bit 14 h3) OR w64 (push_bit 40 h4)) + pad ! 2 + w64 (push_bit 32 (pad ! 3)))
     in le64_bytes f0 @ le64_bytes f1)"

definition poly1305_finish :: "poly1305_ctx \<Rightarrow> u8 list" where
  "poly1305_finish ctx0 =
     (let ctx = finish_leftover ctx0
      in finish_tag (finish_reduce (finish_carry (poly_h ctx))) (poly_pad ctx))"

section \<open>Bits and numbers\<close>

lemma low26_mod: "low26 x = x mod 2 ^ 26"
proof -
  have "(0x3ffffff :: nat) = mask 26" by (simp add: mask_eq_exp_minus_1)
  then show ?thesis by (simp only: take_bit_eq_mask [symmetric] take_bit_eq_mod)
qed

lemma and_all_ones: "x < 2 ^ 32 \<Longrightarrow> x AND 0xffffffff = (x :: nat)"
proof -
  assume x: "x < 2 ^ 32"
  have "(0xffffffff :: nat) = mask 32" by (simp add: mask_eq_exp_minus_1)
  then have "x AND 0xffffffff = x mod 2 ^ 32" by (simp only: take_bit_eq_mask [symmetric] take_bit_eq_mod)
  then show ?thesis using x by simp
qed

lemma or_add: "a < 2 ^ n \<Longrightarrow> a OR 2 ^ n * b = a + 2 ^ n * (b :: nat)"
proof -
  assume "a < 2 ^ n"
  then have "take_bit n a = a" by (simp add: take_bit_nat_eq_self)
  then have "\<not> bit a i" if "n \<le> i" for i using that by (metis bit_take_bit_iff leD)
  then have "a AND push_bit n b = 0" by (auto simp: bit_eq_iff bit_simps)
  then have "a + push_bit n b = a OR push_bit n b" by (rule disjunctive_add_eq_or)
  then show ?thesis by (simp add: push_bit_eq_mult mult.commute)
qed

lemma byte_lt: "unat (b :: u8) < 2 ^ 8"
  using unsigned_less [of b] by simp

fun le_val :: "u8 list \<Rightarrow> nat" where
  "le_val [] = 0"
| "le_val (b # bs) = unat b + 2 ^ 8 * le_val bs"

lemma or_bytes:
  assumes "a < 2 ^ 8" "b < 2 ^ 8" "c < 2 ^ 8"
  shows "a OR push_bit 8 b OR push_bit 16 c OR push_bit 24 d = a + 2 ^ 8 * (b + 2 ^ 8 * (c + 2 ^ 8 * (d :: nat)))"
proof -
  have 1: "c * 2 ^ 16 OR 2 ^ 24 * d = c * 2 ^ 16 + 2 ^ 24 * d" by (rule or_add) (use assms in simp)
  have 2: "b * 2 ^ 8 OR 2 ^ 16 * (c + 2 ^ 8 * d) = b * 2 ^ 8 + 2 ^ 16 * (c + 2 ^ 8 * d)" by (rule or_add) (use assms in simp)
  have 3: "a OR 2 ^ 8 * (b + 2 ^ 8 * (c + 2 ^ 8 * d)) = a + 2 ^ 8 * (b + 2 ^ 8 * (c + 2 ^ 8 * d))" by (rule or_add) (use assms in simp)
  show ?thesis using 1 2 3 by (simp add: push_bit_eq_mult algebra_simps)
qed

lemma le32_bytes: "le32 m i = unat (m ! i) + 2 ^ 8 * (unat (m ! (i + 1)) + 2 ^ 8 * (unat (m ! (i + 2)) + 2 ^ 8 * unat (m ! (i + 3))))"
  unfolding le32_def by (rule or_bytes) (rule byte_lt)+

lemma le32_bytes_0: "le32 m 0 = unat (m ! 0) + 2 ^ 8 * (unat (m ! 1) + 2 ^ 8 * (unat (m ! 2) + 2 ^ 8 * unat (m ! 3)))"
  using le32_bytes [of m 0] by (simp only: add_0)

lemma le32_lt: "le32 m i < 2 ^ 32"
  unfolding le32_bytes
  using byte_lt [of "m ! i"] byte_lt [of "m ! (i + 1)"] byte_lt [of "m ! (i + 2)"] byte_lt [of "m ! (i + 3)"] by simp

lemma le_val_append: "le_val (xs @ ys) = le_val xs + 2 ^ (8 * length xs) * le_val ys"
  by (induction xs) (simp_all add: power_add algebra_simps)

lemma le_val_bound: "le_val xs < 2 ^ (8 * length xs)"
proof (induction xs)
  case (Cons b xs)
  have "unat b + 2 ^ 8 * le_val xs < 2 ^ 8 * (1 + le_val xs)" using byte_lt [of b] by simp
  also have "\<dots> \<le> 2 ^ 8 * 2 ^ (8 * length xs)" using Cons by (intro mult_left_mono) simp_all
  finally show ?case by (simp add: power_add)
qed simp

lemma le_val_16:
  assumes "length m = 16"
  shows "le_val m = le32 m 0 + 2 ^ 32 * le32 m 4 + 2 ^ 64 * le32 m 8 + 2 ^ 96 * le32 m 12"
proof -
  have "m = map ((!) m) [0..<16]" using assms by (metis map_nth)
  moreover have "[0..<16] = [0, 1, 2, 3, 4, 5, 6, 7, 8, 9, 10, 11, 12, 13, 14, 15 :: nat]" by code_simp
  ultimately have "le_val m = le_val (map ((!) m) [0, 1, 2, 3, 4, 5, 6, 7, 8, 9, 10, 11, 12, 13, 14, 15])" by metis
  then show ?thesis unfolding le32_bytes_0 le32_bytes [of m 4] le32_bytes [of m 8] le32_bytes [of m 12] by simp
qed

section \<open>Limbs as numbers\<close>

fun lval :: "limbs \<Rightarrow> nat" where
  "lval (h0, h1, h2, h3, h4) = h0 + 2 ^ 26 * h1 + 2 ^ 52 * h2 + 2 ^ 78 * h3 + 2 ^ 104 * h4"

fun below :: "nat \<Rightarrow> limbs \<Rightarrow> bool" where
  "below B (h0, h1, h2, h3, h4) \<longleftrightarrow> h0 < B \<and> h1 < B \<and> h2 < B \<and> h3 < B \<and> h4 < B"

text \<open>What a step of the code leaves: the second limb may exceed 26 bits by a carry.\<close>

fun tight :: "limbs \<Rightarrow> bool" where
  "tight (h0, h1, h2, h3, h4) \<longleftrightarrow> h0 < 2 ^ 26 \<and> h1 < 2 ^ 26 + 64 \<and> h2 < 2 ^ 26 \<and> h3 < 2 ^ 26 \<and> h4 < 2 ^ 26"

lemma tight_below: "tight h \<Longrightarrow> below (2 ^ 26 + 64) h"
  by (cases h) simp

definition P1305 :: nat where
  "P1305 = 2 ^ 130 - 5"

lemma w32_id: "x < 2 ^ 32 \<Longrightarrow> w32 x = x"
  by (simp add: w32_def)

lemma w64_id: "x < 2 ^ 64 \<Longrightarrow> w64 x = x"
  by (simp add: w64_def)

lemma w64_w32: "w32 x < 2 ^ 32" "w64 x < 2 ^ 64"
  by (simp_all add: w32_def w64_def)

text \<open>Cutting a block of four 32-bit words into limbs of 26 bits.\<close>

lemma cut_word:
  assumes "t < 2 ^ 32" "k + j = 32" "k \<le> 26" "j \<le> 26" "t' = a + 2 ^ (26 - j) * b" "a < 2 ^ (26 - j)"
  shows "low26 (drop_bit k t OR w32 (push_bit j t')) = t div 2 ^ k + 2 ^ j * a"
proof -
  have k: "26 - j + j = 26" "2 ^ 32 = 2 ^ k * (2 ^ j :: nat)" using assms(2-4) by (simp_all flip: power_add)
  have d: "t div 2 ^ k < 2 ^ j" using assms(1) k(2) by (simp add: div_less_iff_less_mult mult.commute)
  have "w32 (push_bit j t') = 2 ^ j * (t' mod 2 ^ k)" unfolding w32_def k(2) push_bit_eq_mult by (simp add: mult.commute)
  then have "drop_bit k t OR w32 (push_bit j t') = t div 2 ^ k + 2 ^ j * (t' mod 2 ^ k)"
    using or_add [OF d, of "t' mod 2 ^ k"] by (simp add: drop_bit_eq_div)
  moreover have "2 ^ 26 = (2 ^ j * 2 ^ (26 - j) :: nat)" using k(1) by (simp flip: power_add add: add.commute)
  moreover have "(t div 2 ^ k + 2 ^ j * (t' mod 2 ^ k)) mod (2 ^ j * 2 ^ (26 - j)) = t div 2 ^ k + 2 ^ j * a"
  proof -
    have "26 - j \<le> k" using assms(2) by simp
    then have "t' mod 2 ^ k mod 2 ^ (26 - j) = t' mod 2 ^ (26 - j)" by (simp add: mod_mod_cancel le_imp_power_dvd)
    also have "\<dots> = a" using assms(5,6) by simp
    finally show ?thesis using d by (simp add: mod_mult2_eq div_mult_self4 add.commute)
  qed
  ultimately show ?thesis by (simp add: low26_mod)
qed

lemma add_block_val:
  assumes "length m = 16" "below (2 ^ 26 + 64) h" "hibit = 0 \<or> hibit = 2 ^ 24"
  shows "lval (add_block hibit m h) = lval h + le_val m + 2 ^ 104 * hibit \<and> below (2 ^ 27 + 64) (add_block hibit m h)"
proof -
  obtain h0 h1 h2 h3 h4 where h: "h = (h0, h1, h2, h3, h4)" by (cases h)
  define t0 t1 t2 t3 where t: "t0 = le32 m 0" "t1 = le32 m 4" "t2 = le32 m 8" "t3 = le32 m 12"
  have lt: "t0 < 2 ^ 32" "t1 < 2 ^ 32" "t2 < 2 ^ 32" "t3 < 2 ^ 32" by (simp_all only: t le32_lt)
  define a0 a1 a2 a3 where a: "a0 = t0 mod 2 ^ 26" "a1 = t1 mod 2 ^ 20" "a2 = t2 mod 2 ^ 14" "a3 = t3 mod 2 ^ 8"
  define c0 c1 c2 c3 where c: "c0 = t0 div 2 ^ 26" "c1 = t1 div 2 ^ 20" "c2 = t2 div 2 ^ 14" "c3 = t3 div 2 ^ 8"
  have s: "t0 = a0 + 2 ^ 26 * c0" "t1 = a1 + 2 ^ 20 * c1" "t2 = a2 + 2 ^ 14 * c2" "t3 = a3 + 2 ^ 8 * c3"
    by (simp_all only: a c mod_mult_div_eq)
  have b: "a0 < 2 ^ 26" "a1 < 2 ^ 20" "a2 < 2 ^ 14" "a3 < 2 ^ 8" by (simp_all add: a)
  have d: "c0 < 2 ^ 6" "c1 < 2 ^ 12" "c2 < 2 ^ 18" "c3 < 2 ^ 24" using lt by (simp_all add: c div_less_iff_less_mult)
  have l1: "low26 (drop_bit 26 t0 OR w32 (push_bit 6 t1)) = c0 + 2 ^ 6 * a1"
    unfolding c by (rule cut_word [OF lt(1), where b = c1]) (use s(2) b(2) in simp_all)
  have l2: "low26 (drop_bit 20 t1 OR w32 (push_bit 12 t2)) = c1 + 2 ^ 12 * a2"
    unfolding c by (rule cut_word [OF lt(2), where b = c2]) (use s(3) b(3) in simp_all)
  have l3: "low26 (drop_bit 14 t2 OR w32 (push_bit 18 t3)) = c2 + 2 ^ 18 * a3"
    unfolding c by (rule cut_word [OF lt(3), where b = c3]) (use s(4) b(4) in simp_all)
  have l4: "drop_bit 8 t3 OR hibit = c3 + hibit"
    using or_add [OF d(4), of 1] assms(3) by (auto simp: c drop_bit_eq_div)
  define h' where "h' = (h0 + a0, h1 + (c0 + 2 ^ 6 * a1), h2 + (c1 + 2 ^ 12 * a2), h3 + (c2 + 2 ^ 18 * a3), h4 + (c3 + hibit))"
  have B: "h0 < 2 ^ 26 + 64" "h1 < 2 ^ 26 + 64" "h2 < 2 ^ 26 + 64" "h3 < 2 ^ 26 + 64" "h4 < 2 ^ 26 + 64" using assms(2) by (simp_all add: h)
  have "hibit \<le> 2 ^ 24" using assms(3) by auto
  then have n: "h0 + a0 < 2 ^ 27 + 64" "h1 + (c0 + 2 ^ 6 * a1) < 2 ^ 27 + 64" "h2 + (c1 + 2 ^ 12 * a2) < 2 ^ 27 + 64"
    "h3 + (c2 + 2 ^ 18 * a3) < 2 ^ 27 + 64" "h4 + (c3 + hibit) < 2 ^ 27 + 64"
    using B b d by simp_all
  have "low26 t0 = a0" by (simp only: low26_mod a)
  then have "add_block hibit m h = (w32 (h0 + a0), w32 (h1 + (c0 + 2 ^ 6 * a1)), w32 (h2 + (c1 + 2 ^ 12 * a2)), w32 (h3 + (c2 + 2 ^ 18 * a3)), w32 (h4 + (c3 + hibit)))"
    unfolding add_block_def h Let_def t [symmetric] prod.case l1 l2 l3 l4 by (simp only:)
  also have "\<dots> = h'" unfolding h'_def using n by (simp add: w32_id)
  finally have e: "add_block hibit m h = h'" .
  have "le_val m = t0 + 2 ^ 32 * t1 + 2 ^ 64 * t2 + 2 ^ 96 * t3" using le_val_16 [OF assms(1)] by (simp add: t)
  then have "lval h' = lval h + le_val m + 2 ^ 104 * hibit" by (simp add: h'_def s h)
  then show ?thesis using e n by (simp add: h'_def)
qed

lemma product_lt: "x < 2 ^ 27 + 64 \<Longrightarrow> y < 2 ^ 26 \<Longrightarrow> x * y < 2 ^ 53 + 2 ^ (32 :: nat)" for x y :: nat
  using mult_strict_mono [of x "2 ^ 27 + 64" y "2 ^ 26"] by simp

lemma limb_product: 
  "(h0 + X * h1 + X ^ 2 * h2 + X ^ 3 * h3 + X ^ 4 * h4) * (r0 + X * r1 + X ^ 2 * r2 + X ^ 3 * r3 + X ^ 4 * r4)
  + 5 * (((h1 * r4 + h2 * r3 + h3 * r2 + h4 * r1) + X * (h2 * r4 + h3 * r3 + h4 * r2) + X ^ 2 * (h3 * r4 + h4 * r3) + X ^ 3 * (h4 * r4)))
  = ((h0 * r0 + 5 * (h1 * r4) + 5 * (h2 * r3) + 5 * (h3 * r2) + 5 * (h4 * r1)) +
    X * (h0 * r1 + h1 * r0 + 5 * (h2 * r4) + 5 * (h3 * r3) + 5 * (h4 * r2)) +
    X ^ 2 * (h0 * r2 + h1 * r1 + h2 * r0 + 5 * (h3 * r4) + 5 * (h4 * r3)) +
    X ^ 3 * (h0 * r3 + h1 * r2 + h2 * r1 + h3 * r0 + 5 * (h4 * r4)) +
    X ^ 4 * (h0 * r4 + h1 * r3 + h2 * r2 + h3 * r1 + h4 * r0)) + X ^ 5 * (((h1 * r4 + h2 * r3 + h3 * r2 + h4 * r1) + X * (h2 * r4 + h3 * r3 + h4 * r2) + X ^ 2 * (h3 * r4 + h4 * r3) + X ^ 3 * (h4 * r4)) :: nat)"
  by (simp add: algebra_simps eval_nat_numeral)

lemma mul_limbs_val:
  assumes "below (2 ^ 27 + 64) h" "below (2 ^ 26) r"
  shows "\<exists>Q. lval h * lval r + 5 * Q = lval (mul_limbs h r) + 2 ^ 130 * Q"
    and "\<exists>d0 d1 d2 d3 d4. mul_limbs h r = (d0, d1, d2, d3, d4) \<and> d0 < 2 ^ 58 - 2 ^ 33 \<and> d1 < 2 ^ 58 - 2 ^ 33 \<and> d2 < 2 ^ 58 - 2 ^ 33 \<and> d3 < 2 ^ 58 - 2 ^ 33
      \<and> d4 < 5 * (2 ^ 53 + 2 ^ 32)"
proof -
  obtain h0 h1 h2 h3 h4 r0 r1 r2 r3 r4 where hr: "h = (h0, h1, h2, h3, h4)" "r = (r0, r1, r2, r3, r4)" by (cases h, cases r)
  have B: "h0 < 2 ^ 27 + 64" "h1 < 2 ^ 27 + 64" "h2 < 2 ^ 27 + 64" "h3 < 2 ^ 27 + 64" "h4 < 2 ^ 27 + 64"
    "r0 < 2 ^ 26" "r1 < 2 ^ 26" "r2 < 2 ^ 26" "r3 < 2 ^ 26" "r4 < 2 ^ 26" using assms by (simp_all add: hr)
  have f: "w32 (5 * x) = 5 * x" if "x < 2 ^ 26" for x using that by (simp add: w32_id)
  note p0 = product_lt [OF B(1) B(6)] product_lt [OF B(2) B(10)] product_lt [OF B(3) B(9)] product_lt [OF B(4) B(8)] product_lt [OF B(5) B(7)]
  note p1 = product_lt [OF B(1) B(7)] product_lt [OF B(2) B(6)] product_lt [OF B(3) B(10)] product_lt [OF B(4) B(9)] product_lt [OF B(5) B(8)]
  note p2 = product_lt [OF B(1) B(8)] product_lt [OF B(2) B(7)] product_lt [OF B(3) B(6)] product_lt [OF B(4) B(10)] product_lt [OF B(5) B(9)]
  note p3 = product_lt [OF B(1) B(9)] product_lt [OF B(2) B(8)] product_lt [OF B(3) B(7)] product_lt [OF B(4) B(6)] product_lt [OF B(5) B(10)]
  note p4 = product_lt [OF B(1) B(10)] product_lt [OF B(2) B(9)] product_lt [OF B(3) B(8)] product_lt [OF B(4) B(7)] product_lt [OF B(5) B(6)]
  define d0 where "d0 = h0 * r0 + 5 * (h1 * r4) + 5 * (h2 * r3) + 5 * (h3 * r2) + 5 * (h4 * r1)"
  define d1 where "d1 = h0 * r1 + h1 * r0 + 5 * (h2 * r4) + 5 * (h3 * r3) + 5 * (h4 * r2)"
  define d2 where "d2 = h0 * r2 + h1 * r1 + h2 * r0 + 5 * (h3 * r4) + 5 * (h4 * r3)"
  define d3 where "d3 = h0 * r3 + h1 * r2 + h2 * r1 + h3 * r0 + 5 * (h4 * r4)"
  define d4 where "d4 = h0 * r4 + h1 * r3 + h2 * r2 + h3 * r1 + h4 * r0"
  have l: "d0 < 2 ^ 58 - 2 ^ 33" "d1 < 2 ^ 58 - 2 ^ 33" "d2 < 2 ^ 58 - 2 ^ 33" "d3 < 2 ^ 58 - 2 ^ 33" "d4 < 5 * (2 ^ 53 + 2 ^ 32)"
    using p0 p1 p2 p3 p4 by (simp_all add: d0_def d1_def d2_def d3_def d4_def)
  have "mul_limbs h r = (w64 d0, w64 d1, w64 d2, w64 d3, w64 d4)"
    unfolding mul_limbs_def hr prod.case f [OF B(7)] f [OF B(8)] f [OF B(9)] f [OF B(10)] d0_def d1_def d2_def d3_def d4_def
    by (simp add: mult.left_commute)
  then have m: "mul_limbs h r = (d0, d1, d2, d3, d4)" using l by (simp add: w64_id)
  show "\<exists>d0 d1 d2 d3 d4. mul_limbs h r = (d0, d1, d2, d3, d4) \<and> d0 < 2 ^ 58 - 2 ^ 33 \<and> d1 < 2 ^ 58 - 2 ^ 33 \<and> d2 < 2 ^ 58 - 2 ^ 33 \<and> d3 < 2 ^ 58 - 2 ^ 33
      \<and> d4 < 5 * (2 ^ 53 + 2 ^ 32)" using m l by blast
  define Q where "Q = (h1 * r4 + h2 * r3 + h3 * r2 + h4 * r1) + 2 ^ 26 * (h2 * r4 + h3 * r3 + h4 * r2) + 2 ^ 52 * (h3 * r4 + h4 * r3) + 2 ^ 78 * (h4 * r4)"
  have pw: "(2 ^ 26) ^ 2 = (2 ^ 52 :: nat)" "(2 ^ 26) ^ 3 = (2 ^ 78 :: nat)" "(2 ^ 26) ^ 4 = (2 ^ 104 :: nat)" "(2 ^ 26) ^ 5 = (2 ^ 130 :: nat)"
    by (simp_all flip: power_mult)
  have "lval h * lval r + 5 * Q = lval (mul_limbs h r) + 2 ^ 130 * Q"
    using limb_product [of h0 "2 ^ 26" h1 h2 h3 h4 r0 r1 r2 r3 r4]
    unfolding m unfolding hr lval.simps Q_def d0_def d1_def d2_def d3_def d4_def pw .
  then show "\<exists>Q. lval h * lval r + 5 * Q = lval (mul_limbs h r) + 2 ^ 130 * Q" ..
qed

lemma carry_step: "d < 2 ^ 58 \<Longrightarrow> w32 (drop_bit 26 d) = d div 2 ^ 26"
  by (simp add: drop_bit_eq_div w32_id div_less_iff_less_mult)

lemma w32_mod: "w32 d mod 2 ^ 26 = d mod 2 ^ 26"
  unfolding w32_def by (rule mod_mod_cancel) (simp add: le_imp_power_dvd)

lemma carry_sum:
  fixes d0 d1 d2 d3 d4 :: nat
  assumes "d0 = 2 ^ 26 * q0 + m0" "d1 + q0 = 2 ^ 26 * q1 + m1" "d2 + q1 = 2 ^ 26 * q2 + m2" "d3 + q2 = 2 ^ 26 * q3 + m3" "d4 + q3 = 2 ^ 26 * q4 + m4"
    "m0 + 5 * q4 = 2 ^ 26 * q5 + m5"
  shows "lval (d0, d1, d2, d3, d4) + 5 * q4 = lval (m5, m1 + q5, m2, m3, m4) + 2 ^ 130 * q4"
  using assms by simp

lemma carry_limbs_val:
  assumes "d0 < 2 ^ 58 - 2 ^ 33" "d1 < 2 ^ 58 - 2 ^ 33" "d2 < 2 ^ 58 - 2 ^ 33" "d3 < 2 ^ 58 - 2 ^ 33" "d4 < 5 * (2 ^ 53 + 2 ^ 32)"
  shows "(\<exists>c. lval (d0, d1, d2, d3, d4) + 5 * c = lval (carry_limbs (d0, d1, d2, d3, d4)) + 2 ^ 130 * c)
    \<and> tight (carry_limbs (d0, d1, d2, d3, d4))"
proof -
  define e1 where "e1 = d1 + d0 div 2 ^ 26"
  define e2 where "e2 = d2 + e1 div 2 ^ 26"
  define e3 where "e3 = d3 + e2 div 2 ^ 26"
  define e4 where "e4 = d4 + e3 div 2 ^ 26"
  define f0 where "f0 = d0 mod 2 ^ 26 + 5 * (e4 div 2 ^ 26)"
  have q: "d0 div 2 ^ 26 < 2 ^ 32" using assms(1) by (simp add: div_less_iff_less_mult)
  then have b1: "e1 < 2 ^ 58" using assms(2) by (simp add: e1_def)
  then have q1: "e1 div 2 ^ 26 < 2 ^ 32" by (simp add: div_less_iff_less_mult)
  then have b2: "e2 < 2 ^ 58" using assms(3) by (simp add: e2_def)
  then have q2: "e2 div 2 ^ 26 < 2 ^ 32" by (simp add: div_less_iff_less_mult)
  then have b3: "e3 < 2 ^ 58" using assms(4) by (simp add: e3_def)
  then have q3: "e3 div 2 ^ 26 < 2 ^ 32" by (simp add: div_less_iff_less_mult)
  then have b4: "e4 < 6 * 2 ^ 53" using assms(5) by (simp add: e4_def)
  then have q4: "e4 div 2 ^ 26 < 6 * 2 ^ 27" by (simp add: div_less_iff_less_mult)
  have b0: "f0 < 2 ^ 26 + 30 * 2 ^ 27" "d0 mod 2 ^ 26 < 2 ^ 26" using q4 by (simp_all add: f0_def)
  have q0: "f0 div 2 ^ 26 < 64" using b0(1) by (simp add: div_less_iff_less_mult)
  have "carry_limbs (d0, d1, d2, d3, d4) = (f0 mod 2 ^ 26, e1 mod 2 ^ 26 + f0 div 2 ^ 26, e2 mod 2 ^ 26, e3 mod 2 ^ 26, e4 mod 2 ^ 26)"
  proof -
    have "w32 (e1 mod 2 ^ 26 + f0 div 2 ^ 26) = e1 mod 2 ^ 26 + f0 div 2 ^ 26" "w32 f0 = f0" "w32 (e4 div 2 ^ 26 * 5) = e4 div 2 ^ 26 * 5"
      using q0 b0(1) q4 by (simp_all add: w32_id)
    moreover have "w64 e1 = e1" "w64 e2 = e2" "w64 e3 = e3" "w64 e4 = e4" using b1 b2 b3 b4 by (simp_all add: w64_id)
    moreover have "w32 (drop_bit 26 d0) = d0 div 2 ^ 26" "w32 (drop_bit 26 e1) = e1 div 2 ^ 26" "w32 (drop_bit 26 e2) = e2 div 2 ^ 26"
      "w32 (drop_bit 26 e3) = e3 div 2 ^ 26" "w32 (drop_bit 26 e4) = e4 div 2 ^ 26"
      by (rule carry_step; use assms(1) b1 b2 b3 b4 in simp)+
    ultimately show ?thesis
      unfolding carry_limbs_def prod.case Let_def low26_mod
      by (simp only: e1_def [symmetric] e2_def [symmetric] e3_def [symmetric] e4_def [symmetric] mult.commute [of _ 5] f0_def [symmetric]
          drop_bit_eq_div w32_mod)
  qed
  moreover have "lval (d0, d1, d2, d3, d4) + 5 * (e4 div 2 ^ 26) = lval (f0 mod 2 ^ 26, e1 mod 2 ^ 26 + f0 div 2 ^ 26, e2 mod 2 ^ 26, e3 mod 2 ^ 26, e4 mod 2 ^ 26)
      + 2 ^ 130 * (e4 div 2 ^ 26)"
    by (rule carry_sum [where ?q0.0 = "d0 div 2 ^ 26" and ?q1.0 = "e1 div 2 ^ 26" and ?q2.0 = "e2 div 2 ^ 26" and ?q3.0 = "e3 div 2 ^ 26" and ?m0.0 = "d0 mod 2 ^ 26"])
      (simp_all only: mult_div_mod_eq e1_def [symmetric] e2_def [symmetric] e3_def [symmetric] e4_def [symmetric] f0_def [symmetric])
  moreover have "tight (f0 mod 2 ^ 26, e1 mod 2 ^ 26 + f0 div 2 ^ 26, e2 mod 2 ^ 26, e3 mod 2 ^ 26, e4 mod 2 ^ 26)"
  proof -
    have m: "x mod 2 ^ 26 < 2 ^ 26" for x :: nat by simp
    show ?thesis using add_strict_mono [OF m q0] m by (simp only: tight.simps simp_thms)
  qed
  ultimately show ?thesis by (intro conjI exI [of _ "e4 div 2 ^ 26"]) (simp_all only:)
qed

section \<open>The reference\<close>

function poly_acc :: "nat \<Rightarrow> nat \<Rightarrow> u8 list \<Rightarrow> nat" where
  "poly_acc r acc m =
     (if m = [] then acc else poly_acc r (((acc + le_val (take 16 m @ [1])) * r) mod P1305) (drop 16 m))"
  by pat_completeness auto
termination
  by (relation "measure (\<lambda>(r, a, m). length m)") auto

declare poly_acc.simps [simp del]

lemma mod_P1305: "a + 5 * q = b + 2 ^ 130 * q \<Longrightarrow> a mod P1305 = b mod P1305"
proof -
  assume "a + 5 * q = b + 2 ^ 130 * q"
  moreover have "2 ^ 130 * q = 5 * q + P1305 * q" by (simp add: P1305_def)
  ultimately have "a = b + P1305 * q" by linarith
  then show ?thesis by simp
qed

lemma step_val:
  assumes "tight h" "below (2 ^ 26) r" "length m = 16" "hibit = 0 \<or> hibit = 2 ^ 24"
  shows "lval (poly1305_step r hibit h m) mod P1305 = ((lval h + le_val m + 2 ^ 104 * hibit) * lval r) mod P1305
    \<and> tight (poly1305_step r hibit h m)"
proof -
  note A = add_block_val [OF assms(3) tight_below [OF assms(1)] assms(4)]
  define a where "a = add_block hibit m h"
  have a: "lval a = lval h + le_val m + 2 ^ 104 * hibit" "below (2 ^ 27 + 64) a" using A by (simp_all add: a_def)
  obtain d0 d1 d2 d3 d4 where d: "mul_limbs a r = (d0, d1, d2, d3, d4)" "d0 < 2 ^ 58 - 2 ^ 33" "d1 < 2 ^ 58 - 2 ^ 33" "d2 < 2 ^ 58 - 2 ^ 33" "d3 < 2 ^ 58 - 2 ^ 33"
    "d4 < 5 * (2 ^ 53 + 2 ^ 32)" using mul_limbs_val(2) [OF a(2) assms(2)] by blast
  obtain Q where Q: "lval a * lval r + 5 * Q = lval (mul_limbs a r) + 2 ^ 130 * Q" using mul_limbs_val(1) [OF a(2) assms(2)] ..
  obtain c where c: "lval (mul_limbs a r) + 5 * c = lval (carry_limbs (mul_limbs a r)) + 2 ^ 130 * c" "tight (carry_limbs (mul_limbs a r))"
    using carry_limbs_val [OF d(2-6)] unfolding d(1) by blast
  have "lval (carry_limbs (mul_limbs a r)) mod P1305 = (lval a * lval r) mod P1305" using mod_P1305 [OF Q] mod_P1305 [OF c(1)] by simp
  then show ?thesis using c(2) unfolding poly1305_step_def a_def [symmetric] a(1) by blast
qed

text \<open>The buffering: the full blocks are absorbed, the rest is in the buffer.\<close>

interpretation poly_blocks: block_hash 16 8 "poly1305_step r hibit" for r hibit
  by unfold_locales simp_all

lemma fold_blocks_loop: "fold_blocks 16 (poly1305_step r b) h m = (blocks_loop r b h m, drop (length m div 16 * 16) m)"
proof (induction r b h m rule: blocks_loop.induct)
  case (1 r b h m)
  show ?case
  proof (cases "16 \<le> length m")
    case True
    then have "length m div 16 = Suc ((length m - 16) div 16)" by (simp add: le_div_geq)
    then have "drop (length m div 16 * 16) m = drop ((length m - 16) div 16 * 16) (drop 16 m)" by (simp add: add.commute)
    then show ?thesis using 1 True by (subst fold_blocks.simps, subst blocks_loop.simps) simp
  qed (simp add: blocks_loop.simps poly_blocks.fold_blocks_short)
qed

lemma blocks_loop_take: "blocks_loop r b h (take (length m div 16 * 16) m) = blocks_loop r b h m"
proof (induction r b h m rule: blocks_loop.induct)
  case (1 r b h m)
  show ?case
  proof (cases "16 \<le> length m")
    case True
    then have "length m div 16 = Suc ((length m - 16) div 16)" by (simp add: le_div_geq)
    then have "take 16 (take (length m div 16 * 16) m) = take 16 m" "drop 16 (take (length m div 16 * 16) m) = take (length (drop 16 m) div 16 * 16) (drop 16 m)"
      "16 \<le> length (take (length m div 16 * 16) m)" using True by (simp_all add: drop_take min_def)
    then show ?thesis using 1 [OF True] True by (subst blocks_loop.simps, subst (2) blocks_loop.simps) (simp del: take_take)
  qed (simp add: blocks_loop.simps)
qed

definition absorbed :: "limbs \<Rightarrow> nat list \<Rightarrow> u8 list \<Rightarrow> poly1305_ctx \<Rightarrow> bool" where
  "absorbed r pad m ctx \<longleftrightarrow> poly_r ctx = r \<and> poly_pad ctx = pad \<and> length (poly_buffer ctx) = 16 \<and> poly_leftover ctx < 16
     \<and> fold_blocks 16 (poly1305_step r (2 ^ 24)) (0, 0, 0, 0, 0) m = (poly_h ctx, take (poly_leftover ctx) (poly_buffer ctx))"

lemma update_empty:
  assumes "absorbed r pad m ctx" "poly_leftover ctx = 0"
  shows "absorbed r pad (m @ d) (poly1305_update d ctx)"
proof -
  let ?n = "length d div 16 * 16"
  have r: "length (drop ?n d) < 16" by (simp add: minus_div_mult_eq_mod)
  have short: "blocks_loop r' b h d = h" if "\<not> 16 \<le> length d" for r' b h using that by (simp add: blocks_loop.simps)
  define ctx2 where "ctx2 = (if 16 \<le> length d then poly1305_blocks (take ?n d) False ctx else ctx)"
  have h2: "poly_h ctx2 = blocks_loop r (2 ^ 24) (poly_h ctx) d" "poly_r ctx2 = r" "poly_pad ctx2 = pad" "poly_buffer ctx2 = poly_buffer ctx" "poly_leftover ctx2 = 0"
    using assms by (auto simp: ctx2_def poly1305_blocks_def absorbed_def blocks_loop_take short)
  have m2: "(if 16 \<le> length d then (drop ?n d, poly1305_blocks (take ?n d) False ctx) else (d, ctx)) = (drop ?n d, ctx2)"
    by (simp add: ctx2_def)
  have "poly1305_update d ctx = ctx2\<lparr>poly_buffer := buffer_copy 0 (length (drop ?n d)) (drop ?n d) (poly_buffer ctx), poly_leftover := length (drop ?n d)\<rparr>"
    using assms(2) h2(4,5) unfolding poly1305_update_def Let_def by (simp add: m2 del: length_drop)
  moreover have "buffer_copy 0 (length (drop ?n d)) (drop ?n d) (poly_buffer ctx) = drop ?n d @ drop (length (drop ?n d)) (poly_buffer ctx)"
    using buffer_copy_eq [of 0 "length (drop ?n d)" "poly_buffer ctx" "drop ?n d"] r assms(1) by (simp add: absorbed_def)
  moreover have "fold_blocks 16 (poly1305_step r (2 ^ 24)) (0, 0, 0, 0, 0) (m @ d) = (blocks_loop r (2 ^ 24) (poly_h ctx) d, drop ?n d)"
    using poly_blocks.fold_blocks_append [of r "2 ^ 24" "(0, 0, 0, 0, 0)" m d] assms fold_blocks_loop [of r "2 ^ 24" "poly_h ctx" d]
    unfolding absorbed_def by (simp only: prod.case take_0 append_Nil)
  ultimately show ?thesis using assms(1) h2 r unfolding absorbed_def by (simp del: length_drop) simp
qed

lemma update_absorbed:
  assumes inv: "absorbed r pad m ctx"
  shows "absorbed r pad (m @ d) (poly1305_update d ctx)"
proof (cases "poly_leftover ctx = 0")
  case True
  then show ?thesis using update_empty [OF inv] by simp
next
  case False
  let ?F = "fold_blocks 16 (poly1305_step r (2 ^ 24))"
  define k b where kb: "k = poly_leftover ctx" "b = poly_buffer ctx"
  have k: "0 < k" "k < 16" "length b = 16" "poly_r ctx = r" "poly_pad ctx = pad" "?F (0, 0, 0, 0, 0) m = (poly_h ctx, take k b)"
    using inv False by (simp_all add: absorbed_def kb)
  have app: "?F (0, 0, 0, 0, 0) (m @ e) = ?F (poly_h ctx) (take k b @ e)" for e
    using poly_blocks.fold_blocks_append [of r "2 ^ 24" "(0, 0, 0, 0, 0)" m e] k(6) by (simp only: prod.case)
  define want where "want = min (16 - k) (length d)"
  define b' where "b' = buffer_copy k want d b"
  have b': "b' = take k b @ take want d @ drop (k + want) b" "length b' = 16"
    unfolding b'_def using k buffer_copy_eq [of k want b d] by (simp_all add: want_def)
  show ?thesis
  proof (cases "k + want = 16")
    case True
    define ctx' where "ctx' = ctx\<lparr>poly_buffer := b', poly_h := poly1305_step r (2 ^ 24) (poly_h ctx) b', poly_leftover := 0\<rparr>"
    have loop: "blocks_loop r (2 ^ 24) (poly_h ctx) b' = poly1305_step r (2 ^ 24) (poly_h ctx) b'"
      using b'(2) by (simp add: blocks_loop.simps)
    have u: "update_leftover d ctx = (drop want d, ctx')"
      using True loop k(4) unfolding update_leftover_def kb [symmetric] Let_def want_def [symmetric] b'_def [symmetric]
      by (simp add: ctx'_def poly1305_blocks_def kb)
    have full: "take k b @ take want d = b'" using b'(1) True k(3) by simp
    have "?F (0, 0, 0, 0, 0) (m @ take want d) = ?F (poly_h ctx) (b' @ [])" using app [of "take want d"] full by simp
    also have "\<dots> = (poly1305_step r (2 ^ 24) (poly_h ctx) b', [])"
      using poly_blocks.fold_blocks_full [OF b'(2), of r "2 ^ 24" "poly_h ctx" "[]"] poly_blocks.fold_blocks_short [of "[]"] by simp
    finally have "absorbed r pad (m @ take want d) ctx'" "poly_leftover ctx' = 0" using k b'(2) by (simp_all add: absorbed_def ctx'_def)
    note E = update_empty [OF this, of "drop want d"]
    have "poly1305_update d ctx = poly1305_update (drop want d) ctx'"
    proof -
      have "(0 < poly_leftover ctx) = True" "(0 < poly_leftover ctx') = False" using False by (simp_all add: ctx'_def)
      then show ?thesis unfolding poly1305_update_def by (simp only: u if_True if_False)
    qed
    then show ?thesis using E by simp
  next
    case False
    then have w: "want = length d" "k + length d < 16" using k(2) by (auto simp: want_def min_def split: if_splits)
    have u: "update_leftover d ctx = ([], ctx\<lparr>poly_buffer := b', poly_leftover := k + length d\<rparr>)"
      using False w unfolding update_leftover_def kb [symmetric] Let_def want_def [symmetric] b'_def [symmetric] by (simp add: kb)
    have "buffer_copy (k + length d) 0 [] b' = b'" by (simp add: buffer_copy_def)
    then have "poly1305_update d ctx = ctx\<lparr>poly_buffer := b', poly_leftover := k + length d\<rparr>"
      using u k(1) by (simp add: poly1305_update_def kb)
    moreover have "?F (0, 0, 0, 0, 0) (m @ d) = (poly_h ctx, take k b @ d)"
      using app [of d] poly_blocks.fold_blocks_short [of "take k b @ d"] w(2) k by simp
    moreover have "take (k + length d) b' = take k b @ d" using b'(1) w k by simp
    ultimately show ?thesis using k w(2) b'(2) by (simp add: absorbed_def)
  qed
qed

lemma updates_absorbed: "absorbed r pad m ctx \<Longrightarrow> absorbed r pad (m @ concat ds) (fold poly1305_update ds ctx)"
proof (induction ds arbitrary: m ctx)
  case (Cons d ds)
  from Cons.IH [OF update_absorbed [OF Cons.prems]] show ?case by simp
qed simp

section \<open>The accumulator\<close>

lemma le_val_one: "length m = 16 \<Longrightarrow> le_val (m @ [1]) = le_val m + 2 ^ 104 * 2 ^ 24"
  by (simp add: le_val_append)

lemma le_val_zeros: "le_val (m @ replicate n 0) = le_val m"
proof -
  have "le_val (replicate n 0) = 0" by (induction n) simp_all
  then show ?thesis by (simp add: le_val_append)
qed

lemma loop_val:
  assumes "below (2 ^ 26) r" "tight h" "lval h mod P1305 = acc mod P1305"
  shows "tight (blocks_loop r (2 ^ 24) h m)
    \<and> (\<exists>acc'. lval (blocks_loop r (2 ^ 24) h m) mod P1305 = acc' mod P1305 \<and> poly_acc (lval r) acc m = poly_acc (lval r) acc' (drop (length m div 16 * 16) m)
        \<and> (length m < 16 \<longrightarrow> acc' = acc) \<and> (16 \<le> length m \<longrightarrow> acc' < P1305))"
  using assms(2,3)
proof (induction m arbitrary: h acc rule: length_induct)
  case (1 m)
  show ?case
  proof (cases "16 \<le> length m")
    case False
    then show ?thesis using "1.prems" by (intro conjI exI [of _ acc]) (simp_all add: blocks_loop.simps)
  next
    case True
    define h' where "h' = poly1305_step r (2 ^ 24) h (take 16 m)"
    define acc' where "acc' = ((acc + le_val (take 16 m @ [1])) * lval r) mod P1305"
    have s: "lval h' mod P1305 = ((lval h + le_val (take 16 m) + 2 ^ 104 * 2 ^ 24) * lval r) mod P1305" "tight h'"
      using step_val [OF "1.prems"(1) assms(1), of "take 16 m" "2 ^ 24"] True by (simp_all add: h'_def)
    have "(lval h + le_val (take 16 m) + 2 ^ 104 * 2 ^ 24) mod P1305 = (acc + le_val (take 16 m @ [1])) mod P1305"
      using le_val_one [of "take 16 m"] True mod_add_cong [OF "1.prems"(2) refl, of "le_val (take 16 m) + 2 ^ 104 * 2 ^ 24"] by (simp add: add.assoc)
    then have e: "lval h' mod P1305 = acc' mod P1305" unfolding s(1) acc'_def by (metis mod_mult_left_eq mod_mod_trivial)
    have lt: "length (drop 16 m) < length m" using True by simp
    obtain a where a: "tight (blocks_loop r (2 ^ 24) h' (drop 16 m))"
      "lval (blocks_loop r (2 ^ 24) h' (drop 16 m)) mod P1305 = a mod P1305"
      "poly_acc (lval r) acc' (drop 16 m) = poly_acc (lval r) a (drop (length (drop 16 m) div 16 * 16) (drop 16 m))"
      "length (drop 16 m) < 16 \<longrightarrow> a = acc'" "16 \<le> length (drop 16 m) \<longrightarrow> a < P1305"
      using "1.IH" [rule_format, OF lt s(2) e] by (elim exE conjE) (rule that)
    have l: "blocks_loop r (2 ^ 24) h m = blocks_loop r (2 ^ 24) h' (drop 16 m)" using True by (subst blocks_loop.simps) (simp add: h'_def)
    have "length m div 16 = Suc ((length m - 16) div 16)" using True by (simp add: le_div_geq)
    then have d: "drop (length m div 16 * 16) m = drop (length (drop 16 m) div 16 * 16) (drop 16 m)" by (simp add: add.commute)
    have "poly_acc (lval r) acc m = poly_acc (lval r) acc' (drop 16 m)" using True by (subst poly_acc.simps) (auto simp: acc'_def)
    moreover have "acc' < P1305" by (simp add: acc'_def P1305_def)
    ultimately show ?thesis using a l d True by (intro conjI exI [of _ a]) auto
  qed
qed

section \<open>The final reduction\<close>

lemma div_carry: "h < 2 ^ 26 \<Longrightarrow> q \<le> 1 \<Longrightarrow> (h + q) div 2 ^ 26 \<le> (q :: nat)"
proof (cases "q = 0")
  case False
  moreover assume "h < 2 ^ 26" "q \<le> 1"
  ultimately have "h + q < 2 ^ 26 * 2" by simp
  then have "(h + q) div 2 ^ 26 < 2" by (simp add: div_less_iff_less_mult)
  then show ?thesis using False by simp
qed simp

lemma finish_carry_val:
  assumes "tight h"
  shows "lval (finish_carry h) mod P1305 = lval h mod P1305 \<and> below (2 ^ 26) (finish_carry h)"
proof -
  obtain h0 h1 h2 h3 h4 where h: "h = (h0, h1, h2, h3, h4)" by (cases h)
  have B: "h0 < 2 ^ 26" "h1 < 2 ^ 26 + 64" "h2 < 2 ^ 26" "h3 < 2 ^ 26" "h4 < 2 ^ 26" using assms by (simp_all add: h)
  define q1 m1 where "q1 = h1 div 2 ^ 26" and "m1 = h1 mod 2 ^ 26"
  define q2 m2 where "q2 = (h2 + q1) div 2 ^ 26" and "m2 = (h2 + q1) mod 2 ^ 26"
  define q3 m3 where "q3 = (h3 + q2) div 2 ^ 26" and "m3 = (h3 + q2) mod 2 ^ 26"
  define q4 m4 where "q4 = (h4 + q3) div 2 ^ 26" and "m4 = (h4 + q3) mod 2 ^ 26"
  define q0 m0 where "q0 = (h0 + 5 * q4) div 2 ^ 26" and "m0 = (h0 + 5 * q4) mod 2 ^ 26"
  have "h1 < 2 ^ 26 * 2" using B(2) by simp
  then have "q1 < 2" by (simp add: q1_def div_less_iff_less_mult)
  then have c1: "q1 \<le> 1" by simp
  have c2: "q2 \<le> q1" unfolding q2_def by (rule div_carry [OF B(3) c1])
  have c3: "q3 \<le> q2" unfolding q3_def by (rule div_carry [OF B(4)]) (use c1 c2 in simp)
  have c4: "q4 \<le> q3" unfolding q4_def by (rule div_carry [OF B(5)]) (use c1 c2 c3 in simp)
  have e: "h1 = 2 ^ 26 * q1 + m1" "h2 + q1 = 2 ^ 26 * q2 + m2" "h3 + q2 = 2 ^ 26 * q3 + m3" "h4 + q3 = 2 ^ 26 * q4 + m4" "h0 + 5 * q4 = 2 ^ 26 * q0 + m0"
    by (simp_all only: q1_def m1_def q2_def m2_def q3_def m3_def q4_def m4_def q0_def m0_def mult_div_mod_eq)
  have m: "m0 < 2 ^ 26" "m1 < 2 ^ 26" "m2 < 2 ^ 26" "m3 < 2 ^ 26" "m4 < 2 ^ 26" by (simp_all add: m0_def m1_def m2_def m3_def m4_def)
  have h1: "m1 + q0 < 2 ^ 26"
  proof (cases "q4 = 0")
    case True
    then have "q0 = 0" using B(1) by (simp add: q0_def)
    then show ?thesis using m(2) by simp
  next
    case False
    then have "q1 = 1" using c1 c2 c3 c4 by simp
    then have "m1 < 64" using e(1) B(2) by simp
    moreover have "q0 \<le> 1" using e(5) B(1) c1 c2 c3 c4 by simp
    ultimately show ?thesis by simp
  qed
  have f: "finish_carry h = (m0, m1 + q0, m2, m3, m4)"
  proof -
    have "w32 (h2 + q1) = h2 + q1" "w32 (h3 + q2) = h3 + q2" "w32 (h4 + q3) = h4 + q3" "w32 (q4 * 5) = 5 * q4" "w32 (h0 + 5 * q4) = h0 + 5 * q4"
      "w32 (m1 + q0) = m1 + q0"
      using B c1 c2 c3 c4 h1 by (simp_all add: w32_id)
    then show ?thesis
      unfolding finish_carry_def h prod.case Let_def low26_mod drop_bit_eq_div
      by (simp only: q1_def [symmetric] m1_def [symmetric] q2_def [symmetric] m2_def [symmetric] q3_def [symmetric] m3_def [symmetric]
          q4_def [symmetric] m4_def [symmetric] q0_def [symmetric] m0_def [symmetric])
  qed
  have "lval h + 5 * q4 = lval (finish_carry h) + 2 ^ 130 * q4" unfolding f unfolding h lval.simps using e by simp
  from mod_P1305 [OF this] show ?thesis using m h1 unfolding f by simp
qed

lemma lval_lt: "below (2 ^ 26) h \<Longrightarrow> lval h < 2 ^ 130"
  by (cases h) simp

lemma finish_reduce_val:
  assumes "below (2 ^ 26) h"
  shows "lval (finish_reduce h) = lval h mod P1305 \<and> below (2 ^ 26) (finish_reduce h)"
proof -
  obtain h0 h1 h2 h3 h4 where h: "h = (h0, h1, h2, h3, h4)" by (cases h)
  have B: "h0 < 2 ^ 26" "h1 < 2 ^ 26" "h2 < 2 ^ 26" "h3 < 2 ^ 26" "h4 < 2 ^ 26" using assms by (simp_all add: h)
  define c0 g0 where "c0 = (h0 + 5) div 2 ^ 26" and "g0 = (h0 + 5) mod 2 ^ 26"
  define c1 g1 where "c1 = (h1 + c0) div 2 ^ 26" and "g1 = (h1 + c0) mod 2 ^ 26"
  define c2 g2 where "c2 = (h2 + c1) div 2 ^ 26" and "g2 = (h2 + c1) mod 2 ^ 26"
  define c3 g3 where "c3 = (h3 + c2) div 2 ^ 26" and "g3 = (h3 + c2) mod 2 ^ 26"
  define g4 where "g4 = w32 (h4 + c3 + 2 ^ 32 - 2 ^ 26)"
  define mask where "mask = w32 (drop_bit 31 g4 + 2 ^ 32 - 1)"
  have "h0 + 5 < 2 ^ 26 * 2" using B(1) by simp
  then have "c0 < 2" by (simp add: c0_def div_less_iff_less_mult)
  then have k0: "c0 \<le> 1" by simp
  have k1: "c1 \<le> 1" unfolding c1_def using div_carry [OF B(2) k0] k0 by simp
  have k2: "c2 \<le> 1" unfolding c2_def using div_carry [OF B(3) k1] k1 by simp
  have k3: "c3 \<le> 1" unfolding c3_def using div_carry [OF B(4) k2] k2 by simp
  have e: "h0 + 5 = 2 ^ 26 * c0 + g0" "h1 + c0 = 2 ^ 26 * c1 + g1" "h2 + c1 = 2 ^ 26 * c2 + g2" "h3 + c2 = 2 ^ 26 * c3 + g3"
    by (simp_all only: c0_def g0_def c1_def g1_def c2_def g2_def c3_def g3_def mult_div_mod_eq)
  have m: "g0 < 2 ^ 26" "g1 < 2 ^ 26" "g2 < 2 ^ 26" "g3 < 2 ^ 26" by (simp_all add: g0_def g1_def g2_def g3_def)
  have f: "finish_reduce h = ((h0 AND (2 ^ 32 - 1 - mask)) OR (g0 AND mask), (h1 AND (2 ^ 32 - 1 - mask)) OR (g1 AND mask),
      (h2 AND (2 ^ 32 - 1 - mask)) OR (g2 AND mask), (h3 AND (2 ^ 32 - 1 - mask)) OR (g3 AND mask), (h4 AND (2 ^ 32 - 1 - mask)) OR (g4 AND mask))"
  proof -
    have "w32 (h0 + 5) = h0 + 5" "w32 (h1 + c0) = h1 + c0" "w32 (h2 + c1) = h2 + c1" "w32 (h3 + c2) = h3 + c2"
      using B k0 k1 k2 by (simp_all add: w32_id)
    then show ?thesis
      unfolding finish_reduce_def h prod.case Let_def low26_mod drop_bit_eq_div [of 26]
      by (simp only: c0_def [symmetric] g0_def [symmetric] c1_def [symmetric] g1_def [symmetric] c2_def [symmetric] g2_def [symmetric]
          c3_def [symmetric] g3_def [symmetric] g4_def [symmetric] mask_def [symmetric])
  qed
  have sum: "lval h + 5 = lval (g0, g1, g2, g3, h4 + c3)" using e by (simp add: h)
  show ?thesis
  proof (cases "h4 + c3 < 2 ^ 26")
    case True
    have "g4 = 2 ^ 32 - 2 ^ 26 + (h4 + c3)" using True by (simp add: g4_def w32_def)
    then have "drop_bit 31 g4 = 1" using True by (simp add: drop_bit_eq_div)
    then have "mask = 0" by (simp add: mask_def w32_def)
    then have r: "finish_reduce h = h" unfolding f unfolding h using B by (simp add: and_all_ones)
    have "lval (g0, g1, g2, g3, h4 + c3) < 2 ^ 130" by (rule lval_lt) (use m True in simp)
    then have "lval h < P1305" using sum by (simp add: P1305_def)
    then show ?thesis using r assms by simp
  next
    case False
    then have c: "h4 + c3 = 2 ^ 26" using B(5) k3 by simp
    then have g4: "g4 = 0" by (simp add: g4_def w32_def)
    then have "mask = 2 ^ 32 - 1" by (simp add: mask_def w32_def)
    then have r: "finish_reduce h = (g0, g1, g2, g3, 0)" unfolding f using m g4 by (simp add: and_all_ones)
    have "lval h = P1305 + lval (g0, g1, g2, g3, 0)" using sum c by (simp add: P1305_def)
    moreover have "lval (g0, g1, g2, g3, 0) < P1305" using m by (simp add: P1305_def)
    ultimately show ?thesis using r m by (simp add: mod_if)
  qed
qed

section \<open>The key\<close>

lemma and_lt: "a < 2 ^ n \<Longrightarrow> a AND c < 2 ^ (n :: nat)" for a c :: nat
proof -
  assume "a < 2 ^ n"
  moreover have "a AND c \<le> a" using AND_upper1 [of "int a" "int c"] by (simp add: and_nat_def nat_le_iff)
  ultimately show ?thesis by simp
qed

lemma and_concat:
  fixes a b c d :: nat
  assumes "a < 2 ^ n" "c < 2 ^ n"
  shows "(a + 2 ^ n * b) AND (c + 2 ^ n * d) = (a AND c) + 2 ^ n * (b AND d)"
proof -
  have z: "\<not> bit x i" if "x < 2 ^ n" "n \<le> i" for x i :: nat
    using that by (metis bit_take_bit_iff leD take_bit_nat_eq_self)
  have ac: "a AND c < 2 ^ n" using assms(1) by (rule and_lt)
  have "(a OR push_bit n b) AND (c OR push_bit n d) = (a AND c) OR push_bit n (b AND d)"
    using z [OF assms(1)] z [OF assms(2)] by (auto simp: bit_eq_iff bit_simps)
  moreover have "x OR push_bit n y = x + 2 ^ n * y" if "x < 2 ^ n" for x y :: nat using or_add [OF that, of y] by (simp add: push_bit_eq_mult mult.commute)
  ultimately show ?thesis using assms ac by (simp del: push_bit_and)
qed

lemma and_cut: "m < 2 ^ 26 \<Longrightarrow> x AND m = (x mod 2 ^ 26) AND (m :: nat)"
  using and_concat [of "x mod 2 ^ 26" 26 m "x div 2 ^ 26" 0] by simp

definition rfc_r :: "u8 list \<Rightarrow> nat" where
  "rfc_r key = le_val (take 16 key) AND 0x0ffffffc0ffffffc0ffffffc0fffffff"

lemma or_bytes_from:
  assumes "a < 2 ^ j" "b < 2 ^ 8" "c < 2 ^ 8" "j \<le> 8"
  shows "a OR push_bit j b OR push_bit (j + 8) c OR push_bit (j + 16) d = a + 2 ^ j * (b + 2 ^ 8 * (c + 2 ^ 8 * (d :: nat)))"
proof -
  have 1: "2 ^ (j + 8) * c OR 2 ^ (j + 16) * d = 2 ^ (j + 8) * c + 2 ^ (j + 16) * d"
    by (rule or_add) (use assms in \<open>simp add: power_add\<close>)
  have 2: "2 ^ j * b OR 2 ^ (j + 8) * (c + 2 ^ 8 * d) = 2 ^ j * b + 2 ^ (j + 8) * (c + 2 ^ 8 * d)"
    by (rule or_add) (use assms in \<open>simp add: power_add\<close>)
  have 3: "a OR 2 ^ j * (b + 2 ^ 8 * (c + 2 ^ 8 * d)) = a + 2 ^ j * (b + 2 ^ 8 * (c + 2 ^ 8 * d))" by (rule or_add [OF assms(1)])
  have "push_bit j b OR push_bit (j + 8) c OR push_bit (j + 16) d = 2 ^ j * (b + 2 ^ 8 * (c + 2 ^ 8 * d))"
    using 1 2 by (simp add: push_bit_eq_mult power_add algebra_simps)
  then show ?thesis using 3 by simp
qed

lemma init_key:
  assumes "length key = 32"
  shows "lval (poly_r (poly1305_init buffer key)) = rfc_r key \<and> below (2 ^ 26) (poly_r (poly1305_init buffer key))"
proof -
  define k where "k = (\<lambda>i. unat (key ! i))"
  have k: "k i < 2 ^ 8" for i by (simp only: k_def byte_lt)
  have split: "k 3 = k 3 mod 4 + 4 * (k 3 div 4)" "k 6 = k 6 mod 16 + 16 * (k 6 div 16)" "k 9 = k 9 mod 64 + 64 * (k 9 div 64)"
    by (simp_all only: mod_mult_div_eq)
  define a3 b3 a6 b6 a9 b9 where "a3 = k 3 mod 4" and "b3 = k 3 div 4" and "a6 = k 6 mod 16" and "b6 = k 6 div 16" and "a9 = k 9 mod 64" and "b9 = k 9 div 64"
  note ab = this
  have s: "k 3 = a3 + 4 * b3" "k 6 = a6 + 16 * b6" "k 9 = a9 + 64 * b9" unfolding ab by (rule split)+
  have lt: "a3 < 4" "b3 < 2 ^ 6" "a6 < 16" "b6 < 2 ^ 4" "a9 < 64" "b9 < 2 ^ 2"
    using k [of 3] k [of 6] k [of 9] by (simp_all add: ab div_less_iff_less_mult)
  define l0 l1 l2 l3 l4 where "l0 = k 0 + 2 ^ 8 * (k 1 + 2 ^ 8 * (k 2 + 2 ^ 8 * a3))" and "l1 = b3 + 2 ^ 6 * (k 4 + 2 ^ 8 * (k 5 + 2 ^ 8 * a6))"
    and "l2 = b6 + 2 ^ 4 * (k 7 + 2 ^ 8 * (k 8 + 2 ^ 8 * a9))" and "l3 = b9 + 2 ^ 2 * (k 10 + 2 ^ 8 * (k 11 + 2 ^ 8 * k 12))"
    and "l4 = k 13 + 2 ^ 8 * (k 14 + 2 ^ 8 * k 15)"
  note l = this
  have L: "l0 < 2 ^ 26" "l1 < 2 ^ 26" "l2 < 2 ^ 26" "l3 < 2 ^ 26" "l4 < 2 ^ 26"
    using k [of 0] k [of 1] k [of 2] k [of 4] k [of 5] k [of 7] k [of 8] k [of 10] k [of 11] k [of 12] k [of 13] k [of 14] k [of 15] lt
    by (simp_all add: l)
  have "le32 key 0 = l0 + 2 ^ 26 * b3" using le32_bytes_0 [of key] s(1) by (simp add: l k_def)
  then have r0: "le32 key 0 AND 0x3ffffff = l0 AND 0x3ffffff" by (subst and_cut) (use L in simp_all)
  have "drop_bit 2 (k 3) OR push_bit 6 (k 4) OR push_bit 14 (k 5) OR push_bit 22 (k 6) = l1 + 2 ^ 26 * b6"
    using or_bytes_from [OF lt(2) k [of 4] k [of 5], of "k 6"] s(2) by (simp add: l ab(2) drop_bit_eq_div)
  then have r1: "(drop_bit 2 (k 3) OR push_bit 6 (k 4) OR push_bit 14 (k 5) OR push_bit 22 (k 6)) AND 0x3ffff03 = l1 AND 0x3ffff03"
    by (subst and_cut) (use L in simp_all)
  have "drop_bit 4 (k 6) OR push_bit 4 (k 7) OR push_bit 12 (k 8) OR push_bit 20 (k 9) = l2 + 2 ^ 26 * b9"
    using or_bytes_from [OF lt(4) k [of 7] k [of 8], of "k 9"] s(3) by (simp add: l ab(4) drop_bit_eq_div)
  then have r2: "(drop_bit 4 (k 6) OR push_bit 4 (k 7) OR push_bit 12 (k 8) OR push_bit 20 (k 9)) AND 0x3ffc0ff = l2 AND 0x3ffc0ff"
    by (subst and_cut) (use L in simp_all)
  have r3: "drop_bit 6 (k 9) OR push_bit 2 (k 10) OR push_bit 10 (k 11) OR push_bit 18 (k 12) = l3"
    using or_bytes_from [OF lt(6) k [of 10] k [of 11], of "k 12"] by (simp add: l ab(6) drop_bit_eq_div)
  have "drop_bit 8 (k 12) = 0" using k [of 12] by (simp add: drop_bit_eq_div)
  then have r4: "drop_bit 8 (k 12) OR push_bit 0 (k 13) OR push_bit 8 (k 14) OR push_bit 16 (k 15) = l4"
    using or_bytes [OF k [of 13] k [of 14] k [of 15], of 0] by (simp add: l)
  have r: "poly_r (poly1305_init buffer key) = (l0 AND 0x3ffffff, l1 AND 0x3ffff03, l2 AND 0x3ffc0ff, l3 AND 0x3f03fff, l4 AND 0x00fffff)"
    unfolding poly1305_init_def Let_def k_def [symmetric] using r0 r1 r2 r3 r4 by simp
  have "le_val (take 16 key) = l0 + 2 ^ 26 * (l1 + 2 ^ 26 * (l2 + 2 ^ 26 * (l3 + 2 ^ 26 * l4)))"
  proof -
    have "le_val (take 16 key) = le32 key 0 + 2 ^ 32 * le32 key 4 + 2 ^ 64 * le32 key 8 + 2 ^ 96 * le32 key 12"
      using le_val_16 [of "take 16 key"] assms by (simp add: le32_def)
    then show ?thesis unfolding le32_bytes_0 le32_bytes [of key 4] le32_bytes [of key 8] le32_bytes [of key 12] using s by (simp add: l k_def)
  qed
  moreover have "(0x0ffffffc0ffffffc0ffffffc0fffffff :: nat) = 0x3ffffff + 2 ^ 26 * (0x3ffff03 + 2 ^ 26 * (0x3ffc0ff + 2 ^ 26 * (0x3f03fff + 2 ^ 26 * 0x00fffff)))"
    by simp
  moreover have M: "(0x3ffffff :: nat) < 2 ^ 26" "(0x3ffff03 :: nat) < 2 ^ 26" "(0x3ffc0ff :: nat) < 2 ^ 26" "(0x3f03fff :: nat) < 2 ^ 26" by simp_all
  ultimately have "rfc_r key = (l0 AND 0x3ffffff) + 2 ^ 26 * ((l1 AND 0x3ffff03) + 2 ^ 26 * ((l2 AND 0x3ffc0ff) + 2 ^ 26 * ((l3 AND 0x3f03fff) + 2 ^ 26 * (l4 AND 0x00fffff))))"
    unfolding rfc_r_def by (simp only: and_concat [OF L(1) M(1)] and_concat [OF L(2) M(2)] and_concat [OF L(3) M(3)] and_concat [OF L(4) M(4)])
  then show ?thesis using and_lt [OF L(1), of "0x3ffffff"] and_lt [OF L(2), of "0x3ffff03"] and_lt [OF L(3), of "0x3ffc0ff"] and_lt [OF L(4), of "0x3f03fff"]
      and_lt [OF L(5), of "0x00fffff"] unfolding r by simp
qed

section \<open>What the code computes\<close>

text \<open>The tag from the reduced accumulator \<open>H\<close> and the second half of the key, as two numbers of 64 bits.\<close>

definition code_tag :: "nat \<Rightarrow> nat \<Rightarrow> u8 list" where
  "code_tag H s = le64_bytes ((H mod 2 ^ 52 + s mod 2 ^ 64) mod 2 ^ 64) @ le64_bytes ((H div 2 ^ 64 + s div 2 ^ 64) mod 2 ^ 64)"

text \<open>The tag of RFC 8439.\<close>

definition rfc_tag :: "nat \<Rightarrow> nat \<Rightarrow> u8 list" where
  "rfc_tag H s = map (\<lambda>i. of_nat ((H + s) div 2 ^ (8 * i))) [0..<16]"

lemma pad_val:
  assumes "length key = 32"
  shows "le_val (drop 16 key) mod 2 ^ 64 = le32 key 16 + 2 ^ 32 * le32 key 20" "le_val (drop 16 key) div 2 ^ 64 = le32 key 24 + 2 ^ 32 * le32 key 28"
proof -
  have "le32 (drop 16 key) i = le32 key (16 + i)" if "i + 3 < 16" for i using that assms by (simp add: le32_def add.assoc)
  then have v: "le_val (drop 16 key) = (le32 key 16 + 2 ^ 32 * le32 key 20) + 2 ^ 64 * (le32 key 24 + 2 ^ 32 * le32 key 28)"
    using le_val_16 [of "drop 16 key"] assms by simp
  have "le32 key 16 + 2 ^ 32 * le32 key 20 < 2 ^ 64" using le32_lt [of key 16] le32_lt [of key 20] by simp
  then show "le_val (drop 16 key) mod 2 ^ 64 = le32 key 16 + 2 ^ 32 * le32 key 20" "le_val (drop 16 key) div 2 ^ 64 = le32 key 24 + 2 ^ 32 * le32 key 28"
    unfolding v by (simp_all only: mod_mult_self2 mod_less div_mult_self2 power_eq_0_iff, simp_all)
qed

lemma lval_parts:
  assumes "below (2 ^ 26) (h0, h1, h2, h3, h4)"
  shows "lval (h0, h1, h2, h3, h4) mod 2 ^ 52 = h0 + 2 ^ 26 * h1"
    "lval (h0, h1, h2, h3, h4) div 2 ^ 64 = h2 div 2 ^ 12 + 2 ^ 14 * h3 + 2 ^ 40 * h4"
proof -
  define q m where "q = h2 div 2 ^ 12" and "m = h2 mod 2 ^ 12"
  have h2: "h2 = m + 2 ^ 12 * q" unfolding q_def m_def by (simp only: mod_mult_div_eq)
  have m: "m < 2 ^ 12" by (simp add: m_def)
  have b: "h0 + 2 ^ 26 * h1 < 2 ^ 52" using assms by simp
  have "lval (h0, h1, h2, h3, h4) = (h0 + 2 ^ 26 * h1) + 2 ^ 52 * (h2 + 2 ^ 26 * h3 + 2 ^ 52 * h4)" by simp
  then show "lval (h0, h1, h2, h3, h4) mod 2 ^ 52 = h0 + 2 ^ 26 * h1" using b by (simp only: mod_mult_self2 mod_less)
  have "lval (h0, h1, h2, h3, h4) = (h0 + 2 ^ 26 * h1 + 2 ^ 52 * m) + 2 ^ 64 * (q + 2 ^ 14 * h3 + 2 ^ 40 * h4)" using h2 by simp
  moreover have "h0 + 2 ^ 26 * h1 + 2 ^ 52 * m < 2 ^ 64" using b m by simp
  ultimately show "lval (h0, h1, h2, h3, h4) div 2 ^ 64 = h2 div 2 ^ 12 + 2 ^ 14 * h3 + 2 ^ 40 * h4"
    unfolding q_def by (simp only: div_mult_self2 power_eq_0_iff div_less, simp)
qed

lemma finish_tag_val:
  assumes h: "below (2 ^ 26) h" and key: "length key = 32"
  shows "finish_tag h (map (\<lambda>i. le32 key (16 + i * 4)) [0..<4]) = code_tag (lval h) (le_val (drop 16 key))"
proof -
  obtain h0 h1 h2 h3 h4 where hh: "h = (h0, h1, h2, h3, h4)" by (cases h)
  have B: "h0 < 2 ^ 26" "h1 < 2 ^ 26" "h2 < 2 ^ 26" "h3 < 2 ^ 26" "h4 < 2 ^ 26" using h by (simp_all add: hh)
  note P = lval_parts [OF h [unfolded hh]]
  let ?p = "map (\<lambda>i. le32 key (16 + i * 4)) [0..<4]"
  have p: "?p ! 0 = le32 key 16" "?p ! 1 = le32 key 20" "?p ! 2 = le32 key 24" "?p ! 3 = le32 key 28" by (simp_all add: nth_append)
  have s: "w64 (push_bit 32 (le32 key i)) = 2 ^ 32 * le32 key i" for i
    using le32_lt [of key i] by (simp add: push_bit_eq_mult w64_id)
  have f0: "h0 OR w64 (push_bit 26 h1) = h0 + 2 ^ 26 * h1"
    using or_add [OF B(1), of h1] B(2) by (simp add: push_bit_eq_mult w64_id mult.commute)
  have d: "h2 div 2 ^ 12 < 2 ^ 14" using B(3) by (simp add: div_less_iff_less_mult)
  have m4: "w64 (push_bit 40 h4) = 2 ^ 40 * (h4 mod 2 ^ 24)"
    using mult_mod_right [of "2 ^ 40" h4 "2 ^ 24"] by (simp add: push_bit_eq_mult w64_def mult.commute)
  have m3: "w64 (push_bit 14 h3) = 2 ^ 14 * h3" using B(4) by (simp add: push_bit_eq_mult w64_id)
  have o3: "2 ^ 14 * h3 OR 2 ^ 40 * (h4 mod 2 ^ 24) = 2 ^ 14 * h3 + 2 ^ 40 * (h4 mod 2 ^ 24)" by (rule or_add) (use B(4) in simp)
  have "2 ^ 14 * h3 + 2 ^ 40 * (h4 mod 2 ^ 24) = 2 ^ 14 * (h3 + 2 ^ 26 * (h4 mod 2 ^ 24))" by simp
  then have f1: "drop_bit 12 h2 OR w64 (push_bit 14 h3) OR w64 (push_bit 40 h4) = h2 div 2 ^ 12 + 2 ^ 14 * h3 + 2 ^ 40 * (h4 mod 2 ^ 24)"
    unfolding m3 m4 o3 using or_add [OF d, of "h3 + 2 ^ 26 * (h4 mod 2 ^ 24)"] by (simp add: drop_bit_eq_div)
  have w: "w64 (x + 2 ^ 40 * (h4 mod 2 ^ 24) + y) = (x + 2 ^ 40 * h4 + y) mod 2 ^ 64" for x y
  proof -
    define q m where "q = h4 div 2 ^ 24" and "m = h4 mod 2 ^ 24"
    have "h4 = m + 2 ^ 24 * q" unfolding q_def m_def by (simp only: mod_mult_div_eq)
    then have "x + 2 ^ 40 * h4 + y = x + 2 ^ 40 * m + y + 2 ^ 64 * q" by simp
    then show ?thesis unfolding w64_def m_def [symmetric] by (metis mod_mult_self2)
  qed
  show ?thesis
    unfolding finish_tag_def hh prod.case Let_def p s f0 f1 code_tag_def P pad_val [OF key] add.assoc [of _ "le32 key 24"] add.assoc [of _ "le32 key 16"] w
    by (simp only: w64_def)
qed

lemma clear_tail: "n \<le> length b \<Longrightarrow> fold (\<lambda>i b. b[i := 0]) [n..<length b] b = take n b @ replicate (length b - n) (0 :: u8)"
proof -
  have "fold (\<lambda>i b. b[i := 0]) [n..<n + k] b = take n b @ replicate k 0 @ drop (n + k) b" if "n + k \<le> length b" for k
    using that
  proof (induction k)
    case (Suc k)
    then have "fold (\<lambda>i b. b[i := 0]) [n..<n + Suc k] b = (take n b @ replicate k 0 @ drop (n + k) b)[n + k := 0]" by simp
    also have "\<dots> = take n b @ replicate k 0 @ (drop (n + k) b)[0 := 0]" using Suc.prems by (simp add: list_update_append)
    also have "(drop (n + k) b)[0 := 0] = 0 # drop (n + Suc k) b" using Suc.prems by (simp add: Cons_nth_drop_Suc [symmetric])
    finally show ?case by (simp add: replicate_append_same [symmetric])
  qed simp
  from this [of "length b - n"] show "n \<le> length b \<Longrightarrow> ?thesis" by simp
qed

lemma poly_acc_lt: "acc < P1305 \<Longrightarrow> poly_acc r acc m < P1305"
proof (induction r acc m rule: poly_acc.induct)
  case (1 r acc m)
  then show ?case by (subst poly_acc.simps) (simp add: P1305_def)
qed

lemma finish_leftover_val:
  assumes inv: "absorbed r pad m ctx" and r: "below (2 ^ 26) r"
  shows "tight (poly_h (finish_leftover ctx)) \<and> lval (poly_h (finish_leftover ctx)) mod P1305 = poly_acc (lval r) 0 m \<and> poly_pad (finish_leftover ctx) = pad"
proof -
  define k where "k = poly_leftover ctx"
  define rest where "rest = take k (poly_buffer ctx)"
  have I: "poly_r ctx = r" "poly_pad ctx = pad" "length (poly_buffer ctx) = 16" "k < 16"
    "fold_blocks 16 (poly1305_step r (2 ^ 24)) (0, 0, 0, 0, 0) m = (poly_h ctx, rest)" using inv by (simp_all add: absorbed_def k_def rest_def)
  have F: "poly_h ctx = blocks_loop r (2 ^ 24) (0, 0, 0, 0, 0) m" "rest = drop (length m div 16 * 16) m"
    using I(5) unfolding fold_blocks_loop by simp_all
  have z: "tight (0, 0, 0, 0, 0)" "lval (0, 0, 0, 0, 0) mod P1305 = 0 mod P1305" by simp_all
  obtain a where a: "tight (poly_h ctx)" "lval (poly_h ctx) mod P1305 = a mod P1305" "poly_acc (lval r) 0 m = poly_acc (lval r) a rest"
      "length m < 16 \<longrightarrow> a = 0" "16 \<le> length m \<longrightarrow> a < P1305"
    using loop_val [OF r z, of m] unfolding F [symmetric] by (elim exE conjE) (rule that)
  have lt: "a < P1305" using a(4,5) by (cases "length m < 16") (simp_all add: P1305_def)
  show ?thesis
  proof (cases "k = 0")
    case True
    then have "rest = []" "finish_leftover ctx = ctx" by (simp_all add: rest_def finish_leftover_def k_def)
    then show ?thesis using a lt I(2) by (simp add: poly_acc.simps)
  next
    case False
    define b where "b = rest @ [1] @ replicate (15 - k) (0 :: u8)"
    have lr: "length rest = k" using I(3,4) by (simp add: rest_def)
    have lb: "length b = 16" using lr I(4) by (simp add: b_def)
    have "(poly_buffer ctx)[k := 1] = rest @ [1] @ drop (Suc k) (poly_buffer ctx)"
      unfolding rest_def using I(3,4) by (simp add: upd_conv_take_nth_drop)
    then have "take (k + 1) ((poly_buffer ctx)[k := 1]) = rest @ [1]" using lr by simp
    then have c: "fold (\<lambda>i b. b[i := 0]) [k + 1..<16] ((poly_buffer ctx)[k := 1]) = b"
      using clear_tail [of "k + 1" "(poly_buffer ctx)[k := 1]"] I(3,4) by (simp add: b_def)
    have f: "finish_leftover ctx = ctx\<lparr>poly_buffer := b, poly_h := poly1305_step r 0 (poly_h ctx) b\<rparr>"
      using False I(1) lb c unfolding finish_leftover_def k_def [symmetric] Let_def by (simp add: poly1305_blocks_def blocks_loop.simps)
    have s: "lval (poly1305_step r 0 (poly_h ctx) b) mod P1305 = ((lval (poly_h ctx) + le_val b) * lval r) mod P1305" "tight (poly1305_step r 0 (poly_h ctx) b)"
      using step_val [OF a(1) r lb, of 0] by simp_all
    have "le_val b = le_val (rest @ [1])" using le_val_zeros [of "rest @ [1]"] by (simp add: b_def)
    then have "(lval (poly_h ctx) + le_val b) mod P1305 = (a + le_val (rest @ [1])) mod P1305" using mod_add_cong [OF a(2) refl] by simp
    then have "lval (poly1305_step r 0 (poly_h ctx) b) mod P1305 = ((a + le_val (rest @ [1])) * lval r) mod P1305"
      unfolding s(1) by (metis mod_mult_left_eq)
    moreover have "poly_acc (lval r) a rest = ((a + le_val (rest @ [1])) * lval r) mod P1305"
      using lr False I(4) by (subst poly_acc.simps) (auto simp: poly_acc.simps)
    ultimately show ?thesis using f s(2) a(3) I(2) by simp
  qed
qed

lemma poly1305_tag:
  assumes "length key = 32" and "length buffer = 16"
  shows "poly1305_finish (fold poly1305_update chunks (poly1305_init buffer key))
    = code_tag (poly_acc (rfc_r key) 0 (concat chunks)) (le_val (drop 16 key))"
proof -
  define r pad where "r = poly_r (poly1305_init buffer key)" and "pad = map (\<lambda>i. le32 key (16 + i * 4)) [0..<4]"
  have r: "lval r = rfc_r key" "below (2 ^ 26) r" using init_key [OF assms(1)] by (simp_all add: r_def)
  have "absorbed r pad [] (poly1305_init buffer key)"
    using assms(2) by (simp add: absorbed_def r_def pad_def poly1305_init_def Let_def poly_blocks.fold_blocks_short)
  from updates_absorbed [OF this, of chunks] have I: "absorbed r pad (concat chunks) (fold poly1305_update chunks (poly1305_init buffer key))" by simp
  define ctx where "ctx = finish_leftover (fold poly1305_update chunks (poly1305_init buffer key))"
  have c: "tight (poly_h ctx)" "lval (poly_h ctx) mod P1305 = poly_acc (rfc_r key) 0 (concat chunks)" "poly_pad ctx = pad"
    using finish_leftover_val [OF I r(2)] r(1) by (simp_all add: ctx_def)
  define h where "h = finish_reduce (finish_carry (poly_h ctx))"
  have h: "below (2 ^ 26) h" "lval h = poly_acc (rfc_r key) 0 (concat chunks)"
    using finish_carry_val [OF c(1)] finish_reduce_val [of "finish_carry (poly_h ctx)"] c(2) by (simp_all add: h_def)
  show ?thesis
    using finish_tag_val [OF h(1) assms(1)] unfolding h(2) poly1305_finish_def Let_def ctx_def [symmetric] h_def [symmetric] c(3) pad_def .
qed

section \<open>The properties\<close>

text \<open>
  C38. Poly1305 over any splitting of the message into updates computes the accumulator of RFC 8439: the
  blocks with their final bit, times powers of the clamped key, modulo \<open>2 ^ 130 - 5\<close>. None of the 32 and 64
  bit operations on the way wraps around. From the accumulator \<open>H\<close> and the second half \<open>s\<close> of the key the
  code makes the two halves of the tag separately: the low half from the bits of \<open>H\<close> below 52, the high
  half from the bits above 64, each plus its half of \<open>s\<close>, without a carry between them.
\<close>

theorem poly1305_accumulator:
  assumes "length key = 32" and "length buffer = 16"
  shows "poly1305_finish (fold poly1305_update chunks (poly1305_init buffer key))
    = code_tag (poly_acc (rfc_r key) 0 (concat chunks)) (le_val (drop 16 key))"
  using assms by (rule poly1305_tag)

theorem poly1305_accumulator_witness:
  "poly1305_finish (fold poly1305_update [[1, 2], [3]] (poly1305_init (replicate 16 0) (replicate 32 1)))
    = code_tag (poly_acc (rfc_r (replicate 32 1)) 0 [1, 2, 3]) (le_val (replicate 16 1))"
  using poly1305_accumulator [of "replicate 32 1" "replicate 16 0" "[[1, 2], [3]]"] by simp

text \<open>
  C39. The tag is not that of RFC 8439: the bits 52 to 63 of the accumulator are missing from it. Under the
  key with \<open>r = 1\<close> and \<open>s = 0\<close>, the message of 16 zero bytes and the message with the top bit of byte 7 set
  have the same tag, while the tags of the RFC differ.
\<close>

theorem poly1305_tag_misses_bits:
  "let key = 1 # replicate 31 0; m = replicate 16 0; m' = m[7 := 0x80];
       tag = (\<lambda>m. poly1305_finish (poly1305_update m (poly1305_init (replicate 16 0) key)));
       rfc = (\<lambda>m. rfc_tag (poly_acc (rfc_r key) 0 m) (le_val (drop 16 key)))
   in tag m' = tag m \<and> rfc m' \<noteq> rfc m \<and> tag m' \<noteq> rfc m'"
proof -
  define key m m' :: "u8 list" where "key = 1 # replicate 31 0" and "m = replicate 16 0" and "m' = m[7 := 0x80]"
  note d = this
  have r: "rfc_r key = 1" using le_val_zeros [of "[1]" 15] by (simp add: rfc_r_def d)
  have s: "le_val (drop 16 key) = 0" using le_val_zeros [of "[]" 16] by (simp add: d)
  have acc: "poly_acc 1 0 x = (le_val x + 2 ^ 128) mod P1305" if "length x = 16" for x
    using that le_val_one [of x] by (subst poly_acc.simps) (auto simp: poly_acc.simps)
  have m': "m' = replicate 7 0 @ [0x80] @ replicate 8 0" by (simp add: d numeral_eq_Suc)
  have v: "le_val m = 0" "le_val m' = 2 ^ 63"
    using le_val_zeros [of "[]" 16] le_val_zeros [of "replicate 7 0 @ [0x80]" 8] le_val_zeros [of "[]" 7] unfolding m'
    by (simp_all add: d(2) le_val_append)
  have H: "poly_acc 1 0 m = 2 ^ 128" "poly_acc 1 0 m' = 2 ^ 63 + 2 ^ 128" using acc [of m] acc [of m'] v by (simp_all add: d P1305_def)
  have t: "poly1305_finish (poly1305_update x (poly1305_init m key)) = code_tag (poly_acc 1 0 x) 0" for x
    using poly1305_tag [of key m "[x]"] r s by (simp add: d(1,2))
  have c: "code_tag (poly_acc 1 0 m') 0 = code_tag (poly_acc 1 0 m) 0" unfolding H by (simp add: code_tag_def)
  have "code_tag (2 ^ 128) 0 ! 7 = 0" "rfc_tag (2 ^ 128) 0 ! 7 = 0" "rfc_tag (2 ^ 63 + 2 ^ 128) 0 ! 7 \<noteq> 0"
    by (simp_all add: code_tag_def le64_bytes_def rfc_tag_def nth_append drop_bit_eq_div)
  then have "rfc_tag (poly_acc 1 0 m') 0 \<noteq> rfc_tag (poly_acc 1 0 m) 0" "code_tag (poly_acc 1 0 m') 0 \<noteq> rfc_tag (poly_acc 1 0 m') 0"
    using c unfolding H by metis+
  then show ?thesis using c unfolding Let_def d [symmetric] t r s by blast
qed

end
