(* ===== verification/KOS_Chacha.thy ===== *)
theory KOS_Chacha
  imports KOS_Aes KOS_Poly1305
begin

text \<open>
  The stream cipher ChaCha20 and the authenticated encryption ChaCha20-Poly1305 of section 7 of
  \<open>src/lib/crypto.c\<close>. The state of the cipher is a list of sixteen 32-bit words. The input of the cipher
  may be the null pointer, which gives the key stream itself.
\<close>

section \<open>ChaCha20\<close>

definition chacha_rotl :: "u32 \<Rightarrow> nat \<Rightarrow> u32" where
  "chacha_rotl v c = push_bit c v OR drop_bit (32 - c) v"

definition CHACHA_QR :: "nat \<Rightarrow> nat \<Rightarrow> nat \<Rightarrow> nat \<Rightarrow> u32 list \<Rightarrow> u32 list" where
  "CHACHA_QR pa pb pc pd x =
     (let a = x ! pa; b = x ! pb; c = x ! pc; d = x ! pd;
          a = a + b; d = d XOR a; d = chacha_rotl d 16;
          c = c + d; b = b XOR c; b = chacha_rotl b 12;
          a = a + b; d = d XOR a; d = chacha_rotl d 8;
          c = c + d; b = b XOR c; b = chacha_rotl b 7
      in x[pa := a, pb := b, pc := c, pd := d])"

definition chacha_double_round :: "u32 list \<Rightarrow> u32 list" where
  "chacha_double_round x =
     CHACHA_QR 3 4 9 14 (CHACHA_QR 2 7 8 13 (CHACHA_QR 1 6 11 12 (CHACHA_QR 0 5 10 15
       (CHACHA_QR 3 7 11 15 (CHACHA_QR 2 6 10 14 (CHACHA_QR 1 5 9 13 (CHACHA_QR 0 4 8 12 x)))))))"

definition le32_split :: "u32 \<Rightarrow> u8 list" where
  "le32_split v = [ucast v, ucast (drop_bit 8 v), ucast (drop_bit 16 v), ucast (drop_bit 24 v)]"

definition chacha20_block :: "u32 list \<Rightarrow> u8 list" where
  "chacha20_block state =
     (let x = (chacha_double_round ^^ 10) state
      in concat (map (\<lambda>i. le32_split (x ! i + state ! i)) [0..<16]))"

definition le32_word :: "u8 list \<Rightarrow> nat \<Rightarrow> u32" where
  "le32_word m i = ucast (m ! i) OR push_bit 8 (ucast (m ! (i + 1))) OR push_bit 16 (ucast (m ! (i + 2))) OR push_bit 24 (ucast (m ! (i + 3)))"

definition chacha20_state :: "u8 list \<Rightarrow> u8 list \<Rightarrow> u32 \<Rightarrow> u32 list" where
  "chacha20_state key nonce initial_counter =
     [0x61707865, 0x3320646e, 0x79622d32, 0x6b206574] @ map (\<lambda>i. le32_word key (i * 4)) [0..<8]
     @ [initial_counter] @ map (\<lambda>i. le32_word nonce (i * 4)) [0..<3]"

function chacha20_loop :: "u32 list \<Rightarrow> u8 list option \<Rightarrow> nat \<Rightarrow> u8 list" where
  "chacha20_loop state input n =
     (if n = 0 then []
      else let stream = chacha20_block state;
               amount = min n 64;
               out = (case input of None \<Rightarrow> take amount stream | Some xs \<Rightarrow> map2 (XOR) (take amount xs) stream)
           in out @ chacha20_loop (state[12 := state ! 12 + 1]) (map_option (drop 64) input) (n - 64))"
  by pat_completeness auto
termination
  by (relation "measure (\<lambda>(s, i, n). n)") auto

declare chacha20_loop.simps [simp del]

definition chacha20_crypt :: "u8 list \<Rightarrow> u8 list \<Rightarrow> u32 \<Rightarrow> u8 list option \<Rightarrow> nat \<Rightarrow> u8 list" where
  "chacha20_crypt key nonce initial_counter input n = chacha20_loop (chacha20_state key nonce initial_counter) input n"

section \<open>ChaCha20-Poly1305\<close>

definition update_padded :: "u8 list \<Rightarrow> poly1305_ctx \<Rightarrow> poly1305_ctx" where
  "update_padded data ctx =
     (if 0 < length data
      then let ctx = poly1305_update data ctx
           in if length data mod 16 \<noteq> 0 then poly1305_update (replicate (16 - length data mod 16) 0) ctx else ctx
      else ctx)"

definition lens_bytes :: "nat \<Rightarrow> u8 list" where
  "lens_bytes n = map (\<lambda>i. ucast (drop_bit (i * 8) (of_nat n :: u64))) [0..<8]"

text \<open>The tag; the buffer of a new context is not initialised by the code, and its contents do not matter.\<close>

definition chacha_tag :: "u8 list \<Rightarrow> u8 list \<Rightarrow> u8 list \<Rightarrow> u8 list \<Rightarrow> u8 list" where
  "chacha_tag key nonce aad ciphertext =
     (let poly_key = chacha20_crypt key nonce 0 None 64;
          ctx = poly1305_init (replicate 16 0) poly_key;
          ctx = update_padded aad ctx;
          ctx = update_padded ciphertext ctx;
          ctx = poly1305_update (lens_bytes (length aad) @ lens_bytes (length ciphertext)) ctx
      in poly1305_finish ctx)"

definition kos_chacha20_poly1305_encrypt :: "u8 list option \<Rightarrow> u8 list option \<Rightarrow> u8 list \<Rightarrow> u8 list \<Rightarrow> bool \<Rightarrow> (u8 list \<times> u8 list) option" where
  "kos_chacha20_poly1305_encrypt key nonce aad plaintext has_tag =
     (case (key, nonce) of
        (Some k, Some n) \<Rightarrow>
          if has_tag
          then let ciphertext = chacha20_crypt k n 1 (Some plaintext) (length plaintext)
               in Some (ciphertext, chacha_tag k n aad ciphertext)
          else None
      | _ \<Rightarrow> None)"

definition kos_chacha20_poly1305_decrypt :: "u8 list option \<Rightarrow> u8 list option \<Rightarrow> u8 list \<Rightarrow> u8 list \<Rightarrow> u8 list option \<Rightarrow> u8 list option" where
  "kos_chacha20_poly1305_decrypt key nonce aad ciphertext tag =
     (case (key, nonce, tag) of
        (Some k, Some n, Some t) \<Rightarrow>
          if tag_mismatch (chacha_tag k n aad ciphertext) t \<noteq> 0 then None
          else Some (chacha20_crypt k n 1 (Some ciphertext) (length ciphertext))
      | _ \<Rightarrow> None)"

section \<open>Encryption and decryption\<close>

lemma block_length [simp]: "length (chacha20_block state) = 64"
  by (simp add: chacha20_block_def Let_def le32_split_def length_concat comp_def sum_list_triv)

lemma loop_none_length: "length (chacha20_loop state None n) = n"
proof (induction n arbitrary: state rule: less_induct)
  case (less n)
  show ?case
  proof (cases "n = 0")
    case False
    then have "length (chacha20_loop (state[12 := state ! 12 + 1]) None (n - 64)) = n - 64" by (intro less) simp
    then show ?thesis using False by (subst chacha20_loop.simps) (simp add: Let_def)
  qed (simp add: chacha20_loop.simps)
qed

lemma loop_twice:
  "length (chacha20_loop state (Some xs) (length xs)) = length xs
   \<and> chacha20_loop state (Some (chacha20_loop state (Some xs) (length xs))) (length xs) = xs"
proof (induction xs arbitrary: state rule: length_induct)
  case (1 xs)
  show ?case
  proof (cases "xs = []")
    case True
    then show ?thesis by (simp add: chacha20_loop.simps)
  next
    case False
    define stream where "stream = chacha20_block state"
    define state' where "state' = state[12 := state ! 12 + 1]"
    define rest where "rest = chacha20_loop state' (Some (drop 64 xs)) (length xs - 64)"
    have "length (drop 64 xs) < length xs" using False by simp
    from "1.IH" [rule_format, OF this, of state'] have IH: "length rest = length xs - 64" "chacha20_loop state' (Some rest) (length xs - 64) = drop 64 xs"
      by (simp_all add: rest_def)
    define x where "x = map2 (XOR) (take (min (length xs) 64) xs) stream"
    have s: "length stream = 64" by (simp add: stream_def)
    have x: "length x = min 64 (length xs)" using s by (simp add: x_def)
    have out: "chacha20_loop state (Some xs) (length xs) = x @ rest"
      using False by (subst chacha20_loop.simps) (simp add: Let_def x_def stream_def rest_def state'_def)
    have t: "take (min (length xs) 64) (x @ rest) = x" "drop 64 (x @ rest) = rest" using x IH(1) by (cases "length xs \<le> 64"; simp)+
    have "chacha20_loop state (Some (x @ rest)) (length xs) = map2 (XOR) x stream @ drop 64 xs"
      using False IH(2) by (subst chacha20_loop.simps) (simp add: Let_def stream_def [symmetric] state'_def [symmetric] t del: take_append drop_append)
    also have "map2 (XOR) x stream = take (min (length xs) 64) xs" unfolding x_def by (rule xor_twice) (simp add: s)
    also have "\<dots> = take 64 xs" by (cases "length xs \<le> 64") simp_all
    finally show ?thesis using out x IH(1) by simp
  qed
qed

text \<open>Which byte of the key stream masks which byte of the text.\<close>

lemma loop_nth:
  assumes "12 < length state" and "i < length xs"
  shows "chacha20_loop state (Some xs) (length xs) ! i
    = xs ! i XOR chacha20_block (state[12 := state ! 12 + of_nat (i div 64)]) ! (i mod 64)"
  using assms
proof (induction xs arbitrary: state i rule: length_induct)
  case (1 xs)
  define state' where "state' = state[12 := state ! 12 + 1]"
  define rest where "rest = chacha20_loop state' (Some (drop 64 xs)) (length xs - 64)"
  define x where "x = map2 (XOR) (take (min (length xs) 64) xs) (chacha20_block state)"
  have x: "length x = min (length xs) 64" by (simp add: x_def)
  have out: "chacha20_loop state (Some xs) (length xs) = x @ rest"
    using "1.prems" by (subst chacha20_loop.simps) (auto simp: Let_def x_def rest_def state'_def)
  show ?case
  proof (cases "i < 64")
    case True
    with "1.prems" x show ?thesis unfolding out by (simp add: nth_append x_def)
  next
    case False
    with "1.prems" have "length (drop 64 xs) < length xs" "i - 64 < length (drop 64 xs)" "12 < length state'"
      by (auto simp: state'_def)
    from "1.IH" [rule_format, OF this(1,3,2)]
    have "rest ! (i - 64) = drop 64 xs ! (i - 64) XOR chacha20_block (state'[12 := state' ! 12 + of_nat ((i - 64) div 64)]) ! ((i - 64) mod 64)"
      by (simp add: rest_def)
    moreover have "state'[12 := state' ! 12 + of_nat ((i - 64) div 64)] = state[12 := state ! 12 + of_nat (i div 64)]"
      using "1.prems"(1) le_div_geq [of 64 i] False by (simp add: state'_def add.assoc)
    moreover have "(i - 64) mod 64 = i mod 64" using le_mod_geq [of 64 i] False by simp
    ultimately show ?thesis using False "1.prems" x unfolding out by (simp add: nth_append)
  qed
qed

lemma crypt_nth:
  "i < length xs \<Longrightarrow> chacha20_crypt key nonce c (Some xs) (length xs) ! i
    = xs ! i XOR chacha20_block (chacha20_state key nonce (c + of_nat (i div 64))) ! (i mod 64)"
  using loop_nth [of "chacha20_state key nonce c" i xs] by (simp add: chacha20_crypt_def chacha20_state_def nth_append list_update_append)

section \<open>The tag\<close>

text \<open>The data that is authenticated: both parts filled up to whole blocks, then their lengths as 64-bit
  little-endian numbers.\<close>

definition pad16 :: "u8 list \<Rightarrow> u8 list" where
  "pad16 data = data @ replicate ((16 - length data mod 16) mod 16) 0"

definition length_le :: "nat \<Rightarrow> u8 list" where
  "length_le n = map (\<lambda>i. of_nat (n div 256 ^ i)) [0..<8]"

lemma lens_bytes_eq: "lens_bytes n = length_le n"
proof -
  have "(ucast (drop_bit (i * 8) (of_nat n :: u64)) :: u8) = of_nat (n div 256 ^ i)" if "i < 8" for i
  proof -
    have "n div 256 ^ i = drop_bit (i * 8) n" by (simp add: drop_bit_eq_div power_mult mult.commute [of i])
    then show ?thesis
      using that by (intro bit_word_eqI) (auto simp: bit_simps)
  qed
  then show ?thesis by (simp add: lens_bytes_def length_le_def)
qed

definition mac_data :: "u8 list \<Rightarrow> u8 list \<Rightarrow> u8 list" where
  "mac_data aad ct = pad16 aad @ pad16 ct @ length_le (length aad) @ length_le (length ct)"

lemma update_padded_chunks: "\<exists>cs. update_padded data = fold poly1305_update cs \<and> concat cs = pad16 data"
proof (cases "length data mod 16 = 0")
  case True
  show ?thesis
  proof (cases "data = []")
    case True
    then show ?thesis by (intro exI [of _ "[]"]) (simp add: update_padded_def pad16_def fun_eq_iff)
  next
    case False
    then show ?thesis using True by (intro exI [of _ "[data]"]) (simp add: update_padded_def pad16_def fun_eq_iff)
  qed
next
  case False
  then have "0 < length data" by (cases data) auto
  moreover have "(16 - length data mod 16) mod 16 = 16 - length data mod 16" using False by simp
  ultimately show ?thesis
    using False by (intro exI [of _ "[data, replicate (16 - length data mod 16) 0]"]) (simp add: update_padded_def pad16_def fun_eq_iff)
qed

lemma init_take: "32 \<le> length key \<Longrightarrow> poly1305_init b (take 32 key) = poly1305_init b key"
  by (simp add: poly1305_init_def Let_def le32_def)

definition one_time_key :: "u8 list \<Rightarrow> u8 list \<Rightarrow> u8 list" where
  "one_time_key key nonce = take 32 (chacha20_block (chacha20_state key nonce 0))"

lemma chacha_tag_val:
  "chacha_tag key nonce aad ct = code_tag (poly_acc (rfc_r (one_time_key key nonce)) 0 (mac_data aad ct)) (le_val (drop 16 (one_time_key key nonce)))"
proof -
  define pk where "pk = chacha20_crypt key nonce 0 None 64"
  have l: "length pk = 64" by (simp add: pk_def chacha20_crypt_def loop_none_length)
  have "pk = chacha20_block (chacha20_state key nonce 0)"
    by (simp add: pk_def chacha20_crypt_def chacha20_loop.simps)
  then have k: "take 32 pk = one_time_key key nonce" "length (one_time_key key nonce) = 32" by (simp_all add: one_time_key_def)
  obtain cs ds where c: "update_padded aad = fold poly1305_update cs" "concat cs = pad16 aad"
    "update_padded ct = fold poly1305_update ds" "concat ds = pad16 ct" using update_padded_chunks by metis
  have "chacha_tag key nonce aad ct = poly1305_finish (fold poly1305_update (cs @ ds @ [lens_bytes (length aad) @ lens_bytes (length ct)])
      (poly1305_init (replicate 16 0) (take 32 pk)))"
    unfolding chacha_tag_def Let_def pk_def [symmetric] c using l by (simp add: init_take)
  then show ?thesis
    using poly1305_tag [of "take 32 pk" "replicate 16 0" "cs @ ds @ [lens_bytes (length aad) @ lens_bytes (length ct)]"] l c(2,4)
    by (simp add: k mac_data_def lens_bytes_eq)
qed

lemma chacha_tag_length: "length (chacha_tag key nonce aad ct) = 16"
  by (simp add: chacha_tag_val code_tag_def le64_bytes_def)

section \<open>The property\<close>

text \<open>
  C40. ChaCha20-Poly1305: encryption gives a ciphertext of the length of the plaintext and a tag of 16
  bytes, and decryption under the same key, nonce and additional data gives the plaintext back for
  exactly this tag and no plaintext for any other. The tag is the authenticator of the additional data
  and the ciphertext, each filled up with zeros to whole blocks, followed by their two lengths, under the
  first 32 bytes of the key stream of block 0; the plaintext is masked with the key stream from block 1 on,
  the number of the block being a 32-bit number. The authenticator is the one of the code, which is not
  that of RFC 8439.
\<close>

theorem chacha20_poly1305_round_trip:
  "\<exists>ct tag. kos_chacha20_poly1305_encrypt (Some key) (Some nonce) aad pt True = Some (ct, tag) \<and> length ct = length pt \<and> length tag = 16
    \<and> (\<forall>t. length t = 16 \<longrightarrow> kos_chacha20_poly1305_decrypt (Some key) (Some nonce) aad ct (Some t) = (if t = tag then Some pt else None))
    \<and> tag = code_tag (poly_acc (rfc_r (one_time_key key nonce)) 0 (mac_data aad ct)) (le_val (drop 16 (one_time_key key nonce)))
    \<and> (\<forall>i < length pt. ct ! i = pt ! i XOR chacha20_block (chacha20_state key nonce (of_nat (1 + i div 64))) ! (i mod 64))"
proof -
  define ct where "ct = chacha20_crypt key nonce 1 (Some pt) (length pt)"
  have c: "length ct = length pt" "chacha20_crypt key nonce 1 (Some ct) (length ct) = pt"
    using loop_twice [of "chacha20_state key nonce 1" pt] by (simp_all add: ct_def chacha20_crypt_def)
  have "\<forall>i < length pt. ct ! i = pt ! i XOR chacha20_block (chacha20_state key nonce (of_nat (1 + i div 64))) ! (i mod 64)"
    by (simp add: ct_def crypt_nth)
  then show ?thesis
    using c tag_mismatch_iff [OF chacha_tag_length [of key nonce aad ct]] chacha_tag_length [of key nonce aad ct] chacha_tag_val [of key nonce aad ct]
    by (intro exI [of _ ct] exI [of _ "chacha_tag key nonce aad ct"])
      (auto simp: kos_chacha20_poly1305_encrypt_def kos_chacha20_poly1305_decrypt_def ct_def [symmetric] Let_def)
qed

theorem chacha20_poly1305_round_trip_witness:
  "\<exists>ct tag. kos_chacha20_poly1305_encrypt (Some (replicate 32 0)) (Some (replicate 12 0)) [1] [2, 3] True = Some (ct, tag)
     \<and> kos_chacha20_poly1305_decrypt (Some (replicate 32 0)) (Some (replicate 12 0)) [1] ct (Some tag) = Some [2, 3]"
  using chacha20_poly1305_round_trip [of "replicate 32 0" "replicate 12 0" "[1]" "[2, 3]"] by auto

end
