(* ===== verification/KOS_X25519.thy ===== *)
theory KOS_X25519
  imports KOS_Poly1305
begin

text \<open>
  Diffie-Hellman on Curve25519, section 5 of \<open>src/lib/crypto.c\<close>. A field element is an array of sixteen
  signed 64-bit limbs of 16 bits each. Signed arithmetic is written out as wrapping at 64 bits (\<open>i64\<close>); a
  right shift rounds down. The conditional swap returns both of its arguments.
\<close>

section \<open>Field arithmetic of the code\<close>

type_synonym gf = "int list"

definition i64 :: "int \<Rightarrow> int" where
  "i64 x = (x + 2 ^ 63) mod 2 ^ 64 - 2 ^ 63"

definition car_step :: "nat \<Rightarrow> gf \<Rightarrow> gf" where
  "car_step i o0 =
     (let o1 = o0[i := i64 (o0 ! i + 2 ^ 16)];
          c = drop_bit 16 (o1 ! i);
          j = (if i < 15 then i + 1 else 0);
          o2 = o1[j := i64 (o1 ! j + i64 (c - 1 + i64 (37 * (c - 1) * (if i = 15 then 1 else 0))))]
      in o2[i := i64 (o2 ! i - i64 (push_bit 16 c))])"

definition car25519 :: "gf \<Rightarrow> gf" where
  "car25519 o0 = fold car_step [0..<16] o0"

definition sel25519 :: "gf \<Rightarrow> gf \<Rightarrow> int \<Rightarrow> gf \<times> gf" where
  "sel25519 p q b =
     (let c = NOT (b - 1);
          t = map2 (\<lambda>x y. c AND (x XOR y)) p q
      in (map2 (XOR) p t, map2 (XOR) q t))"

definition gf_A :: "gf \<Rightarrow> gf \<Rightarrow> gf" where
  "gf_A a b = map2 (\<lambda>x y. i64 (x + y)) a b"

definition gf_Z :: "gf \<Rightarrow> gf \<Rightarrow> gf" where
  "gf_Z a b = map2 (\<lambda>x y. i64 (x - y)) a b"

definition mul_pairs :: "(nat \<times> nat) list" where
  "mul_pairs = List.product [0..<16] [0..<16]"

definition mul_acc :: "gf \<Rightarrow> gf \<Rightarrow> (nat \<times> nat) list \<Rightarrow> int list \<Rightarrow> int list" where
  "mul_acc a b ps t = fold (\<lambda>(i, j) t. t[i + j := i64 (t ! (i + j) + i64 (a ! i * b ! j))]) ps t"

definition mul_fold :: "int list \<Rightarrow> int list" where
  "mul_fold t = fold (\<lambda>i t. t[i := i64 (t ! i + i64 (38 * t ! (i + 16)))]) [0..<15] t"

definition gf_M :: "gf \<Rightarrow> gf \<Rightarrow> gf" where
  "gf_M a b = car25519 (car25519 (take 16 (mul_fold (mul_acc a b mul_pairs (replicate 31 0)))))"

definition gf_S :: "gf \<Rightarrow> gf" where
  "gf_S a = gf_M a a"

fun inv_loop :: "nat \<Rightarrow> gf \<Rightarrow> gf \<Rightarrow> gf" where
  "inv_loop 0 c i = c"
| "inv_loop (Suc a) c i =
     (let c = gf_S c
      in inv_loop a (if a \<noteq> 2 \<and> a \<noteq> 4 then gf_M c i else c) i)"

definition inv25519 :: "gf \<Rightarrow> gf" where
  "inv25519 i = inv_loop 254 i i"

section \<open>Packing\<close>

definition sub_limb :: "gf \<Rightarrow> nat \<Rightarrow> gf \<Rightarrow> gf" where
  "sub_limb t i m =
     (let m1 = m @ [i64 (t ! i - (if i = 15 then 0x7fff else 0xffff) - (drop_bit 16 (m ! (i - 1)) AND 1))]
      in m1[i - 1 := m1 ! (i - 1) AND 0xffff])"

definition sub_p :: "gf \<Rightarrow> gf" where
  "sub_p t = fold (sub_limb t) [1..<16] [i64 (t ! 0 - 0xffed)]"

definition pack_round :: "gf \<Rightarrow> gf" where
  "pack_round t =
     (let m = sub_p t;
          c = drop_bit 16 (m ! 15) AND 1
      in fst (sel25519 t m (1 - c)))"

definition pack25519 :: "gf \<Rightarrow> u8 list" where
  "pack25519 n =
     (let t = car25519 (car25519 (car25519 n));
          t = pack_round (pack_round t)
      in concat (map (\<lambda>x. [of_int x, of_int (drop_bit 8 x)]) t))"

definition unpack25519 :: "u8 list \<Rightarrow> gf" where
  "unpack25519 n =
     (let o1 = map (\<lambda>i. uint (n ! (2 * i)) OR push_bit 8 (uint (n ! (2 * i + 1)))) [0..<16]
      in o1[15 := o1 ! 15 AND 0x7fff])"

section \<open>The ladder\<close>

definition gf_a24 :: gf where
  "gf_a24 = [0xDB41, 1] @ replicate 14 0"

type_synonym ladder = "gf \<times> gf \<times> gf \<times> gf"

definition ladder_swap :: "int \<Rightarrow> ladder \<Rightarrow> ladder" where
  "ladder_swap b st = (case st of (x2, z2, x3, z3) \<Rightarrow>
     let (x2, x3) = sel25519 x2 x3 b; (z2, z3) = sel25519 z2 z3 b in (x2, z2, x3, z3))"

definition ladder_step :: "gf \<Rightarrow> ladder \<Rightarrow> ladder" where
  "ladder_step x1 st = (case st of (x2, z2, x3, z3) \<Rightarrow>
     let a = gf_A x2 z2; aa = gf_S a; b = gf_Z x2 z2; bb = gf_S b; e = gf_Z aa bb;
         c = gf_A x3 z3; d = gf_Z x3 z3; da = gf_M d a; cb = gf_M c b;
         x3 = gf_A da cb; x3 = gf_S x3; z3 = gf_Z da cb; z3 = gf_S z3; z3 = gf_M z3 x1; x2 = gf_M aa bb;
         z2 = gf_M e gf_a24; z2 = gf_A z2 aa; z2 = gf_M e z2
     in (x2, z2, x3, z3))"

definition scalar_bit :: "u8 list \<Rightarrow> nat \<Rightarrow> int" where
  "scalar_bit z pos = drop_bit (pos mod 8) (uint (z ! (pos div 8))) AND 1"

fun ladder_loop :: "u8 list \<Rightarrow> gf \<Rightarrow> nat \<Rightarrow> int \<Rightarrow> ladder \<Rightarrow> int \<times> ladder" where
  "ladder_loop z x1 0 swap st = (swap, st)"
| "ladder_loop z x1 (Suc pos) swap st =
     (let b_bit = scalar_bit z pos
      in ladder_loop z x1 pos b_bit (ladder_step x1 (ladder_swap (swap XOR b_bit) st)))"

definition clamp_scalar :: "u8 list \<Rightarrow> u8 list" where
  "clamp_scalar scalar =
     (let z = scalar[0 := scalar ! 0 AND 248]; z = z[31 := z ! 31 AND 127] in z[31 := z ! 31 OR 64])"

definition kos_x25519 :: "bool \<Rightarrow> u8 list option \<Rightarrow> u8 list option \<Rightarrow> u8 list option" where
  "kos_x25519 has_out scalar base =
     (case (scalar, base) of
        (Some s, Some b) \<Rightarrow>
          if has_out
          then let z = clamp_scalar s;
                   x1 = unpack25519 b;
                   zero = replicate 16 0;
                   one = zero[0 := 1];
                   (swap, st) = ladder_loop z x1 255 0 (one, zero, x1, one);
                   (x2, z2, x3, z3) = ladder_swap swap st
               in Some (pack25519 (gf_M x2 (inv25519 z2)))
          else None
      | _ \<Rightarrow> None)"

definition kos_x25519_base :: "bool \<Rightarrow> u8 list option \<Rightarrow> u8 list option" where
  "kos_x25519_base has_out scalar = kos_x25519 has_out scalar (Some (9 # replicate 31 0))"

end
