(* ===== verification/Spec2Isabelle.thy ===== *)
theory Spec2Isabelle
  imports KOS_Pmm KOS_Memory KOS_List KOS_Object KOS_Handle KOS_Timer KOS_Task KOS_Mutex KOS_Spinlock
    KOS_Wait KOS_Uaccess KOS_Asn1 KOS_Sha2 KOS_Cache_Safety KOS_Chacha KOS_X25519
begin

text \<open>
  A verification development for the KOS kernel, an x86-64 kernel in C (\<open>src/\<close>).

  \<^bold>\<open>The program and its parts.\<close> The kernel boots on a machine described by a memory map. The physical
  memory manager (\<open>src/mm/pmm.c\<close>) hands out frames; the virtual memory manager (\<open>src/mm/vmm.c\<close>) builds
  page tables from them; the kernel heap (\<open>src/mm/heap.c\<close>) maps pages and cuts them into blocks. Kernel
  objects with reference counts (\<open>src/kernel/object.c\<close>) are named by the handles of a process
  (\<open>src/kernel/handle.c\<close>). Tasks are scheduled round-robin (\<open>src/kernel/task.c\<close>), driven by the timer
  (\<open>src/drivers/timer.c\<close>), and synchronise through spinlocks, mutexes, wait queues and events
  (\<open>src/kernel/spinlock.c\<close>, \<open>mutex.c\<close>, \<open>wait.c\<close>). User memory is reached through \<open>src/kernel/uaccess.c\<close>.
  Storage is a table of block devices (\<open>src/drivers/block.c\<close>) with RAM disks on the heap
  (\<open>src/drivers/ramdisk.c\<close>) and a write-back cache in front (\<open>src/fs/block_cache.c\<close>). Below everything are
  intrusive lists (\<open>src/include/kos/list.h\<close>) and the memory routines (\<open>src/lib/memory.c\<close>); the network
  security code rests on a DER parser (\<open>src/lib/asn1.c\<close>) and on the cryptography of \<open>src/lib/crypto.c\<close>: SHA-2,
  HMAC and HKDF, AES-GCM, ChaCha20-Poly1305 and X25519.

  \<^bold>\<open>Conventions.\<close> A C function is a function of the same name on an explicit state, returned updated;
  its guards and early returns are the branches of the model. A \<open>struct\<close> is a record, an \<open>enum\<close> a datatype.
  A pointer is a number, 0 the null pointer; an object behind a pointer is a map from addresses. A
  \<open>uint64_t\<close> used as a number is a \<^typ>\<open>nat\<close> with the wrap-around written out (\<open>add64\<close>, \<open>sub64\<close>, \<open>mul64\<close> of
  \<open>KOS_Prelude\<close>); a value used bit by bit is a word. The section between taking and releasing a spinlock
  with interrupts off is one step. A call that blocks is split at the point where the caller leaves the
  processor. A loop or recursion that need not end is a partial function with \<^const>\<open>None\<close> for "does not
  return", and that it returns is then proved. Logging is left out.

  \<^bold>\<open>The theories.\<close>
  \<^item> \<open>KOS_Prelude\<close>: machine types, wrap-around arithmetic, bit operations of the compiler, shared facts.
  \<^item> \<open>KOS_Frame_Interface\<close>, \<open>KOS_Pmm\<close>: the contract of a frame allocator as a locale, and the bitmap
    allocator that keeps it. Initialisation tracks exactly the frames inside usable memory; allocation
    and release refine taking from and putting into the set of free frames, alone and in runs.
  \<^item> \<open>KOS_Memory\<close>, \<open>KOS_List\<close>: \<open>memcpy\<close>, \<open>memmove\<close>, \<open>memset\<close>, \<open>memcmp\<close> and strings; pointer-linked lists
    refine sequences, and give a queue contract that mutexes and wait queues use.
  \<^item> \<open>KOS_Object\<close>, \<open>KOS_Handle\<close>: reference counts and handle tables; counts equal references over every
    sequence of calls, the creation and destruction of whole tables included, and the destructor of an
    object runs exactly when its last reference goes; duplication never adds rights; a closed handle is
    refused by every call.
  \<^item> \<open>KOS_Timer\<close>, \<open>KOS_Task\<close>: ticks, sleeping and the scheduler; one running task, chosen round robin, no
    starvation, a sleep queue sorted by deadline.
  \<^item> \<open>KOS_Spinlock\<close>, \<open>KOS_Mutex\<close>, \<open>KOS_Wait\<close>: mutual exclusion of the test-and-set loop; the mutex as a
    first-come first-served lock when calls do not interfere, and as interleaved threads, where a race
    lets two of them in; wait queues and events, where an auto-reset event loses its signal.
  \<^item> \<open>KOS_Uaccess\<close>: copies between kernel and user memory stay in the user half.
  \<^item> \<open>KOS_Vmm\<close>, \<open>KOS_Vmm_Tables\<close>, \<open>KOS_Vmm_Correct\<close>, \<open>KOS_Vmm_Unmap\<close>: page tables as trees of frames; mapping
    and unmapping change one translation (of addresses; the rights of other pages under a shared table
    are not part of it) and keep tables and frame allocator consistent.
  \<^item> \<open>KOS_Heap\<close>, \<open>KOS_Heap_Pages\<close>, \<open>KOS_Heap_Blocks\<close>, \<open>KOS_Heap_Correct\<close>, \<open>KOS_Heap_Calls\<close>,
    \<open>KOS_Heap_Safety\<close>, \<open>KOS_Alloc_Interface\<close>: the block list tiles the mapped pages; allocations are apart,
    on memory of their own, and the calls refine the contract of a memory allocator. Block headers are a
    store of their own, beside the bytes of the allocations, so code that writes outside its allocation
    is not covered; \<open>krealloc\<close>, which gives up the heap lock between its steps, is one step, as for a
    caller that alone owns the pointer.
  \<^item> \<open>KOS_Block\<close>, \<open>KOS_Block_Correct\<close>, \<open>KOS_Block_Safety\<close>: the table of devices stays well formed, reading and
    writing act on exactly the blocks named, every call returns, RAM disks give their memory back. The
    runs considered (\<open>storage_run\<close>) register partitions only on registered devices that are no partitions
    and at positions that do not wrap around, and do not write across \<open>2 ^ 64\<close>;
    \<open>partition_position_wraps\<close>, \<open>nested_partition_dangles\<close> and \<open>wrapped_accepted\<close> show what the code does
    otherwise.
  \<^item> \<open>KOS_Sector_Store\<close>, \<open>KOS_Cache\<close>, \<open>KOS_Cache_Correct\<close>, \<open>KOS_Cache_Safety\<close>: the contract of a store of
    sectors, kept by the devices and by the cache; the cache is transparent and loses nothing, for
    accesses within RAM disks with 512-byte blocks (and partitions of them) that do not overlap.
  \<^item> \<open>KOS_Asn1\<close>: the parser inverts DER encoding, and accepts only DER outside a 32-bit wrap-around; the
    calendar conversion counts the days of the Gregorian calendar.
  \<^item> \<open>KOS_Sha2\<close>: hashing in pieces equals hashing at once; HKDF computes the blocks of RFC 5869.
  \<^item> \<open>KOS_Aes\<close>: AES and the Galois/counter mode; decryption inverts encryption for exactly the right tag,
    and no counter block is used twice.
  \<^item> \<open>KOS_Poly1305\<close>, \<open>KOS_Chacha\<close>: the limb arithmetic of Poly1305 computes the accumulator of RFC 8439,
    but the tag made from it misses twelve bits; ChaCha20-Poly1305 masks with the key stream from block 1
    on, and decryption inverts encryption for exactly the right tag.
  \<^item> \<open>KOS_X25519\<close>: the field arithmetic on sixteen limbs and the Montgomery ladder of the code, as
    executable definitions.

  \<^bold>\<open>Parameters.\<close> The driver of a real disk is a record of functions on a state of its own (\<open>'hw\<close>). The
  memory map of the boot loader is an argument of \<open>pmm_initialize\<close>.

  \<^bold>\<open>Bounds.\<close> The tables have the sizes of the sources: 64 tasks, 64 block devices, 512 cache entries. No
  fuel is used.

  \<^bold>\<open>Not modelled.\<close> Assembly, interrupt and device registers (\<open>src/arch\<close>, \<open>src/boot\<close>, the hardware drivers
  of \<open>src/drivers\<close>), output (console, log, panic), the shell and the self-tests have no state that a
  theorem could be about beyond the components above. The file systems, the network protocols, the
  package format and the process loader are not covered.
\<close>

end
